(* ===== verification/Prelude.thy ===== *)
theory Prelude
  imports Main "HOL-Library.Word" "HOL-Library.Monad_Syntax"
begin

text \<open>
  Shared vocabulary of the development: the machine types of the C and C++ sources, checked
  access to byte arrays, the outcome type of the scanning functions and the theorem collections
  the component theories use.

  A C array is a list of bytes. A read at an index that is not in the list is the outcome
  \<open>Fault\<close>: the access the C standard leaves undefined. So a theorem that excludes \<open>Fault\<close> is a
  memory-safety theorem about the code.
\<close>

unbundle bit_operations_syntax

type_synonym byte = "8 word"
type_synonym bytes = "byte list"
type_synonym u16 = "16 word"
type_synonym u32 = "32 word"
type_synonym u64 = "64 word"

named_theorems scan_simps "evaluation of the scanning outcomes"
named_theorems mem_simps "checked memory accesses"
named_theorems run_simps "evaluation of the faulting state transformers"

section \<open>Outcomes of scanning code\<close>

text \<open>
  The outcome of a C function that scans a buffer with a moving pointer: it read outside the
  buffer, it returned NULL after storing an error code in \<open>*ret\<close>, or it returned the advanced
  pointer (an index) together with what it stored through its other out-parameters.
\<close>

datatype 'a scan =
    Fault
  | Fail int
  | Ok 'a nat

fun scan_bind :: "'a scan \<Rightarrow> ('a \<Rightarrow> nat \<Rightarrow> 'b scan) \<Rightarrow> 'b scan" where
  "scan_bind Fault k = Fault"
| "scan_bind (Fail c) k = Fail c"
| "scan_bind (Ok v p) k = k v p"

lemma scan_bind_Ok_iff [scan_simps]:
  "scan_bind r k = Ok w q \<longleftrightarrow> (\<exists>v p. r = Ok v p \<and> k v p = Ok w q)"
  by (cases r) auto

lemma scan_bind_assoc:
  "scan_bind (scan_bind r k) l = scan_bind r (\<lambda>v p. scan_bind (k v p) l)"
  by (cases r) auto

lemma scan_bind_cong [fundef_cong]:
  "r = r' \<Longrightarrow> (\<And>v p. r' = Ok v p \<Longrightarrow> k v p = k' v p) \<Longrightarrow> scan_bind r k = scan_bind r' k'"
  by (cases r') auto

text \<open>
  What the C function hands to its caller: the error code, or the index converted to \<open>int\<close> and what
  it stored; none after an access outside the buffer. The conversion keeps the low 32 bits, so an
  index from \<open>2 ^ 31\<close> on becomes negative.
\<close>

definition int_cast :: "nat \<Rightarrow> int" where
  "int_cast n = sint (word_of_nat n :: u32)"

fun returned :: "'a scan \<Rightarrow> (int \<times> 'a option) option" where
  "returned Fault = None"
| "returned (Fail c) = Some (c, None)"
| "returned (Ok v p) = Some (int_cast p, Some v)"

lemma int_cast_small: "n < 2147483648 \<Longrightarrow> int_cast n = int n"
  by (simp add: int_cast_def sint_uint signed_take_bit_int_eq_self_iff take_bit_nat_eq_self unsigned_of_nat signed_take_bit_int_eq_self)

lemma int_cast_large:
  assumes "2147483648 \<le> n" and "n < 4294967296"
  shows "int_cast n = int n - 4294967296"
proof -
  have "(int n + 2147483648) mod 4294967296 = int n - 2147483648"
    using assms mod_add_self2 [of "int n - 2147483648" 4294967296] mod_pos_pos_trivial [of "int n - 2147483648" 4294967296]
    by (simp add: algebra_simps)
  then show ?thesis
    using assms by (simp add: int_cast_def sint_uint uint_nat unat_of_nat signed_take_bit_eq_take_bit_shift take_bit_eq_mod)
qed

section \<open>Checked access to byte arrays\<close>

definition deref :: "bytes \<Rightarrow> nat \<Rightarrow> (byte \<Rightarrow> 'a scan) \<Rightarrow> 'a scan" where
  "deref m p k = (if p < length m then k (m ! p) else Fault)"

lemma deref_in [mem_simps]: "p < length m \<Longrightarrow> deref m p k = k (m ! p)"
  by (simp add: deref_def)

lemma deref_out [mem_simps]: "\<not> p < length m \<Longrightarrow> deref m p k = Fault"
  by (simp add: deref_def)

lemma deref_cong [fundef_cong]:
  "m = m' \<Longrightarrow> p = p' \<Longrightarrow> (\<And>c. p' < length m' \<Longrightarrow> k c = k' c) \<Longrightarrow> deref m p k = deref m' p' k'"
  by (simp add: deref_def)

text \<open>The bytes of a slice given by a start and a length, as the parsers return them.\<close>

definition chunk :: "bytes \<Rightarrow> nat \<Rightarrow> nat \<Rightarrow> bytes" where
  "chunk m s n = take n (drop s m)"

lemma length_chunk [simp]: "s + n \<le> length m \<Longrightarrow> length (chunk m s n) = n"
  by (simp add: chunk_def)

lemma chunk_append_right: "length a = s \<Longrightarrow> chunk (a @ b) s n = take n b"
  by (simp add: chunk_def)

lemma chunk_middle: "chunk (a @ b @ c) (length a) (length b) = b"
  by (simp add: chunk_def)

lemma nth_middle_append: "i < length b \<Longrightarrow> (a @ b @ c) ! (length a + i) = b ! i"
  by (simp add: nth_append)

section \<open>Effects that may fault\<close>

text \<open>
  Stateful code that may run into undefined behaviour (a write outside an array, a signed
  overflow, a null dereference) is a function into \<open>'a option\<close>: \<open>None\<close> is the undefined
  behaviour, \<open>Some\<close> the result with the new state. \<open>i32\<close> is the check that a signed 32-bit
  operation did not overflow.
\<close>

definition i32 :: "int \<Rightarrow> int option" where
  "i32 x = (if - 2147483648 \<le> x \<and> x \<le> 2147483647 then Some x else None)"

lemma i32_Some [run_simps]: "- 2147483648 \<le> x \<Longrightarrow> x \<le> 2147483647 \<Longrightarrow> i32 x = Some x"
  by (simp add: i32_def)

lemma i32_eq_Some_iff [run_simps]:
  "i32 x = Some y \<longleftrightarrow> y = x \<and> - 2147483648 \<le> x \<and> x \<le> 2147483647"
  by (auto simp: i32_def)

declare bind_eq_Some_conv [run_simps]

lemma case_prod_Some_iff [run_simps]:
  "(case p of (a, b) \<Rightarrow> f a b) = Some y \<longleftrightarrow> (\<exists>a b. p = (a, b) \<and> f a b = Some y)"
  by (cases p) auto

text \<open>\<open>memcpy\<close> of a whole byte list to an offset of an array, with the bounds checked.\<close>

definition memcpy_at :: "nat \<Rightarrow> bytes \<Rightarrow> bytes \<Rightarrow> bytes option" where
  "memcpy_at off src m =
     (if off + length src \<le> length m
      then Some (take off m @ src @ drop (off + length src) m) else None)"

lemma memcpy_at_length: "memcpy_at off src m = Some m' \<Longrightarrow> length m' = length m"
  by (auto simp: memcpy_at_def split: if_splits)

lemma memcpy_at_chunk: "memcpy_at off src m = Some m' \<Longrightarrow> chunk m' off (length src) = src"
  by (auto simp: memcpy_at_def chunk_def split: if_splits)

lemma memcpy_at_other:
  assumes "memcpy_at off src m = Some m'" and "s + n \<le> off \<or> off + length src \<le> s"
  shows "chunk m' s n = chunk m s n"
proof -
  from assms(1) have len: "off + length src \<le> length m"
    and m': "m' = take off m @ src @ drop (off + length src) m"
    by (auto simp: memcpy_at_def split: if_splits)
  from assms(2) show ?thesis
  proof
    assume "s + n \<le> off"
    then show ?thesis
      using len by (simp add: m' chunk_def take_drop min_def)
  next
    assume "off + length src \<le> s"
    then show ?thesis
      using len by (simp add: m' chunk_def)
  qed
qed

section \<open>ASCII text as bytes\<close>

definition ascii :: "string \<Rightarrow> bytes" where
  "ascii s = map (\<lambda>c. word_of_nat (of_char c)) s"

lemma ascii_Nil [simp]: "ascii [] = []"
  by (simp add: ascii_def)

lemma length_ascii [simp]: "length (ascii s) = length s"
  by (simp add: ascii_def)

lemma ascii_append: "ascii (s @ t) = ascii s @ ascii t"
  by (simp add: ascii_def)

section \<open>Two arrays that agree on a prefix\<close>

definition agree :: "nat \<Rightarrow> bytes \<Rightarrow> bytes \<Rightarrow> bool" where
  "agree e m m' \<longleftrightarrow> e \<le> length m \<and> e \<le> length m' \<and> (\<forall>i<e. m ! i = m' ! i)"

lemma agree_refl: "e \<le> length m \<Longrightarrow> agree e m m"
  by (simp add: agree_def)

lemma agree_append: "agree (length m) m (m @ x)"
  by (simp add: agree_def nth_append)

lemma agree_nth: "agree e m m' \<Longrightarrow> i < e \<Longrightarrow> m ! i = m' ! i"
  by (simp add: agree_def)

lemma agree_le: "agree e m m' \<Longrightarrow> e \<le> length m" "agree e m m' \<Longrightarrow> e \<le> length m'"
  by (simp_all add: agree_def)

lemma agree_deref: "agree e m m' \<Longrightarrow> i < e \<Longrightarrow> deref m i k = k (m ! i) \<and> deref m' i k = k (m ! i)"
  by (simp add: agree_def deref_def)

end
