(* ===== verification/Http_Request.thy ===== *)
theory Http_Request
  imports Prelude
begin

text \<open>
  \<^verbatim>\<open>picohttpparser.c\<close>, the request, response and header parsers. A pointer into the buffer
  \<open>m\<close> is an index, \<open>buf_end\<close> is the index \<open>e\<close>; a slice (start, length) stands for the pointer and
  length pairs of the API. The code of the build without SSE 4.2 is modelled, its eight-fold
  unrolled search for the end of a line included. An out-parameter is part of the value of \<open>Ok\<close>;
  what a failed call leaves in the out-parameters is not modelled, the callers in the repository
  do not read it.
\<close>

section \<open>Macros and character classes\<close>

definition IS_PRINTABLE_ASCII :: "byte \<Rightarrow> bool" where
  "IS_PRINTABLE_ASCII c \<longleftrightarrow> c - 32 < 95"

definition check_eof :: "nat \<Rightarrow> nat \<Rightarrow> 'a scan \<Rightarrow> 'a scan" where
  "check_eof e p k = (if p = e then Fail (-2) else k)"

definition expect_no_check :: "bytes \<Rightarrow> byte \<Rightarrow> nat \<Rightarrow> (nat \<Rightarrow> 'a scan) \<Rightarrow> 'a scan" where
  "expect_no_check m ch p k = deref m p (\<lambda>c. if c \<noteq> ch then Fail (-1) else k (Suc p))"

definition expect :: "bytes \<Rightarrow> nat \<Rightarrow> byte \<Rightarrow> nat \<Rightarrow> (nat \<Rightarrow> 'a scan) \<Rightarrow> 'a scan" where
  "expect m e ch p k = check_eof e p (expect_no_check m ch p k)"

lemma check_eof_cong [fundef_cong]:
  "e = e' \<Longrightarrow> p = p' \<Longrightarrow> (p' \<noteq> e' \<Longrightarrow> k = k') \<Longrightarrow> check_eof e p k = check_eof e' p' k'"
  by (simp add: check_eof_def)

lemma expect_cong [fundef_cong]:
  "m = m' \<Longrightarrow> e = e' \<Longrightarrow> ch = ch' \<Longrightarrow> p = p' \<Longrightarrow> (p' < length m' \<Longrightarrow> k (Suc p') = k' (Suc p'))
   \<Longrightarrow> expect m e ch p k = expect m' e' ch' p' k'"
  by (simp add: expect_def expect_no_check_def check_eof_def deref_def)

definition token_char_map :: "nat list" where
  "token_char_map =
     [0,0,0,0,0,0,0,0,0,0,0,0,0,0,0,0,0,0,0,0,0,0,0,0,0,0,0,0,0,0,0,0,
      0,1,0,1,1,1,1,1,0,0,1,1,0,1,1,0,1,1,1,1,1,1,1,1,1,1,0,0,0,0,0,0,
      0,1,1,1,1,1,1,1,1,1,1,1,1,1,1,1,1,1,1,1,1,1,1,1,1,1,1,0,0,0,1,1,
      1,1,1,1,1,1,1,1,1,1,1,1,1,1,1,1,1,1,1,1,1,1,1,1,1,1,1,0,1,0,1,0,
      0,0,0,0,0,0,0,0,0,0,0,0,0,0,0,0,0,0,0,0,0,0,0,0,0,0,0,0,0,0,0,0,
      0,0,0,0,0,0,0,0,0,0,0,0,0,0,0,0,0,0,0,0,0,0,0,0,0,0,0,0,0,0,0,0,
      0,0,0,0,0,0,0,0,0,0,0,0,0,0,0,0,0,0,0,0,0,0,0,0,0,0,0,0,0,0,0,0,
      0,0,0,0,0,0,0,0,0,0,0,0,0,0,0,0,0,0,0,0,0,0,0,0,0,0,0,0,0,0,0,0]"

definition token_char :: "byte \<Rightarrow> bool" where
  "token_char c \<longleftrightarrow> token_char_map ! unat c \<noteq> 0"

section \<open>Tokens\<close>

text \<open>Without SSE 4.2 \<open>findchar_fast\<close> finds nothing and leaves the pointer where it is.\<close>

definition findchar_fast :: "nat \<Rightarrow> nat \<times> bool" where
  "findchar_fast p = (p, False)"

function token_loop :: "bytes \<Rightarrow> nat \<Rightarrow> byte \<Rightarrow> nat \<Rightarrow> nat \<Rightarrow> (nat \<times> nat) scan" where
  "token_loop m e next_char start p =
     deref m p (\<lambda>c.
       if c = next_char then Ok (start, p - start) p
       else if \<not> token_char c then Fail (-1)
       else check_eof e (Suc p) (token_loop m e next_char start (Suc p)))"
  by pat_completeness auto
termination
  by (relation "measure (\<lambda>(m, e, nc, s, p). length m - p)") auto

definition parse_token :: "bytes \<Rightarrow> nat \<Rightarrow> byte \<Rightarrow> nat \<Rightarrow> (nat \<times> nat) scan" where
  "parse_token m e next_char p =
     (let (q, found) = findchar_fast p in
      if \<not> found then check_eof e q (token_loop m e next_char p q)
      else token_loop m e next_char p q)"

text \<open>The macro \<open>ADVANCE_TOKEN\<close>, which reads the request target.\<close>

function advance_loop :: "bytes \<Rightarrow> nat \<Rightarrow> nat \<Rightarrow> nat \<Rightarrow> (nat \<times> nat) scan" where
  "advance_loop m e start p =
     deref m p (\<lambda>c.
       if c = 32 then Ok (start, p - start) p
       else if \<not> IS_PRINTABLE_ASCII c \<and> (c < 32 \<or> c = 127) then Fail (-1)
       else check_eof e (Suc p) (advance_loop m e start (Suc p)))"
  by pat_completeness auto
termination
  by (relation "measure (\<lambda>(m, e, s, p). length m - p)") auto

definition advance_token :: "bytes \<Rightarrow> nat \<Rightarrow> nat \<Rightarrow> (nat \<times> nat) scan" where
  "advance_token m e p =
     (let (q, found) = findchar_fast p in
      if \<not> found then check_eof e q (advance_loop m e p q)
      else advance_loop m e p q)"

section \<open>The rest of a line\<close>

definition line_ctl :: "byte \<Rightarrow> bool" where
  "line_ctl c \<longleftrightarrow> (c < 32 \<and> c \<noteq> 9) \<or> c = 127"

text \<open>
  \<open>doit m n p\<close> is \<open>n\<close> copies of the macro \<open>DOIT\<close>: the value tells whether one of them jumped to
  \<open>NonPrintable\<close>.
\<close>

fun doit :: "bytes \<Rightarrow> nat \<Rightarrow> nat \<Rightarrow> bool scan" where
  "doit m 0 p = Ok False p"
| "doit m (Suc n) p =
     deref m p (\<lambda>c. if \<not> IS_PRINTABLE_ASCII c then Ok True p else doit m n (Suc p))"

lemma doit_progress:
  "doit m n p = Ok b q \<Longrightarrow> p \<le> q \<and> (\<not> b \<longrightarrow> q = p + n)"
  by (induction n arbitrary: p) (auto simp: deref_def split: if_splits, fastforce+)

function eol_fast :: "bytes \<Rightarrow> nat \<Rightarrow> nat \<Rightarrow> bool scan" where
  "eol_fast m e p =
     (if p + 8 \<le> e
      then scan_bind (doit m 8 p) (\<lambda>stop q.
        if stop then deref m q (\<lambda>c. if line_ctl c then Ok True q else eol_fast m e (Suc q))
        else eol_fast m e q)
      else Ok False p)"
  by pat_completeness auto
termination
  by (relation "measure (\<lambda>(m, e, p). e - p)") (auto dest: doit_progress)

function eol_slow :: "bytes \<Rightarrow> nat \<Rightarrow> nat \<Rightarrow> unit scan" where
  "eol_slow m e p =
     check_eof e p (deref m p (\<lambda>c.
       if \<not> IS_PRINTABLE_ASCII c \<and> line_ctl c then Ok () p else eol_slow m e (Suc p)))"
  by pat_completeness auto
termination
  by (relation "measure (\<lambda>(m, e, p). length m - p)") auto

definition line_end :: "bytes \<Rightarrow> nat \<Rightarrow> nat \<Rightarrow> nat \<Rightarrow> (nat \<times> nat) scan" where
  "line_end m e start q =
     deref m q (\<lambda>c.
       if c = 13 then expect m e 10 (Suc q) (\<lambda>q'. Ok (start, q' - 2 - start) q')
       else if c = 10 then Ok (start, q - start) (Suc q)
       else Fail (-1))"

definition get_token_to_eol :: "bytes \<Rightarrow> nat \<Rightarrow> nat \<Rightarrow> (nat \<times> nat) scan" where
  "get_token_to_eol m e p =
     scan_bind (eol_fast m e p) (\<lambda>found q.
       if found then line_end m e p q
       else scan_bind (eol_slow m e q) (\<lambda>_ q'. line_end m e p q'))"

section \<open>Completeness check\<close>

function is_complete_loop :: "bytes \<Rightarrow> nat \<Rightarrow> nat \<Rightarrow> nat \<Rightarrow> unit scan" where
  "is_complete_loop m e ret_cnt p =
     check_eof e p (deref m p (\<lambda>c.
       if c = 13 then
         check_eof e (Suc p) (expect m e 10 (Suc p) (\<lambda>q.
           if Suc ret_cnt = 2 then Ok () q else is_complete_loop m e (Suc ret_cnt) (Suc (Suc p))))
       else if c = 10 then
         (if Suc ret_cnt = 2 then Ok () (Suc p) else is_complete_loop m e (Suc ret_cnt) (Suc p))
       else is_complete_loop m e 0 (Suc p)))"
  by pat_completeness auto
termination
  by (relation "measure (\<lambda>(m, e, c, p). length m - p)") auto

definition is_complete :: "bytes \<Rightarrow> nat \<Rightarrow> nat \<Rightarrow> unit scan" where
  "is_complete m e last_len = is_complete_loop m e 0 (if last_len < 3 then 0 else last_len - 3)"

section \<open>Numbers and the protocol version\<close>

definition parse_int :: "bytes \<Rightarrow> int \<Rightarrow> nat \<Rightarrow> int scan" where
  "parse_int m mul p =
     deref m p (\<lambda>c. if c < 48 \<or> 57 < c then Fail (-1) else Ok (mul * (uint c - 48)) (Suc p))"

definition parse_int_3 :: "bytes \<Rightarrow> nat \<Rightarrow> int scan" where
  "parse_int_3 m p =
     scan_bind (parse_int m 100 p) (\<lambda>a q.
     scan_bind (parse_int m 10 q) (\<lambda>b q.
     scan_bind (parse_int m 1 q) (\<lambda>c q. Ok (a + b + c) q)))"

definition parse_http_version :: "bytes \<Rightarrow> nat \<Rightarrow> nat \<Rightarrow> int scan" where
  "parse_http_version m e p =
     (if int e - int p < 9 then Fail (-2)
      else expect_no_check m 72 p (\<lambda>p. expect_no_check m 84 p (\<lambda>p. expect_no_check m 84 p (\<lambda>p.
           expect_no_check m 80 p (\<lambda>p. expect_no_check m 47 p (\<lambda>p. expect_no_check m 49 p (\<lambda>p.
           expect_no_check m 46 p (\<lambda>p. parse_int m 1 p))))))))"

section \<open>Headers\<close>

record phr_header =
  hname :: "nat option"
  hname_len :: nat
  hvalue :: nat
  hvalue_len :: nat

definition blank :: "byte \<Rightarrow> bool" where
  "blank c \<longleftrightarrow> c = 32 \<or> c = 9"

function skip_blanks :: "bytes \<Rightarrow> nat \<Rightarrow> nat \<Rightarrow> unit scan" where
  "skip_blanks m e p =
     check_eof e p (deref m p (\<lambda>c. if \<not> blank c then Ok () p else skip_blanks m e (Suc p)))"
  by pat_completeness auto
termination
  by (relation "measure (\<lambda>(m, e, p). length m - p)") auto

text \<open>Trailing blanks of a value are cut from its end \<open>value_end\<close> down to its start.\<close>

function trim_value :: "bytes \<Rightarrow> nat \<Rightarrow> nat \<Rightarrow> unit scan" where
  "trim_value m v ve =
     (if ve \<le> v then Ok () ve
      else deref m (ve - 1) (\<lambda>c. if \<not> blank c then Ok () ve else trim_value m v (ve - 1)))"
  by pat_completeness auto
termination
  by (relation "measure (\<lambda>(m, v, ve). ve)") auto

declare token_loop.simps [simp del] advance_loop.simps [simp del] eol_fast.simps [simp del]
  eol_slow.simps [simp del] is_complete_loop.simps [simp del] skip_blanks.simps [simp del]
  trim_value.simps [simp del]

definition header_name :: "bytes \<Rightarrow> nat \<Rightarrow> phr_header list \<Rightarrow> byte \<Rightarrow> nat \<Rightarrow> (nat option \<times> nat) scan" where
  "header_name m e hs c p =
     (if \<not> (hs \<noteq> [] \<and> blank c)
      then scan_bind (parse_token m e 58 p) (\<lambda>(nm, nl) q.
             if nl = 0 then Fail (-1)
             else scan_bind (skip_blanks m e (Suc q)) (\<lambda>_ q. Ok (Some nm, nl) q))
      else Ok (None, 0) p)"

definition header_line :: "bytes \<Rightarrow> nat \<Rightarrow> phr_header list \<Rightarrow> byte \<Rightarrow> nat \<Rightarrow> phr_header scan" where
  "header_line m e hs c p =
     scan_bind (header_name m e hs c p) (\<lambda>(nm, nl) q.
     scan_bind (get_token_to_eol m e q) (\<lambda>(v, vl) q'.
     scan_bind (trim_value m v (v + vl)) (\<lambda>_ ve.
       Ok \<lparr>hname = nm, hname_len = nl, hvalue = v, hvalue_len = ve - v\<rparr> q')))"

text \<open>The scanning functions never move the pointer back; a line moves it forward.\<close>

lemma token_loop_progress: "token_loop m e nc s p = Ok v q \<Longrightarrow> p \<le> q"
  by (induction m e nc s p rule: token_loop.induct)
     (subst (asm) token_loop.simps, fastforce simp: deref_def check_eof_def split: if_splits)

lemma parse_token_progress: "parse_token m e nc p = Ok v q \<Longrightarrow> p \<le> q"
  by (auto simp: parse_token_def findchar_fast_def check_eof_def split: if_splits
      dest: token_loop_progress)

lemma skip_blanks_progress: "skip_blanks m e p = Ok v q \<Longrightarrow> p \<le> q"
  by (induction m e p rule: skip_blanks.induct)
     (subst (asm) skip_blanks.simps, fastforce simp: deref_def check_eof_def split: if_splits)

lemma eol_slow_progress: "eol_slow m e p = Ok v q \<Longrightarrow> p \<le> q"
  by (induction m e p rule: eol_slow.induct)
     (subst (asm) eol_slow.simps, fastforce simp: deref_def check_eof_def split: if_splits)

lemma eol_fast_progress: "eol_fast m e p = Ok v q \<Longrightarrow> p \<le> q"
proof (induction m e p rule: eol_fast.induct)
  case (1 m e p)
  show ?case
  proof (cases "p + 8 \<le> e")
    case True
    with "1.prems" obtain b r where d: "doit m 8 p = Ok b r"
      and k: "(if b then deref m r (\<lambda>c. if line_ctl c then Ok True r else eol_fast m e (Suc r))
               else eol_fast m e r) = Ok v q"
      by (subst (asm) eol_fast.simps) (auto simp: scan_simps)
    note pr = doit_progress [OF d]
    show ?thesis
    proof (cases b)
      case b: True
      with k have "r = q \<or> eol_fast m e (Suc r) = Ok v q \<and> r < length m \<and> \<not> line_ctl (m ! r)"
        by (auto simp: deref_def split: if_splits)
      then show ?thesis using "1.IH"(1) [OF True d b] pr by fastforce
    next
      case b: False
      with k have "eol_fast m e r = Ok v q" by simp
      then show ?thesis using "1.IH"(2) [OF True d b] pr by fastforce
    qed
  next
    case False
    with "1.prems" show ?thesis by (subst (asm) eol_fast.simps) simp
  qed
qed

lemma line_end_progress: "line_end m e s q = Ok v r \<Longrightarrow> q < r"
  by (auto simp: line_end_def deref_def expect_def expect_no_check_def check_eof_def split: if_splits)

lemma get_token_to_eol_progress: "get_token_to_eol m e p = Ok v q \<Longrightarrow> p < q"
  by (fastforce simp: get_token_to_eol_def scan_simps split: if_splits
      dest: eol_fast_progress eol_slow_progress line_end_progress)

lemma header_line_progress: "header_line m e hs c p = Ok h q \<Longrightarrow> p < q"
  by (fastforce simp: header_line_def header_name_def scan_simps split: if_splits prod.splits
      dest: parse_token_progress skip_blanks_progress get_token_to_eol_progress)

text \<open>
  The headers read so far are the first \<open>*num_headers\<close> entries of the array \<open>headers\<close>.
\<close>

function parse_headers :: "bytes \<Rightarrow> nat \<Rightarrow> nat \<Rightarrow> phr_header list \<Rightarrow> nat \<Rightarrow> phr_header list scan" where
  "parse_headers m e max_headers hs p =
     check_eof e p (deref m p (\<lambda>c.
       if c = 13 then expect m e 10 (Suc p) (\<lambda>q. Ok hs q)
       else if c = 10 then Ok hs (Suc p)
       else if length hs = max_headers then Fail (-1)
       else scan_bind (header_line m e hs c p) (\<lambda>h q. parse_headers m e max_headers (hs @ [h]) q)))"
  by pat_completeness auto
termination
proof (relation "measure (\<lambda>(m, e, x, hs, p). length m - p)", goal_cases)
  case 1
  show ?case by simp
next
  case (2 m e x hs p c h q)
  then have "p < q" by (auto dest: header_line_progress)
  with 2 show ?case by auto
qed

declare parse_headers.simps [simp del]

section \<open>Requests and responses\<close>

record request =
  req_method :: "nat \<times> nat"
  req_path :: "nat \<times> nat"
  minor_version :: int
  headers :: "phr_header list"

text \<open>The loop \<open>do { ++buf; CHECK_EOF(); } while ( *buf == ' ' )\<close>.\<close>

function skip_spaces :: "bytes \<Rightarrow> nat \<Rightarrow> nat \<Rightarrow> unit scan" where
  "skip_spaces m e p =
     check_eof e (Suc p) (deref m (Suc p) (\<lambda>c.
       if c = 32 then skip_spaces m e (Suc p) else Ok () (Suc p)))"
  by pat_completeness auto
termination
  by (relation "measure (\<lambda>(m, e, p). length m - p)") auto

declare skip_spaces.simps [simp del]

definition skip_empty_line :: "bytes \<Rightarrow> nat \<Rightarrow> nat \<Rightarrow> unit scan" where
  "skip_empty_line m e p =
     check_eof e p (deref m p (\<lambda>c.
       if c = 13 then expect m e 10 (Suc p) (\<lambda>q. Ok () q)
       else if c = 10 then Ok () (Suc p)
       else Ok () p))"

definition end_of_request_line :: "bytes \<Rightarrow> nat \<Rightarrow> nat \<Rightarrow> unit scan" where
  "end_of_request_line m e p =
     deref m p (\<lambda>c.
       if c = 13 then expect m e 10 (Suc p) (\<lambda>q. Ok () q)
       else if c = 10 then Ok () (Suc p)
       else Fail (-1))"

definition parse_request :: "bytes \<Rightarrow> nat \<Rightarrow> nat \<Rightarrow> nat \<Rightarrow> request scan" where
  "parse_request m e max_headers p =
     scan_bind (skip_empty_line m e p) (\<lambda>_ p.
     scan_bind (parse_token m e 32 p) (\<lambda>meth p.
     scan_bind (skip_spaces m e p) (\<lambda>_ p.
     scan_bind (advance_token m e p) (\<lambda>pth p.
     scan_bind (skip_spaces m e p) (\<lambda>_ p.
     if snd meth = 0 \<or> snd pth = 0 then Fail (-1)
     else scan_bind (parse_http_version m e p) (\<lambda>v p.
     scan_bind (end_of_request_line m e p) (\<lambda>_ p.
     scan_bind (parse_headers m e max_headers [] p) (\<lambda>hs p.
       Ok \<lparr>req_method = meth, req_path = pth, minor_version = v, headers = hs\<rparr> p))))))))"

text \<open>
  The entry points: the \<open>int\<close> they return and, when the parser came to its end, what it stored. The
  out-parameters of a parser that stopped early are left out; no caller reads them.
\<close>

definition phr_parse_request :: "bytes \<Rightarrow> nat \<Rightarrow> nat \<Rightarrow> nat \<Rightarrow> (int \<times> request option) option" where
  "phr_parse_request m len max_headers last_len =
     returned (scan_bind (if last_len \<noteq> 0 then is_complete m len last_len else Ok () 0)
       (\<lambda>_ _. parse_request m len max_headers 0))"

record response =
  rsp_minor_version :: int
  rsp_status :: int
  rsp_msg :: "nat \<times> nat"
  rsp_headers :: "phr_header list"

text \<open>The loop that removes the spaces before the reason phrase, from \<open>msg\<close> and \<open>msg_len\<close>.\<close>

function strip_msg :: "bytes \<Rightarrow> nat \<Rightarrow> nat \<Rightarrow> (nat \<times> nat) scan" where
  "strip_msg m s n =
     deref m (Suc s) (\<lambda>c. if c = 32 then strip_msg m (Suc s) (n - 1) else Ok (Suc s, n - 1) 0)"
  by pat_completeness auto
termination
  by (relation "measure (\<lambda>(m, s, n). length m - s)") auto

declare strip_msg.simps [simp del]

definition response_msg :: "bytes \<Rightarrow> nat \<times> nat \<Rightarrow> (nat \<times> nat) scan" where
  "response_msg m msg =
     (if snd msg = 0 then Ok msg 0
      else deref m (fst msg) (\<lambda>c. if c = 32 then strip_msg m (fst msg) (snd msg) else Fail (-1)))"

definition parse_response :: "bytes \<Rightarrow> nat \<Rightarrow> nat \<Rightarrow> nat \<Rightarrow> response scan" where
  "parse_response m e max_headers p =
     scan_bind (parse_http_version m e p) (\<lambda>v p.
     deref m p (\<lambda>c.
     if c \<noteq> 32 then Fail (-1)
     else scan_bind (skip_spaces m e p) (\<lambda>_ p.
     if int e - int p < 4 then Fail (-2)
     else scan_bind (parse_int_3 m p) (\<lambda>st p.
     scan_bind (get_token_to_eol m e p) (\<lambda>msg p.
     scan_bind (response_msg m msg) (\<lambda>msg' _.
     scan_bind (parse_headers m e max_headers [] p) (\<lambda>hs p.
       Ok \<lparr>rsp_minor_version = v, rsp_status = st, rsp_msg = msg', rsp_headers = hs\<rparr> p)))))))"

definition phr_parse_response :: "bytes \<Rightarrow> nat \<Rightarrow> nat \<Rightarrow> nat \<Rightarrow> (int \<times> response option) option" where
  "phr_parse_response m len max_headers last_len =
     returned (scan_bind (if last_len \<noteq> 0 then is_complete m len last_len else Ok () 0)
       (\<lambda>_ _. parse_response m len max_headers 0))"

definition phr_parse_headers :: "bytes \<Rightarrow> nat \<Rightarrow> nat \<Rightarrow> nat \<Rightarrow> (int \<times> phr_header list option) option" where
  "phr_parse_headers m len max_headers last_len =
     returned (scan_bind (if last_len \<noteq> 0 then is_complete m len last_len else Ok () 0)
       (\<lambda>_ _. parse_headers m len max_headers [] 0))"

end
