(* ===== verification/Http_Safety.thy ===== *)
theory Http_Safety
  imports Http_Request
begin

text \<open>
  Memory safety and resumption of the HTTP parsers. The caller parses the same array again each
  time more bytes have arrived, so the contract \<open>resumable\<close> relates a run on the first \<open>e\<close> bytes
  of an array to a run on the first \<open>e'\<close> bytes of an array that agrees with it up to \<open>e\<close>: the first
  run stays inside its \<open>e\<close> bytes, and unless it answers \<open>-2\<close> (incomplete) the second gives the
  same answer.
\<close>

section \<open>The contract of one run\<close>

text \<open>
  \<open>scan_ok lo hi r r'\<close>: the run \<open>r\<close> did not fault; its final pointer is in \<open>[lo, hi)\<close>; it answered
  \<open>-2\<close>, or \<open>r'\<close> is the same answer.
\<close>

definition scan_ok :: "nat \<Rightarrow> nat \<Rightarrow> 'a scan \<Rightarrow> 'a scan \<Rightarrow> bool" where
  "scan_ok lo hi r r' \<longleftrightarrow>
     (case r of Fault \<Rightarrow> False
      | Fail c \<Rightarrow> c = -2 \<or> (c = -1 \<and> r' = Fail (-1))
      | Ok v q \<Rightarrow> lo \<le> q \<and> q < hi \<and> r' = Ok v q)"

lemma scan_ok_Ok [simp]: "scan_ok lo hi (Ok v q) (Ok v q) \<longleftrightarrow> lo \<le> q \<and> q < hi"
  by (simp add: scan_ok_def)

lemma scan_ok_m1 [simp, intro]: "scan_ok lo hi (Fail (-1)) (Fail (-1))"
  by (simp add: scan_ok_def)

lemma scan_ok_m2 [simp, intro]: "scan_ok lo hi (Fail (-2)) r"
  by (simp add: scan_ok_def)

lemma scan_ok_weaken: "scan_ok lo hi r r' \<Longrightarrow> lo' \<le> lo \<Longrightarrow> hi \<le> hi' \<Longrightarrow> scan_ok lo' hi' r r'"
  by (auto simp: scan_ok_def split: scan.splits)

lemma scan_ok_bind:
  assumes "scan_ok lo hi r r'"
    and "\<And>v q. r = Ok v q \<Longrightarrow> lo \<le> q \<Longrightarrow> q < hi \<Longrightarrow> scan_ok lo' hi' (k v q) (k' v q)"
  shows "scan_ok lo' hi' (scan_bind r k) (scan_bind r' k')"
  using assms by (cases r) (auto simp: scan_ok_def)

lemma scan_ok_Suc: "scan_ok (Suc p) hi r r' \<Longrightarrow> scan_ok p hi r r'"
  by (erule scan_ok_weaken) auto

text \<open>Two arrays and two ends: what every step below assumes.\<close>

definition grown :: "nat \<Rightarrow> bytes \<Rightarrow> nat \<Rightarrow> bytes \<Rightarrow> bool" where
  "grown e m e' m' \<longleftrightarrow> agree e m m' \<and> e \<le> e' \<and> e' \<le> length m'"

lemma grown_refl: "e \<le> length m \<Longrightarrow> grown e m e m"
  by (simp add: grown_def agree_refl)

lemma scan_ok_deref:
  "grown e m e' m' \<Longrightarrow> p < e \<Longrightarrow> scan_ok lo hi (k (m ! p)) (k' (m ! p))
   \<Longrightarrow> scan_ok lo hi (deref m p k) (deref m' p k')"
  by (simp add: grown_def agree_def deref_def)

lemma scan_ok_eof:
  "e \<le> e' \<Longrightarrow> p \<le> e \<Longrightarrow> (p < e \<Longrightarrow> scan_ok lo hi k k')
   \<Longrightarrow> scan_ok lo hi (check_eof e p k) (check_eof e' p k')"
  by (auto simp: check_eof_def)

lemma scan_ok_read:
  "grown e m e' m' \<Longrightarrow> p \<le> e \<Longrightarrow> (p < e \<Longrightarrow> scan_ok lo hi (k (m ! p)) (k' (m ! p)))
   \<Longrightarrow> scan_ok lo hi (check_eof e p (deref m p k)) (check_eof e' p (deref m' p k'))"
  by (rule scan_ok_eof) (auto simp: grown_def intro: scan_ok_deref [unfolded grown_def])

lemma scan_ok_expect_no_check:
  "grown e m e' m' \<Longrightarrow> p < e \<Longrightarrow> (scan_ok lo hi (k (Suc p)) (k' (Suc p)))
   \<Longrightarrow> scan_ok lo hi (expect_no_check m ch p k) (expect_no_check m' ch p k')"
  unfolding expect_no_check_def by (erule scan_ok_deref) auto

lemma scan_ok_expect:
  "grown e m e' m' \<Longrightarrow> p \<le> e \<Longrightarrow> (p < e \<Longrightarrow> scan_ok lo hi (k (Suc p)) (k' (Suc p)))
   \<Longrightarrow> scan_ok lo hi (expect m e ch p k) (expect m' e' ch p k')"
  unfolding expect_def
  by (rule scan_ok_eof) (auto simp: grown_def intro!: scan_ok_expect_no_check [unfolded grown_def])

section \<open>The scanning functions meet the contract\<close>

text \<open>A token ends strictly before the end of the buffer: its last byte is the delimiter.\<close>

lemma grown_len: "grown e m e' m' \<Longrightarrow> e \<le> length m \<and> e' \<le> length m' \<and> e \<le> e'"
  by (simp add: grown_def agree_def)

lemma token_loop_ok:
  "grown e m e' m' \<Longrightarrow> p < e \<Longrightarrow> scan_ok p e (token_loop m e nc s p) (token_loop m' e' nc s p)"
proof (induction m e nc s p rule: token_loop.induct)
  case (1 m e nc s p)
  note g = "1.prems" grown_len [OF "1.prems"(1)]
  have p: "p < length m" using g by auto
  show ?case
    unfolding token_loop.simps [of m e nc s p] token_loop.simps [of m' e' nc s p]
    using g "1.IH" [OF p, THEN scan_ok_Suc] by (auto intro!: scan_ok_deref [OF g(1,2)] scan_ok_eof)
qed

lemma parse_token_ok:
  "grown e m e' m' \<Longrightarrow> p \<le> e \<Longrightarrow> scan_ok p e (parse_token m e nc p) (parse_token m' e' nc p)"
  by (auto simp: parse_token_def findchar_fast_def dest: grown_len
      intro!: scan_ok_eof token_loop_ok)

lemma advance_loop_ok:
  "grown e m e' m' \<Longrightarrow> p < e \<Longrightarrow> scan_ok p e (advance_loop m e s p) (advance_loop m' e' s p)"
proof (induction m e s p rule: advance_loop.induct)
  case (1 m e s p)
  note g = "1.prems" grown_len [OF "1.prems"(1)]
  have p: "p < length m" using g by auto
  show ?case
    unfolding advance_loop.simps [of m e s p] advance_loop.simps [of m' e' s p]
    using g "1.IH" [OF p, THEN scan_ok_Suc] by (auto intro!: scan_ok_deref [OF g(1,2)] scan_ok_eof)
qed

lemma advance_token_ok:
  "grown e m e' m' \<Longrightarrow> p \<le> e \<Longrightarrow> scan_ok p e (advance_token m e p) (advance_token m' e' p)"
  by (auto simp: advance_token_def findchar_fast_def dest: grown_len
      intro!: scan_ok_eof advance_loop_ok)

lemma skip_spaces_ok:
  "grown e m e' m' \<Longrightarrow> Suc p \<le> e \<Longrightarrow> scan_ok (Suc p) e (skip_spaces m e p) (skip_spaces m' e' p)"
proof (induction m e p rule: skip_spaces.induct)
  case (1 m e p)
  note g = "1.prems" grown_len [OF "1.prems"(1)]
  show ?case
    unfolding skip_spaces.simps [of m e p] skip_spaces.simps [of m' e' p]
    using g "1.IH" [THEN scan_ok_Suc] by (auto intro!: scan_ok_read [OF g(1)])
qed

lemma skip_blanks_ok:
  "grown e m e' m' \<Longrightarrow> p \<le> e \<Longrightarrow> scan_ok p e (skip_blanks m e p) (skip_blanks m' e' p)"
proof (induction m e p rule: skip_blanks.induct)
  case (1 m e p)
  note g = "1.prems" grown_len [OF "1.prems"(1)]
  show ?case
    unfolding skip_blanks.simps [of m e p] skip_blanks.simps [of m' e' p]
    using g "1.IH" [THEN scan_ok_Suc] by (auto intro!: scan_ok_read [OF g(1)])
qed

lemma is_complete_loop_ok:
  "grown e m e' m' \<Longrightarrow> p \<le> e \<Longrightarrow>
   scan_ok p (Suc e) (is_complete_loop m e n p) (is_complete_loop m' e' n p)"
proof (induction m e n p rule: is_complete_loop.induct)
  case (1 m e n p)
  note g = "1.prems" grown_len [OF "1.prems"(1)]
  show ?case
    unfolding is_complete_loop.simps [of m e n p] is_complete_loop.simps [of m' e' n p]
    using g "1.IH" [THEN scan_ok_Suc] "1.IH"(1) [THEN scan_ok_Suc, THEN scan_ok_Suc]
    by (auto intro!: scan_ok_read [OF g(1)] scan_ok_eof scan_ok_expect [OF g(1)])
qed

lemma skip_empty_line_ok:
  "grown e m e' m' \<Longrightarrow> p \<le> e \<Longrightarrow> scan_ok p (Suc e) (skip_empty_line m e p) (skip_empty_line m' e' p)"
  unfolding skip_empty_line_def
  by (auto intro!: scan_ok_read scan_ok_expect)

lemma end_of_request_line_ok:
  "grown e m e' m' \<Longrightarrow> p < e \<Longrightarrow>
   scan_ok (Suc p) (Suc e) (end_of_request_line m e p) (end_of_request_line m' e' p)"
  unfolding end_of_request_line_def
  by (auto intro!: scan_ok_deref scan_ok_expect)

lemma parse_int_ok:
  "grown e m e' m' \<Longrightarrow> p < e \<Longrightarrow> scan_ok (Suc p) (Suc (Suc p)) (parse_int m k p) (parse_int m' k p)"
  unfolding parse_int_def by (auto intro!: scan_ok_deref)

lemma parse_http_version_ok:
  "grown e m e' m' \<Longrightarrow> p \<le> e \<Longrightarrow>
   scan_ok (p + 8) e (parse_http_version m e p) (parse_http_version m' e' p)"
proof -
  assume g: "grown e m e' m'" and p: "p \<le> e"
  show ?thesis
  proof (cases "int e - int p < 9")
    case True
    then show ?thesis by (simp add: parse_http_version_def)
  next
    case False
    have "scan_ok (p + 8) e (parse_int m 1 (p + 7)) (parse_int m' 1 (p + 7))"
      using scan_ok_weaken [OF parse_int_ok [OF g, of "p + 7" 1]] False by auto
    then show ?thesis
      using False grown_len [OF g]
      by (auto simp: parse_http_version_def eval_nat_numeral intro!: scan_ok_expect_no_check [OF g])
  qed
qed

lemma parse_int_3_ok:
  assumes g: "grown e m e' m'" and p: "p + 4 \<le> e"
  shows "scan_ok (p + 3) e (parse_int_3 m p) (parse_int_3 m' p)"
  unfolding parse_int_3_def
proof (rule scan_ok_bind [OF parse_int_ok [OF g]])
  show "p < e" using p by simp
  fix a q assume q: "Suc p \<le> q" "q < Suc (Suc p)"
  show "scan_ok (p + 3) e (scan_bind (parse_int m 10 q) (\<lambda>b r. scan_bind (parse_int m 1 r) (\<lambda>c s. Ok (a + b + c) s)))
    (scan_bind (parse_int m' 10 q) (\<lambda>b r. scan_bind (parse_int m' 1 r) (\<lambda>c s. Ok (a + b + c) s)))"
  proof (rule scan_ok_bind [OF parse_int_ok [OF g]])
    show "q < e" using p q by simp
    fix b r assume r: "Suc q \<le> r" "r < Suc (Suc q)"
    have "r < e" using p q r by simp
    then show "scan_ok (p + 3) e (scan_bind (parse_int m 1 r) (\<lambda>c s. Ok (a + b + c) s))
      (scan_bind (parse_int m' 1 r) (\<lambda>c s. Ok (a + b + c) s))"
      using p q r by (intro scan_ok_bind [OF parse_int_ok [OF g]]) auto
  qed
qed

section \<open>The unrolled search for the end of a line\<close>

lemma eol_slow_step:
  "p < e \<Longrightarrow> e \<le> length m \<Longrightarrow>
   eol_slow m e p =
     (if \<not> IS_PRINTABLE_ASCII (m ! p) \<and> line_ctl (m ! p) then Ok () p else eol_slow m e (Suc p))"
  by (subst eol_slow.simps) (simp add: check_eof_def mem_simps)

lemma doit_eol_slow:
  "p + n \<le> e \<Longrightarrow> e \<le> length m \<Longrightarrow>
   \<exists>b q. doit m n p = Ok b q \<and> p \<le> q \<and> eol_slow m e p = eol_slow m e q
     \<and> (b \<longrightarrow> q < e \<and> \<not> IS_PRINTABLE_ASCII (m ! q)) \<and> (\<not> b \<longrightarrow> q = p + n)"
proof (induction n arbitrary: p)
  case 0
  then show ?case by auto
next
  case (Suc n)
  show ?case
  proof (cases "IS_PRINTABLE_ASCII (m ! p)")
    case True
    with Suc.IH [of "Suc p"] Suc.prems show ?thesis
      by (fastforce simp: eol_slow_step mem_simps)
  next
    case False
    with Suc.prems show ?thesis by (auto simp: mem_simps)
  qed
qed

text \<open>The fast loop followed by the slow one is the slow one alone, whatever comes next.\<close>

lemma eol_fast_eq:
  "p \<le> e \<Longrightarrow> e \<le> length m \<Longrightarrow>
   scan_bind (eol_fast m e p) (\<lambda>found q. if found then k q else scan_bind (eol_slow m e q) (\<lambda>_. k))
   = scan_bind (eol_slow m e p) (\<lambda>_. k)"
proof (induction m e p rule: eol_fast.induct)
  case (1 m e p)
  show ?case
  proof (cases "p + 8 \<le> e")
    case True
    obtain b q where d: "doit m 8 p = Ok b q" "p \<le> q" "eol_slow m e p = eol_slow m e q"
        "b \<longrightarrow> q < e \<and> \<not> IS_PRINTABLE_ASCII (m ! q)" "\<not> b \<longrightarrow> q = p + 8"
      using doit_eol_slow [OF True "1.prems"(2)] by blast
    show ?thesis
    proof (cases b)
      case b: True
      have q: "q < e" "q < length m" using d b "1.prems" by auto
      show ?thesis
      proof (cases "line_ctl (m ! q)")
        case True
        then show ?thesis
          using \<open>p + 8 \<le> e\<close> d b q "1.prems"
          by (subst eol_fast.simps) (simp add: eol_slow_step mem_simps)
      next
        case False
        have "eol_fast m e p = eol_fast m e (Suc q)"
          using True d b q False by (subst eol_fast.simps) (simp add: mem_simps)
        moreover have "eol_slow m e p = eol_slow m e (Suc q)"
          using d q False "1.prems" by (simp add: eol_slow_step)
        ultimately show ?thesis
          using "1.IH"(1) [OF True d(1) b q(2) False] q "1.prems"(2) by simp
      qed
    next
      case b: False
      then have "eol_fast m e p = eol_fast m e q"
        using True d by (subst eol_fast.simps) simp
      then show ?thesis
        using "1.IH"(2) [OF True d(1) b] b d True "1.prems" by simp
    qed
  next
    case False
    then show ?thesis by (subst eol_fast.simps) simp
  qed
qed

lemma get_token_to_eol_simple:
  "p \<le> e \<Longrightarrow> e \<le> length m \<Longrightarrow>
   get_token_to_eol m e p = scan_bind (eol_slow m e p) (\<lambda>_. line_end m e p)"
  unfolding get_token_to_eol_def by (rule eol_fast_eq)

section \<open>Lines, headers, messages\<close>

lemma eol_slow_ok:
  "grown e m e' m' \<Longrightarrow> p \<le> e \<Longrightarrow> scan_ok p e (eol_slow m e p) (eol_slow m' e' p)"
proof (induction m e p rule: eol_slow.induct)
  case (1 m e p)
  note g = "1.prems" grown_len [OF "1.prems"(1)]
  show ?case
    unfolding eol_slow.simps [of m e p] eol_slow.simps [of m' e' p]
    using g "1.IH" [of "m ! p", THEN scan_ok_Suc] by (auto intro!: scan_ok_read [OF g(1)])
qed

lemma line_end_ok:
  "grown e m e' m' \<Longrightarrow> q < e \<Longrightarrow> scan_ok (Suc q) (Suc e) (line_end m e s q) (line_end m' e' s q)"
  unfolding line_end_def by (auto intro!: scan_ok_deref scan_ok_expect)

lemma get_token_to_eol_ok:
  assumes g: "grown e m e' m'" and p: "p \<le> e"
  shows "scan_ok (Suc p) (Suc e) (get_token_to_eol m e p) (get_token_to_eol m' e' p)"
proof -
  have "scan_ok (Suc p) (Suc e) (scan_bind (eol_slow m e p) (\<lambda>_. line_end m e p))
    (scan_bind (eol_slow m' e' p) (\<lambda>_. line_end m' e' p))"
    using p by (intro scan_ok_bind [OF eol_slow_ok [OF g p]] scan_ok_weaken [OF line_end_ok [OF g]]) auto
  then show ?thesis
    using p grown_len [OF g] by (simp add: get_token_to_eol_simple)
qed

text \<open>The slice of a line ends at the byte that ended it.\<close>

lemma line_end_slice:
  "line_end m e s q = Ok (v, n) r \<Longrightarrow> s \<le> q \<Longrightarrow>
   v = s \<and> s + n = q \<and> q < r \<and> q < length m \<and> (m ! q = 13 \<or> m ! q = 10)"
  by (auto simp: line_end_def expect_def expect_no_check_def check_eof_def deref_def split: if_splits)

lemma get_token_to_eol_slice:
  assumes "get_token_to_eol m e p = Ok (v, n) r" and "p \<le> e" and "e \<le> length m"
  shows "v = p \<and> p + n < r \<and> p + n < e \<and> (m ! (p + n) = 13 \<or> m ! (p + n) = 10)"
proof -
  from assms obtain u q where q: "eol_slow m e p = Ok u q" "line_end m e p q = Ok (v, n) r"
    by (auto simp: get_token_to_eol_simple scan_simps)
  have "p \<le> q \<and> q < e"
    using eol_slow_ok [OF grown_refl [OF assms(3)] assms(2)] q by (simp add: scan_ok_def)
  with line_end_slice [OF q(2)] show ?thesis by auto
qed

lemma trim_value_ok:
  "grown e m e' m' \<Longrightarrow> v \<le> ve \<Longrightarrow> ve \<le> e \<Longrightarrow>
   scan_ok v (Suc ve) (trim_value m v ve) (trim_value m' v ve)"
proof (induction m v ve rule: trim_value.induct)
  case (1 m v ve)
  note g = "1.prems" grown_len [OF "1.prems"(1)]
  show ?case
  proof (cases "ve \<le> v")
    case True
    then show ?thesis
      unfolding trim_value.simps [of m v ve] trim_value.simps [of m' v ve] using g by simp
  next
    case False
    have "scan_ok v (Suc ve) (trim_value m v (ve - 1)) (trim_value m' v (ve - 1))" if "blank (m ! (ve - 1))"
      using that False g by (intro scan_ok_weaken [OF "1.IH" [OF False, of "m ! (ve - 1)"]]) auto
    then show ?thesis
      unfolding trim_value.simps [of m v ve] trim_value.simps [of m' v ve]
      using False g by (auto intro!: scan_ok_deref [OF g(1)])
  qed
qed

lemma header_name_ok:
  assumes g: "grown e m e' m'" and p: "p \<le> e"
  shows "scan_ok p (Suc e) (header_name m e hs c p) (header_name m' e' hs c p)"
proof (cases "hs \<noteq> [] \<and> blank c")
  case True
  then show ?thesis using p by (simp add: header_name_def)
next
  case False
  have "scan_ok p (Suc e)
     (scan_bind (parse_token m e 58 p) (\<lambda>(nm, nl) q. if nl = 0 then Fail (-1)
        else scan_bind (skip_blanks m e (Suc q)) (\<lambda>_ q. Ok (Some nm, nl) q)))
     (scan_bind (parse_token m' e' 58 p) (\<lambda>(nm, nl) q. if nl = 0 then Fail (-1)
        else scan_bind (skip_blanks m' e' (Suc q)) (\<lambda>_ q. Ok (Some nm, nl) q)))"
  proof (rule scan_ok_bind [OF parse_token_ok [OF g p]])
    fix v q assume "p \<le> q" "q < e"
    then show "scan_ok p (Suc e)
       ((case v of (nm, nl) \<Rightarrow> \<lambda>q. if nl = 0 then Fail (-1)
          else scan_bind (skip_blanks m e (Suc q)) (\<lambda>_ q. Ok (Some nm, nl) q)) q)
       ((case v of (nm, nl) \<Rightarrow> \<lambda>q. if nl = 0 then Fail (-1)
          else scan_bind (skip_blanks m' e' (Suc q)) (\<lambda>_ q. Ok (Some nm, nl) q)) q)"
      by (auto split: prod.split intro!: scan_ok_bind [OF skip_blanks_ok [OF g]])
  qed
  then show ?thesis unfolding header_name_def if_P [OF False] .
qed

lemma header_line_ok:
  assumes g: "grown e m e' m'" and p: "p \<le> e"
  shows "scan_ok (Suc p) (Suc e) (header_line m e hs c p) (header_line m' e' hs c p)"
  unfolding header_line_def
proof (rule scan_ok_bind [OF header_name_ok [OF g p]], goal_cases)
  case (1 nv q)
  obtain nm nl where nv: "nv = (nm, nl)" by fastforce
  have q: "q \<le> e" using 1 by simp
  have "scan_ok (Suc p) (Suc e)
     (scan_bind (get_token_to_eol m e q) (\<lambda>(v, vl) q'. scan_bind (trim_value m v (v + vl))
        (\<lambda>_ ve. Ok \<lparr>hname = nm, hname_len = nl, hvalue = v, hvalue_len = ve - v\<rparr> q')))
     (scan_bind (get_token_to_eol m' e' q) (\<lambda>(v, vl) q'. scan_bind (trim_value m' v (v + vl))
        (\<lambda>_ ve. Ok \<lparr>hname = nm, hname_len = nl, hvalue = v, hvalue_len = ve - v\<rparr> q')))"
  proof (rule scan_ok_bind [OF get_token_to_eol_ok [OF g q]], goal_cases)
    case (1 vv r)
    obtain v vl where vv: "vv = (v, vl)" by fastforce
    have "v + vl < e"
      using get_token_to_eol_slice [of m e q v vl r] 1 vv q grown_len [OF g] by auto
    then show ?case
      using 1 vv \<open>p \<le> q\<close> by (auto intro!: scan_ok_bind [OF trim_value_ok [OF g]])
  qed
  with nv show ?case by simp
qed

lemma parse_headers_ok:
  "grown e m e' m' \<Longrightarrow> p \<le> e \<Longrightarrow>
   scan_ok (Suc p) (Suc e) (parse_headers m e n hs p) (parse_headers m' e' n hs p)"
proof (induction m e n hs p rule: parse_headers.induct)
  case (1 m e n hs p)
  note g = "1.prems" grown_len [OF "1.prems"(1)]
  have "scan_ok (Suc p) (Suc e)
     (scan_bind (header_line m e hs (m ! p) p) (\<lambda>h q. parse_headers m e n (hs @ [h]) q))
     (scan_bind (header_line m' e' hs (m ! p) p) (\<lambda>h q. parse_headers m' e' n (hs @ [h]) q))"
    if "p < e" "m ! p \<noteq> 13" "m ! p \<noteq> 10" "length hs \<noteq> n"
    using that g "1.IH" [of "m ! p"]
    by (intro scan_ok_bind [OF header_line_ok [OF g(1,2)]]) (auto intro: scan_ok_weaken)
  then show ?case
    unfolding parse_headers.simps [of m e n hs p] parse_headers.simps [of m' e' n hs p]
    using g by (auto intro!: scan_ok_read [OF g(1)] scan_ok_expect [OF g(1)])
qed

lemma strip_msg_ok:
  "grown e m e' m' \<Longrightarrow> 0 < n \<Longrightarrow> s + n < e \<Longrightarrow> m ! (s + n) \<noteq> 32 \<Longrightarrow>
   scan_ok 0 1 (strip_msg m s n) (strip_msg m' s n)"
proof (induction m s n rule: strip_msg.induct)
  case (1 m s n)
  note g = "1.prems" grown_len [OF "1.prems"(1)]
  have "scan_ok 0 1 (strip_msg m (Suc s) (n - 1)) (strip_msg m' (Suc s) (n - 1))"
    if "m ! Suc s = 32"
  proof -
    have "n - 1 \<noteq> 0" using that g by (cases "n = 1") auto
    with "1.IH" [of "m ! Suc s"] that g show ?thesis by simp
  qed
  then show ?case
    unfolding strip_msg.simps [of m s n] strip_msg.simps [of m' s n]
    using g by (auto intro!: scan_ok_deref [OF g(1)])
qed

lemma response_msg_ok:
  "grown e m e' m' \<Longrightarrow> fst msg + snd msg < e \<Longrightarrow> m ! (fst msg + snd msg) \<noteq> 32 \<Longrightarrow>
   scan_ok 0 1 (response_msg m msg) (response_msg m' msg)"
  unfolding response_msg_def by (auto intro!: scan_ok_deref strip_msg_ok [unfolded One_nat_def])

section \<open>Whole messages\<close>

lemma parse_request_ok:
  assumes g: "grown e m e' m'" and p: "p \<le> e"
  shows "scan_ok (Suc p) (Suc e) (parse_request m e n p) (parse_request m' e' n p)"
  unfolding parse_request_def
proof (rule scan_ok_bind [OF skip_empty_line_ok [OF g p]], goal_cases)
  case (1 _ p1)
  show ?case
  proof (rule scan_ok_bind [OF parse_token_ok [OF g]], goal_cases)
    case 1 then show ?case using \<open>p1 < Suc e\<close> by simp
  next
    case (2 meth p2)
    show ?case
    proof (rule scan_ok_bind [OF skip_spaces_ok [OF g]], goal_cases)
      case 1 then show ?case using \<open>p2 < e\<close> by simp
    next
      case (2 _ p3)
      show ?case
      proof (rule scan_ok_bind [OF advance_token_ok [OF g]], goal_cases)
        case 1 then show ?case using \<open>p3 < e\<close> by simp
      next
        case (2 pth p4)
        show ?case
        proof (rule scan_ok_bind [OF skip_spaces_ok [OF g]], goal_cases)
          case 1 then show ?case using \<open>p4 < e\<close> by simp
        next
          case (2 _ p5)
          have "scan_ok (Suc p) (Suc e)
            (scan_bind (parse_http_version m e p5) (\<lambda>v p. scan_bind (end_of_request_line m e p)
              (\<lambda>_ p. scan_bind (parse_headers m e n [] p) (\<lambda>hs p.
                 Ok \<lparr>req_method = meth, req_path = pth, minor_version = v, headers = hs\<rparr> p))))
            (scan_bind (parse_http_version m' e' p5) (\<lambda>v p. scan_bind (end_of_request_line m' e' p)
              (\<lambda>_ p. scan_bind (parse_headers m' e' n [] p) (\<lambda>hs p.
                 Ok \<lparr>req_method = meth, req_path = pth, minor_version = v, headers = hs\<rparr> p))))"
          proof (rule scan_ok_bind [OF parse_http_version_ok [OF g]], goal_cases)
            case 1 then show ?case using \<open>p5 < e\<close> by simp
          next
            case (2 v p6)
            show ?case
            proof (rule scan_ok_bind [OF end_of_request_line_ok [OF g \<open>p6 < e\<close>]], goal_cases)
              case (1 _ p7)
              have "p7 \<le> e" "p \<le> p7"
                using 1 2 \<open>Suc p4 \<le> p5\<close> \<open>p3 \<le> p4\<close> \<open>Suc p2 \<le> p3\<close> \<open>p1 \<le> p2\<close> \<open>p \<le> p1\<close> by auto
              then show ?case
                by (intro scan_ok_bind [OF parse_headers_ok [OF g]]) auto
            qed
          qed
          then show ?case by simp
        qed
      qed
    qed
  qed
qed

lemma parse_response_ok:
  assumes g: "grown e m e' m'" and p: "p \<le> e"
  shows "scan_ok (Suc p) (Suc e) (parse_response m e n p) (parse_response m' e' n p)"
  unfolding parse_response_def
proof (rule scan_ok_bind [OF parse_http_version_ok [OF g p]], goal_cases)
  case (1 v p1)
  show ?case
  proof (rule scan_ok_deref [OF g \<open>p1 < e\<close>], cases "m ! p1 \<noteq> 32", goal_cases)
    case 2
    have "scan_ok (Suc p) (Suc e)
      (scan_bind (skip_spaces m e p1) (\<lambda>_ p. if int e - int p < 4 then Fail (-2)
        else scan_bind (parse_int_3 m p) (\<lambda>st p. scan_bind (get_token_to_eol m e p) (\<lambda>msg p.
        scan_bind (response_msg m msg) (\<lambda>msg' _. scan_bind (parse_headers m e n [] p) (\<lambda>hs p.
        Ok \<lparr>rsp_minor_version = v, rsp_status = st, rsp_msg = msg', rsp_headers = hs\<rparr> p))))))
      (scan_bind (skip_spaces m' e' p1) (\<lambda>_ p. if int e' - int p < 4 then Fail (-2)
        else scan_bind (parse_int_3 m' p) (\<lambda>st p. scan_bind (get_token_to_eol m' e' p) (\<lambda>msg p.
        scan_bind (response_msg m' msg) (\<lambda>msg' _. scan_bind (parse_headers m' e' n [] p) (\<lambda>hs p.
        Ok \<lparr>rsp_minor_version = v, rsp_status = st, rsp_msg = msg', rsp_headers = hs\<rparr> p))))))"
    proof (rule scan_ok_bind [OF skip_spaces_ok [OF g]], goal_cases)
      case 1 then show ?case using \<open>p1 < e\<close> by simp
    next
      case (2 _ p2)
      show ?case
      proof (cases "int e - int p2 < 4")
        case False
        then have p24: "p2 + 4 \<le> e" "\<not> int e' - int p2 < 4" using grown_len [OF g] by auto
        have "scan_ok (Suc p) (Suc e)
          (scan_bind (parse_int_3 m p2) (\<lambda>st p. scan_bind (get_token_to_eol m e p) (\<lambda>msg p.
            scan_bind (response_msg m msg) (\<lambda>msg' _. scan_bind (parse_headers m e n [] p) (\<lambda>hs p.
            Ok \<lparr>rsp_minor_version = v, rsp_status = st, rsp_msg = msg', rsp_headers = hs\<rparr> p)))))
          (scan_bind (parse_int_3 m' p2) (\<lambda>st p. scan_bind (get_token_to_eol m' e' p) (\<lambda>msg p.
            scan_bind (response_msg m' msg) (\<lambda>msg' _. scan_bind (parse_headers m' e' n [] p) (\<lambda>hs p.
            Ok \<lparr>rsp_minor_version = v, rsp_status = st, rsp_msg = msg', rsp_headers = hs\<rparr> p)))))"
        proof (rule scan_ok_bind [OF parse_int_3_ok [OF g p24(1)]], goal_cases)
          case (1 st p3)
          show ?case
          proof (rule scan_ok_bind [OF get_token_to_eol_ok [OF g]], goal_cases)
            case 1 then show ?case using \<open>p3 < e\<close> by simp
          next
            case (2 msg p4)
            obtain ms ml where msg: "msg = (ms, ml)" by fastforce
            have "fst msg + snd msg < e \<and> m ! (fst msg + snd msg) \<noteq> 32"
              using get_token_to_eol_slice [of m e p3 ms ml p4] 2(1) \<open>p3 < e\<close> msg grown_len [OF g]
              by auto
            then have rm: "scan_ok 0 1 (response_msg m msg) (response_msg m' msg)"
              using response_msg_ok [OF g] by blast
            have "p4 \<le> e" "p \<le> p4"
              using 2 1 \<open>Suc p1 \<le> p2\<close> \<open>p + 8 \<le> p1\<close> by auto
            then show ?case
              by (intro scan_ok_bind [OF rm] scan_ok_bind [OF parse_headers_ok [OF g]]) auto
          qed
        qed
        with False p24 show ?thesis by simp
      qed simp
    qed
    with 2 show ?case by simp
  qed simp
qed

section \<open>The interface the callers rely on\<close>

text \<open>
  A caller holds an array that fills up and calls a parser on growing prefixes until the answer is
  not \<open>-2\<close>. \<open>first_answer\<close> is that loop over the lengths the reads produced.
\<close>

fun first_answer :: "(nat \<Rightarrow> 'a scan) \<Rightarrow> nat list \<Rightarrow> 'a scan" where
  "first_answer f [] = Fail (-2)"
| "first_answer f (e # es) = (case f e of Fail c \<Rightarrow> if c = -2 then first_answer f es else Fail c | r \<Rightarrow> r)"

locale resumable =
  fixes run :: "bytes \<Rightarrow> nat \<Rightarrow> nat \<Rightarrow> 'a scan"
  assumes resume: "grown e m e' m' \<Longrightarrow> p \<le> e \<Longrightarrow> scan_ok p (Suc e) (run m e p) (run m' e' p)"
begin

lemma no_fault: "e \<le> length m \<Longrightarrow> p \<le> e \<Longrightarrow> run m e p \<noteq> Fault"
  using resume [OF grown_refl, of e m p] by (auto simp: scan_ok_def)

lemma answers:
  "e \<le> length m \<Longrightarrow> p \<le> e \<Longrightarrow>
   (\<exists>v q. run m e p = Ok v q \<and> p \<le> q \<and> q \<le> e) \<or> run m e p = Fail (-1) \<or> run m e p = Fail (-2)"
  using resume [OF grown_refl, of e m p] by (auto simp: scan_ok_def split: scan.splits)

lemma decided: "grown e m e' m' \<Longrightarrow> p \<le> e \<Longrightarrow> run m e p \<noteq> Fail (-2) \<Longrightarrow> run m' e' p = run m e p"
  using resume [of e m e' m' p] by (auto simp: scan_ok_def split: scan.splits)

lemma first_answer_last:
  "sorted es \<Longrightarrow> es \<noteq> [] \<Longrightarrow> last es \<le> length m \<Longrightarrow> \<forall>e\<in>set es. p \<le> e \<Longrightarrow>
   first_answer (\<lambda>e. run m e p) es = run m (last es) p"
proof (induction es)
  case Nil
  then show ?case by simp
next
  case (Cons e es)
  have e: "e \<le> last (e # es)" using Cons.prems(1) by (cases es) auto
  then have g: "grown e m (last (e # es)) m"
    using Cons.prems(3) by (simp add: grown_def agree_def)
  have pe: "p \<le> e" using Cons.prems(4) by simp
  show ?case
  proof (cases "run m e p = Fail (-2)")
    case True
    then show ?thesis
      using Cons by (cases es) auto
  next
    case False
    then have "run m (last (e # es)) p = run m e p" using decided [OF g pe] by simp
    then show ?thesis using False by (auto split: scan.splits)
  qed
qed

end

interpretation token: resumable "\<lambda>m e. parse_token m e nc"
  by unfold_locales (rule scan_ok_weaken [OF parse_token_ok], auto)

interpretation eol: resumable get_token_to_eol
  by unfold_locales (rule scan_ok_weaken [OF get_token_to_eol_ok], auto)

interpretation complete: resumable "\<lambda>m e. is_complete_loop m e n"
  by unfold_locales (rule is_complete_loop_ok)

interpretation hdrs: resumable "\<lambda>m e. parse_headers m e n hs"
  by unfold_locales (rule scan_ok_weaken [OF parse_headers_ok], auto)

interpretation req: resumable "\<lambda>m e. parse_request m e n"
  by unfold_locales (rule scan_ok_weaken [OF parse_request_ok], auto)

interpretation rsp: resumable "\<lambda>m e. parse_response m e n"
  by unfold_locales (rule scan_ok_weaken [OF parse_response_ok], auto)

section \<open>What an accepted request holds\<close>

definition header_in :: "nat \<Rightarrow> phr_header \<Rightarrow> bool" where
  "header_in e h \<longleftrightarrow>
     (case hname h of None \<Rightarrow> hname_len h = 0 | Some s \<Rightarrow> 0 < hname_len h \<and> s + hname_len h \<le> e)
     \<and> hvalue h + hvalue_len h \<le> e"

lemma token_loop_slice:
  "token_loop m e nc s p = Ok (v, n) q \<Longrightarrow> s \<le> p \<Longrightarrow> v = s \<and> s + n = q"
proof (induction m e nc s p rule: token_loop.induct)
  case (1 m e nc s p)
  then show ?case
    by (subst (asm) (2) token_loop.simps) (auto simp: deref_def check_eof_def split: if_splits)
qed

lemma parse_token_slice: "parse_token m e nc p = Ok (v, n) q \<Longrightarrow> v = p \<and> p + n = q"
  by (auto simp: parse_token_def findchar_fast_def check_eof_def split: if_splits
      dest: token_loop_slice)

lemma advance_loop_slice:
  "advance_loop m e s p = Ok (v, n) q \<Longrightarrow> s \<le> p \<Longrightarrow> v = s \<and> s + n = q"
proof (induction m e s p rule: advance_loop.induct)
  case (1 m e s p)
  then show ?case
    by (subst (asm) (2) advance_loop.simps) (auto simp: deref_def check_eof_def split: if_splits)
qed

lemma advance_token_slice: "advance_token m e p = Ok (v, n) q \<Longrightarrow> v = p \<and> p + n = q"
  by (auto simp: advance_token_def findchar_fast_def check_eof_def split: if_splits
      dest: advance_loop_slice)

lemma header_line_in:
  assumes h: "header_line m e hs c p = Ok h r" and p: "p \<le> e" and e: "e \<le> length m"
  shows "header_in e h"
proof -
  from h obtain nm nl q v vl q' ve u where
    n: "header_name m e hs c p = Ok (nm, nl) q" and
    t: "get_token_to_eol m e q = Ok (v, vl) q'" and
    tr: "trim_value m v (v + vl) = Ok u ve" and
    hh: "h = \<lparr>hname = nm, hname_len = nl, hvalue = v, hvalue_len = ve - v\<rparr>"
    by (auto simp: header_line_def scan_simps)
  note g = grown_refl [OF e]
  have q: "q \<le> e" using header_name_ok [OF g p, of hs c] n by (simp add: scan_ok_def)
  have v: "v + vl < e" using get_token_to_eol_slice [OF t q e] by auto
  have "ve \<le> v + vl" "v \<le> ve"
    using trim_value_ok [OF g, of v "v + vl"] v tr by (simp_all add: scan_ok_def)
  moreover have "case nm of None \<Rightarrow> nl = 0 | Some s \<Rightarrow> 0 < nl \<and> s + nl \<le> e"
  proof (cases "hs \<noteq> [] \<and> blank c")
    case True
    then show ?thesis using n by (simp add: header_name_def)
  next
    case False
    with n obtain nn ll q1 where "parse_token m e 58 p = Ok (nn, ll) q1" "ll \<noteq> 0"
        "nm = Some nn" "nl = ll"
      unfolding header_name_def if_P [OF False]
      by (auto simp: scan_simps split: if_splits prod.splits)
    moreover have "q1 < e"
      using parse_token_ok [OF g p, of 58] calculation by (simp add: scan_ok_def)
    ultimately show ?thesis using parse_token_slice [of m e 58 p nn ll q1] by auto
  qed
  ultimately show ?thesis using v hh by (auto simp: header_in_def split: option.split)
qed

lemma parse_headers_in:
  "parse_headers m e n hs p = Ok hs' q \<Longrightarrow> p \<le> e \<Longrightarrow> e \<le> length m \<Longrightarrow> length hs \<le> n \<Longrightarrow>
   \<forall>h\<in>set hs. header_in e h \<Longrightarrow> length hs' \<le> n \<and> (\<forall>h\<in>set hs'. header_in e h)"
proof (induction m e n hs p arbitrary: hs' rule: parse_headers.induct)
  case (1 m e n hs p)
  consider "hs' = hs"
    | h r where "header_line m e hs (m ! p) p = Ok h r" "parse_headers m e n (hs @ [h]) r = Ok hs' q"
        "p \<noteq> e" "p < length m" "m ! p \<noteq> 13" "m ! p \<noteq> 10" "length hs \<noteq> n"
    using "1.prems"(1)
    by (subst (asm) parse_headers.simps)
       (auto simp: check_eof_def deref_def expect_def expect_no_check_def scan_simps split: if_splits)
  then show ?case
  proof cases
    case 1
    then show ?thesis using "1.prems" by simp
  next
    case (2 h r)
    have r: "r \<le> e"
      using header_line_ok [OF grown_refl [OF "1.prems"(3)] "1.prems"(2), of hs "m ! p"] 2(1)
      by (simp add: scan_ok_def)
    show ?thesis
      using 2 "1.prems" r header_line_in [OF 2(1) "1.prems"(2,3)]
      by (intro "1.IH" [OF 2(3,4,5,6,7,1,2)]) auto
  qed
qed

end
