(* ===== verification/Network.thy ===== *)
theory Network
  imports Prelude
begin

text \<open>
  \<^verbatim>\<open>RuruNetwork.h\<close>, \<^verbatim>\<open>RuruNetwork.cpp\<close>: addresses, socket creation, the complete-write
  loop. The operating system is a parameter: \<open>kernel\<close> lists the calls the program makes, each a
  function on a world \<open>'w\<close> the model never looks into. Byte order is that of the little-endian
  hosts the program is built for.
\<close>

section \<open>Byte order\<close>

definition ntohl :: "u32 \<Rightarrow> u32" where
  "ntohl x = push_bit 24 (take_bit 8 x) OR push_bit 16 (take_bit 8 (drop_bit 8 x))
     OR push_bit 8 (take_bit 8 (drop_bit 16 x)) OR drop_bit 24 x"

definition htonl :: "u32 \<Rightarrow> u32" where
  "htonl x = ntohl x"

definition ntohs :: "u16 \<Rightarrow> u16" where
  "ntohs x = push_bit 8 (take_bit 8 x) OR drop_bit 8 x"

definition htons :: "u16 \<Rightarrow> u16" where
  "htons x = ntohs x"

lemma bit_ntohl:
  "bit (ntohl x) n \<longleftrightarrow> n < 32 \<and>
     bit x (if n < 8 then n + 24 else if n < 16 then n + 8 else if n < 24 then n - 8 else n - 24)"
  by (auto simp: ntohl_def bit_or_iff bit_push_bit_iff bit_take_bit_iff bit_drop_bit_eq
      algebra_simps dest: bit_imp_le_length)

lemma bit_ntohs:
  "bit (ntohs x) n \<longleftrightarrow> n < 16 \<and> bit x (if n < 8 then n + 8 else n - 8)"
  by (auto simp: ntohs_def bit_or_iff bit_push_bit_iff bit_take_bit_iff bit_drop_bit_eq
      algebra_simps dest: bit_imp_le_length)

lemma ntohl_htonl [simp]: "ntohl (htonl x) = x"
  by (rule bit_word_eqI) (auto simp: htonl_def bit_ntohl)

lemma ntohs_htons [simp]: "ntohs (htons x) = x"
  by (rule bit_word_eqI) (auto simp: htons_def bit_ntohs)

lemma ntohl_inj: "ntohl x = ntohl y \<Longrightarrow> x = y"
  by (metis htonl_def ntohl_htonl)

section \<open>Addresses\<close>

record RuruAddress =
  host :: u32
  port :: u16

definition RuruAddress_new :: RuruAddress where
  "RuruAddress_new = \<lparr>host = 0, port = 0\<rparr>"

record sockaddr_in =
  sin_family :: int
  sin_port :: u16
  sin_addr :: u32

abbreviation (input) AF_INET :: int where "AF_INET \<equiv> 2"
abbreviation (input) SOCK_STREAM :: int where "SOCK_STREAM \<equiv> 1"
abbreviation (input) SOCK_DGRAM :: int where "SOCK_DGRAM \<equiv> 2"
abbreviation (input) SOL_SOCKET :: int where "SOL_SOCKET \<equiv> 1"
abbreviation (input) SO_REUSEADDR :: int where "SO_REUSEADDR \<equiv> 2"
abbreviation (input) O_NONBLOCK :: u32 where "O_NONBLOCK \<equiv> 2048"
abbreviation (input) EAGAIN :: int where "EAGAIN \<equiv> 11"

text \<open>
  The C library's \<open>atoi\<close> on the text at index \<open>p\<close> of an array: white space, a sign, digits. It
  faults when the array ends before a byte that stops it, or when the value leaves \<open>int\<close>.
\<close>

definition is_space :: "byte \<Rightarrow> bool" where
  "is_space c \<longleftrightarrow> c = 32 \<or> (9 \<le> c \<and> c \<le> 13)"

definition is_digit :: "byte \<Rightarrow> bool" where
  "is_digit c \<longleftrightarrow> 48 \<le> c \<and> c \<le> 57"

definition digits_val :: "bytes \<Rightarrow> int" where
  "digits_val ds = foldl (\<lambda>v d. 10 * v + (uint d - 48)) 0 ds"

definition atoi :: "bytes \<Rightarrow> nat \<Rightarrow> int option" where
  "atoi m p =
     (case dropWhile is_space (drop p m) of
        [] \<Rightarrow> None
      | c # cs \<Rightarrow>
          let s = (if c = 45 \<or> c = 43 then cs else c # cs);
              v = digits_val (takeWhile is_digit s)
          in if dropWhile is_digit s = [] then None else i32 (if c = 45 then - v else v))"

section \<open>The calls of the operating system\<close>

record 'w kernel =
  sys_socket :: "int \<Rightarrow> int \<Rightarrow> int \<Rightarrow> 'w \<Rightarrow> int \<times> 'w"
  sys_setsockopt :: "int \<Rightarrow> int \<Rightarrow> int \<Rightarrow> int \<Rightarrow> 'w \<Rightarrow> 'w"
  sys_bind :: "int \<Rightarrow> sockaddr_in \<Rightarrow> 'w \<Rightarrow> int \<times> 'w"
  sys_getfl :: "int \<Rightarrow> 'w \<Rightarrow> u32 \<times> 'w"
  sys_setfl :: "int \<Rightarrow> u32 \<Rightarrow> 'w \<Rightarrow> u32 \<times> 'w"
  sys_listen :: "int \<Rightarrow> int \<Rightarrow> 'w \<Rightarrow> int \<times> 'w"
  sys_accept :: "int \<Rightarrow> 'w \<Rightarrow> int \<times> 'w"
  sys_close :: "int \<Rightarrow> 'w \<Rightarrow> 'w"
  sys_read :: "int \<Rightarrow> nat \<Rightarrow> 'w \<Rightarrow> int \<times> bytes \<times> 'w"
  sys_write :: "int \<Rightarrow> bytes \<Rightarrow> 'w \<Rightarrow> int \<times> 'w"
  sys_recvfrom :: "int \<Rightarrow> nat \<Rightarrow> 'w \<Rightarrow> int \<times> bytes \<times> sockaddr_in \<times> 'w"
  sys_sendto :: "int \<Rightarrow> bytes \<Rightarrow> sockaddr_in \<Rightarrow> 'w \<Rightarrow> 'w"
  sys_epoll_create :: "'w \<Rightarrow> int \<times> 'w"
  sys_epoll_add :: "int \<Rightarrow> int \<Rightarrow> nat \<Rightarrow> 'w \<Rightarrow> int \<times> 'w"
  sys_epoll_wait :: "int \<Rightarrow> nat \<Rightarrow> 'w \<Rightarrow> (nat \<times> u32) list \<times> 'w"
  sys_errno :: "'w \<Rightarrow> int"
  libc_inet_addr :: "bytes \<Rightarrow> u32"
  libc_inet_ntoa :: "u32 \<Rightarrow> bytes"

section \<open>Sockets\<close>

text \<open>
  \<open>perror\<close> only prints and is left out. The \<open>host\<close> and \<open>port\<close> arguments are C strings given as
  arrays that hold their terminator.
\<close>

definition CreateTcpSocket :: "('w, 'z) kernel_scheme \<Rightarrow> bytes \<Rightarrow> bytes \<Rightarrow> 'w \<Rightarrow> (int \<times> 'w) option" where
  "CreateTcpSocket k hst prt w =
     (let (fd, w1) = sys_socket k AF_INET SOCK_STREAM 0 w in
      if fd < 0 then Some (-1, w1)
      else let w2 = sys_setsockopt k fd SOL_SOCKET SO_REUSEADDR 1 w1 in
      do {
        n \<leftarrow> atoi prt 0;
        let addr = \<lparr>sin_family = AF_INET, sin_port = htons (word_of_int n),
                    sin_addr = libc_inet_addr k hst\<rparr>;
            (r, w3) = sys_bind k fd addr w2
        in if r < 0 then Some (-1, w3) else Some (fd, w3)
      })"

definition CreateUdpSocket :: "('w, 'z) kernel_scheme \<Rightarrow> bytes \<Rightarrow> bytes \<Rightarrow> 'w \<Rightarrow> (int \<times> 'w) option" where
  "CreateUdpSocket k hst prt w =
     (let (fd, w1) = sys_socket k AF_INET SOCK_DGRAM 0 w in
      if fd < 0 then Some (-1, w1)
      else do {
        n \<leftarrow> atoi prt 0;
        let addr = \<lparr>sin_family = AF_INET, sin_port = htons (word_of_int n),
                    sin_addr = libc_inet_addr k hst\<rparr>;
            (r, w2) = sys_bind k fd addr w1
        in if r < 0 then Some (-1, w2) else Some (fd, w2)
      })"

text \<open>The result \<open>-1\<close> of \<open>fcntl\<close> is the all-ones word of the 32-bit \<open>flags\<close>.\<close>

definition SetNonBlocking :: "('w, 'z) kernel_scheme \<Rightarrow> int \<Rightarrow> 'w \<Rightarrow> int \<times> 'w" where
  "SetNonBlocking k sfd w =
     (let (flags, w1) = sys_getfl k sfd w in
      if flags = -1 then (-1, w1)
      else let (r, w2) = sys_setfl k sfd (flags OR O_NONBLOCK) w1 in
        if r = -1 then (-1, w2) else (0, w2))"

definition Ip2Host :: "('w, 'z) kernel_scheme \<Rightarrow> bytes \<Rightarrow> u32" where
  "Ip2Host k ip = ntohl (libc_inet_addr k ip)"

definition Host2Ip :: "('w, 'z) kernel_scheme \<Rightarrow> u32 \<Rightarrow> bytes" where
  "Host2Ip k h = libc_inet_ntoa k (htonl h)"

text \<open>
  The write loop: it ends when every byte was taken, when \<open>write\<close> takes none, or on an error.
  Nothing in the code bounds the number of turns, so not returning is the value \<open>None\<close>.
\<close>

partial_function (option) SocketWrite_loop ::
  "('w, 'z) kernel_scheme \<Rightarrow> int \<Rightarrow> bytes \<Rightarrow> int \<Rightarrow> 'w \<Rightarrow> (int \<times> 'w) option"
where
  "SocketWrite_loop k fd buf written w =
     (if written = int (length buf) then Some (written, w)
      else let (r, w') = sys_write k fd (drop (nat written) buf) w in
        if r = 0 then Some (written, w')
        else if r = -1 then Some (-1, w')
        else SocketWrite_loop k fd buf (written + r) w')"

definition SocketWrite :: "('w, 'z) kernel_scheme \<Rightarrow> int \<Rightarrow> bytes \<Rightarrow> 'w \<Rightarrow> (int \<times> 'w) option" where
  "SocketWrite k fd buf w = SocketWrite_loop k fd buf 0 w"

section \<open>The write loop delivers a prefix and says how long it is\<close>

text \<open>
  What POSIX says of \<open>write\<close>, stated with a log \<open>sent\<close> of the bytes the kernel took: the result is
  \<open>-1\<close> or a count of at most the bytes offered, and exactly that many of the first bytes were taken.
\<close>

definition write_contract :: "('w, 'z) kernel_scheme \<Rightarrow> ('w \<Rightarrow> bytes) \<Rightarrow> bool" where
  "write_contract k sent \<longleftrightarrow>
     (\<forall>fd bs w. case sys_write k fd bs w of (r, w') \<Rightarrow>
        -1 \<le> r \<and> r \<le> int (length bs) \<and> sent w' = sent w @ take (nat r) bs)"

lemma write_contractD:
  "write_contract k sent \<Longrightarrow> sys_write k fd bs w = (r, w') \<Longrightarrow>
     -1 \<le> r \<and> r \<le> int (length bs) \<and> sent w' = sent w @ take (nat r) bs"
  unfolding write_contract_def by (metis (mono_tags, lifting) case_prod_conv)

lemma SocketWrite_loop_prefix:
  assumes k: "write_contract k sent"
  shows "0 \<le> written \<Longrightarrow> written \<le> int (length buf) \<Longrightarrow>
    \<exists>r w' n. SocketWrite_loop k fd buf written w = Some (r, w')
      \<and> nat written \<le> n \<and> n \<le> length buf
      \<and> sent w' = sent w @ take (n - nat written) (drop (nat written) buf)
      \<and> (r = -1 \<or> r = int n)"
proof (induction "nat (int (length buf) - written)" arbitrary: written w rule: less_induct)
  case less
  show ?case
  proof (cases "written = int (length buf)")
    case True
    then have "SocketWrite_loop k fd buf written w = Some (int (length buf), w)"
      by (subst SocketWrite_loop.simps) simp
    with True show ?thesis by auto
  next
    case False
    obtain r w1 where r: "sys_write k fd (drop (nat written) buf) w = (r, w1)" by fastforce
    note c = write_contractD [OF k r]
    show ?thesis
    proof (cases "r = 0 \<or> r = -1")
      case True
      then show ?thesis
        using c r False less.prems
        by (auto simp: SocketWrite_loop.simps [of k fd buf written w] intro!: exI [of _ "nat written"])
    next
      case more: False
      with c have r1: "1 \<le> r" "r \<le> int (length buf - nat written)" by auto
      with less.prems have b: "0 \<le> written + r" "written + r \<le> int (length buf)" by auto
      have step: "SocketWrite_loop k fd buf written w = SocketWrite_loop k fd buf (written + r) w1"
        using False more r by (simp add: SocketWrite_loop.simps [of k fd buf written w])
      have less1: "nat (int (length buf) - (written + r)) < nat (int (length buf) - written)"
        using r1 b less.prems False by auto
      obtain r' w' n where IH: "SocketWrite_loop k fd buf (written + r) w1 = Some (r', w')"
          "nat (written + r) \<le> n" "n \<le> length buf"
          "sent w' = sent w1 @ take (n - nat (written + r)) (drop (nat (written + r)) buf)"
          "r' = -1 \<or> r' = int n"
        using less.hyps [OF less1 b] by blast
      have split: "nat (written + r) = nat written + nat r"
        using less.prems r1 by (simp add: nat_add_distrib)
      have "sent w' = sent w @ take (n - nat written) (drop (nat written) buf)"
      proof -
        have d: "n - nat written = nat r + (n - nat (written + r))" using IH(2) split by simp
        have e: "drop (nat (written + r)) buf = drop (nat r) (drop (nat written) buf)"
          unfolding split drop_drop by (rule arg_cong2 [where f = drop]) simp_all
        have "take (n - nat written) (drop (nat written) buf)
            = take (nat r) (drop (nat written) buf)
              @ take (n - nat (written + r)) (drop (nat (written + r)) buf)"
          by (simp only: d e take_add)
        then show ?thesis using IH(4) c by simp
      qed
      moreover have "nat written \<le> n" using IH(2) split by simp
      ultimately show ?thesis using step IH by auto
    qed
  qed
qed

lemma SocketWrite_prefix:
  assumes "write_contract k sent"
  shows "\<exists>r w' n. SocketWrite k fd buf w = Some (r, w') \<and> n \<le> length buf
    \<and> sent w' = sent w @ take n buf \<and> (r = -1 \<or> r = int n)"
  using SocketWrite_loop_prefix [OF assms, of 0 buf fd w] by (auto simp: SocketWrite_def)

section \<open>Non-blocking mode\<close>

text \<open>\<open>fcntl\<close> seen through the flags it keeps for a descriptor.\<close>

definition fcntl_contract :: "('w, 'z) kernel_scheme \<Rightarrow> ('w \<Rightarrow> int \<Rightarrow> u32) \<Rightarrow> bool" where
  "fcntl_contract k flags \<longleftrightarrow>
     (\<forall>fd w. case sys_getfl k fd w of (f, w') \<Rightarrow> flags w' = flags w \<and> (f = -1 \<or> f = flags w fd))
     \<and> (\<forall>fd v w. case sys_setfl k fd v w of (r, w') \<Rightarrow>
           flags w' = (if r = -1 then flags w else (flags w)(fd := v)))"

lemma SetNonBlocking_flags:
  assumes "fcntl_contract k flags" and "SetNonBlocking k fd w = (r, w')"
  shows "(r = 0 \<longrightarrow> flags w' = (flags w)(fd := flags w fd OR 2048)) \<and> (r \<noteq> 0 \<longrightarrow> r = -1 \<and> flags w' = flags w)"
proof -
  obtain f w1 where f: "sys_getfl k fd w = (f, w1)" by fastforce
  obtain q w2 where q: "sys_setfl k fd (f OR 2048) w1 = (q, w2)" by fastforce
  have g: "flags w1 = flags w" "f = -1 \<or> f = flags w fd"
    using assms(1) f unfolding fcntl_contract_def by (metis (mono_tags, lifting) case_prod_conv)+
  have s: "flags w2 = (if q = -1 then flags w1 else (flags w1)(fd := f OR 2048))"
    using assms(1) q unfolding fcntl_contract_def by (metis (mono_tags, lifting) case_prod_conv)
  show ?thesis
    using assms(2) f q g s by (auto simp: SetNonBlocking_def split: if_splits)
qed

lemma Ip2Host_Host2Ip:
  "(\<And>a. libc_inet_addr k (libc_inet_ntoa k a) = a) \<Longrightarrow> Ip2Host k (Host2Ip k h) = h"
  by (simp add: Ip2Host_def Host2Ip_def)

end
