(* ===== verification/Http_Render.thy ===== *)
theory Http_Render
  imports Http_Safety Network
begin

text \<open>
  Functional correctness of the request parser: a rendered request, followed by any bytes, is
  parsed back to slices that hold exactly the rendered parts, and the index returned is the length
  of the rendered head.
\<close>

section \<open>Text at a position of the buffer\<close>

definition at :: "bytes \<Rightarrow> nat \<Rightarrow> bytes \<Rightarrow> bool" where
  "at m p xs \<longleftrightarrow> p + length xs \<le> length m \<and> chunk m p (length xs) = xs"

lemma at_Nil [simp]: "at m p [] \<longleftrightarrow> p \<le> length m"
  by (simp add: at_def chunk_def)

lemma at_append: "at m p (xs @ ys) \<longleftrightarrow> at m p xs \<and> at m (p + length xs) ys"
  by (auto simp: at_def chunk_def take_add add.commute append_eq_append_conv)

lemma at_Cons: "at m p (x # xs) \<longleftrightarrow> p < length m \<and> m ! p = x \<and> at m (Suc p) xs"
proof -
  have "at m p [x] \<longleftrightarrow> p < length m \<and> m ! p = x"
    by (auto simp: at_def chunk_def take_Suc_conv_app_nth hd_drop_conv_nth take_Suc)
  then show ?thesis using at_append [of m p "[x]" xs] by simp
qed

lemma at_whole: "at (a @ b) 0 a"
  by (simp add: at_def chunk_def)

lemma at_chunk: "at m p xs \<Longrightarrow> chunk m p (length xs) = xs"
  by (simp add: at_def)

section \<open>Each scanner on the text it is meant for\<close>

lemma token_char_ne: "token_char c \<Longrightarrow> c \<noteq> 32 \<and> c \<noteq> 58 \<and> c \<noteq> 13 \<and> c \<noteq> 10 \<and> c \<noteq> 9"
  by (auto simp: token_char_def token_char_map_def)

lemma token_loop_at:
  "at m p (t @ [nc]) \<Longrightarrow> p + length t < e \<Longrightarrow> \<forall>c\<in>set t. token_char c \<and> c \<noteq> nc \<Longrightarrow>
   token_loop m e nc s p = Ok (s, p + length t - s) (p + length t)"
proof (induction t arbitrary: p)
  case Nil
  then show ?case by (subst token_loop.simps) (simp add: at_Cons mem_simps)
next
  case (Cons c t)
  then show ?case
    by (subst token_loop.simps) (simp add: at_Cons mem_simps check_eof_def)
qed

lemma parse_token_at:
  "at m p (t @ [nc]) \<Longrightarrow> p + length t < e \<Longrightarrow> \<forall>c\<in>set t. token_char c \<and> c \<noteq> nc \<Longrightarrow>
   parse_token m e nc p = Ok (p, length t) (p + length t)"
  by (simp add: parse_token_def findchar_fast_def check_eof_def token_loop_at)

definition path_char :: "byte \<Rightarrow> bool" where
  "path_char c \<longleftrightarrow> c \<noteq> 32 \<and> (IS_PRINTABLE_ASCII c \<or> \<not> (c < 32 \<or> c = 127))"

lemma advance_loop_at:
  "at m p (t @ [32]) \<Longrightarrow> p + length t < e \<Longrightarrow> \<forall>c\<in>set t. path_char c \<Longrightarrow>
   advance_loop m e s p = Ok (s, p + length t - s) (p + length t)"
proof (induction t arbitrary: p)
  case Nil
  then show ?case by (subst advance_loop.simps) (simp add: at_Cons mem_simps)
next
  case (Cons c t)
  then show ?case
    by (subst advance_loop.simps) (auto simp: at_Cons mem_simps check_eof_def path_char_def)
qed

lemma advance_token_at:
  "at m p (t @ [32]) \<Longrightarrow> p + length t < e \<Longrightarrow> \<forall>c\<in>set t. path_char c \<Longrightarrow>
   advance_token m e p = Ok (p, length t) (p + length t)"
  by (simp add: advance_token_def findchar_fast_def check_eof_def advance_loop_at)

lemma skip_spaces_at:
  "at m (Suc p) [c] \<Longrightarrow> c \<noteq> 32 \<Longrightarrow> Suc p < e \<Longrightarrow> skip_spaces m e p = Ok () (Suc p)"
  by (subst skip_spaces.simps) (simp add: at_Cons mem_simps check_eof_def)

lemma skip_blanks_at:
  "at m p [b, c] \<Longrightarrow> blank b \<Longrightarrow> \<not> blank c \<Longrightarrow> Suc p < e \<Longrightarrow> skip_blanks m e p = Ok () (Suc p)"
  by (subst skip_blanks.simps, subst skip_blanks.simps) (simp add: at_Cons mem_simps check_eof_def)

lemma parse_http_version_at:
  "at m p (ascii ''HTTP/1.'' @ [d]) \<Longrightarrow> p + 8 < e \<Longrightarrow> is_digit d \<Longrightarrow>
   parse_http_version m e p = Ok (uint d - 48) (p + 8)"
  by (simp add: parse_http_version_def expect_no_check_def parse_int_def ascii_def at_Cons mem_simps
      is_digit_def not_less eval_nat_numeral)

definition value_char :: "byte \<Rightarrow> bool" where
  "value_char c \<longleftrightarrow> IS_PRINTABLE_ASCII c \<or> \<not> line_ctl c"

lemma eol_slow_at:
  "at m p (v @ [c]) \<Longrightarrow> p + length v < e \<Longrightarrow> e \<le> length m \<Longrightarrow> \<forall>x\<in>set v. value_char x \<Longrightarrow>
   \<not> value_char c \<Longrightarrow> eol_slow m e p = Ok () (p + length v)"
proof (induction v arbitrary: p)
  case Nil
  then show ?case by (subst eol_slow.simps) (simp add: at_Cons mem_simps check_eof_def value_char_def)
next
  case (Cons x v)
  then show ?case
    by (subst eol_slow.simps) (auto simp: at_Cons mem_simps check_eof_def value_char_def)
qed

lemma get_token_to_eol_at:
  assumes a: "at m p (v @ [13, 10])" and e: "p + length v + 1 < e" "e \<le> length m"
    and v: "\<forall>x\<in>set v. value_char x"
  shows "get_token_to_eol m e p = Ok (p, length v) (p + length v + 2)"
proof -
  have n: "\<not> value_char 13" by (simp add: value_char_def IS_PRINTABLE_ASCII_def line_ctl_def)
  have "at m p (v @ [13])" "m ! (p + length v) = 13" "m ! Suc (p + length v) = 10"
    using a by (simp_all add: at_append at_Cons)
  then show ?thesis
    using eol_slow_at [of m p v 13 e] n e v
    by (simp add: get_token_to_eol_simple line_end_def expect_def expect_no_check_def
        check_eof_def mem_simps)
qed

lemma trim_value_at:
  "at m p v \<Longrightarrow> v = [] \<or> \<not> blank (last v) \<Longrightarrow> trim_value m p (p + length v) = Ok () (p + length v)"
proof (cases v rule: rev_cases)
  case Nil
  then show ?thesis by (subst trim_value.simps) simp
next
  case (snoc ys y)
  assume "at m p v" "v = [] \<or> \<not> blank (last v)"
  with snoc show ?thesis
    by (subst trim_value.simps) (simp add: at_append at_Cons mem_simps)
qed

section \<open>Rendered requests\<close>

type_synonym field = "bytes \<times> bytes"

definition render_field :: "field \<Rightarrow> bytes" where
  "render_field f = fst f @ [58, 32] @ snd f @ [13, 10]"

definition render_fields :: "field list \<Rightarrow> bytes" where
  "render_fields fs = concat (map render_field fs) @ [13, 10]"

definition render_request :: "bytes \<Rightarrow> bytes \<Rightarrow> byte \<Rightarrow> field list \<Rightarrow> bytes" where
  "render_request meth pth d fs =
     meth @ [32] @ pth @ [32] @ (ascii ''HTTP/1.'' @ [d]) @ [13, 10] @ render_fields fs"

definition field_ok :: "field \<Rightarrow> bool" where
  "field_ok f \<longleftrightarrow> fst f \<noteq> [] \<and> (\<forall>c\<in>set (fst f). token_char c) \<and> (\<forall>c\<in>set (snd f). value_char c)
     \<and> (snd f = [] \<or> \<not> blank (hd (snd f)) \<and> \<not> blank (last (snd f)))"

definition field_at :: "bytes \<Rightarrow> phr_header \<Rightarrow> field \<Rightarrow> bool" where
  "field_at m h f \<longleftrightarrow> (\<exists>s. hname h = Some s \<and> chunk m s (hname_len h) = fst f)
     \<and> hname_len h = length (fst f) \<and> hvalue_len h = length (snd f)
     \<and> chunk m (hvalue h) (hvalue_len h) = snd f"

lemma header_name_at:
  assumes a: "at m p (n @ [58, 32, c])" and e: "p + length n + 2 < e"
    and n: "n \<noteq> []" "\<forall>x\<in>set n. token_char x" and c: "\<not> blank c"
  shows "header_name m e hs (m ! p) p = Ok (Some p, length n) (p + length n + 2)"
proof -
  have first: "\<not> blank (m ! p)"
    using a n token_char_ne by (cases n) (auto simp: at_Cons blank_def)
  have colon: "parse_token m e 58 p = Ok (p, length n) (p + length n)"
    using a e n token_char_ne by (intro parse_token_at) (auto simp: at_append at_Cons)
  have "at m (Suc (p + length n)) [32, c]"
    using a by (simp add: at_append at_Cons)
  then have "skip_blanks m e (Suc (p + length n)) = Ok () (Suc (Suc (p + length n)))"
    using e c by (intro skip_blanks_at) (auto simp: blank_def)
  with first colon n(1) show ?thesis by (simp add: header_name_def)
qed

lemma header_line_at:
  assumes a: "at m p (render_field f)" and e: "p + length (render_field f) \<le> e" "e \<le> length m"
    and f: "field_ok f"
  shows "\<exists>h. header_line m e hs (m ! p) p = Ok h (p + length (render_field f)) \<and> field_at m h f"
proof -
  obtain n v where nv: "f = (n, v)" by fastforce
  let ?q = "p + length n + 2"
  have at_n: "at m p n" and at_v: "at m ?q (v @ [13, 10])"
    using a nv by (simp_all add: render_field_def at_append at_Cons add.assoc)
  define c where "c = hd (v @ [13::byte])"
  have "at m p (n @ [58, 32, c])"
    using a nv unfolding c_def by (cases v) (simp_all add: render_field_def at_append at_Cons)
  moreover have "\<not> blank c"
    using f nv unfolding c_def by (cases v) (auto simp: field_ok_def blank_def)
  ultimately have name: "header_name m e hs (m ! p) p = Ok (Some p, length n) ?q"
    using f nv e by (intro header_name_at [where c = c]) (auto simp: field_ok_def render_field_def)
  have line: "get_token_to_eol m e ?q = Ok (?q, length v) (?q + length v + 2)"
    using f nv e at_v by (intro get_token_to_eol_at) (auto simp: field_ok_def render_field_def)
  have at_v': "at m ?q v" using at_v by (simp add: at_append)
  have trim: "trim_value m ?q (?q + length v) = Ok () (?q + length v)"
    using f nv at_v' by (intro trim_value_at) (auto simp: field_ok_def)
  show ?thesis
    using name line trim nv at_chunk [OF at_n] at_chunk [OF at_v']
    by (simp add: header_line_def field_at_def render_field_def)
qed

lemma render_field_start: "field_ok f \<Longrightarrow> \<exists>c cs. render_field f = c # cs \<and> token_char c"
  by (cases "fst f") (auto simp: field_ok_def render_field_def)

lemma parse_headers_at:
  "at m p (render_fields fs) \<Longrightarrow> p + length (render_fields fs) \<le> e \<Longrightarrow> e \<le> length m \<Longrightarrow>
   \<forall>f\<in>set fs. field_ok f \<Longrightarrow> length hs + length fs \<le> n \<Longrightarrow>
   \<exists>hs'. parse_headers m e n hs p = Ok (hs @ hs') (p + length (render_fields fs))
     \<and> list_all2 (field_at m) hs' fs"
proof (induction fs arbitrary: p hs)
  case Nil
  then show ?case
    by (subst parse_headers.simps)
       (simp add: render_fields_def at_Cons check_eof_def mem_simps expect_def expect_no_check_def)
next
  case (Cons f fs)
  have cat: "render_fields (f # fs) = render_field f @ render_fields fs"
    by (simp add: render_fields_def)
  have a: "at m p (render_field f)" "at m (p + length (render_field f)) (render_fields fs)"
    using Cons.prems(1) by (simp_all add: cat at_append)
  have len: "p + length (render_field f) + length (render_fields fs) \<le> e"
    using Cons.prems(2) by (simp add: cat)
  obtain h where h: "header_line m e hs (m ! p) p = Ok h (p + length (render_field f))" "field_at m h f"
    using header_line_at [OF a(1) _ Cons.prems(3)] len Cons.prems(4) by auto
  obtain hs' where hs': "parse_headers m e n (hs @ [h]) (p + length (render_field f))
       = Ok ((hs @ [h]) @ hs') (p + length (render_field f) + length (render_fields fs))"
      "list_all2 (field_at m) hs' fs"
    using Cons.IH [OF a(2) len Cons.prems(3), of "hs @ [h]"] Cons.prems(4,5) by auto
  obtain c cs where c: "render_field f = c # cs" "token_char c"
    using render_field_start Cons.prems(4) by fastforce
  then have mp: "m ! p = c" "p < length m" using a(1) by (simp_all add: at_Cons)
  have "p \<noteq> e" using len c by simp
  then have "parse_headers m e n hs p
      = Ok (hs @ h # hs') (p + length (render_fields (f # fs)))"
    using h hs' mp token_char_ne [OF c(2)] Cons.prems(5)
    by (subst parse_headers.simps) (simp add: check_eof_def mem_simps cat add.assoc)
  with h hs' show ?case by auto
qed

lemma parse_request_at:
  assumes a: "at m 0 (render_request meth pth d fs)" and e: "length (render_request meth pth d fs) \<le> e"
    "e \<le> length m"
    and meth: "meth \<noteq> []" "\<forall>c\<in>set meth. token_char c" and pth: "pth \<noteq> []" "\<forall>c\<in>set pth. path_char c"
    and d: "is_digit d" and fs: "\<forall>f\<in>set fs. field_ok f" "length fs \<le> n"
  shows "\<exists>hs. parse_request m e n 0 =
      Ok \<lparr>req_method = (0, length meth), req_path = (length meth + 1, length pth),
          minor_version = uint d - 48, headers = hs\<rparr> (length (render_request meth pth d fs))
    \<and> list_all2 (field_at m) hs fs"
proof -
  let ?lm = "length meth" and ?lp = "length pth"
  let ?v = "?lm + ?lp + 2"
  note len = e(1) [unfolded render_request_def, simplified]
  have parts: "at m 0 (meth @ [32])" "at m (Suc ?lm) (pth @ [32])"
      "at m ?v (ascii ''HTTP/1.'' @ [d])" "at m (?v + 8) [13, 10]" "at m (?v + 10) (render_fields fs)"
    using a by (simp_all add: render_request_def at_append at_Cons eval_nat_numeral)
  obtain c cs where c: "meth = c # cs" "token_char c" using meth by (cases meth) auto
  have m0: "m ! 0 = c" "0 < length m" using parts(1) c by (simp_all add: at_Cons)
  have start: "skip_empty_line m e 0 = Ok () 0"
    using m0 token_char_ne [OF c(2)] len
    by (auto simp: skip_empty_line_def check_eof_def mem_simps)
  have tok: "parse_token m e 32 0 = Ok (0, ?lm) ?lm"
    using parse_token_at [OF parts(1), of e] meth token_char_ne len by auto
  have sp1: "skip_spaces m e ?lm = Ok () (Suc ?lm)"
  proof (rule skip_spaces_at)
    show "at m (Suc ?lm) [hd pth]" "hd pth \<noteq> 32"
      using parts(2) pth by (cases pth; simp add: at_Cons path_char_def)+
    show "Suc ?lm < e" using len by simp
  qed
  have adv: "advance_token m e (Suc ?lm) = Ok (Suc ?lm, ?lp) (Suc ?lm + ?lp)"
    using parts(2) pth len by (intro advance_token_at) auto
  have sp2: "skip_spaces m e (Suc ?lm + ?lp) = Ok () ?v"
    using parts(3) len skip_spaces_at [of m "Suc ?lm + ?lp" 72 e]
    by (simp add: at_append at_Cons ascii_def)
  have ver: "parse_http_version m e ?v = Ok (uint d - 48) (?v + 8)"
    using parts(3) d len by (intro parse_http_version_at) (auto simp: is_digit_def)
  have eol: "end_of_request_line m e (?v + 8) = Ok () (?v + 10)"
    using parts(4) len
    by (auto simp: end_of_request_line_def expect_def expect_no_check_def check_eof_def mem_simps at_Cons)
  obtain hs where hs: "parse_headers m e n [] (?v + 10) = Ok hs (?v + 10 + length (render_fields fs))"
      "list_all2 (field_at m) hs fs"
    using parse_headers_at [OF parts(5) _ e(2) fs(1), of "[]" n] fs(2) len by auto
  have "parse_request m e n 0 = Ok \<lparr>req_method = (0, ?lm), req_path = (?lm + 1, ?lp),
      minor_version = uint d - 48, headers = hs\<rparr> (length (render_request meth pth d fs))"
    using start tok sp1 adv sp2 ver eol hs meth(1) pth(1)
    by (simp add: parse_request_def render_request_def)
  with hs show ?thesis by blast
qed

end
