(* ===== verification/Http_Properties.thy ===== *)
theory Http_Properties
  imports Http_Render
begin

text \<open>
  The properties of \<^verbatim>\<open>picohttpparser.c\<close>: what a caller of \<open>phr_parse_request\<close>,
  \<open>phr_parse_response\<close> and \<open>phr_parse_headers\<close> may rely on.
\<close>

section \<open>The answers of the entry points\<close>

definition slice_in :: "nat \<Rightarrow> nat \<times> nat \<Rightarrow> bool" where
  "slice_in e v \<longleftrightarrow> fst v + snd v \<le> e"

lemma parse_request_in:
  assumes "parse_request m e n p = Ok r q" and "p \<le> e" and "e \<le> length m"
  shows "p < q \<and> q \<le> e \<and> slice_in e (req_method r) \<and> slice_in e (req_path r)
    \<and> length (headers r) \<le> n \<and> (\<forall>h\<in>set (headers r). header_in e h)"
proof -
  note g = grown_refl [OF assms(3)]
  have q: "p < q" "q \<le> e"
    using parse_request_ok [OF g assms(2), of n] assms(1) by (auto simp: scan_ok_def)
  obtain p1 meth p2 p3 pth p4 p5 v p6 p7 hs where
      s: "skip_empty_line m e p = Ok () p1" "parse_token m e 32 p1 = Ok meth p2"
        "skip_spaces m e p2 = Ok () p3" "advance_token m e p3 = Ok pth p4"
        "skip_spaces m e p4 = Ok () p5" "parse_http_version m e p5 = Ok v p6"
        "end_of_request_line m e p6 = Ok () p7" "parse_headers m e n [] p7 = Ok hs q"
      and r: "r = \<lparr>req_method = meth, req_path = pth, minor_version = v, headers = hs\<rparr>"
    using assms(1) by (auto simp: parse_request_def scan_bind_Ok_iff split: if_splits)
  have b1: "p1 \<le> e" using skip_empty_line_ok [OF g assms(2)] s(1) by (simp add: scan_ok_def)
  have b2: "p2 < e" using parse_token_ok [OF g b1, of 32] s(2) by (simp add: scan_ok_def)
  have b3: "p3 < e" using skip_spaces_ok [OF g, of p2] b2 s(3) by (simp add: scan_ok_def)
  have b4: "p4 < e" using advance_token_ok [OF g, of p3] b3 s(4) by (simp add: scan_ok_def)
  have b5: "p5 < e" using skip_spaces_ok [OF g, of p4] b4 s(5) by (simp add: scan_ok_def)
  have b6: "p6 < e" using parse_http_version_ok [OF g, of p5] b5 s(6) by (simp add: scan_ok_def)
  have b7: "p7 \<le> e" using end_of_request_line_ok [OF g b6] s(7) by (simp add: scan_ok_def)
  have "slice_in e meth" using parse_token_slice [of m e 32 p1 "fst meth" "snd meth" p2] s(2) b2
    by (auto simp: slice_in_def)
  moreover have "slice_in e pth" using advance_token_slice [of m e p3 "fst pth" "snd pth" p4] s(4) b4
    by (auto simp: slice_in_def)
  moreover have "length hs \<le> n \<and> (\<forall>h\<in>set hs. header_in e h)"
    by (rule parse_headers_in [OF s(8) b7 assms(3)]) simp_all
  ultimately show ?thesis using q r by simp
qed

lemma is_complete_cases:
  assumes "len \<le> length m" and "last_len \<le> len"
  shows "(\<exists>q. is_complete m len last_len = Ok () q) \<or> is_complete m len last_len = Fail (-1)
    \<or> is_complete m len last_len = Fail (-2)"
  using complete.answers [OF assms(1), of "if last_len < 3 then 0 else last_len - 3" 0] assms(2)
  by (auto simp: is_complete_def)

text \<open>The completeness check in front of a parser leaves its three kinds of answers.\<close>

lemma checked_run:
  assumes "len \<le> length m" and "last_len \<le> len"
  shows "scan_bind (if last_len \<noteq> 0 then is_complete m len last_len else Ok () 0) (\<lambda>_ _. r) \<in> {r, Fail (-1), Fail (-2)}"
  using is_complete_cases [OF assms] by (cases "last_len = 0") auto

text \<open>
  What the entry points answer: -1, -2, or what was stored with the count \<open>q\<close> of bytes consumed, converted
  to \<open>int\<close>. The conversion is harmless below 2 GiB and gives a negative number for counts behind.
\<close>

definition count_cast :: "nat \<Rightarrow> int \<Rightarrow> bool" where
  "count_cast q a \<longleftrightarrow> a = int_cast q \<and> (if q < 2 ^ 31 then a = int q else if q < 2 ^ 32 then a = int q - 2 ^ 32 else True)"

lemma count_cast_int: "count_cast q (int_cast q)"
  by (simp add: count_cast_def int_cast_small int_cast_large)

text \<open>
  C2: for any bytes, any header capacity and any position up to which the text was seen before,
  \<open>phr_parse_request\<close> returns without reading outside of the first \<open>len\<close> bytes. Its answer is -1, -2
  or the count of the bytes consumed, positive, at most \<open>len\<close>, and converted to \<open>int\<close> as the code does;
  then at most \<open>max_headers\<close> headers were stored and the method, the path and every header name
  and value lie inside of the bytes given. For texts below 2 GiB the answer is the count itself.
\<close>
theorem phr_parse_request_safe:
  assumes "len \<le> length m" and "last_len \<le> len"
  shows "case phr_parse_request m len max_headers last_len of
      None \<Rightarrow> False
    | Some (a, None) \<Rightarrow> a = -1 \<or> a = -2
    | Some (a, Some r) \<Rightarrow> (\<exists>q. 0 < q \<and> q \<le> len \<and> count_cast q a) \<and> (len < 2 ^ 31 \<longrightarrow> 0 < a \<and> a \<le> int len)
        \<and> slice_in len (req_method r) \<and> slice_in len (req_path r)
        \<and> length (headers r) \<le> max_headers \<and> (\<forall>h\<in>set (headers r). header_in len h)"
proof -
  have c: "scan_bind (if last_len \<noteq> 0 then is_complete m len last_len else Ok () 0) (\<lambda>_ _. parse_request m len max_headers 0)
      \<in> {parse_request m len max_headers 0, Fail (-1), Fail (-2)}"
    by (rule checked_run [OF assms])
  have a: "parse_request m len max_headers 0 \<in> {Fail (-1), Fail (-2)} \<or> (\<exists>r q. parse_request m len max_headers 0 = Ok r q)"
    using req.answers [OF assms(1), of 0 max_headers] by auto
  from c have "phr_parse_request m len max_headers last_len \<in> {returned (parse_request m len max_headers 0), Some (-1, None), Some (-2, None)}"
    unfolding phr_parse_request_def by auto
  then consider "phr_parse_request m len max_headers last_len = Some (-1, None)"
    | "phr_parse_request m len max_headers last_len = Some (-2, None)"
    | r q where "phr_parse_request m len max_headers last_len = Some (int_cast q, Some r)" "parse_request m len max_headers 0 = Ok r q"
    using a by auto
  then show ?thesis
  proof cases
    case (3 r q)
    note p = parse_request_in [OF 3(2) le0 assms(1)]
    then have "len < 2 ^ 31 \<longrightarrow> int_cast q = int q" by (simp add: int_cast_small)
    then show ?thesis using 3(1) p count_cast_int [of q] by auto
  qed simp_all
qed

definition get_text :: bytes where
  "get_text = ascii ''GET /a HTTP/1.1'' @ [13, 10] @ ascii ''A: b'' @ [13, 10, 13, 10]"

theorem phr_parse_request_safe_witness:
  "case phr_parse_request get_text 25 16 0 of
      None \<Rightarrow> False
    | Some (a, None) \<Rightarrow> a = -1 \<or> a = -2
    | Some (a, Some r) \<Rightarrow> (\<exists>q. 0 < q \<and> q \<le> 25 \<and> count_cast q a) \<and> (0 < a \<and> a \<le> 25)
        \<and> slice_in 25 (req_method r) \<and> slice_in 25 (req_path r)
        \<and> length (headers r) \<le> 16 \<and> (\<forall>h\<in>set (headers r). header_in 25 h)"
proof -
  have "25 \<le> length get_text" by (simp add: get_text_def)
  from phr_parse_request_safe [OF this, of 0 16] show ?thesis
    by (simp split: option.splits prod.splits)
qed

text \<open>
  the same for \<open>phr_parse_response\<close>, which also never reads outside of the first \<open>len\<close> bytes
  when it strips the spaces before the reason phrase.
\<close>
theorem phr_parse_response_safe:
  assumes "len \<le> length m" and "last_len \<le> len"
  shows "(\<exists>r q. phr_parse_response m len max_headers last_len = Some (int_cast q, Some r) \<and> q \<le> len)
    \<or> phr_parse_response m len max_headers last_len \<in> {Some (-1, None), Some (-2, None)}"
proof -
  have "scan_bind (if last_len \<noteq> 0 then is_complete m len last_len else Ok () 0) (\<lambda>_ _. parse_response m len max_headers 0)
      \<in> {parse_response m len max_headers 0, Fail (-1), Fail (-2)}"
    by (rule checked_run [OF assms])
  then have "phr_parse_response m len max_headers last_len \<in> {returned (parse_response m len max_headers 0), Some (-1, None), Some (-2, None)}"
    unfolding phr_parse_response_def by auto
  then show ?thesis using rsp.answers [OF assms(1), of 0 max_headers] by auto
qed

theorem phr_parse_response_safe_witness:
  "(\<exists>r q. phr_parse_response get_text 5 16 2 = Some (int_cast q, Some r) \<and> q \<le> 5)
    \<or> phr_parse_response get_text 5 16 2 \<in> {Some (-1, None), Some (-2, None)}"
  by (rule phr_parse_response_safe) (simp_all add: get_text_def)

section \<open>Feeding a parser piece by piece\<close>

text \<open>
  C17: a caller that parses longer and longer prefixes of a text until the answer is not "incomplete"
  gets the answer of one run on the whole: cutting a request into reads never changes the result.
\<close>
theorem request_any_split:
  assumes "sorted es" and "es \<noteq> []" and "last es \<le> length m"
  shows "first_answer (\<lambda>e. parse_request m e max_headers 0) es = parse_request m (last es) max_headers 0"
  by (rule req.first_answer_last) (use assms in auto)

theorem request_any_split_witness:
  "first_answer (\<lambda>e. parse_request get_text e 16 0) [3, 17, 25] = parse_request get_text 25 16 0"
  using request_any_split [of "[3, 17, 25]" get_text 16] by (simp add: get_text_def)

section \<open>The unrolled search\<close>

text \<open>
  C23: the search for the end of a line, unrolled eight-fold with its jumps between the two loops,
  is the plain byte-by-byte loop, on every text and from every position.
\<close>
theorem unrolled_line_search:
  assumes "p \<le> e" and "e \<le> length m"
  shows "get_token_to_eol m e p = scan_bind (eol_slow m e p) (\<lambda>_. line_end m e p)"
  by (rule get_token_to_eol_simple [OF assms])

theorem unrolled_line_search_witness:
  "get_token_to_eol get_text 25 4 = scan_bind (eol_slow get_text 25 4) (\<lambda>_. line_end get_text 25 4)"
  by (rule unrolled_line_search) (simp_all add: get_text_def)

section \<open>Round trip\<close>

text \<open>
  C5: parsing a rendered request gives back its method, path, version and every header, name and
  value, in order, whatever bytes follow it in the buffer; the answer is its length as an \<open>int\<close>.
\<close>
theorem request_roundtrip:
  assumes "meth \<noteq> []" "\<forall>c\<in>set meth. token_char c" and "pth \<noteq> []" "\<forall>c\<in>set pth. path_char c"
    and "is_digit d" and "\<forall>f\<in>set fs. field_ok f" "length fs \<le> max_headers"
  shows "\<exists>r. phr_parse_request (render_request meth pth d fs @ rest)
        (length (render_request meth pth d fs @ rest)) max_headers 0 = Some (int_cast (length (render_request meth pth d fs)), Some r)
      \<and> (let m = render_request meth pth d fs @ rest in
         chunk m (fst (req_method r)) (snd (req_method r)) = meth \<and> chunk m (fst (req_path r)) (snd (req_path r)) = pth
         \<and> minor_version r = uint d - 48 \<and> list_all2 (field_at m) (headers r) fs)"
proof -
  let ?t = "render_request meth pth d fs"
  let ?m = "?t @ rest"
  have a: "at ?m 0 ?t" by (rule at_whole)
  obtain hs where hs: "parse_request ?m (length ?m) max_headers 0 =
      Ok \<lparr>req_method = (0, length meth), req_path = (length meth + 1, length pth), minor_version = uint d - 48, headers = hs\<rparr>
        (length ?t)" "list_all2 (field_at ?m) hs fs"
    using parse_request_at [OF a _ _ assms(1-5) assms(6,7), of "length ?m"] by auto
  have "chunk ?m 0 (length meth) = meth" "chunk ?m (length meth + 1) (length pth) = pth"
    by (simp_all add: render_request_def chunk_def)
  with hs show ?thesis by (simp add: phr_parse_request_def Let_def)
qed

theorem request_roundtrip_witness:
  "\<exists>r. phr_parse_request (render_request (ascii ''GET'') (ascii ''/a'') 49 [(ascii ''A'', ascii ''b'')] @ [1])
        (length (render_request (ascii ''GET'') (ascii ''/a'') 49 [(ascii ''A'', ascii ''b'')] @ [1])) 16 0
      = Some (int_cast (length (render_request (ascii ''GET'') (ascii ''/a'') 49 [(ascii ''A'', ascii ''b'')])), Some r)
      \<and> (let m = render_request (ascii ''GET'') (ascii ''/a'') 49 [(ascii ''A'', ascii ''b'')] @ [1] in
         chunk m (fst (req_method r)) (snd (req_method r)) = ascii ''GET'' \<and> chunk m (fst (req_path r)) (snd (req_path r)) = ascii ''/a''
         \<and> minor_version r = uint (49 :: byte) - 48 \<and> list_all2 (field_at m) (headers r) [(ascii ''A'', ascii ''b'')])"
  by (rule request_roundtrip)
    (simp_all add: ascii_def token_char_def token_char_map_def path_char_def IS_PRINTABLE_ASCII_def is_digit_def
      field_ok_def value_char_def blank_def)

end
