(* ===== verification/Http_Chunked.thy ===== *)
theory Http_Chunked
  imports Http_Request
begin

text \<open>
  \<^verbatim>\<open>picohttpparser.c\<close>, the decoder of the chunked transfer coding. It rewrites the buffer in place:
  \<open>dst\<close> is the end of the decoded bytes, \<open>src\<close> the next byte to read. The \<open>switch\<close> sets the state
  before each of its fall-throughs, so a fall-through is a turn of the loop.
\<close>

section \<open>The code\<close>

datatype chunked_state =
    CHUNKED_IN_CHUNK_SIZE
  | CHUNKED_IN_CHUNK_EXT
  | CHUNKED_IN_CHUNK_DATA
  | CHUNKED_IN_CHUNK_CRLF
  | CHUNKED_IN_TRAILERS_LINE_HEAD
  | CHUNKED_IN_TRAILERS_LINE_MIDDLE

record phr_chunked_decoder =
  bytes_left_in_chunk :: u64
  consume_trailer :: bool
  hex_count :: nat
  chunked_state :: chunked_state

definition decode_hex :: "byte \<Rightarrow> nat option" where
  "decode_hex ch =
     (if 48 \<le> ch \<and> ch \<le> 57 then Some (unat ch - 48)
      else if 65 \<le> ch \<and> ch \<le> 70 then Some (unat ch - 65 + 10)
      else if 97 \<le> ch \<and> ch \<le> 102 then Some (unat ch - 97 + 10)
      else None)"

definition memmove :: "nat \<Rightarrow> nat \<Rightarrow> nat \<Rightarrow> bytes \<Rightarrow> bytes option" where
  "memmove dst src n m =
     (if src + n \<le> length m then memcpy_at dst (chunk m src n) m else None)"

text \<open>The digits of a size: the value tells how the loop ended, with \<open>ret\<close> or at another character.\<close>

function size_loop :: "bytes \<Rightarrow> nat \<Rightarrow> nat \<Rightarrow> phr_chunked_decoder \<Rightarrow> (phr_chunked_decoder \<times> int option) scan" where
  "size_loop m n p d =
     (if p = n then Ok (d, Some (-2)) p
      else deref m p (\<lambda>c.
        case decode_hex c of
          None \<Rightarrow> Ok (d, if hex_count d = 0 then Some (-1) else None) p
        | Some v \<Rightarrow>
            if hex_count d = 16 then Ok (d, Some (-1)) p
            else size_loop m n (Suc p)
              (d\<lparr>bytes_left_in_chunk := bytes_left_in_chunk d * 16 + word_of_nat v, hex_count := hex_count d + 1\<rparr>)))"
  by pat_completeness auto
termination
  by (relation "measure (\<lambda>(m, n, p, d). length m - p)") auto

text \<open>The loops that look for a line feed and skip carriage returns; \<open>False\<close> at the end of the buffer.\<close>

function find_lf :: "bytes \<Rightarrow> nat \<Rightarrow> nat \<Rightarrow> bool scan" where
  "find_lf m n p =
     (if p = n then Ok False p else deref m p (\<lambda>c. if c = 10 then Ok True p else find_lf m n (Suc p)))"
  by pat_completeness auto
termination
  by (relation "measure (\<lambda>(m, n, p). length m - p)") auto

function skip_cr :: "bytes \<Rightarrow> nat \<Rightarrow> nat \<Rightarrow> bool scan" where
  "skip_cr m n p =
     (if p = n then Ok False p else deref m p (\<lambda>c. if c \<noteq> 13 then Ok True p else skip_cr m n (Suc p)))"
  by pat_completeness auto
termination
  by (relation "measure (\<lambda>(m, n, p). length m - p)") auto

declare size_loop.simps [simp del] find_lf.simps [simp del] skip_cr.simps [simp del]

text \<open>One \<open>case\<close> of the switch: it goes on, or it jumps to \<open>Exit\<close> with a value of \<open>ret\<close>.\<close>

datatype chunk_step =
    Stuck
  | Continue phr_chunked_decoder bytes nat nat
  | Leave int phr_chunked_decoder bytes nat nat

definition in_chunk_size :: "nat \<Rightarrow> phr_chunked_decoder \<Rightarrow> bytes \<Rightarrow> nat \<Rightarrow> nat \<Rightarrow> chunk_step" where
  "in_chunk_size n d m dst src =
     (case size_loop m n src d of
        Ok (d', Some r) q \<Rightarrow> Leave r d' m dst q
      | Ok (d', None) q \<Rightarrow> Continue (d'\<lparr>hex_count := 0, chunked_state := CHUNKED_IN_CHUNK_EXT\<rparr>) m dst q
      | _ \<Rightarrow> Stuck)"

definition in_chunk_ext :: "nat \<Rightarrow> phr_chunked_decoder \<Rightarrow> bytes \<Rightarrow> nat \<Rightarrow> nat \<Rightarrow> chunk_step" where
  "in_chunk_ext n d m dst src =
     (case find_lf m n src of
        Ok found q \<Rightarrow>
          if \<not> found then Leave (-2) d m dst q
          else if bytes_left_in_chunk d = 0
          then if consume_trailer d
            then Continue (d\<lparr>chunked_state := CHUNKED_IN_TRAILERS_LINE_HEAD\<rparr>) m dst (Suc q)
            else Leave (int n - int (Suc q)) d m dst (Suc q)
          else Continue (d\<lparr>chunked_state := CHUNKED_IN_CHUNK_DATA\<rparr>) m dst (Suc q)
      | _ \<Rightarrow> Stuck)"

definition move_down :: "nat \<Rightarrow> nat \<Rightarrow> nat \<Rightarrow> bytes \<Rightarrow> bytes option" where
  "move_down dst src n m = (if dst \<noteq> src then memmove dst src n m else Some m)"

definition in_chunk_data :: "nat \<Rightarrow> phr_chunked_decoder \<Rightarrow> bytes \<Rightarrow> nat \<Rightarrow> nat \<Rightarrow> chunk_step" where
  "in_chunk_data n d m dst src =
     (let avail = n - src; left = unat (bytes_left_in_chunk d) in
      if avail < left
      then (case move_down dst src avail m of
          None \<Rightarrow> Stuck
        | Some m' \<Rightarrow> Leave (-2) (d\<lparr>bytes_left_in_chunk := bytes_left_in_chunk d - word_of_nat avail\<rparr>)
            m' (dst + avail) (src + avail))
      else (case move_down dst src left m of
          None \<Rightarrow> Stuck
        | Some m' \<Rightarrow> Continue (d\<lparr>bytes_left_in_chunk := 0, chunked_state := CHUNKED_IN_CHUNK_CRLF\<rparr>)
            m' (dst + left) (src + left)))"

definition in_chunk_crlf :: "nat \<Rightarrow> phr_chunked_decoder \<Rightarrow> bytes \<Rightarrow> nat \<Rightarrow> nat \<Rightarrow> chunk_step" where
  "in_chunk_crlf n d m dst src =
     (case skip_cr m n src of
        Ok found q \<Rightarrow>
          if \<not> found then Leave (-2) d m dst q
          else if m ! q \<noteq> 10 then Leave (-1) d m dst q
          else Continue (d\<lparr>chunked_state := CHUNKED_IN_CHUNK_SIZE\<rparr>) m dst (Suc q)
      | _ \<Rightarrow> Stuck)"

definition in_trailers_line_head :: "nat \<Rightarrow> phr_chunked_decoder \<Rightarrow> bytes \<Rightarrow> nat \<Rightarrow> nat \<Rightarrow> chunk_step" where
  "in_trailers_line_head n d m dst src =
     (case skip_cr m n src of
        Ok found q \<Rightarrow>
          if \<not> found then Leave (-2) d m dst q
          else if m ! q = 10 then Leave (int n - int (Suc q)) d m dst (Suc q)
          else Continue (d\<lparr>chunked_state := CHUNKED_IN_TRAILERS_LINE_MIDDLE\<rparr>) m dst (Suc q)
      | _ \<Rightarrow> Stuck)"

definition in_trailers_line_middle :: "nat \<Rightarrow> phr_chunked_decoder \<Rightarrow> bytes \<Rightarrow> nat \<Rightarrow> nat \<Rightarrow> chunk_step" where
  "in_trailers_line_middle n d m dst src =
     (case find_lf m n src of
        Ok found q \<Rightarrow>
          if \<not> found then Leave (-2) d m dst q
          else Continue (d\<lparr>chunked_state := CHUNKED_IN_TRAILERS_LINE_HEAD\<rparr>) m dst (Suc q)
      | _ \<Rightarrow> Stuck)"

definition chunk_case :: "nat \<Rightarrow> phr_chunked_decoder \<Rightarrow> bytes \<Rightarrow> nat \<Rightarrow> nat \<Rightarrow> chunk_step" where
  "chunk_case n d m dst src =
     (case chunked_state d of
        CHUNKED_IN_CHUNK_SIZE \<Rightarrow> in_chunk_size n d m dst src
      | CHUNKED_IN_CHUNK_EXT \<Rightarrow> in_chunk_ext n d m dst src
      | CHUNKED_IN_CHUNK_DATA \<Rightarrow> in_chunk_data n d m dst src
      | CHUNKED_IN_CHUNK_CRLF \<Rightarrow> in_chunk_crlf n d m dst src
      | CHUNKED_IN_TRAILERS_LINE_HEAD \<Rightarrow> in_trailers_line_head n d m dst src
      | CHUNKED_IN_TRAILERS_LINE_MIDDLE \<Rightarrow> in_trailers_line_middle n d m dst src)"

text \<open>The result at \<open>Exit\<close>: \<open>ret\<close>, the decoder, the buffer, \<open>dst\<close> and \<open>src\<close>.\<close>

type_synonym chunk_exit = "int \<times> phr_chunked_decoder \<times> bytes \<times> nat \<times> nat"

partial_function (option) chunk_loop :: "nat \<Rightarrow> phr_chunked_decoder \<Rightarrow> bytes \<Rightarrow> nat \<Rightarrow> nat \<Rightarrow> chunk_exit option" where
  "chunk_loop n d m dst src =
     (case chunk_case n d m dst src of
        Stuck \<Rightarrow> None
      | Continue d' m' dst' src' \<Rightarrow> chunk_loop n d' m' dst' src'
      | Leave r d' m' dst' src' \<Rightarrow> Some (r, d', m', dst', src'))"

declare chunk_loop.simps [code]

text \<open>The result is the return value, the decoder, the buffer and the new size.\<close>

definition phr_decode_chunked ::
  "phr_chunked_decoder \<Rightarrow> bytes \<Rightarrow> nat \<Rightarrow> (int \<times> phr_chunked_decoder \<times> bytes \<times> nat) option"
where
  "phr_decode_chunked d m n =
     do {
       (r, d', m1, dst, src) \<leftarrow> chunk_loop n d m 0 0;
       m2 \<leftarrow> move_down dst src (n - src) m1;
       Some (r, d', m2, dst)
     }"

definition phr_decode_chunked_is_in_data :: "phr_chunked_decoder \<Rightarrow> bool" where
  "phr_decode_chunked_is_in_data d \<longleftrightarrow> chunked_state d = CHUNKED_IN_CHUNK_DATA"

section \<open>The coding, one byte at a time\<close>

text \<open>
  The reference: a state machine that takes one byte. It outputs bytes, reports the end of the
  body behind this byte, or rejects it.
\<close>

datatype fed = More phr_chunked_decoder bytes | Done phr_chunked_decoder | Bad phr_chunked_decoder

definition feed_ext :: "phr_chunked_decoder \<Rightarrow> byte \<Rightarrow> fed" where
  "feed_ext d c =
     (if c \<noteq> 10 then More d []
      else if bytes_left_in_chunk d \<noteq> 0 then More (d\<lparr>chunked_state := CHUNKED_IN_CHUNK_DATA\<rparr>) []
      else if consume_trailer d then More (d\<lparr>chunked_state := CHUNKED_IN_TRAILERS_LINE_HEAD\<rparr>) []
      else Done d)"

definition feed :: "phr_chunked_decoder \<Rightarrow> byte \<Rightarrow> fed" where
  "feed d c =
     (case chunked_state d of
        CHUNKED_IN_CHUNK_SIZE \<Rightarrow>
          (case decode_hex c of
             Some v \<Rightarrow>
               if hex_count d = 16 then Bad d
               else More (d\<lparr>bytes_left_in_chunk := bytes_left_in_chunk d * 16 + word_of_nat v,
                      hex_count := hex_count d + 1\<rparr>) []
           | None \<Rightarrow>
               if hex_count d = 0 then Bad d
               else feed_ext (d\<lparr>hex_count := 0, chunked_state := CHUNKED_IN_CHUNK_EXT\<rparr>) c)
      | CHUNKED_IN_CHUNK_EXT \<Rightarrow> feed_ext d c
      | CHUNKED_IN_CHUNK_DATA \<Rightarrow>
          More (d\<lparr>bytes_left_in_chunk := bytes_left_in_chunk d - 1,
             chunked_state := (if bytes_left_in_chunk d = 1 then CHUNKED_IN_CHUNK_CRLF else CHUNKED_IN_CHUNK_DATA)\<rparr>) [c]
      | CHUNKED_IN_CHUNK_CRLF \<Rightarrow>
          if c = 13 then More d []
          else if c = 10 then More (d\<lparr>chunked_state := CHUNKED_IN_CHUNK_SIZE\<rparr>) []
          else Bad d
      | CHUNKED_IN_TRAILERS_LINE_HEAD \<Rightarrow>
          if c = 13 then More d []
          else if c = 10 then Done d
          else More (d\<lparr>chunked_state := CHUNKED_IN_TRAILERS_LINE_MIDDLE\<rparr>) []
      | CHUNKED_IN_TRAILERS_LINE_MIDDLE \<Rightarrow>
          if c = 10 then More (d\<lparr>chunked_state := CHUNKED_IN_TRAILERS_LINE_HEAD\<rparr>) [] else More d [])"

text \<open>A text: the return value, the decoder, the decoded bytes and the bytes not consumed.\<close>

fun decode_ref :: "phr_chunked_decoder \<Rightarrow> bytes \<Rightarrow> int \<times> phr_chunked_decoder \<times> bytes \<times> bytes" where
  "decode_ref d [] = (-2, d, [], [])"
| "decode_ref d (c # cs) =
     (case feed d c of
        Bad d' \<Rightarrow> (-1, d', [], c # cs)
      | Done d' \<Rightarrow> (int (length cs), d', [], cs)
      | More d' out \<Rightarrow> (case decode_ref d' cs of (r, e, o', rest) \<Rightarrow> (r, e, out @ o', rest)))"

end
