(* ===== verification/Http_Chunked_Refine.thy ===== *)
theory Http_Chunked_Refine
  imports Http_Chunked
begin

text \<open>
  The in-place decoder against the machine that takes one byte at a time: same answer, same state,
  the decoded bytes at the front of the buffer, the bytes not consumed behind them.
\<close>

section \<open>The bytes that are left\<close>

definition left_over :: "bytes \<Rightarrow> nat \<Rightarrow> nat \<Rightarrow> bytes" where
  "left_over m n p = chunk m p (n - p)"

lemma left_over_end [simp]: "left_over m n n = []"
  by (simp add: left_over_def chunk_def)

lemma left_over_Cons: "p < n \<Longrightarrow> n \<le> length m \<Longrightarrow> left_over m n p = m ! p # left_over m n (Suc p)"
  by (simp add: left_over_def chunk_def Cons_nth_drop_Suc [symmetric] Suc_diff_Suc [symmetric])

lemma length_left_over [simp]: "p \<le> n \<Longrightarrow> n \<le> length m \<Longrightarrow> length (left_over m n p) = n - p"
  by (simp add: left_over_def)

lemma take_left_over: "p + k \<le> n \<Longrightarrow> take k (left_over m n p) = chunk m p k"
  by (simp add: left_over_def chunk_def min_def)

lemma drop_left_over: "p + k \<le> n \<Longrightarrow> drop k (left_over m n p) = left_over m n (p + k)"
  by (simp add: left_over_def chunk_def drop_take add.commute)

lemma left_over_same: "drop p m' = drop p m \<Longrightarrow> left_over m' n p = left_over m n p"
  by (simp add: left_over_def chunk_def)

section \<open>The state machine on runs of bytes\<close>

definition decoder_ok :: "phr_chunked_decoder \<Rightarrow> bool" where
  "decoder_ok d \<longleftrightarrow> hex_count d \<le> 16
     \<and> (chunked_state d = CHUNKED_IN_CHUNK_DATA \<longrightarrow> bytes_left_in_chunk d \<noteq> 0)"

lemma decode_ref_quiet:
  "feed d c = More d' [] \<Longrightarrow> decode_ref d (c # cs) = decode_ref d' cs"
  by (simp split: prod.split)

lemma find_lf_run:
  assumes "\<And>c. c \<noteq> 10 \<Longrightarrow> feed d c = More d []"
  shows "p \<le> n \<Longrightarrow> n \<le> length m \<Longrightarrow> \<exists>found q. find_lf m n p = Ok found q \<and> p \<le> q \<and> q \<le> n
    \<and> decode_ref d (left_over m n p) = decode_ref d (left_over m n q)
    \<and> (found \<longrightarrow> q < n \<and> m ! q = 10) \<and> (\<not> found \<longrightarrow> q = n)"
proof (induction m n p rule: find_lf.induct)
  case (1 m n p)
  show ?case
  proof (cases "p = n \<or> m ! p = 10")
    case True
    then show ?thesis using "1.prems" by (auto simp: find_lf.simps [of m n p] deref_def)
  next
    case False
    then have p: "p \<noteq> n" "p < length m" "m ! p \<noteq> 10" using "1.prems" by auto
    then obtain found q where "find_lf m n (Suc p) = Ok found q" "Suc p \<le> q" "q \<le> n"
        "decode_ref d (left_over m n (Suc p)) = decode_ref d (left_over m n q)"
        "(found \<longrightarrow> q < n \<and> m ! q = 10) \<and> (\<not> found \<longrightarrow> q = n)"
      using "1.IH" "1.prems" by (metis Suc_leI le_neq_implies_less)
    moreover have "decode_ref d (left_over m n p) = decode_ref d (left_over m n (Suc p))"
      using p "1.prems" decode_ref_quiet [OF assms [OF p(3)]] by (simp add: left_over_Cons)
    ultimately show ?thesis using p by (auto simp: find_lf.simps [of m n p] deref_def)
  qed
qed

lemma skip_cr_run:
  assumes "feed d 13 = More d []"
  shows "p \<le> n \<Longrightarrow> n \<le> length m \<Longrightarrow> \<exists>found q. skip_cr m n p = Ok found q \<and> p \<le> q \<and> q \<le> n
    \<and> decode_ref d (left_over m n p) = decode_ref d (left_over m n q)
    \<and> (found \<longrightarrow> q < n \<and> m ! q \<noteq> 13) \<and> (\<not> found \<longrightarrow> q = n)"
proof (induction m n p rule: skip_cr.induct)
  case (1 m n p)
  show ?case
  proof (cases "p = n \<or> m ! p \<noteq> 13")
    case True
    then show ?thesis using "1.prems" by (auto simp: skip_cr.simps [of m n p] deref_def)
  next
    case False
    then have p: "p \<noteq> n" "p < length m" "m ! p = 13" using "1.prems" by auto
    then obtain found q where "skip_cr m n (Suc p) = Ok found q" "Suc p \<le> q" "q \<le> n"
        "decode_ref d (left_over m n (Suc p)) = decode_ref d (left_over m n q)"
        "(found \<longrightarrow> q < n \<and> m ! q \<noteq> 13) \<and> (\<not> found \<longrightarrow> q = n)"
      using "1.IH" "1.prems" by (metis Suc_leI le_neq_implies_less)
    moreover have "decode_ref d (left_over m n p) = decode_ref d (left_over m n (Suc p))"
      using p "1.prems" decode_ref_quiet [OF assms] by (simp add: left_over_Cons)
    ultimately show ?thesis using p by (auto simp: skip_cr.simps [of m n p] deref_def)
  qed
qed

lemma size_loop_run:
  "p \<le> n \<Longrightarrow> n \<le> length m \<Longrightarrow> chunked_state d = CHUNKED_IN_CHUNK_SIZE \<Longrightarrow> decoder_ok d \<Longrightarrow>
   \<exists>d' e q. size_loop m n p d = Ok (d', e) q \<and> p \<le> q \<and> q \<le> n
    \<and> chunked_state d' = CHUNKED_IN_CHUNK_SIZE \<and> decoder_ok d'
    \<and> decode_ref d (left_over m n p) = decode_ref d' (left_over m n q)
    \<and> (case e of Some r \<Rightarrow> decode_ref d' (left_over m n q) = (r, d', [], left_over m n q)
       | None \<Rightarrow> q < n \<and> decode_hex (m ! q) = None \<and> hex_count d' \<noteq> 0)"
proof (induction m n p d rule: size_loop.induct)
  case (1 m n p d)
  show ?case
  proof (cases "p = n")
    case True
    then show ?thesis
      using "1.prems" by (intro exI [of _ d] exI [of _ "Some (-2)"] exI [of _ n]) (simp add: size_loop.simps [of m n n])
  next
    case False
    then have p: "p < n" "p < length m" using "1.prems" by auto
    note l = left_over_Cons [OF p(1) "1.prems"(2)]
    show ?thesis
    proof (cases "decode_hex (m ! p)")
      case None
      then show ?thesis
        using p False "1.prems" l
        by (auto simp: size_loop.simps [of m n p] deref_def feed_def)
    next
      case (Some v)
      let ?d = "d\<lparr>bytes_left_in_chunk := bytes_left_in_chunk d * 16 + word_of_nat v, hex_count := hex_count d + 1\<rparr>"
      show ?thesis
      proof (cases "hex_count d = 16")
        case True
        then show ?thesis
          using p False Some "1.prems" l by (simp add: size_loop.simps [of m n p] deref_def feed_def)
      next
        case hc: False
        have step: "decode_ref d (left_over m n p) = decode_ref ?d (left_over m n (Suc p))"
          unfolding l by (rule decode_ref_quiet) (use "1.prems"(3) Some hc in \<open>simp add: feed_def\<close>)
        have "size_loop m n p d = size_loop m n (Suc p) ?d"
          using p False Some hc by (simp add: size_loop.simps [of m n p] deref_def)
        then show ?thesis
          using "1.IH" [OF False p(2) Some hc] "1.prems" p hc unfolding step
          by (fastforce simp: decoder_ok_def)
      qed
    qed
  qed
qed

lemma data_run_all:
  "chunked_state d = CHUNKED_IN_CHUNK_DATA \<Longrightarrow> unat (bytes_left_in_chunk d) = k \<Longrightarrow> 0 < k \<Longrightarrow> k \<le> length cs \<Longrightarrow>
   decode_ref d cs = (case decode_ref (d\<lparr>bytes_left_in_chunk := 0, chunked_state := CHUNKED_IN_CHUNK_CRLF\<rparr>) (drop k cs)
     of (r, e, o', rest) \<Rightarrow> (r, e, take k cs @ o', rest))"
proof (induction cs arbitrary: d k)
  case (Cons c cs)
  let ?b = "bytes_left_in_chunk d"
  show ?case
  proof (cases "?b = 1")
    case True
    then have "k = 1" using Cons.prems by simp
    then show ?thesis using Cons.prems True by (simp add: feed_def split: prod.split)
  next
    case False
    let ?d = "d\<lparr>bytes_left_in_chunk := ?b - 1, chunked_state := CHUNKED_IN_CHUNK_DATA\<rparr>"
    have b0: "?b \<noteq> 0" using Cons.prems by auto
    then have u: "unat (?b - 1) = k - 1" using Cons.prems by (simp add: unat_minus_one)
    have "unat ?b \<noteq> 1" using False by (metis unat_1 word_unat_eq_iff)
    then have k: "0 < k - 1" using Cons.prems by simp
    have s: "d\<lparr>bytes_left_in_chunk := ?b - 1\<rparr> = ?d" using Cons.prems(1) by (simp add: phr_chunked_decoder.equality)
    obtain j where j: "k = Suc j" using Cons.prems by (cases k) auto
    have "decode_ref ?d cs = (case decode_ref (?d\<lparr>bytes_left_in_chunk := 0, chunked_state := CHUNKED_IN_CHUNK_CRLF\<rparr>) (drop j cs)
       of (r, e, o', rest) \<Rightarrow> (r, e, take j cs @ o', rest))"
      by (rule Cons.IH) (use u k j Cons.prems in simp_all)
    then show ?thesis
      using Cons.prems(1) False by (simp add: feed_def j split: prod.splits)
  qed
qed simp

lemma data_run_part:
  "chunked_state d = CHUNKED_IN_CHUNK_DATA \<Longrightarrow> length cs < unat (bytes_left_in_chunk d) \<Longrightarrow>
   decode_ref d cs = (-2, d\<lparr>bytes_left_in_chunk := bytes_left_in_chunk d - word_of_nat (length cs)\<rparr>, cs, [])"
proof (induction cs arbitrary: d)
  case (Cons c cs)
  let ?b = "bytes_left_in_chunk d"
  let ?d = "d\<lparr>bytes_left_in_chunk := ?b - 1, chunked_state := CHUNKED_IN_CHUNK_DATA\<rparr>"
  have b: "?b \<noteq> 0" "?b \<noteq> 1" using Cons.prems(2) by auto
  then have u: "unat (?b - 1) = unat ?b - 1" by (simp add: unat_minus_one)
  have "decode_ref ?d cs = (-2, ?d\<lparr>bytes_left_in_chunk := ?b - 1 - word_of_nat (length cs)\<rparr>, cs, [])"
    using Cons.IH [of ?d] Cons.prems u by simp
  then show ?case
    using Cons.prems(1) b by (simp add: feed_def algebra_simps)
qed simp

section \<open>The loop\<close>

text \<open>
  Where the loop stands: \<open>dst\<close> bytes are decoded, the bytes from \<open>src\<close> on are as they came. \<open>refines\<close>
  relates the state in which it leaves to the answer of the machine on the bytes that were left.
\<close>

definition refines :: "nat \<Rightarrow> bytes \<Rightarrow> nat \<Rightarrow> nat \<Rightarrow> chunk_exit \<Rightarrow> int \<times> phr_chunked_decoder \<times> bytes \<times> bytes \<Rightarrow> bool" where
  "refines n m dst src x ref \<longleftrightarrow>
     (case x of (r, d', m1, dst1, src1) \<Rightarrow> case ref of (r0, e, out, rest) \<Rightarrow>
        r = r0 \<and> d' = e \<and> decoder_ok e \<and> dst1 = dst + length out \<and> src \<le> src1 \<and> src1 \<le> n \<and> dst1 \<le> src1
        \<and> length m1 = length m \<and> take dst1 m1 = take dst m @ out \<and> drop src1 m1 = drop src1 m
        \<and> rest = left_over m n src1)"

lemma refines_leave:
  "dst \<le> src \<Longrightarrow> src \<le> q \<Longrightarrow> q \<le> n \<Longrightarrow> n \<le> length m \<Longrightarrow> decoder_ok d \<Longrightarrow> refines n m dst src (r, d, m, dst, q) (r, d, [], left_over m n q)"
  by (simp add: refines_def)

text \<open>A step that consumes bytes without output.\<close>

lemma refines_skip: "refines n m dst q x ref \<Longrightarrow> src \<le> q \<Longrightarrow> refines n m dst src x ref"
  by (auto simp: refines_def)

text \<open>The loop returns from this state, as the machine says.\<close>

definition runs :: "nat \<Rightarrow> phr_chunked_decoder \<Rightarrow> bytes \<Rightarrow> nat \<Rightarrow> nat \<Rightarrow> bool" where
  "runs n d m dst src \<longleftrightarrow>
     (\<exists>x. chunk_loop n d m dst src = Some x \<and> refines n m dst src x (decode_ref d (left_over m n src)))"

text \<open>
  Every turn but that from a size to its extension and from the data to its line end consumes a
  byte. \<open>handled n b\<close>: the loop returns from all states whose measure is below \<open>b\<close>.
\<close>

definition rank :: "chunked_state \<Rightarrow> nat" where
  "rank s = (case s of CHUNKED_IN_CHUNK_SIZE \<Rightarrow> 1 | CHUNKED_IN_CHUNK_DATA \<Rightarrow> 1 | _ \<Rightarrow> 0)"

definition handled :: "nat \<Rightarrow> nat \<Rightarrow> bool" where
  "handled n b \<longleftrightarrow> (\<forall>d m dst src. dst \<le> src \<and> src \<le> n \<and> n \<le> length m \<and> decoder_ok d
     \<and> 2 * (n - src) + rank (chunked_state d) < b \<longrightarrow> runs n d m dst src)"

lemma rank_le: "rank s \<le> 1"
  by (simp add: rank_def split: chunked_state.split)

lemma handled_later:
  assumes "handled n (2 * (n - src) + k)" "dst' \<le> src'" "src' \<le> n" "n \<le> length m'" "decoder_ok d'" "src < src'"
  shows "runs n d' m' dst' src'"
proof -
  have "2 * (n - src') + rank (chunked_state d') < 2 * (n - src) + k"
    using rank_le [of "chunked_state d'"] assms(3,6) by auto
  then show ?thesis using assms unfolding handled_def by blast
qed

lemma handled_down:
  assumes "handled n (2 * (n - src) + 1)" "dst' \<le> src'" "src' \<le> n" "n \<le> length m'" "decoder_ok d'" "src \<le> src'"
    and "rank (chunked_state d') = 0"
  shows "runs n d' m' dst' src'"
  using assms unfolding handled_def by (metis add.right_neutral diff_le_mono2 le_imp_less_Suc Suc_eq_plus1 mult_le_mono2)

lemma move_down_run:
  assumes "dst \<le> src" "src + k \<le> length m"
  shows "\<exists>m'. move_down dst src k m = Some m' \<and> length m' = length m \<and> take (dst + k) m' = take dst m @ chunk m src k
    \<and> drop (src + k) m' = drop (src + k) m"
proof (cases "dst = src")
  case True
  then show ?thesis using assms by (simp add: move_down_def chunk_def take_add)
next
  case False
  have l: "length (chunk m src k) = k" using assms by simp
  have mn: "min (length m) dst = dst" using assms by simp
  have "move_down dst src k m = Some (take dst m @ chunk m src k @ drop (dst + k) m)"
    using False assms l by (simp add: move_down_def memmove_def memcpy_at_def)
  moreover have "drop (src + k) (take dst m @ chunk m src k @ drop (dst + k) m) = drop (src + k) m"
    using assms l by (simp add: mn)
  ultimately show ?thesis using assms l by (simp add: mn)
qed

lemma chunk_data_run:
  assumes d: "chunked_state d = CHUNKED_IN_CHUNK_DATA" "decoder_ok d" and b: "dst \<le> src" "src \<le> n" "n \<le> length m"
    and IH: "handled n (2 * (n - src) + 1)"
  shows "runs n d m dst src"
proof (cases "n - src < unat (bytes_left_in_chunk d)")
  case True
  obtain m' where m': "move_down dst src (n - src) m = Some m'" "length m' = length m"
      "take (dst + (n - src)) m' = take dst m @ chunk m src (n - src)" "drop n m' = drop n m"
    using move_down_run [of dst src "n - src" m] b by auto
  have "decode_ref d (left_over m n src)
      = (-2, d\<lparr>bytes_left_in_chunk := bytes_left_in_chunk d - word_of_nat (n - src)\<rparr>, left_over m n src, [])"
    using data_run_part [OF d(1), of "left_over m n src"] True b by simp
  moreover have "bytes_left_in_chunk d - word_of_nat (n - src) \<noteq> 0"
  proof
    assume "bytes_left_in_chunk d - word_of_nat (n - src) = 0"
    then have "unat (bytes_left_in_chunk d) = unat (word_of_nat (n - src) :: u64)" by simp
    also have "\<dots> \<le> n - src" by (simp add: unat_of_nat)
    finally show False using True by simp
  qed
  moreover have "chunk_loop n d m dst src = Some (-2, d\<lparr>bytes_left_in_chunk := bytes_left_in_chunk d - word_of_nat (n - src)\<rparr>,
      m', dst + (n - src), n)"
    using d True m' b by (subst chunk_loop.simps) (simp add: chunk_case_def in_chunk_data_def Let_def)
  moreover have "left_over m n n = [] \<and> length (left_over m n src) = n - src \<and> left_over m n src = chunk m src (n - src)"
    using b by (simp add: left_over_def chunk_def)
  ultimately show ?thesis using m' b d by (simp add: runs_def refines_def decoder_ok_def)
next
  case False
  let ?k = "unat (bytes_left_in_chunk d)" and ?d = "d\<lparr>bytes_left_in_chunk := 0, chunked_state := CHUNKED_IN_CHUNK_CRLF\<rparr>"
  have k: "0 < ?k" "?k \<le> n - src" "src + ?k \<le> n" using False d b by (auto simp: decoder_ok_def unat_gt_0)
  obtain m' where m': "move_down dst src ?k m = Some m'" "length m' = length m"
      "take (dst + ?k) m' = take dst m @ chunk m src ?k" "drop (src + ?k) m' = drop (src + ?k) m"
    using move_down_run [of dst src ?k m] b k by auto
  note lo = left_over_same [OF m'(4), of n]
  obtain x where x: "chunk_loop n ?d m' (dst + ?k) (src + ?k) = Some x"
      "refines n m' (dst + ?k) (src + ?k) x (decode_ref ?d (left_over m' n (src + ?k)))"
    using handled_down [OF IH, of "dst + ?k" "src + ?k" m' ?d] b k m' d by (auto simp: runs_def decoder_ok_def rank_def)
  have "chunk_loop n d m dst src = Some x"
    using d False m' b x(1) by (subst chunk_loop.simps) (simp add: chunk_case_def in_chunk_data_def Let_def)
  moreover have "decode_ref d (left_over m n src) = (case decode_ref ?d (left_over m n (src + ?k))
      of (r, e, o', rest) \<Rightarrow> (r, e, chunk m src ?k @ o', rest))"
    using data_run_all [OF d(1) refl k(1), of "left_over m n src"] k b
    by (simp add: take_left_over drop_left_over)
  moreover have same: "drop q m' = drop q m" if "src + ?k \<le> q" for q
    using arg_cong [OF m'(4), of "drop (q - (src + ?k))"] that by simp
  moreover have "refines n m dst src x (case decode_ref ?d (left_over m n (src + ?k))
      of (r, e, o', rest) \<Rightarrow> (r, e, chunk m src ?k @ o', rest))"
  proof -
    obtain r d1 m1 dst1 src1 where xx: "x = (r, d1, m1, dst1, src1)" using prod_cases5 by blast
    obtain r0 e out rest where ref: "decode_ref ?d (left_over m n (src + ?k)) = (r0, e, out, rest)"
      using prod_cases4 by blast
    have h: "r = r0" "d1 = e" "decoder_ok e" "dst1 = dst + ?k + length out" "src + ?k \<le> src1" "src1 \<le> n"
        "dst1 \<le> src1" "length m1 = length m'" "take dst1 m1 = take (dst + ?k) m' @ out" "drop src1 m1 = drop src1 m'"
        "rest = left_over m' n src1"
      using x(2) unfolding refines_def xx lo ref prod.case by blast+
    have dr: "drop src1 m' = drop src1 m" using same [OF h(5)] .
    have t: "take dst1 m1 = take dst m @ chunk m src ?k @ out" using h(9) m'(3) by simp
    have r: "rest = left_over m n src1" using h(11) left_over_same [OF dr] by simp
    have l: "dst1 = dst + length (chunk m src ?k @ out)" using h(4) k b by simp
    show ?thesis
      unfolding refines_def xx ref prod.case
      using h(1,2,3,5,6,7) trans [OF h(8) m'(2)] trans [OF h(10) dr] t r l by (intro conjI; linarith?; assumption?)
  qed
  ultimately show ?thesis by (auto simp: runs_def)
qed

text \<open>A turn that goes on from \<open>src'\<close> without output, in a state that behaves the same there.\<close>

lemma chunk_loop_continue:
  assumes c: "chunk_case n d m dst src = Continue d' m dst src'" and src: "src \<le> src'"
    and ref: "decode_ref d (left_over m n src) = decode_ref d' (left_over m n src')"
    and x: "runs n d' m dst src'"
  shows "runs n d m dst src"
proof -
  obtain x where "chunk_loop n d' m dst src' = Some x" "refines n m dst src' x (decode_ref d' (left_over m n src'))"
    using x by (auto simp: runs_def)
  then show ?thesis
    unfolding runs_def using c ref refines_skip [OF _ src] by (subst chunk_loop.simps) simp
qed

lemma chunk_loop_leave:
  assumes c: "chunk_case n d m dst src = Leave r d' m dst src'" and b: "dst \<le> src" "src \<le> src'" "src' \<le> n" "n \<le> length m"
    and ok: "decoder_ok d'" and ref: "decode_ref d (left_over m n src) = (r, d', [], left_over m n src')"
  shows "runs n d m dst src"
  unfolding runs_def using c ref refines_leave [OF b ok] by (subst chunk_loop.simps) simp

lemma chunk_size_run:
  assumes d: "chunked_state d = CHUNKED_IN_CHUNK_SIZE" "decoder_ok d" and b: "dst \<le> src" "src \<le> n" "n \<le> length m"
    and IH: "handled n (2 * (n - src) + 1)"
  shows "runs n d m dst src"
proof -
  obtain d' e q where q: "size_loop m n src d = Ok (d', e) q" "src \<le> q" "q \<le> n"
      "chunked_state d' = CHUNKED_IN_CHUNK_SIZE" "decoder_ok d'"
      "decode_ref d (left_over m n src) = decode_ref d' (left_over m n q)"
      "(case e of Some r \<Rightarrow> decode_ref d' (left_over m n q) = (r, d', [], left_over m n q)
       | None \<Rightarrow> q < n \<and> decode_hex (m ! q) = None \<and> hex_count d' \<noteq> 0)"
    using size_loop_run [OF b(2,3) d] by blast
  show ?thesis
  proof (cases e)
    case (Some r)
    then show ?thesis
      using q b d
      by (intro chunk_loop_leave [where r = r and d' = d' and src' = q]) (simp_all add: chunk_case_def in_chunk_size_def)
  next
    case None
    let ?d = "d'\<lparr>hex_count := 0, chunked_state := CHUNKED_IN_CHUNK_EXT\<rparr>"
    have r: "runs n ?d m dst q"
      by (rule handled_down [OF IH]) (use q b in \<open>simp_all add: decoder_ok_def rank_def\<close>)
    have "feed d' (m ! q) = feed ?d (m ! q)" using q None by (simp add: feed_def)
    then have ref: "decode_ref d (left_over m n src) = decode_ref ?d (left_over m n q)"
      unfolding q(6) using q(7) None b by (simp add: left_over_Cons)
    have "chunk_case n d m dst src = Continue ?d m dst q"
      using q(1) d(1) None by (simp add: chunk_case_def in_chunk_size_def)
    then show ?thesis by (rule chunk_loop_continue [OF _ q(2) ref r])
  qed
qed

text \<open>The other states read up to a byte at \<open>q\<close> and either leave or go on behind it.\<close>

lemma chunk_turn:
  assumes b: "dst \<le> src" "src \<le> q" "q < n" "n \<le> length m" and ok: "decoder_ok d'" and IH: "handled n (2 * (n - src) + k)"
    and ref: "decode_ref d (left_over m n src) = decode_ref d (left_over m n q)" "feed d (m ! q) = More d' []"
    and c: "chunk_case n d m dst src = Continue d' m dst (Suc q)"
  shows "runs n d m dst src"
proof (rule chunk_loop_continue [OF c])
  show "decode_ref d (left_over m n src) = decode_ref d' (left_over m n (Suc q))"
    using ref decode_ref_quiet [OF ref(2)] b by (simp add: left_over_Cons)
  show "runs n d' m dst (Suc q)"
    by (rule handled_later [OF IH]) (use b ok in simp_all)
qed (use b in simp)

lemma chunk_ext_run:
  assumes d: "chunked_state d = CHUNKED_IN_CHUNK_EXT" "decoder_ok d" and b: "dst \<le> src" "src \<le> n" "n \<le> length m"
    and IH: "handled n (2 * (n - src) + k)"
  shows "runs n d m dst src"
proof -
  obtain found q where q: "find_lf m n src = Ok found q" "src \<le> q" "q \<le> n"
      "decode_ref d (left_over m n src) = decode_ref d (left_over m n q)"
      "found \<Longrightarrow> q < n \<and> m ! q = 10" "\<not> found \<Longrightarrow> q = n"
    using find_lf_run [of d, OF _ b(2,3)] d by (auto simp: feed_def feed_ext_def)
  consider "\<not> found" | "found" "bytes_left_in_chunk d = 0" "\<not> consume_trailer d"
    | "found" "bytes_left_in_chunk d = 0" "consume_trailer d" | "found" "bytes_left_in_chunk d \<noteq> 0" by blast
  then show ?thesis
  proof cases
    case 1
    show ?thesis
      by (rule chunk_loop_leave [where d' = d and r = "-2" and src' = q])
        (use q b d 1 in \<open>simp_all add: chunk_case_def in_chunk_ext_def\<close>)
  next
    case 2
    show ?thesis
      by (rule chunk_loop_leave [where d' = d and r = "int n - int (Suc q)" and src' = "Suc q"])
        (use q b d 2 in \<open>simp_all add: chunk_case_def in_chunk_ext_def left_over_Cons feed_def feed_ext_def\<close>)
  next
    case 3
    show ?thesis
      by (rule chunk_turn [OF b(1) q(2) _ b(3) _ IH q(4), where d' = "d\<lparr>chunked_state := CHUNKED_IN_TRAILERS_LINE_HEAD\<rparr>"])
        (use q d 3 in \<open>simp_all add: chunk_case_def in_chunk_ext_def feed_def feed_ext_def decoder_ok_def\<close>)
  next
    case 4
    show ?thesis
      by (rule chunk_turn [OF b(1) q(2) _ b(3) _ IH q(4), where d' = "d\<lparr>chunked_state := CHUNKED_IN_CHUNK_DATA\<rparr>"])
        (use q d 4 in \<open>simp_all add: chunk_case_def in_chunk_ext_def feed_def feed_ext_def decoder_ok_def\<close>)
  qed
qed

lemma chunk_crlf_run:
  assumes d: "chunked_state d = CHUNKED_IN_CHUNK_CRLF" "decoder_ok d" and b: "dst \<le> src" "src \<le> n" "n \<le> length m"
    and IH: "handled n (2 * (n - src) + k)"
  shows "runs n d m dst src"
proof -
  obtain found q where q: "skip_cr m n src = Ok found q" "src \<le> q" "q \<le> n"
      "decode_ref d (left_over m n src) = decode_ref d (left_over m n q)"
      "found \<Longrightarrow> q < n \<and> m ! q \<noteq> 13" "\<not> found \<Longrightarrow> q = n"
    using skip_cr_run [of d, OF _ b(2,3)] d by (auto simp: feed_def)
  consider "\<not> found" | "found" "m ! q \<noteq> 10" | "found" "m ! q = 10" by blast
  then show ?thesis
  proof cases
    case 1
    show ?thesis
      by (rule chunk_loop_leave [where d' = d and r = "-2" and src' = q])
        (use q b d 1 in \<open>simp_all add: chunk_case_def in_chunk_crlf_def\<close>)
  next
    case 2
    show ?thesis
      by (rule chunk_loop_leave [where d' = d and r = "-1" and src' = q])
        (use q b d 2 in \<open>simp_all add: chunk_case_def in_chunk_crlf_def left_over_Cons feed_def\<close>)
  next
    case 3
    show ?thesis
      by (rule chunk_turn [OF b(1) q(2) _ b(3) _ IH q(4), where d' = "d\<lparr>chunked_state := CHUNKED_IN_CHUNK_SIZE\<rparr>"])
        (use q d 3 in \<open>simp_all add: chunk_case_def in_chunk_crlf_def feed_def decoder_ok_def\<close>)
  qed
qed

lemma chunk_head_run:
  assumes d: "chunked_state d = CHUNKED_IN_TRAILERS_LINE_HEAD" "decoder_ok d"
    and b: "dst \<le> src" "src \<le> n" "n \<le> length m" and IH: "handled n (2 * (n - src) + k)"
  shows "runs n d m dst src"
proof -
  obtain found q where q: "skip_cr m n src = Ok found q" "src \<le> q" "q \<le> n"
      "decode_ref d (left_over m n src) = decode_ref d (left_over m n q)"
      "found \<Longrightarrow> q < n \<and> m ! q \<noteq> 13" "\<not> found \<Longrightarrow> q = n"
    using skip_cr_run [of d, OF _ b(2,3)] d by (auto simp: feed_def)
  consider "\<not> found" | "found" "m ! q = 10" | "found" "m ! q \<noteq> 10" by blast
  then show ?thesis
  proof cases
    case 1
    show ?thesis
      by (rule chunk_loop_leave [where d' = d and r = "-2" and src' = q])
        (use q b d 1 in \<open>simp_all add: chunk_case_def in_trailers_line_head_def\<close>)
  next
    case 2
    show ?thesis
      by (rule chunk_loop_leave [where d' = d and r = "int n - int (Suc q)" and src' = "Suc q"])
        (use q b d 2 in \<open>simp_all add: chunk_case_def in_trailers_line_head_def left_over_Cons feed_def\<close>)
  next
    case 3
    show ?thesis
      by (rule chunk_turn [OF b(1) q(2) _ b(3) _ IH q(4), where d' = "d\<lparr>chunked_state := CHUNKED_IN_TRAILERS_LINE_MIDDLE\<rparr>"])
        (use q d 3 in \<open>simp_all add: chunk_case_def in_trailers_line_head_def feed_def decoder_ok_def\<close>)
  qed
qed

lemma chunk_middle_run:
  assumes d: "chunked_state d = CHUNKED_IN_TRAILERS_LINE_MIDDLE" "decoder_ok d"
    and b: "dst \<le> src" "src \<le> n" "n \<le> length m" and IH: "handled n (2 * (n - src) + k)"
  shows "runs n d m dst src"
proof -
  obtain found q where q: "find_lf m n src = Ok found q" "src \<le> q" "q \<le> n"
      "decode_ref d (left_over m n src) = decode_ref d (left_over m n q)"
      "found \<Longrightarrow> q < n \<and> m ! q = 10" "\<not> found \<Longrightarrow> q = n"
    using find_lf_run [of d, OF _ b(2,3)] d by (auto simp: feed_def)
  show ?thesis
  proof (cases found)
    case False
    show ?thesis
      by (rule chunk_loop_leave [where d' = d and r = "-2" and src' = q])
        (use q b d False in \<open>simp_all add: chunk_case_def in_trailers_line_middle_def\<close>)
  next
    case True
    show ?thesis
      by (rule chunk_turn [OF b(1) q(2) _ b(3) _ IH q(4), where d' = "d\<lparr>chunked_state := CHUNKED_IN_TRAILERS_LINE_HEAD\<rparr>"])
        (use q d True in \<open>simp_all add: chunk_case_def in_trailers_line_middle_def feed_def decoder_ok_def\<close>)
  qed
qed

lemma chunk_loop_run:
  "dst \<le> src \<Longrightarrow> src \<le> n \<Longrightarrow> n \<le> length m \<Longrightarrow> decoder_ok d \<Longrightarrow> runs n d m dst src"
proof (induction "2 * (n - src) + rank (chunked_state d)" arbitrary: d m dst src rule: less_induct)
  case less
  have IH: "handled n (2 * (n - src) + rank (chunked_state d))"
    using less.hyps unfolding handled_def by blast
  show ?case
    using less.prems IH
    by (cases "chunked_state d")
      (auto simp: rank_def intro: chunk_size_run chunk_ext_run [where k = 0] chunk_data_run chunk_crlf_run [where k = 0]
        chunk_head_run [where k = 0] chunk_middle_run [where k = 0])
qed

end
