(* ===== verification/Http_Chunked_Properties.thy ===== *)
theory Http_Chunked_Properties
  imports Http_Chunked_Refine
begin

text \<open>
  The properties of \<open>phr_decode_chunked\<close>: it computes what the machine that takes one byte at a
  time computes, a body may arrive in pieces, and it inverts the coding of RFC 7230.
\<close>

section \<open>The call\<close>

text \<open>The machine never stops between bytes without consuming all of them.\<close>

lemma decode_ref_append:
  "decode_ref d (a @ b) =
     (case decode_ref d a of (r, e, out, rest) \<Rightarrow>
        if r = -2 then (case decode_ref e b of (r', e', out', rest') \<Rightarrow> (r', e', out @ out', rest'))
        else if r = -1 then (r, e, out, rest @ b)
        else (r + int (length b), e, out, rest @ b))"
  by (induction d a rule: decode_ref.induct) (auto split: fed.split prod.splits)

lemma decode_ref_rest: "decode_ref d cs = (-2, e, out, rest) \<Longrightarrow> rest = []"
  by (induction d cs arbitrary: out rule: decode_ref.induct) (auto split: fed.splits prod.splits)

lemma phr_decode_chunked_run:
  assumes n: "n \<le> length m" and ok: "decoder_ok d" and ref: "decode_ref d (take n m) = (r, d', out, rest)"
  obtains m' where "phr_decode_chunked d m n = Some (r, d', m', length out)" "decoder_ok d'"
    "length m' = length m" "take (length out) m' = out" "chunk m' (length out) (length rest) = rest"
    "drop n m' = drop n m"
proof -
  have lo: "left_over m n 0 = take n m" by (simp add: left_over_def chunk_def)
  obtain r1 e m1 dst src where x: "chunk_loop n d m 0 0 = Some (r1, e, m1, dst, src)"
      "refines n m 0 0 (r1, e, m1, dst, src) (r, d', out, rest)"
    using chunk_loop_run [of 0 0 n m d] n ok ref unfolding runs_def lo by (metis le0 prod_cases5)
  have h: "r1 = r" "e = d'" "decoder_ok d'" "dst = length out" "src \<le> n" "dst \<le> src" "length m1 = length m"
      "take dst m1 = out" "drop src m1 = drop src m" "rest = left_over m n src"
    using x(2) by (auto simp: refines_def)
  have rest: "rest = chunk m1 src (n - src)" "length rest = n - src"
    using h n by (simp_all add: left_over_def chunk_def)
  obtain m2 where m2: "move_down dst src (n - src) m1 = Some m2" "length m2 = length m1"
      "take (dst + (n - src)) m2 = take dst m1 @ chunk m1 src (n - src)" "drop n m2 = drop n m1"
    using move_down_run [of dst src "n - src" m1] h n by auto
  have t: "take (dst + (n - src)) m2 = out @ rest" using m2(3) h(8) rest(1) by simp
  have "take dst m2 = take dst (take (dst + (n - src)) m2)" by (simp add: min_def)
  also have "\<dots> = out" unfolding t using h(4) by simp
  finally have a: "take (length out) m2 = out" using h(4) by simp
  have "chunk m2 dst (n - src) = drop dst (take (dst + (n - src)) m2)" by (simp add: chunk_def drop_take)
  also have "\<dots> = rest" unfolding t using h(4) by simp
  finally have b: "chunk m2 (length out) (length rest) = rest" using h(4) rest(2) by simp
  have "drop n m1 = drop n m"
    using arg_cong [OF h(9), of "drop (n - src)"] h(5) by simp
  then show thesis
    using that [of m2] x(1) h m2 a b by (simp add: phr_decode_chunked_def)
qed

text \<open>C6: The in-place decoder is the machine that takes one byte at a time.\<close>

theorem decode_chunked_refines:
  assumes "n \<le> length m" and "decoder_ok d"
  shows "case decode_ref d (take n m) of (r, d', out, rest) \<Rightarrow>
    (\<exists>m'. phr_decode_chunked d m n = Some (r, d', m', length out) \<and> decoder_ok d'
      \<and> length m' = length m \<and> take (length out) m' = out
      \<and> chunk m' (length out) (length rest) = rest \<and> drop n m' = drop n m)"
proof -
  obtain r d' out rest where ref: "decode_ref d (take n m) = (r, d', out, rest)" using prod_cases4 by blast
  obtain m' where "phr_decode_chunked d m n = Some (r, d', m', length out)" "decoder_ok d'"
      "length m' = length m" "take (length out) m' = out" "chunk m' (length out) (length rest) = rest"
      "drop n m' = drop n m"
    by (rule phr_decode_chunked_run [OF assms ref])
  then show ?thesis by (auto simp: ref)
qed

text \<open>A decoder as \<open>memset\<close> leaves it, but for the trailer.\<close>

definition fresh_decoder :: "bool \<Rightarrow> phr_chunked_decoder" where
  "fresh_decoder t = \<lparr>bytes_left_in_chunk = 0, consume_trailer = t, hex_count = 0, chunked_state = CHUNKED_IN_CHUNK_SIZE\<rparr>"

lemma fresh_decoder_ok [simp]: "decoder_ok (fresh_decoder t)"
  by (simp add: fresh_decoder_def decoder_ok_def)

section \<open>A body in pieces\<close>

text \<open>C25: A piece that is not the end of the body, then another, decodes as the two at once.\<close>

theorem decode_chunked_split:
  assumes "decoder_ok d"
    and "phr_decode_chunked d a (length a) = Some (-2, d1, m1, n1)"
    and "phr_decode_chunked d1 b (length b) = Some (r, d2, m2, n2)"
  shows "\<exists>m'. phr_decode_chunked d (a @ b) (length (a @ b)) = Some (r, d2, m', n1 + n2)
    \<and> take (n1 + n2) m' = take n1 m1 @ take n2 m2"
proof -
  obtain ra da oa sa where ra: "decode_ref d a = (ra, da, oa, sa)" using prod_cases4 by blast
  have a: "ra = -2" "da = d1" "n1 = length oa" "take n1 m1 = oa" "decoder_ok d1"
    using phr_decode_chunked_run [of "length a" a d ra da oa sa] assms ra by auto
  obtain rb db ob sb where rb: "decode_ref d1 b = (rb, db, ob, sb)" using prod_cases4 by blast
  have b: "rb = r" "db = d2" "n2 = length ob" "take n2 m2 = ob"
    using phr_decode_chunked_run [of "length b" b d1 rb db ob sb] assms a rb by auto
  have "decode_ref d (take (length (a @ b)) (a @ b)) = (r, d2, oa @ ob, sb)"
    using ra rb a b by (simp add: decode_ref_append)
  from phr_decode_chunked_run [OF _ assms(1) this] show ?thesis using a b by auto
qed

section \<open>The coding\<close>

definition hex_char :: "nat \<Rightarrow> byte" where
  "hex_char v = word_of_nat (if v < 10 then 48 + v else 87 + v)"

fun hex_of :: "nat \<Rightarrow> bytes" where
  "hex_of n = (if n < 16 then [hex_char n] else hex_of (n div 16) @ [hex_char (n mod 16)])"

declare hex_of.simps [simp del]

definition encode_chunk :: "bytes \<Rightarrow> bytes" where
  "encode_chunk b = hex_of (length b) @ [13, 10] @ b @ [13, 10]"

text \<open>The chunks, the last chunk and a trailer without lines.\<close>

definition encode_body :: "bytes list \<Rightarrow> bytes" where
  "encode_body bs = concat (map encode_chunk bs) @ [48, 13, 10, 13, 10]"

lemma decode_hex_char: "v < 16 \<Longrightarrow> decode_hex (hex_char v) = Some v"
proof -
  have "list_all (\<lambda>v. decode_hex (hex_char v) = Some v) [0..<16]" by code_simp
  then show "v < 16 \<Longrightarrow> ?thesis" by (simp add: list_all_iff)
qed

lemma length_hex_of: "n < 16 ^ Suc k \<Longrightarrow> length (hex_of n) \<le> Suc k"
proof (induction n arbitrary: k rule: hex_of.induct)
  case (1 n)
  show ?case
  proof (cases "n < 16")
    case False
    then obtain j where k: "k = Suc j" using "1.prems" by (cases k) auto
    have "n div 16 < 16 ^ Suc j" using "1.prems" k by (simp add: div_less_iff_less_mult mult.commute)
    then show ?thesis using "1.IH" [OF False] False k by (simp add: hex_of.simps [of n])
  qed (simp add: hex_of.simps [of n])
qed

lemma hex_of_not_Nil [simp]: "hex_of n \<noteq> []"
  by (simp add: hex_of.simps [of n])

lemma decode_ref_hex:
  assumes "chunked_state d = CHUNKED_IN_CHUNK_SIZE" and "bytes_left_in_chunk d = 0"
  shows "hex_count d + length (hex_of n) \<le> 16 \<Longrightarrow> decode_ref d (hex_of n @ cs)
    = decode_ref (d\<lparr>bytes_left_in_chunk := word_of_nat n, hex_count := hex_count d + length (hex_of n)\<rparr>) cs"
proof (induction n arbitrary: cs rule: hex_of.induct)
  case (1 n)
  show ?case
  proof (cases "n < 16")
    case True
    then show ?thesis
      using "1.prems" assms decode_ref_quiet [of d "hex_char n"]
      by (simp add: hex_of.simps [of n] feed_def decode_hex_char)
  next
    case False
    let ?k = "hex_count d + length (hex_of (n div 16))"
    let ?d = "d\<lparr>bytes_left_in_chunk := word_of_nat (n div 16), hex_count := ?k\<rparr>"
    have k: "?k < 16" using "1.prems" False by (simp add: hex_of.simps [of n])
    have n: "word_of_nat (n div 16) * 16 + word_of_nat (n mod 16) = (word_of_nat n :: u64)"
      by (metis div_mult_mod_eq of_nat_add of_nat_mult of_nat_numeral)
    have "decode_ref d (hex_of n @ cs) = decode_ref ?d (hex_char (n mod 16) # cs)"
      using "1.IH" [OF False] k False by (simp add: hex_of.simps [of n])
    also have "\<dots> = decode_ref (?d\<lparr>bytes_left_in_chunk := word_of_nat n, hex_count := Suc ?k\<rparr>) cs"
      by (rule decode_ref_quiet) (use k assms n in \<open>simp add: feed_def decode_hex_char\<close>)
    finally show ?thesis using False by (simp add: hex_of.simps [of n])
  qed
qed

lemma decode_ref_chunk:
  assumes b: "b \<noteq> []" "length b < 2 ^ 64"
  shows "decode_ref (fresh_decoder t) (encode_chunk b @ cs)
    = (case decode_ref (fresh_decoder t) cs of (r, e, o', rest) \<Rightarrow> (r, e, b @ o', rest))"
proof -
  let ?w = "word_of_nat (length b) :: u64" and ?k = "length (hex_of (length b))"
  let ?s = "\<lambda>c st. \<lparr>bytes_left_in_chunk = ?w, consume_trailer = t, hex_count = c, chunked_state = st\<rparr>"
  have w: "unat ?w = length b" using b(2) by (simp add: unat_of_nat)
  have w0: "?w \<noteq> 0" using w b(1) by auto
  have k: "?k \<le> 16" using length_hex_of [of "length b" 15] b(2) by simp
  have k0: "0 < ?k" by simp
  have "decode_ref (fresh_decoder t) (encode_chunk b @ cs)
      = decode_ref (?s ?k CHUNKED_IN_CHUNK_SIZE) (13 # 10 # b @ 13 # 10 # cs)"
    using decode_ref_hex [of "fresh_decoder t" "length b"] k by (simp add: fresh_decoder_def encode_chunk_def)
  also have "\<dots> = decode_ref (?s 0 CHUNKED_IN_CHUNK_EXT) (10 # b @ 13 # 10 # cs)"
    by (rule decode_ref_quiet) (use k0 in \<open>simp add: feed_def feed_ext_def decode_hex_def\<close>)
  also have "\<dots> = decode_ref (?s 0 CHUNKED_IN_CHUNK_DATA) (b @ 13 # 10 # cs)"
    by (rule decode_ref_quiet) (use w0 in \<open>simp add: feed_def feed_ext_def\<close>)
  also have "\<dots> = (case decode_ref \<lparr>bytes_left_in_chunk = 0, consume_trailer = t, hex_count = 0,
      chunked_state = CHUNKED_IN_CHUNK_CRLF\<rparr> (13 # 10 # cs) of (r, e, o', rest) \<Rightarrow> (r, e, b @ o', rest))"
    using data_run_all [of "?s 0 CHUNKED_IN_CHUNK_DATA" "length b" "b @ 13 # 10 # cs"] w b(1) by simp
  also have "decode_ref \<lparr>bytes_left_in_chunk = 0, consume_trailer = t, hex_count = 0,
      chunked_state = CHUNKED_IN_CHUNK_CRLF\<rparr> (13 # 10 # cs) = decode_ref (fresh_decoder t) cs"
    by (simp add: feed_def fresh_decoder_def split: prod.split)
  finally show ?thesis .
qed

text \<open>What the machine leaves behind the body: without \<open>consume_trailer\<close> the last line end.\<close>

definition behind_body :: "bool \<Rightarrow> bytes \<Rightarrow> bytes" where
  "behind_body t rest = (if t then rest else [13, 10] @ rest)"

lemma decode_ref_body:
  "\<forall>b\<in>set bs. b \<noteq> [] \<and> length b < 2 ^ 64 \<Longrightarrow>
   \<exists>d'. decode_ref (fresh_decoder t) (encode_body bs @ rest)
     = (int (length (behind_body t rest)), d', concat bs, behind_body t rest)"
proof (induction bs)
  case Nil
  show ?case
    by (simp add: encode_body_def behind_body_def fresh_decoder_def feed_def feed_ext_def decode_hex_def)
next
  case (Cons b bs)
  then obtain d' where "decode_ref (fresh_decoder t) (encode_body bs @ rest)
      = (int (length (behind_body t rest)), d', concat bs, behind_body t rest)"
    by auto
  then show ?case
    using decode_ref_chunk [of b t "encode_body bs @ rest"] Cons.prems by (auto simp: encode_body_def)
qed

text \<open>C24: A body in the chunked coding decodes to its chunks, and what follows it stays.\<close>

theorem chunked_roundtrip:
  assumes "\<forall>b\<in>set bs. b \<noteq> [] \<and> length b < 2 ^ 64"
  shows "let m = encode_body bs @ rest; rest' = behind_body t rest; k = length (concat bs) in
    \<exists>d' m'. phr_decode_chunked (fresh_decoder t) m (length m) = Some (int (length rest'), d', m', k)
      \<and> take k m' = concat bs \<and> chunk m' k (length rest') = rest'"
proof -
  let ?m = "encode_body bs @ rest"
  obtain d' where d': "decode_ref (fresh_decoder t) (take (length ?m) ?m)
      = (int (length (behind_body t rest)), d', concat bs, behind_body t rest)"
    using decode_ref_body [OF assms, of t rest] by auto
  show ?thesis
    unfolding Let_def by (rule phr_decode_chunked_run [OF _ fresh_decoder_ok d']) (simp, blast)
qed

section \<open>Examples\<close>

text \<open>\<open>3 CR LF abc CR LF 0 CR LF CR LF x\<close>\<close>

definition chunked_text :: bytes where
  "chunked_text = [51, 13, 10, 97, 98, 99, 13, 10, 48, 13, 10, 13, 10, 120]"

lemma chunked_roundtrip_witness:
  "encode_body [[97, 98, 99]] @ [120] = chunked_text \<and>
   (\<exists>d' m'. phr_decode_chunked (fresh_decoder True) chunked_text 14 = Some (1, d', m', 3)
      \<and> take 3 m' = [97, 98, 99] \<and> chunk m' 3 1 = [120])"
proof -
  have e: "encode_body [[97, 98, 99]] @ [120] = chunked_text" "length chunked_text = 14"
      "behind_body True [120] = [120]" "length (concat [[97, 98, 99 :: byte]]) = 3"
      "concat [[97, 98, 99 :: byte]] = [97, 98, 99]" "int (length [120 :: byte]) = 1" "length [120 :: byte] = 1"
    by code_simp+
  show ?thesis
    using chunked_roundtrip [of "[[97, 98, 99]]" "[120]" True] unfolding e Let_def by (simp add: numeral_3_eq_3)
qed

lemma decode_chunked_refines_witness:
  "\<exists>d' m'. phr_decode_chunked (fresh_decoder True) chunked_text 6 = Some (-2, d', m', 3) \<and> decoder_ok d'
     \<and> length m' = 14 \<and> take 3 m' = [97, 98, 99] \<and> drop 6 m' = drop 6 chunked_text"
proof -
  have "decode_ref (fresh_decoder True) (take 6 chunked_text)
      = (-2, (fresh_decoder True)\<lparr>chunked_state := CHUNKED_IN_CHUNK_CRLF\<rparr>, [97, 98, 99], [])"
    "length chunked_text = 14" "length [97, 98, 99 :: byte] = 3"
    by code_simp+
  then show ?thesis
    using decode_chunked_refines [of 6 chunked_text "fresh_decoder True"] by (auto simp: numeral_3_eq_3)
qed

lemma decode_chunked_split_witness:
  "\<exists>d2 m'. phr_decode_chunked (fresh_decoder True) chunked_text 14 = Some (1, d2, m', 3)
     \<and> take 3 m' = [97, 98, 99]"
proof -
  let ?a = "take 4 chunked_text" and ?b = "drop 4 chunked_text"
  let ?d = "(fresh_decoder True)\<lparr>bytes_left_in_chunk := 2, chunked_state := CHUNKED_IN_CHUNK_DATA\<rparr>"
  let ?e = "(fresh_decoder True)\<lparr>chunked_state := CHUNKED_IN_TRAILERS_LINE_HEAD\<rparr>"
  have "phr_decode_chunked (fresh_decoder True) ?a (length ?a) = Some (-2, ?d, [97, 13, 10, 97], 1)"
    by code_simp
  moreover have "phr_decode_chunked ?d ?b (length ?b) = Some (1, ?e, [98, 99, 120, 10, 48, 13, 10, 13, 10, 120], 2)"
    by code_simp
  moreover have "take 1 [97, 13, 10, 97 :: byte] = [97]" by code_simp
  moreover have "take 2 [98, 99, 120, 10, 48, 13, 10, 13, 10, 120 :: byte] = [98, 99]" by code_simp
  moreover have "?a @ ?b = chunked_text" "length chunked_text = 14" by simp code_simp
  ultimately show ?thesis
    using decode_chunked_split [OF fresh_decoder_ok, of True ?a ?d "[97, 13, 10, 97]" 1 ?b 1 ?e _ 2]
    by (auto simp: numeral_3_eq_3)
qed

end
