(* ===== verification/Arena.thy ===== *)
theory Arena
  imports Prelude
begin

text \<open>
  \<^verbatim>\<open>RuruArena.h\<close>, \<^verbatim>\<open>RuruArena.cpp\<close>: the bump allocator the event queue takes the received
  payloads from. A block is the offset of its first byte in \<open>memory\<close>; \<open>None\<close> inside the result
  is \<open>nullptr\<close>. The interface \<open>bump_allocator\<close> states what a client relies on, and the facts
  about sequences of allocations are proved from it.
\<close>

section \<open>The code\<close>

record arena =
  memory :: bytes
  pos :: int
  capacity :: int

text \<open>The constructor shifts 1 by its argument: undefined unless the result fits in 32 bits.\<close>

definition RuruArena :: "int \<Rightarrow> arena option" where
  "RuruArena c =
     (if 0 \<le> c \<and> c < 31
      then Some \<lparr>memory = replicate (2 ^ nat c) 0, pos = 0, capacity = 2 ^ nat c\<rparr>
      else None)"

definition ArenaAlloc :: "int \<Rightarrow> arena \<Rightarrow> (nat option \<times> arena) option" where
  "ArenaAlloc blockSize a =
     (if blockSize \<le> 0 then Some (None, a)
      else do {
        remain \<leftarrow> i32 (capacity a - pos a);
        if remain < blockSize then Some (None, a)
        else do {
          p \<leftarrow> i32 (pos a + blockSize);
          Some (Some (nat (pos a)), a\<lparr>pos := p\<rparr>)
        }
      })"

definition ArenaReset :: "arena \<Rightarrow> arena" where
  "ArenaReset a = a\<lparr>pos := 0\<rparr>"

text \<open>The \<open>memcpy\<close> of a payload into a block the arena returned.\<close>

definition arena_fill :: "nat \<Rightarrow> bytes \<Rightarrow> arena \<Rightarrow> arena option" where
  "arena_fill off src a = map_option (\<lambda>m. a\<lparr>memory := m\<rparr>) (memcpy_at off src (memory a))"

section \<open>Invariant\<close>

definition arena_wf :: "arena \<Rightarrow> bool" where
  "arena_wf a \<longleftrightarrow>
     0 \<le> pos a \<and> pos a \<le> capacity a \<and> capacity a \<le> 1073741824
     \<and> length (memory a) = nat (capacity a)"

lemma pow_le_30: "(n::nat) < 31 \<Longrightarrow> (2::int) ^ n \<le> 1073741824"
  using power_increasing [of n 30 "2::int"] by simp

lemma RuruArena_wf: "RuruArena c = Some a \<Longrightarrow> arena_wf a"
  using pow_le_30 [of "nat c"]
  by (auto simp: RuruArena_def arena_wf_def nat_power_eq split: if_splits)

lemma ArenaReset_wf: "arena_wf a \<Longrightarrow> arena_wf (ArenaReset a)"
  by (simp add: arena_wf_def ArenaReset_def)

lemma ArenaAlloc_cases:
  assumes "arena_wf a"
  shows "ArenaAlloc n a =
    Some (if 0 < n \<and> n \<le> capacity a - pos a
          then (Some (nat (pos a)), a\<lparr>pos := pos a + n\<rparr>) else (None, a))"
  using assms by (auto simp: ArenaAlloc_def arena_wf_def run_simps)

lemma ArenaAlloc_wf: "arena_wf a \<Longrightarrow> ArenaAlloc n a = Some (r, a') \<Longrightarrow> arena_wf a'"
  by (auto simp: ArenaAlloc_cases arena_wf_def split: if_splits)

lemma arena_fill_wf: "arena_wf a \<Longrightarrow> arena_fill off src a = Some a' \<Longrightarrow> arena_wf a'"
  by (auto simp: arena_fill_def arena_wf_def dest: memcpy_at_length)

lemma arena_fill_in_bounds:
  "arena_wf a \<Longrightarrow> off + length src \<le> nat (capacity a) \<Longrightarrow> \<exists>a'. arena_fill off src a = Some a'"
  by (simp add: arena_fill_def arena_wf_def memcpy_at_def)

lemma arena_fill_pos: "arena_fill off src a = Some a' \<Longrightarrow> pos a' = pos a \<and> capacity a' = capacity a"
  by (auto simp: arena_fill_def)

section \<open>The interface of a bump allocator\<close>

text \<open>
  A run of allocation requests against an allocator, in order; the granted blocks come back with
  the sizes asked for, the refused requests leave no block.
\<close>

fun alloc_run ::
  "(int \<Rightarrow> 'a \<Rightarrow> (nat option \<times> 'a) option) \<Rightarrow> int list \<Rightarrow> 'a \<Rightarrow> ((nat \<times> nat) list \<times> 'a) option"
where
  "alloc_run alloc [] a = Some ([], a)"
| "alloc_run alloc (n # ns) a =
     do {
       (r, a') \<leftarrow> alloc n a;
       (bs, a'') \<leftarrow> alloc_run alloc ns a';
       Some ((case r of None \<Rightarrow> bs | Some off \<Rightarrow> (off, nat n) # bs), a'')
     }"

definition disjoint_blocks :: "nat \<times> nat \<Rightarrow> nat \<times> nat \<Rightarrow> bool" where
  "disjoint_blocks b c \<longleftrightarrow> fst b + snd b \<le> fst c \<or> fst c + snd c \<le> fst b"

locale bump_allocator =
  fixes inv :: "'a \<Rightarrow> bool"
    and used :: "'a \<Rightarrow> nat"
    and size_of :: "'a \<Rightarrow> nat"
    and alloc :: "int \<Rightarrow> 'a \<Rightarrow> (nat option \<times> 'a) option"
    and reset :: "'a \<Rightarrow> 'a"
  assumes used_le: "inv a \<Longrightarrow> used a \<le> size_of a"
    and alloc_grant: "inv a \<Longrightarrow> 0 < n \<Longrightarrow> used a + nat n \<le> size_of a \<Longrightarrow>
      \<exists>a'. alloc n a = Some (Some (used a), a') \<and> inv a' \<and> used a' = used a + nat n
        \<and> size_of a' = size_of a"
    and alloc_refuse: "inv a \<Longrightarrow> \<not> (0 < n \<and> used a + nat n \<le> size_of a) \<Longrightarrow>
      alloc n a = Some (None, a)"
    and reset_inv: "inv a \<Longrightarrow> inv (reset a)"
    and reset_used: "inv a \<Longrightarrow> used (reset a) = 0"
    and reset_size: "size_of (reset a) = size_of a"
begin

lemma alloc_total: "inv a \<Longrightarrow> \<exists>r a'. alloc n a = Some (r, a') \<and> inv a'
    \<and> used a \<le> used a' \<and> size_of a' = size_of a
    \<and> (\<forall>off. r = Some off \<longrightarrow> off = used a \<and> used a' = used a + nat n)"
  using alloc_grant [of a n] alloc_refuse [of a n]
  by (cases "0 < n \<and> used a + nat n \<le> size_of a") auto

lemma run_blocks:
  "inv a \<Longrightarrow> \<exists>bs a'. alloc_run alloc ns a = Some (bs, a') \<and> inv a' \<and> used a \<le> used a'
     \<and> size_of a' = size_of a
     \<and> (\<forall>b\<in>set bs. used a \<le> fst b \<and> fst b + snd b \<le> used a')
     \<and> sorted_wrt disjoint_blocks bs"
proof (induction ns arbitrary: a)
  case Nil
  then show ?case by simp
next
  case (Cons n ns)
  obtain r a1 where a1: "alloc n a = Some (r, a1)" "inv a1" "used a \<le> used a1"
      "size_of a1 = size_of a"
      "\<And>off. r = Some off \<Longrightarrow> off = used a \<and> used a1 = used a + nat n"
    using alloc_total [OF Cons.prems, of n] by blast
  obtain bs a2 where a2: "alloc_run alloc ns a1 = Some (bs, a2)" "inv a2" "used a1 \<le> used a2"
      "size_of a2 = size_of a1"
      "\<forall>b\<in>set bs. used a1 \<le> fst b \<and> fst b + snd b \<le> used a2" "sorted_wrt disjoint_blocks bs"
    using Cons.IH [OF a1(2)] by blast
  show ?case
  proof (cases r)
    case None
    have "\<forall>b\<in>set bs. used a \<le> fst b \<and> fst b + snd b \<le> used a2"
      using a1(3) a2(5) by fastforce
    with None a1(1-4) a2 show ?thesis by simp
  next
    case (Some off)
    with a1(5) have off: "off = used a" "used a1 = used a + nat n" by auto
    have "\<forall>b\<in>set bs. used a \<le> fst b \<and> fst b + snd b \<le> used a2"
      using a1(3) a2(5) by fastforce
    moreover have "\<forall>b\<in>set bs. disjoint_blocks (off, nat n) b"
      using off a2(5) by (simp add: disjoint_blocks_def)
    ultimately show ?thesis
      using Some off a1(1-4) a2 by simp
  qed
qed

text \<open>What the client of a run of allocations gets: blocks inside the arena, no two overlapping.\<close>

lemma run_safe:
  "inv a \<Longrightarrow> \<exists>bs a'. alloc_run alloc ns a = Some (bs, a') \<and> inv a'
     \<and> (\<forall>b\<in>set bs. fst b + snd b \<le> size_of a) \<and> sorted_wrt disjoint_blocks bs"
proof -
  assume "inv a"
  then obtain bs a' where *: "alloc_run alloc ns a = Some (bs, a')" "inv a'"
      "size_of a' = size_of a" "\<forall>b\<in>set bs. used a \<le> fst b \<and> fst b + snd b \<le> used a'"
      "sorted_wrt disjoint_blocks bs"
    using run_blocks by blast
  have "\<forall>b\<in>set bs. fst b + snd b \<le> size_of a"
    using *(3,4) used_le [OF *(2)] by fastforce
  with * show ?thesis by blast
qed

lemma reset_all: "inv a \<Longrightarrow> 0 < n \<Longrightarrow> nat n \<le> size_of a \<Longrightarrow>
    \<exists>a'. alloc n (reset a) = Some (Some 0, a')"
  using alloc_grant [of "reset a" n] by (auto simp: reset_inv reset_used reset_size)

end

interpretation arena: bump_allocator arena_wf "\<lambda>a. nat (pos a)" "\<lambda>a. nat (capacity a)" ArenaAlloc ArenaReset
  by unfold_locales (auto simp: ArenaAlloc_cases arena_wf_def ArenaReset_def)

end
