(* ===== verification/RingBuf.thy ===== *)
theory RingBuf
  imports Prelude
begin

text \<open>
  \<^verbatim>\<open>RuruRingBuf.h\<close>: the ring buffer between the SCTP callbacks and the event loop (it holds the
  deferred heart beats of a client). The indices are unsigned 32-bit words, as in the code. The
  interface \<open>bounded_fifo\<close> is what a client of the ring relies on: a queue of at most \<open>room\<close>
  elements that drops what does not fit.
\<close>

section \<open>The code\<close>

record 'a ring =
  memory :: "'a list"
  cap :: u32
  rd :: u32
  wt :: u32

text \<open>\<open>new T[cap]\<close> leaves the elements default-initialised; \<open>x\<close> stands for such an element.\<close>

definition RuruRingBuf :: "'a \<Rightarrow> u32 \<Rightarrow> 'a ring" where
  "RuruRingBuf x c = \<lparr>memory = replicate (unat c) x, cap = c, rd = 0, wt = 0\<rparr>"

definition RingBufReset :: "'a ring \<Rightarrow> 'a ring" where
  "RingBufReset r = r\<lparr>rd := 0, wt := 0\<rparr>"

definition RingBufEmpty :: "'a ring \<Rightarrow> bool" where
  "RingBufEmpty r \<longleftrightarrow> rd r = wt r"

text \<open>
  The result is \<open>None\<close> where the code divides by zero or leaves \<open>memory\<close>. A read returns the
  element copied to \<open>out\<close>, or none for the result \<open>false\<close>.
\<close>

definition RingBufRead :: "'a ring \<Rightarrow> ('a option \<times> 'a ring) option" where
  "RingBufRead r =
     (if wt r \<noteq> rd r
      then if unat (rd r) < length (memory r) \<and> cap r \<noteq> 0
           then Some (Some (memory r ! unat (rd r)), r\<lparr>rd := (rd r + 1) mod cap r\<rparr>)
           else None
      else Some (None, r))"

definition RingBufWrite :: "'a \<Rightarrow> 'a ring \<Rightarrow> (bool \<times> 'a ring) option" where
  "RingBufWrite x r =
     (if cap r = 0 then None
      else if rd r \<noteq> (wt r + 1) mod cap r
      then if unat (wt r) < length (memory r)
           then Some (True, r\<lparr>memory := (memory r)[unat (wt r) := x], wt := (wt r + 1) mod cap r\<rparr>)
           else None
      else Some (False, r))"

section \<open>Invariant and abstraction\<close>

definition ring_wf :: "'a ring \<Rightarrow> bool" where
  "ring_wf r \<longleftrightarrow> length (memory r) = unat (cap r) \<and> rd r < cap r \<and> wt r < cap r"

definition ring_count :: "'a ring \<Rightarrow> nat" where
  "ring_count r = (unat (wt r) + unat (cap r) - unat (rd r)) mod unat (cap r)"

definition ring_items :: "'a ring \<Rightarrow> 'a list" where
  "ring_items r = map (\<lambda>i. memory r ! ((unat (rd r) + i) mod unat (cap r))) [0..<ring_count r]"

lemma unat_succ_mod:
  fixes i c :: u32
  assumes "i < c"
  shows "unat ((i + 1) mod c) = (unat i + 1) mod unat c"
proof -
  have "unat i < unat c" using assms by (simp add: word_less_nat_alt)
  moreover have "unat c < 4294967296" using unsigned_less [of c] by simp
  ultimately have "unat (i + 1) = unat i + 1"
    by (simp add: unat_word_ariths)
  then show ?thesis by (simp add: unat_mod_distrib)
qed

text \<open>The number of queued elements stays below the capacity: one slot is always free.\<close>

lemma ring_count_less: "ring_wf r \<Longrightarrow> ring_count r < unat (cap r)"
  by (auto simp: ring_wf_def ring_count_def word_less_nat_alt)

lemma ring_count_cases:
  assumes "ring_wf r"
  shows "ring_count r =
    (if unat (rd r) \<le> unat (wt r) then unat (wt r) - unat (rd r)
     else unat (wt r) + unat (cap r) - unat (rd r))"
proof (cases "unat (rd r) \<le> unat (wt r)")
  case True
  then have "unat (wt r) + unat (cap r) - unat (rd r) = (unat (wt r) - unat (rd r)) + unat (cap r)"
    by simp
  moreover have "unat (wt r) - unat (rd r) < unat (cap r)"
    using assms by (auto simp: ring_wf_def word_less_nat_alt)
  ultimately have "(unat (wt r) + unat (cap r) - unat (rd r)) mod unat (cap r)
      = unat (wt r) - unat (rd r)"
    by (metis mod_add_self2 mod_less)
  then show ?thesis using True by (simp add: ring_count_def)
next
  case False
  then show ?thesis
    using assms by (auto simp: ring_wf_def word_less_nat_alt ring_count_def)
qed

lemma mod_wrap: "(i::nat) < 2 * c \<Longrightarrow> i mod c = (if i < c then i else i - c)"
  by (cases "i < c") (auto simp: le_mod_geq)

lemma length_ring_items [simp]: "length (ring_items r) = ring_count r"
  by (simp add: ring_items_def)

lemma ring_items_nth:
  "i < ring_count r \<Longrightarrow> ring_items r ! i = ring.memory r ! ((unat (rd r) + i) mod unat (cap r))"
  by (simp add: ring_items_def)

section \<open>Every operation keeps the invariant and refines the list operation\<close>

lemma RuruRingBuf_new:
  "0 < c \<Longrightarrow> ring_wf (RuruRingBuf x c) \<and> ring_items (RuruRingBuf x c) = []"
  by (simp add: RuruRingBuf_def ring_wf_def ring_items_def ring_count_def)

lemma RingBufReset_wf:
  "ring_wf r \<Longrightarrow> ring_wf (RingBufReset r) \<and> ring_items (RingBufReset r) = []"
  by (auto simp: RingBufReset_def ring_wf_def ring_items_def ring_count_def word_less_nat_alt)

lemma RingBufEmpty_iff: "ring_wf r \<Longrightarrow> RingBufEmpty r \<longleftrightarrow> ring_items r = []"
  unfolding RingBufEmpty_def
  using ring_count_cases [of r]
  by (auto simp: ring_items_def ring_wf_def word_less_nat_alt word_unat_eq_iff split: if_splits)

lemma ring_full_iff:
  assumes "ring_wf r"
  shows "rd r = (wt r + 1) mod cap r \<longleftrightarrow> ring_count r = unat (cap r) - 1"
proof -
  let ?w = "unat (wt r)" and ?d = "unat (rd r)" and ?c = "unat (cap r)"
  have b: "?w < ?c" "?d < ?c" using assms by (auto simp: ring_wf_def word_less_nat_alt)
  have "rd r = (wt r + 1) mod cap r \<longleftrightarrow> ?d = (?w + 1) mod ?c"
    using unat_succ_mod [of "wt r" "cap r"] assms by (auto simp: ring_wf_def word_unat_eq_iff)
  also have "\<dots> \<longleftrightarrow> ?d = (if ?w + 1 < ?c then ?w + 1 else 0)"
    using b by (simp add: mod_wrap)
  finally show ?thesis
    using b ring_count_cases [OF assms] by auto
qed

lemma RingBufWrite_full:
  assumes "ring_wf r" and "length (ring_items r) = unat (cap r) - 1"
  shows "RingBufWrite x r = Some (False, r)"
proof -
  have "cap r \<noteq> 0" using assms(1) by (auto simp: ring_wf_def)
  then show ?thesis
    using assms ring_full_iff [OF assms(1)] by (simp add: RingBufWrite_def)
qed

lemma RingBufWrite_room:
  assumes wf: "ring_wf r" and room: "length (ring_items r) < unat (cap r) - 1"
  shows "\<exists>r'. RingBufWrite x r = Some (True, r') \<and> ring_wf r'
    \<and> ring_items r' = ring_items r @ [x] \<and> cap r' = cap r"
proof -
  let ?w = "unat (wt r)" and ?d = "unat (rd r)" and ?c = "unat (cap r)"
  let ?r = "r\<lparr>ring.memory := (ring.memory r)[?w := x], wt := (wt r + 1) mod cap r\<rparr>"
  have b: "?w < ?c" "?d < ?c" and c0: "cap r \<noteq> 0" and len: "length (ring.memory r) = ?c"
    using wf by (auto simp: ring_wf_def word_less_nat_alt)
  have put: "RingBufWrite x r = Some (True, ?r)"
    using room ring_full_iff [OF wf] c0 b len by (simp add: RingBufWrite_def)
  have wt': "unat (wt ?r) = (?w + 1) mod ?c"
    using unat_succ_mod [of "wt r" "cap r"] wf by (simp add: ring_wf_def)
  have wf': "ring_wf ?r"
    using wf wt' b by (simp add: ring_wf_def word_less_nat_alt)
  have count: "ring_count ?r = Suc (ring_count r)"
    using ring_count_cases [OF wf] ring_count_cases [OF wf'] room b wt'
    by (auto simp: mod_wrap split: if_splits)
  have last: "(?d + ring_count r) mod ?c = ?w"
    using ring_count_cases [OF wf] b by (auto simp: mod_wrap split: if_splits)
  have other: "(?d + i) mod ?c \<noteq> ?w" if "i < ring_count r" for i
    using ring_count_cases [OF wf] b that by (auto simp: mod_wrap split: if_splits)
  have "ring_items ?r = ring_items r @ [x]"
  proof (rule nth_equalityI)
    show "length (ring_items ?r) = length (ring_items r @ [x])"
      using count by simp
    fix i assume "i < length (ring_items ?r)"
    then have i: "i < Suc (ring_count r)" using count by simp
    show "ring_items ?r ! i = (ring_items r @ [x]) ! i"
    proof (cases "i < ring_count r")
      case True
      then show ?thesis
        using other [OF True] i count len by (simp add: ring_items_nth nth_append)
    next
      case False
      then have "i = ring_count r" using i by simp
      then show ?thesis
        using last count len b by (simp add: ring_items_nth nth_append)
    qed
  qed
  then show ?thesis using put wf' by auto
qed

lemma RingBufRead_empty: "ring_wf r \<Longrightarrow> ring_items r = [] \<Longrightarrow> RingBufRead r = Some (None, r)"
  using RingBufEmpty_iff [of r] by (simp add: RingBufRead_def RingBufEmpty_def)

lemma RingBufRead_cons:
  assumes wf: "ring_wf r" and items: "ring_items r = x # xs"
  shows "\<exists>r'. RingBufRead r = Some (Some x, r') \<and> ring_wf r' \<and> ring_items r' = xs \<and> cap r' = cap r"
proof -
  let ?w = "unat (wt r)" and ?d = "unat (rd r)" and ?c = "unat (cap r)"
  let ?r = "r\<lparr>rd := (rd r + 1) mod cap r\<rparr>"
  have b: "?w < ?c" "?d < ?c" and c0: "cap r \<noteq> 0" and len: "length (ring.memory r) = ?c"
    using wf by (auto simp: ring_wf_def word_less_nat_alt)
  have n: "ring_count r = Suc (length xs)"
    using items by (metis length_Cons length_ring_items)
  have ne: "wt r \<noteq> rd r"
    using RingBufEmpty_iff [OF wf] items by (auto simp: RingBufEmpty_def)
  have x: "x = ring.memory r ! ?d"
    using ring_items_nth [of 0 r] n items b by simp
  have get: "RingBufRead r = Some (Some x, ?r)"
    using ne b len c0 x by (simp add: RingBufRead_def)
  have rd': "unat (rd ?r) = (?d + 1) mod ?c"
    using unat_succ_mod [of "rd r" "cap r"] wf by (simp add: ring_wf_def)
  have wf': "ring_wf ?r"
    using wf rd' b by (simp add: ring_wf_def word_less_nat_alt)
  have count: "ring_count ?r = length xs"
    using ring_count_cases [OF wf] ring_count_cases [OF wf'] n b rd'
    by (auto simp: mod_wrap split: if_splits)
  have "ring_items ?r = xs"
  proof (rule nth_equalityI)
    show "length (ring_items ?r) = length xs" using count by simp
    fix i assume "i < length (ring_items ?r)"
    then have i: "i < length xs" using count by simp
    have "((?d + 1) mod ?c + i) mod ?c = (?d + Suc i) mod ?c"
      by (simp add: mod_add_left_eq)
    then have "ring_items ?r ! i = ring_items r ! Suc i"
      using i n count rd' by (simp add: ring_items_nth)
    then show "ring_items ?r ! i = xs ! i" using items by simp
  qed
  then show ?thesis using get wf' by auto
qed

section \<open>The interface of a bounded queue\<close>

text \<open>Any sequence of operations, with what each of them returns.\<close>

datatype 'a fifo_op = Write 'a | Read | Ask_empty | Reset

datatype 'a fifo_result = Written bool | Got "'a option" | Is_empty bool | Was_reset

fun fifo_exec ::
  "('a \<Rightarrow> 'q \<Rightarrow> (bool \<times> 'q) option) \<Rightarrow> ('q \<Rightarrow> ('a option \<times> 'q) option) \<Rightarrow> ('q \<Rightarrow> bool) \<Rightarrow> ('q \<Rightarrow> 'q)
    \<Rightarrow> 'a fifo_op list \<Rightarrow> 'q \<Rightarrow> ('a fifo_result list \<times> 'q) option"
where
  "fifo_exec put get emp rst [] q = Some ([], q)"
| "fifo_exec put get emp rst (Write x # os) q =
     do { (b, q1) \<leftarrow> put x q; (ys, q2) \<leftarrow> fifo_exec put get emp rst os q1; Some (Written b # ys, q2) }"
| "fifo_exec put get emp rst (Read # os) q =
     do { (y, q1) \<leftarrow> get q; (ys, q2) \<leftarrow> fifo_exec put get emp rst os q1; Some (Got y # ys, q2) }"
| "fifo_exec put get emp rst (Ask_empty # os) q =
     do { (ys, q1) \<leftarrow> fifo_exec put get emp rst os q; Some (Is_empty (emp q) # ys, q1) }"
| "fifo_exec put get emp rst (Reset # os) q =
     do { (ys, q1) \<leftarrow> fifo_exec put get emp rst os (rst q); Some (Was_reset # ys, q1) }"

text \<open>The same on a list that holds at most \<open>n\<close> elements.\<close>

fun queue_exec :: "nat \<Rightarrow> 'a fifo_op list \<Rightarrow> 'a list \<Rightarrow> 'a fifo_result list \<times> 'a list" where
  "queue_exec n [] q = ([], q)"
| "queue_exec n (Write x # os) q =
     (let (ys, q') = queue_exec n os (if length q < n then q @ [x] else q) in (Written (length q < n) # ys, q'))"
| "queue_exec n (Read # os) [] = (let (ys, q') = queue_exec n os [] in (Got None # ys, q'))"
| "queue_exec n (Read # os) (x # q) = (let (ys, q') = queue_exec n os q in (Got (Some x) # ys, q'))"
| "queue_exec n (Ask_empty # os) q = (let (ys, q') = queue_exec n os q in (Is_empty (q = []) # ys, q'))"
| "queue_exec n (Reset # os) q = (let (ys, q') = queue_exec n os [] in (Was_reset # ys, q'))"

locale bounded_fifo =
  fixes inv :: "'q \<Rightarrow> bool"
    and items :: "'q \<Rightarrow> 'a list"
    and room :: "'q \<Rightarrow> nat"
    and put :: "'a \<Rightarrow> 'q \<Rightarrow> (bool \<times> 'q) option"
    and get :: "'q \<Rightarrow> ('a option \<times> 'q) option"
    and emp :: "'q \<Rightarrow> bool"
    and rst :: "'q \<Rightarrow> 'q"
  assumes items_le: "inv q \<Longrightarrow> length (items q) \<le> room q"
    and write_full: "inv q \<Longrightarrow> length (items q) = room q \<Longrightarrow> put x q = Some (False, q)"
    and write_room: "inv q \<Longrightarrow> length (items q) < room q \<Longrightarrow>
      \<exists>q'. put x q = Some (True, q') \<and> inv q' \<and> items q' = items q @ [x] \<and> room q' = room q"
    and read_empty: "inv q \<Longrightarrow> items q = [] \<Longrightarrow> get q = Some (None, q)"
    and read_cons: "inv q \<Longrightarrow> items q = x # xs \<Longrightarrow>
      \<exists>q'. get q = Some (Some x, q') \<and> inv q' \<and> items q' = xs \<and> room q' = room q"
    and empty_iff: "inv q \<Longrightarrow> emp q \<longleftrightarrow> items q = []"
    and reset: "inv q \<Longrightarrow> inv (rst q) \<and> items (rst q) = [] \<and> room (rst q) = room q"
begin

lemma write_total: "inv q \<Longrightarrow> \<exists>q'. put x q = Some (length (items q) < room q, q') \<and> inv q' \<and> room q' = room q
    \<and> items q' = (if length (items q) < room q then items q @ [x] else items q)"
  using write_room [of q x] write_full [of q x] items_le [of q] by (cases "length (items q) < room q") auto

text \<open>Every sequence of operations answers as the list does.\<close>

lemma exec_queue:
  "inv q \<Longrightarrow> \<exists>q'. fifo_exec put get emp rst os q = Some (fst (queue_exec (room q) os (items q)), q') \<and> inv q'
     \<and> room q' = room q \<and> items q' = snd (queue_exec (room q) os (items q))"
proof (induction os arbitrary: q)
  case Nil
  then show ?case by simp
next
  case (Cons c os)
  show ?case
  proof (cases c)
    case (Write x)
    obtain q1 where q1: "put x q = Some (length (items q) < room q, q1)" "inv q1" "room q1 = room q"
        "items q1 = (if length (items q) < room q then items q @ [x] else items q)"
      using write_total [OF Cons.prems] by blast
    then show ?thesis using Cons.IH [OF q1(2)] by (auto simp: Write split_beta)
  next
    case Read
    show ?thesis
    proof (cases "items q")
      case Nil
      then show ?thesis using Cons.IH [OF Cons.prems] read_empty [OF Cons.prems Nil] by (auto simp: Read split_beta)
    next
      case (Cons y ys)
      obtain q1 where "get q = Some (Some y, q1)" "inv q1" "items q1 = ys" "room q1 = room q"
        using read_cons [OF Cons.prems Cons] by blast
      then show ?thesis using Cons.IH [of q1] by (auto simp: Read split_beta Cons)
    qed
  next
    case Ask_empty
    then show ?thesis using Cons.IH [OF Cons.prems] empty_iff [OF Cons.prems] by (auto simp: split_beta)
  next
    case Reset
    then show ?thesis using Cons.IH [of "rst q"] reset [OF Cons.prems] by (auto simp: split_beta)
  qed
qed

end

interpretation ring: bounded_fifo ring_wf ring_items "\<lambda>r. unat (cap r) - 1" RingBufWrite RingBufRead RingBufEmpty RingBufReset
proof unfold_locales
  show "ring_wf r \<Longrightarrow> length (ring_items r) \<le> unat (cap r) - 1" for r :: "'a ring"
    using ring_count_less [of r] by simp
  show "ring_wf r \<Longrightarrow> ring_items r = [] \<Longrightarrow> RingBufRead r = Some (None, r)" for r :: "'a ring"
    by (rule RingBufRead_empty)
  show "ring_wf r \<Longrightarrow> ring_wf (RingBufReset r) \<and> ring_items (RingBufReset r) = []
      \<and> unat (cap (RingBufReset r)) - 1 = unat (cap r) - 1" for r :: "'a ring"
    using RingBufReset_wf [of r] by (simp add: RingBufReset_def)
  show "ring_wf r \<Longrightarrow> RingBufEmpty r \<longleftrightarrow> ring_items r = []" for r :: "'a ring"
    by (rule RingBufEmpty_iff)
qed (use RingBufWrite_full RingBufWrite_room RingBufRead_cons in \<open>fastforce+\<close>)

end
