(* ===== verification/World.thy ===== *)
theory World
  imports Network Arena RingBuf
begin

text \<open>
  The data of the transport server and the libraries it calls. OpenSSL and usrsctp are not part of
  the repository: \<open>openssl\<close> and \<open>usrsctp\<close> extend \<open>kernel\<close> by the calls the program makes, as
  functions on the world \<open>'w\<close>. A call of usrsctp during which the library calls back into the
  program returns the list of these upcalls; the model runs them in order before it goes on.

  A client object lives as long as the server (\<open>clientMgr_\<close> only grows), so a pointer to a client
  or to its \<open>RuruSctp\<close> member is the client's index in \<open>clientMgr_\<close>.
\<close>

section \<open>\<^verbatim>\<open>RuruSctp.h\<close>, \<^verbatim>\<open>RuruEvent.h\<close>, \<^verbatim>\<open>RuruClient.h\<close>\<close>

record SctpMsgParam =
  sid :: u16
  ppid :: u32

text \<open>A message to send: \<open>data\<close> with its length \<open>len\<close>.\<close>

record RuruSctpMessage =
  msg_data :: bytes
  msg_param :: SctpMsgParam

record RuruCacheData =
  cache_data :: bytes
  cache_param :: SctpMsgParam

datatype RuruEventType = EVT_None | EVT_RecvClientData | EVT_HeartBeat | EVT_SendCacheData

record RuruDataParam =
  par_sid :: int
  par_ssn :: int
  par_tsn :: int

text \<open>\<open>ev_data\<close> points into the arena of the loop; \<open>ev_length\<close> has 16 bits.\<close>

record RuruEvent =
  ev_type :: RuruEventType
  ev_client :: "nat option"
  ev_data :: "nat option"
  ev_length :: u16
  ev_param :: RuruDataParam

definition RuruEvent_new :: RuruEvent where
  "RuruEvent_new = \<lparr>ev_type = EVT_None, ev_client = None, ev_data = None, ev_length = 0,
     ev_param = \<lparr>par_sid = 0, par_ssn = 0, par_tsn = 0\<rparr>\<rparr>"

text \<open>\<open>HeartBeatData\<close>: an array of 1024 bytes and the number of bytes used.\<close>

record HeartBeatData =
  beat_data :: bytes
  beat_length :: u16

definition HeartBeatData_new :: HeartBeatData where
  "HeartBeatData_new = \<lparr>beat_data = replicate 1024 0, beat_length = 0\<rparr>"

section \<open>The library calls\<close>

record sctp_rcvinfo =
  rcv_sid :: u16
  rcv_ssn :: u16
  rcv_tsn :: u32

record sctp_sndinfo =
  snd_sid :: u16
  snd_flags :: u16
  snd_ppid :: u32

datatype sockopt = SO_LINGER_on int | PEER_PMTUD_DISABLE int | STREAM_RESET int | NODELAY int | EXPLICIT_EOR int

text \<open>
  \<open>Outbound t d\<close> is the call of \<open>OnSctpOutboundPacket\<close> for the transport \<open>t\<close>, \<open>Inbound t d r\<close> the
  call of \<open>OnSctpInboundPacket\<close>; the data pointer may be null.
\<close>

datatype upcall =
    Outbound nat "bytes option"
  | Inbound "nat option" "bytes option" sctp_rcvinfo

record 'w openssl = "'w kernel" +
  SSL_new :: "'w \<Rightarrow> nat \<times> 'w"
  BIO_write :: "nat \<Rightarrow> bytes \<Rightarrow> 'w \<Rightarrow> 'w"
  BIO_pending_in :: "nat \<Rightarrow> 'w \<Rightarrow> nat"
  BIO_pending_out :: "nat \<Rightarrow> 'w \<Rightarrow> nat"
  BIO_read_out :: "nat \<Rightarrow> nat \<Rightarrow> 'w \<Rightarrow> int \<times> bytes \<times> 'w"
  SSL_is_init_finished :: "nat \<Rightarrow> 'w \<Rightarrow> bool"
  SSL_do_handshake :: "nat \<Rightarrow> 'w \<Rightarrow> int \<times> 'w"
  SSL_get_error :: "nat \<Rightarrow> int \<Rightarrow> 'w \<Rightarrow> int"
  SSL_read :: "nat \<Rightarrow> nat \<Rightarrow> 'w \<Rightarrow> int \<times> bytes \<times> 'w"
  SSL_write :: "nat \<Rightarrow> bytes \<Rightarrow> 'w \<Rightarrow> 'w"

record 'w usrsctp = "'w openssl" +
  us_init :: "'w \<Rightarrow> 'w"
  us_ecn_disable :: "'w \<Rightarrow> 'w"
  us_socket :: "nat \<Rightarrow> 'w \<Rightarrow> nat option \<times> 'w"
  us_register :: "nat \<Rightarrow> 'w \<Rightarrow> 'w"
  us_deregister_client :: "nat \<Rightarrow> 'w \<Rightarrow> 'w"
  us_set_non_blocking :: "nat option \<Rightarrow> 'w \<Rightarrow> int \<times> 'w"
  us_setsockopt :: "nat option \<Rightarrow> sockopt \<Rightarrow> 'w \<Rightarrow> 'w"
  us_bind :: "nat option \<Rightarrow> u16 \<Rightarrow> nat \<Rightarrow> 'w \<Rightarrow> int \<times> 'w"
  us_listen :: "nat option \<Rightarrow> 'w \<Rightarrow> int \<times> 'w"
  us_accept :: "nat option \<Rightarrow> 'w \<Rightarrow> nat option \<times> 'w"
  us_close :: "nat option \<Rightarrow> 'w \<Rightarrow> upcall list \<times> 'w"
  us_sendv :: "nat option \<Rightarrow> bytes \<Rightarrow> sctp_sndinfo \<Rightarrow> 'w \<Rightarrow> int \<times> upcall list \<times> 'w"
  us_conninput :: "nat \<Rightarrow> bytes \<Rightarrow> 'w \<Rightarrow> upcall list \<times> 'w"

section \<open>The state of the server\<close>

text \<open>
  A client with its members \<open>dtlsTransport\<close> (the handle \<open>ssl\<close> and its flag) and \<open>sctpTransport\<close>
  (\<open>sock_\<close> and its flag). The constructor of \<open>RuruSctp\<close> leaves its flag uninitialised on its early
  returns, which is the value \<open>None\<close>. \<open>attached\<close> tells whether \<open>AttachClientInfo\<close> has set the
  pointers \<open>que\<close> and \<open>arena\<close>.
\<close>

record client =
  ssl :: nat
  dtls_done :: bool
  sock :: "nat option"
  sctp_done :: "bool option"
  heartBeatRing :: "HeartBeatData ring"
  address :: RuruAddress
  cache :: "RuruCacheData list"
  attached :: bool
  udpfd :: int

text \<open>\<open>RuruConnectionData\<close>: a TCP connection with its fixed read buffer.\<close>

record conn =
  con_fd :: int
  con_data :: bytes
  con_length :: int

definition conn_new :: conn where
  "conn_new = \<lparr>con_fd = -1, con_data = replicate 4096 0, con_length = 0\<rparr>"

text \<open>
  The loop object; the objects \<open>RuruConnectionData\<close> created with \<open>new\<close>, by their addresses, with
  the next fresh address; the static members and function statics. \<open>None\<close> in a descriptor or in
  \<open>events_\<close> is an uninitialised member.
\<close>

record 'w server =
  udp_fd :: "int option"
  tcp_fd :: "int option"
  ep_fd :: "int option"
  ev_array :: "bool option"
  clientMgr :: "client list"
  que :: "RuruEvent list"
  arena :: arena
  conns :: "nat \<rightharpoonup> conn"
  next_conn :: nat
  usrsctpInit :: bool
  scan_count :: int
  world :: 'w

section \<open>Access to one client\<close>

definition get_client :: "nat \<Rightarrow> 'w server \<Rightarrow> client option" where
  "get_client i s = (if i < length (clientMgr s) then Some (clientMgr s ! i) else None)"

definition put_client :: "nat \<Rightarrow> client \<Rightarrow> 'w server \<Rightarrow> 'w server" where
  "put_client i c s = s\<lparr>clientMgr := (clientMgr s)[i := c]\<rparr>"

lemma get_put_client [run_simps]:
  "get_client j (put_client i c s) =
     (if i < length (clientMgr s) \<and> i = j then Some c else get_client j s)"
  by (auto simp: get_client_def put_client_def)

lemma get_client_length: "get_client i s = Some c \<Longrightarrow> i < length (clientMgr s)"
  by (simp add: get_client_def split: if_splits)

lemma put_client_fields [run_simps]:
  "que (put_client i c s) = que s" "arena (put_client i c s) = arena s"
  "world (put_client i c s) = world s" "conns (put_client i c s) = conns s"
  "length (clientMgr (put_client i c s)) = length (clientMgr s)"
  by (simp_all add: put_client_def)

definition upd_client :: "nat \<Rightarrow> (client \<Rightarrow> client) \<Rightarrow> 'w server \<Rightarrow> 'w server option" where
  "upd_client i f s = map_option (\<lambda>c. put_client i (f c) s) (get_client i s)"

end
