(* ===== verification/Transport.thy ===== *)
theory Transport
  imports World
begin

text \<open>
  \<^verbatim>\<open>RuruDtls.cpp\<close>, \<^verbatim>\<open>RuruSctp.cpp\<close>, \<^verbatim>\<open>RuruClient.cpp\<close>: the stack of one client. A function
  takes the index of the client and the state of the server; \<open>None\<close> is undefined behaviour or, for
  the loops over OpenSSL's buffers, not returning. \<open>perror\<close> and \<open>printf\<close> only print and are left
  out.
\<close>

section \<open>Sending through DTLS\<close>

partial_function (option) pending_loop ::
  "('w, 'z) usrsctp_scheme \<Rightarrow> nat \<Rightarrow> int \<Rightarrow> sockaddr_in \<Rightarrow> 'w \<Rightarrow> 'w option"
where
  "pending_loop k h fd addr w =
     (if BIO_pending_out k h w > 0
      then let (bytes, buffer, w1) = BIO_read_out k h 4096 w in
        pending_loop k h fd addr
          (if bytes > 0 then sys_sendto k fd (take (nat bytes) buffer) addr w1 else w1)
      else Some w)"

definition client_sockaddr :: "client \<Rightarrow> sockaddr_in" where
  "client_sockaddr c = \<lparr>sin_family = AF_INET, sin_port = htons (port (address c)),
     sin_addr = htonl (host (address c))\<rparr>"

definition ClientSendPendingDtls :: "('w, 'z) usrsctp_scheme \<Rightarrow> nat \<Rightarrow> 'w server \<Rightarrow> 'w server option" where
  "ClientSendPendingDtls k i s =
     do {
       c \<leftarrow> get_client i s;
       w \<leftarrow> pending_loop k (ssl c) (udpfd c) (client_sockaddr c) (world s);
       Some (s\<lparr>world := w\<rparr>)
     }"

definition ClientSendData :: "('w, 'z) usrsctp_scheme \<Rightarrow> nat \<Rightarrow> bytes \<Rightarrow> 'w server \<Rightarrow> 'w server option" where
  "ClientSendData k i data s =
     do {
       c \<leftarrow> get_client i s;
       if dtls_done c
       then ClientSendPendingDtls k i (s\<lparr>world := SSL_write k (ssl c) data (world s)\<rparr>)
       else Some s
     }"

section \<open>The callbacks of usrsctp\<close>

text \<open>
  A packet of at least the 16 bytes of \<open>SctpHeader\<close>: byte 12 is the type of its first chunk, 4 and
  5 are heart beats. The copy into the 1024 bytes of \<open>beat.data\<close> has no bound in the code.
\<close>

definition OnSctpOutboundPacket ::
  "('w, 'z) usrsctp_scheme \<Rightarrow> nat \<Rightarrow> bytes option \<Rightarrow> 'w server \<Rightarrow> 'w server option"
where
  "OnSctpOutboundPacket k t data s =
     (case data of
        None \<Rightarrow> Some s
      | Some d \<Rightarrow>
          if length d < 16 then Some s
          else do {
            c \<leftarrow> get_client t s;
            if d ! 12 = 4 \<or> d ! 12 = 5
            then do {
              bd \<leftarrow> memcpy_at 0 d (beat_data HeartBeatData_new);
              let beat = \<lparr>beat_data = bd, beat_length = word_of_nat (length d)\<rparr>;
              (b, r) \<leftarrow> RingBufWrite beat (heartBeatRing c);
              let s1 = put_client t (c\<lparr>heartBeatRing := r\<rparr>) s;
              let evt = RuruEvent_new\<lparr>ev_type := EVT_HeartBeat, ev_client := Some t\<rparr>;
              if attached c then Some (s1\<lparr>que := que s1 @ [evt]\<rparr>) else None
            }
            else ClientSendData k t d s
          })"

definition PushClientRecvData ::
  "nat \<Rightarrow> bytes \<Rightarrow> sctp_rcvinfo \<Rightarrow> 'w server \<Rightarrow> 'w server option"
where
  "PushClientRecvData i data rcv s =
     do {
       c \<leftarrow> get_client i s;
       if attached c
       then do {
         (p, a) \<leftarrow> ArenaAlloc (int_cast (length data)) (arena s);
         case p of
           None \<Rightarrow> Some (s\<lparr>arena := a\<rparr>)
         | Some off \<Rightarrow> do {
             a' \<leftarrow> arena_fill off data a;
             let evt = \<lparr>ev_type = EVT_RecvClientData, ev_client = Some i, ev_data = Some off,
                        ev_length = word_of_nat (length data),
                        ev_param = \<lparr>par_sid = uint (rcv_sid rcv), par_ssn = uint (rcv_ssn rcv),
                                    par_tsn = sint (rcv_tsn rcv)\<rparr>\<rparr>;
             Some (s\<lparr>arena := a', que := que s @ [evt]\<rparr>)
           }
       }
       else None
     }"

definition OnSctpInboundPacket ::
  "nat option \<Rightarrow> bytes option \<Rightarrow> sctp_rcvinfo \<Rightarrow> 'w server \<Rightarrow> 'w server option"
where
  "OnSctpInboundPacket ulp data rcv s =
     (case data of
        None \<Rightarrow> Some s
      | Some d \<Rightarrow> (case ulp of None \<Rightarrow> Some s | Some t \<Rightarrow> PushClientRecvData t d rcv s))"

fun run_upcall :: "('w, 'z) usrsctp_scheme \<Rightarrow> upcall \<Rightarrow> 'w server \<Rightarrow> 'w server option" where
  "run_upcall k (Outbound t d) s = OnSctpOutboundPacket k t d s"
| "run_upcall k (Inbound t d r) s = OnSctpInboundPacket t d r s"

fun run_upcalls :: "('w, 'z) usrsctp_scheme \<Rightarrow> upcall list \<Rightarrow> 'w server \<Rightarrow> 'w server option" where
  "run_upcalls k [] s = Some s"
| "run_upcalls k (u # us) s = do { s1 \<leftarrow> run_upcall k u s; run_upcalls k us s1 }"

section \<open>Setting up and closing an SCTP socket\<close>

definition UsrsctpStartInit :: "('w, 'z) usrsctp_scheme \<Rightarrow> 'w server \<Rightarrow> 'w server" where
  "UsrsctpStartInit k s =
     (if \<not> usrsctpInit s
      then s\<lparr>world := us_ecn_disable k (us_init k (world s)), usrsctpInit := True\<rparr>
      else s)"

definition ConfigureSctpSocket ::
  "('w, 'z) usrsctp_scheme \<Rightarrow> nat option \<Rightarrow> nat \<Rightarrow> 'w \<Rightarrow> bool \<times> 'w"
where
  "ConfigureSctpSocket k sk this w =
     (let (r, w1) = us_set_non_blocking k sk w in
      if r < 0 then (False, w1)
      else
        let w2 = us_setsockopt k sk (SO_LINGER_on 0) w1;
            w3 = us_setsockopt k sk (PEER_PMTUD_DISABLE 1200) w2;
            w4 = us_setsockopt k sk (STREAM_RESET 1) w3;
            w5 = us_setsockopt k sk (NODELAY 1) w4;
            w6 = us_setsockopt k sk (EXPLICIT_EOR 1) w5;
            (b, w7) = us_bind k sk (htons 5001) this w6
        in (0 \<le> b, w7))"

text \<open>Closing deregisters the address of the client object, not that of the transport.\<close>

definition CloseSctpSocket :: "('w, 'z) usrsctp_scheme \<Rightarrow> nat \<Rightarrow> 'w server \<Rightarrow> 'w server option" where
  "CloseSctpSocket k i s =
     do {
       c \<leftarrow> get_client i s;
       if sock c \<noteq> None
       then do {
         let (ups, w) = us_close k (sock c) (world s);
         s1 \<leftarrow> run_upcalls k ups (s\<lparr>world := w\<rparr>);
         s2 \<leftarrow> upd_client i (\<lambda>c. c\<lparr>sock := None\<rparr>) s1;
         Some (s2\<lparr>world := us_deregister_client k i (world s2)\<rparr>)
       }
       else Some s
     }"

definition RuruSctp_new :: "('w, 'z) usrsctp_scheme \<Rightarrow> nat \<Rightarrow> 'w server \<Rightarrow> 'w server option" where
  "RuruSctp_new k i s =
     do {
       let s0 = UsrsctpStartInit k s;
       let (sk, w1) = us_socket k i (world s0);
       s1 \<leftarrow> upd_client i (\<lambda>c. c\<lparr>sock := sk\<rparr>) (s0\<lparr>world := w1\<rparr>);
       if sk = None then Some s1
       else do {
         let w2 = us_register k i (world s1);
         let (ok, w3) = ConfigureSctpSocket k sk i w2;
         if \<not> ok then CloseSctpSocket k i (s1\<lparr>world := w3\<rparr>)
         else do {
           let (r, w4) = us_listen k sk w3;
           if r < 0 then CloseSctpSocket k i (s1\<lparr>world := w4\<rparr>)
           else upd_client i (\<lambda>c. c\<lparr>sctp_done := Some False\<rparr>) (s1\<lparr>world := w4\<rparr>)
         }
       }
     }"

section \<open>Sending messages\<close>

definition SCTP_EOR :: u16 where
  "SCTP_EOR = 0x2000"

definition sndinfo_of :: "SctpMsgParam \<Rightarrow> sctp_sndinfo" where
  "sndinfo_of p = \<lparr>snd_sid = sid p, snd_flags = SCTP_EOR, snd_ppid = htonl (ppid p)\<rparr>"

definition PushMsg2ClientCache :: "nat \<Rightarrow> RuruSctpMessage option \<Rightarrow> 'w server \<Rightarrow> 'w server option" where
  "PushMsg2ClientCache i msg s =
     (case msg of
        None \<Rightarrow> None
      | Some m \<Rightarrow>
          upd_client i (\<lambda>c. c\<lparr>cache := cache c @ [\<lparr>cache_data = msg_data m, cache_param = msg_param m\<rparr>]\<rparr>) s)"

text \<open>
  What both sending functions do when \<open>usrsctp_sendv\<close> fails for another reason than a full buffer:
  the socket is closed, \<open>sock_\<close> keeps its value.
\<close>

definition send_failed :: "('w, 'z) usrsctp_scheme \<Rightarrow> nat \<Rightarrow> 'w server \<Rightarrow> 'w server option" where
  "send_failed k i s =
     do {
       c \<leftarrow> get_client i s;
       let (ups, w) = us_close k (sock c) (world s);
       s1 \<leftarrow> run_upcalls k ups (s\<lparr>world := w\<rparr>);
       upd_client i (\<lambda>c. c\<lparr>sctp_done := Some False\<rparr>) s1
     }"

partial_function (option) SendCache_loop ::
  "('w, 'z) usrsctp_scheme \<Rightarrow> nat \<Rightarrow> 'w server \<Rightarrow> (bool \<times> 'w server) option"
where
  "SendCache_loop k i s =
     do {
       c \<leftarrow> get_client i s;
       (case cache c of
          [] \<Rightarrow> Some (True, s)
        | m # ms \<Rightarrow>
            let (r, ups, w) = us_sendv k (sock c) (cache_data m) (sndinfo_of (cache_param m)) (world s) in
            do {
              s1 \<leftarrow> run_upcalls k ups (s\<lparr>world := w\<rparr>);
              if r < 0
              then if sys_errno k w \<noteq> EAGAIN
                   then do { s2 \<leftarrow> send_failed k i s1; Some (False, s2) }
                   else Some (False, s1)
              else do {
                s2 \<leftarrow> upd_client i (\<lambda>c. c\<lparr>cache := tl (cache c)\<rparr>) s1;
                SendCache_loop k i s2
              }
            })
     }"

definition SendSctpCacheData ::
  "('w, 'z) usrsctp_scheme \<Rightarrow> nat \<Rightarrow> 'w server \<Rightarrow> (bool \<times> 'w server) option"
where
  "SendSctpCacheData k i s =
     do {
       c \<leftarrow> get_client i s;
       d \<leftarrow> sctp_done c;
       if \<not> d then Some (False, s) else SendCache_loop k i s
     }"

definition SendUsrSctpData ::
  "('w, 'z) usrsctp_scheme \<Rightarrow> nat \<Rightarrow> RuruSctpMessage option \<Rightarrow> 'w server \<Rightarrow> (bool \<times> 'w server) option"
where
  "SendUsrSctpData k i msg s =
     do {
       (ok, s1) \<leftarrow> SendSctpCacheData k i s;
       if \<not> ok then do { s2 \<leftarrow> PushMsg2ClientCache i msg s1; Some (False, s2) }
       else (case msg of
         None \<Rightarrow> Some (True, s1)
       | Some m \<Rightarrow> do {
           c \<leftarrow> get_client i s1;
           d \<leftarrow> sctp_done c;
           if \<not> d then Some (True, s1)
           else do {
             let (r, ups, w) = us_sendv k (sock c) (msg_data m) (sndinfo_of (msg_param m)) (world s1);
             s2 \<leftarrow> run_upcalls k ups (s1\<lparr>world := w\<rparr>);
             if r < 0
             then do {
               s3 \<leftarrow> (if sys_errno k w = EAGAIN then PushMsg2ClientCache i msg s2 else send_failed k i s2);
               Some (False, s3)
             }
             else Some (True, s2)
           }
         })
     }"

section \<open>Receiving\<close>

definition RecvUsrSctpData ::
  "('w, 'z) usrsctp_scheme \<Rightarrow> nat \<Rightarrow> bytes option \<Rightarrow> 'w server \<Rightarrow> 'w server option"
where
  "RecvUsrSctpData k i data s =
     (case data of
        None \<Rightarrow> Some s
      | Some d \<Rightarrow> do {
          c \<leftarrow> get_client i s;
          hs \<leftarrow> sctp_done c;
          s1 \<leftarrow> (if \<not> hs
             then let (n, w1) = us_accept k (sock c) (world s) in
               (case n of
                  None \<Rightarrow> Some (s\<lparr>world := w1\<rparr>)
                | Some sk \<Rightarrow> do {
                    let (ups, w2) = us_close k (sock c) w1;
                    s' \<leftarrow> run_upcalls k ups (s\<lparr>world := w2\<rparr>);
                    upd_client i (\<lambda>c. c\<lparr>sock := Some sk, sctp_done := Some True\<rparr>) s'
                  })
             else Some s);
          let (ups, w) = us_conninput k i d (world s1);
          run_upcalls k ups (s1\<lparr>world := w\<rparr>)
        })"

section \<open>The DTLS input of a client\<close>

text \<open>\<open>SSL_get_error\<close> value 2 is \<open>SSL_ERROR_WANT_READ\<close>.\<close>

partial_function (option) ssl_read_loop ::
  "('w, 'z) usrsctp_scheme \<Rightarrow> nat \<Rightarrow> nat \<Rightarrow> 'w server \<Rightarrow> 'w server option"
where
  "ssl_read_loop k i h s =
     (if BIO_pending_in k h (world s) > 0
      then let (bytes, buffer, w1) = SSL_read k h 4096 (world s) in
        if bytes > 0
        then do {
          s1 \<leftarrow> RecvUsrSctpData k i (Some (take (nat bytes) buffer)) (s\<lparr>world := w1\<rparr>);
          ssl_read_loop k i h s1
        }
        else ssl_read_loop k i h (s\<lparr>world := w1\<rparr>)
      else Some s)"

definition HandleDtlsPacket :: "('w, 'z) usrsctp_scheme \<Rightarrow> nat \<Rightarrow> bytes \<Rightarrow> 'w server \<Rightarrow> 'w server option" where
  "HandleDtlsPacket k i data s =
     do {
       c \<leftarrow> get_client i s;
       let w1 = BIO_write k (ssl c) data (world s);
       if \<not> SSL_is_init_finished k (ssl c) w1
       then let (r, w2) = SSL_do_handshake k (ssl c) w1; s1 = s\<lparr>world := w2\<rparr> in
         if r \<le> 0
         then if SSL_get_error k (ssl c) r w2 = 2 then ClientSendPendingDtls k i s1 else Some s1
         else ClientSendPendingDtls k i s1
       else do {
         s1 \<leftarrow> upd_client i (\<lambda>c. c\<lparr>dtls_done := True\<rparr>) (s\<lparr>world := w1\<rparr>);
         s2 \<leftarrow> ClientSendPendingDtls k i s1;
         ssl_read_loop k i (ssl c) s2
       }
     }"

text \<open>
  The heart beats deferred by the callback. \<open>ClientSendData\<close> never writes to the ring, so a ring of
  capacity \<open>c\<close> is empty after at most \<open>c\<close> turns; \<open>n\<close> bounds the turns and running out is \<open>None\<close>.
\<close>

fun heartbeat_loop :: "('w, 'z) usrsctp_scheme \<Rightarrow> nat \<Rightarrow> nat \<Rightarrow> 'w server \<Rightarrow> 'w server option" where
  "heartbeat_loop k 0 i s = None"
| "heartbeat_loop k (Suc n) i s =
     do {
       c \<leftarrow> get_client i s;
       if \<not> RingBufEmpty (heartBeatRing c)
       then do {
         (out, r) \<leftarrow> RingBufRead (heartBeatRing c);
         let beat = (case out of None \<Rightarrow> HeartBeatData_new | Some b \<Rightarrow> b);
         s1 \<leftarrow> ClientSendData k i (take (unat (beat_length beat)) (beat_data beat))
                  (put_client i (c\<lparr>heartBeatRing := r\<rparr>) s);
         heartbeat_loop k n i s1
       }
       else Some s
     }"

definition ClientSendHeartBeatData :: "('w, 'z) usrsctp_scheme \<Rightarrow> nat \<Rightarrow> 'w server \<Rightarrow> 'w server option" where
  "ClientSendHeartBeatData k i s =
     do { c \<leftarrow> get_client i s; heartbeat_loop k (Suc (unat (cap (heartBeatRing c)))) i s }"

section \<open>Construction of a client\<close>

text \<open>
  The new object is placed at the end of \<open>clientMgr\<close> before its SCTP member is built; nothing looks
  into \<open>clientMgr_\<close> between its construction and the \<open>push_back\<close> of \<open>HttpRequestHandle\<close>.
\<close>

definition RuruClient_new ::
  "('w, 'z) usrsctp_scheme \<Rightarrow> RuruAddress \<Rightarrow> int \<Rightarrow> 'w server \<Rightarrow> (nat \<times> 'w server) option"
where
  "RuruClient_new k addr fd s =
     (let (h, w) = SSL_new k (world s);
          i = length (clientMgr s);
          c = \<lparr>ssl = h, dtls_done = False, sock = None, sctp_done = None,
               heartBeatRing = RuruRingBuf HeartBeatData_new 100, address = addr, cache = [],
               attached = False, udpfd = fd\<rparr>
      in do {
        s1 \<leftarrow> RuruSctp_new k i (s\<lparr>clientMgr := clientMgr s @ [c], world := w\<rparr>);
        Some (i, s1)
      })"

definition AttachClientInfo :: "nat \<Rightarrow> 'w server \<Rightarrow> 'w server option" where
  "AttachClientInfo i s = upd_client i (\<lambda>c. c\<lparr>attached := True\<rparr>) s"

end
