(* ===== verification/Cjson_Text.thy ===== *)
theory Cjson_Text
  imports Network
begin

text \<open>
  The character level of \<^verbatim>\<open>cJSON.c\<close>: the parse buffer, white space, strings with their escapes
  and the conversion of UTF-16 literals, numbers with the C library's \<open>strtod\<close>. Reads are checked
  against the array \<open>content\<close>, writes of the decoded string against the size of its allocation;
  \<open>None\<close> is an access outside of them.
\<close>

section \<open>The parse buffer\<close>

record parse_buffer =
  content :: bytes
  buf_length :: nat
  offset :: nat
  depth :: nat

definition byte_at :: "bytes \<Rightarrow> nat \<Rightarrow> byte option" where
  "byte_at m i = (if i < length m then Some (m ! i) else None)"

lemma byte_at_Some [run_simps]: "byte_at m i = Some c \<longleftrightarrow> i < length m \<and> m ! i = c"
  by (auto simp: byte_at_def)

lemma byte_at_in [simp]: "i < length m \<Longrightarrow> byte_at m i = Some (m ! i)"
  by (simp add: byte_at_def)

definition can_read :: "parse_buffer \<Rightarrow> nat \<Rightarrow> bool" where
  "can_read b n \<longleftrightarrow> offset b + n \<le> buf_length b"

definition can_access_at_index :: "parse_buffer \<Rightarrow> nat \<Rightarrow> bool" where
  "can_access_at_index b i \<longleftrightarrow> offset b + i < buf_length b"

text \<open>\<open>strncmp\<close> with a literal of the same length, read byte by byte up to the first difference.\<close>

fun literal_at :: "bytes \<Rightarrow> nat \<Rightarrow> bytes \<Rightarrow> bool option" where
  "literal_at m p [] = Some True"
| "literal_at m p (c # cs) =
     do { d \<leftarrow> byte_at m p; if d = c then literal_at m (p + 1) cs else Some False }"

function skip_ws :: "bytes \<Rightarrow> nat \<Rightarrow> nat \<Rightarrow> nat option" where
  "skip_ws m len p =
     (if p < len then do { c \<leftarrow> byte_at m p; if c \<le> 32 then skip_ws m len (p + 1) else Some p }
      else Some p)"
  by pat_completeness auto
termination by (relation "measure (\<lambda>(m, len, p). len - p)") auto

declare skip_ws.simps [simp del]

definition buffer_skip_whitespace :: "parse_buffer \<Rightarrow> parse_buffer option" where
  "buffer_skip_whitespace b =
     (if \<not> can_access_at_index b 0 then Some b
      else do {
        p \<leftarrow> skip_ws (content b) (buf_length b) (offset b);
        Some (b\<lparr>offset := (if p = buf_length b then p - 1 else p)\<rparr>)
      })"

definition skip_utf8_bom :: "parse_buffer \<Rightarrow> parse_buffer option option" where
  "skip_utf8_bom b =
     (if offset b \<noteq> 0 then Some None
      else if can_access_at_index b 4
      then do {
        bom \<leftarrow> literal_at (content b) (offset b) [0xEF, 0xBB, 0xBF];
        Some (Some (if bom then b\<lparr>offset := offset b + 3\<rparr> else b))
      }
      else Some (Some b))"

text \<open>The byte at the offset, guarded by \<open>can_access_at_index\<close>.\<close>

definition peek :: "parse_buffer \<Rightarrow> byte option option" where
  "peek b = (if can_access_at_index b 0 then map_option Some (byte_at (content b) (offset b)) else Some None)"

definition keyword :: "parse_buffer \<Rightarrow> bytes \<Rightarrow> bool option" where
  "keyword b s = (if can_read b (length s) then literal_at (content b) (offset b) s else Some False)"

section \<open>UTF-16 literals\<close>

definition hex_digit :: "byte \<Rightarrow> u32 option" where
  "hex_digit c =
     (if 48 \<le> c \<and> c \<le> 57 then Some (ucast c - 48)
      else if 65 \<le> c \<and> c \<le> 70 then Some (10 + ucast c - 65)
      else if 97 \<le> c \<and> c \<le> 102 then Some (10 + ucast c - 97)
      else None)"

fun hex_loop :: "bytes \<Rightarrow> nat \<Rightarrow> nat \<Rightarrow> u32 \<Rightarrow> u32 option" where
  "hex_loop m p 0 h = Some h"
| "hex_loop m p (Suc n) h =
     do {
       c \<leftarrow> byte_at m p;
       case hex_digit c of
         None \<Rightarrow> Some 0
       | Some d \<Rightarrow> hex_loop m (p + 1) n (if n > 0 then push_bit 4 (h + d) else h + d)
     }"

definition parse_hex4 :: "bytes \<Rightarrow> nat \<Rightarrow> u32 option" where
  "parse_hex4 m p = hex_loop m p 4 0"

fun utf8_fill :: "nat \<Rightarrow> u64 \<Rightarrow> bytes \<Rightarrow> u64 \<times> bytes" where
  "utf8_fill 0 cp bs = (cp, bs)"
| "utf8_fill (Suc n) cp bs = utf8_fill n (drop_bit 6 cp) (ucast ((cp OR 0x80) AND 0xBF) # bs)"

definition utf8_encode :: "u64 \<Rightarrow> bytes option" where
  "utf8_encode cp =
     (if cp < 0x80 then Some [ucast (cp AND 0x7F)]
      else if cp < 0x800 then let (c, bs) = utf8_fill 1 cp [] in Some (ucast ((c OR 0xC0) AND 0xFF) # bs)
      else if cp < 0x10000 then let (c, bs) = utf8_fill 2 cp [] in Some (ucast ((c OR 0xE0) AND 0xFF) # bs)
      else if cp \<le> 0x10FFFF then let (c, bs) = utf8_fill 3 cp [] in Some (ucast ((c OR 0xF0) AND 0xFF) # bs)
      else None)"

text \<open>
  The result is the length of the consumed sequence, 0 for an invalid literal, and the bytes it
  writes through \<open>output_pointer\<close>.
\<close>

definition utf16_code :: "bytes \<Rightarrow> nat \<Rightarrow> nat \<Rightarrow> (nat \<times> u64) option" where
  "utf16_code m p e =
     (if e < p + 6 then Some (0, 0)
      else do {
        first_code \<leftarrow> parse_hex4 m (p + 2);
        if 0xDC00 \<le> first_code \<and> first_code \<le> 0xDFFF then Some (0, 0)
        else if 0xD800 \<le> first_code \<and> first_code \<le> 0xDBFF
        then if e < p + 6 + 6 then Some (0, 0)
          else do {
            c \<leftarrow> byte_at m (p + 6);
            if c \<noteq> 92 then Some (0, 0)
            else do {
              d \<leftarrow> byte_at m (p + 7);
              if d \<noteq> 117 then Some (0, 0)
              else do {
                second_code \<leftarrow> parse_hex4 m (p + 8);
                if second_code < 0xDC00 \<or> second_code > 0xDFFF then Some (0, 0)
                else Some (12, ucast (0x10000 + (push_bit 10 (first_code AND 0x3FF)
                       OR (second_code AND 0x3FF))))
              }
            }
          }
        else Some (6, ucast first_code)
      })"

definition utf16_literal_to_utf8 :: "bytes \<Rightarrow> nat \<Rightarrow> nat \<Rightarrow> (nat \<times> bytes) option" where
  "utf16_literal_to_utf8 m p e =
     do {
       (n, cp) \<leftarrow> utf16_code m p e;
       if n = 0 then Some (0, [])
       else case utf8_encode cp of None \<Rightarrow> Some (0, []) | Some bs \<Rightarrow> Some (n, bs)
     }"

section \<open>Strings\<close>

text \<open>
  The first loop looks for the closing quote and counts the escapes; the inner \<open>None\<close> is the jump
  to \<open>fail\<close>.
\<close>

function string_end :: "bytes \<Rightarrow> nat \<Rightarrow> nat \<Rightarrow> nat \<Rightarrow> (nat \<times> nat) option option" where
  "string_end m len e sk =
     (if e < len then do {
        c \<leftarrow> byte_at m e;
        if c = 34 then Some (Some (e, sk))
        else if c = 92 then (if e + 1 \<ge> len then Some None else string_end m len (e + 2) (sk + 1))
        else string_end m len (e + 1) sk
      }
      else Some None)"
  by pat_completeness auto
termination by (relation "measure (\<lambda>(m, len, e, sk). len - e)") auto

declare string_end.simps [simp del]

text \<open>Writing to the output, an allocation of \<open>cap\<close> bytes of which the first ones are written.\<close>

definition emit :: "nat \<Rightarrow> bytes \<Rightarrow> bytes \<Rightarrow> bytes option" where
  "emit cap out bs = (if length out + length bs \<le> cap then Some (out @ bs) else None)"

definition escape :: "byte \<Rightarrow> byte option" where
  "escape c =
     (if c = 98 then Some 8
      else if c = 102 then Some 12
      else if c = 110 then Some 10
      else if c = 114 then Some 13
      else if c = 116 then Some 9
      else if c = 34 \<or> c = 92 \<or> c = 47 then Some c
      else None)"

text \<open>
  The second loop decodes; the result is the final input pointer and the output, none after the
  jump to \<open>fail\<close>.
\<close>

function string_decode :: "bytes \<Rightarrow> nat \<Rightarrow> nat \<Rightarrow> nat \<Rightarrow> bytes \<Rightarrow> (nat \<times> bytes option) option" where
  "string_decode m cap e p out =
     (if p < e then do {
        c \<leftarrow> byte_at m p;
        if c \<noteq> 92 then do { o' \<leftarrow> emit cap out [c]; string_decode m cap e (p + 1) o' }
        else do {
          d \<leftarrow> byte_at m (p + 1);
          if d = 117 then do {
            (n, bs) \<leftarrow> utf16_literal_to_utf8 m p e;
            o' \<leftarrow> emit cap out bs;
            if n = 0 then Some (p, None) else string_decode m cap e (p + n) o'
          }
          else (case escape d of
                  None \<Rightarrow> Some (p, None)
                | Some x \<Rightarrow> do { o' \<leftarrow> emit cap out [x]; string_decode m cap e (p + 2) o' })
        }
      }
      else Some (p, Some out))"
  by pat_completeness auto
termination by (relation "measure (\<lambda>(m, cap, e, p, out). e - p)") auto

declare string_decode.simps [simp del]

section \<open>Numbers\<close>

text \<open>
  A double is a NaN, an infinity or a signed number \<open>m * 2 ^ e\<close>. \<open>double_of_frac\<close> rounds the
  fraction \<open>p / q\<close> to 53 bits, half to even, with gradual underflow and overflow to infinity, as a
  correctly rounding \<open>strtod\<close> does.
\<close>

datatype double = NaN | Inf bool | Fin bool nat int

fun bits :: "nat \<Rightarrow> nat" where
  "bits n = (if n = 0 then 0 else Suc (bits (n div 2)))"

declare bits.simps [simp del]

definition scale :: "nat \<Rightarrow> nat \<Rightarrow> int \<Rightarrow> nat \<times> nat" where
  "scale p q e = (if 0 \<le> e then (p, q * 2 ^ nat e) else (p * 2 ^ nat (- e), q))"

definition round_even :: "nat \<times> nat \<Rightarrow> nat" where
  "round_even f = (case f of (a, b) \<Rightarrow>
     (let d = a div b; r = a mod b in if b < 2 * r \<or> (2 * r = b \<and> odd d) then d + 1 else d))"

definition exponent :: "nat \<Rightarrow> nat \<Rightarrow> int" where
  "exponent p q =
     (let e = int (bits p) - int (bits q) - 53; (a, b) = scale p q e in
      max (- 1074) (if 2 ^ 53 \<le> a div b then e + 1 else e))"

definition mag_floor :: "nat \<Rightarrow> int \<Rightarrow> nat" where
  "mag_floor m e = (if 0 \<le> e then m * 2 ^ nat e else m div 2 ^ nat (- e))"

definition double_of_frac :: "bool \<Rightarrow> nat \<Rightarrow> nat \<Rightarrow> double" where
  "double_of_frac neg p q =
     (if p = 0 then Fin neg 0 0
      else let e = exponent p q; m = round_even (scale p q e) in
        if 2 ^ 1024 \<le> mag_floor m e then Inf neg else Fin neg m e)"

definition double_of_dec :: "bool \<Rightarrow> nat \<Rightarrow> int \<Rightarrow> double" where
  "double_of_dec neg d x =
     (if 0 \<le> x then double_of_frac neg (d * 10 ^ nat x) 1 else double_of_frac neg d (10 ^ nat (- x)))"

text \<open>
  \<open>strtod\<close> on a string of the characters the parser copies (digits, sign, point, exponent letter):
  the value and the number of characters used, 0 when there is no number.
\<close>

definition sign_of :: "bytes \<Rightarrow> bool \<times> nat" where
  "sign_of s = (case s of [] \<Rightarrow> (False, 0)
     | c # cs \<Rightarrow> if c = 45 then (True, 1) else if c = 43 then (False, 1) else (False, 0))"

definition exponent_part :: "bytes \<Rightarrow> int \<times> nat" where
  "exponent_part s =
     (case s of [] \<Rightarrow> (0, 0)
      | c # cs \<Rightarrow>
          if c = 101 \<or> c = 69
          then let (neg, n) = sign_of cs; ds = takeWhile is_digit (drop n cs) in
            if ds = [] then (0, 0)
            else (if neg then - digits_val ds else digits_val ds, 1 + n + length ds)
          else (0, 0))"

definition strtod :: "bytes \<Rightarrow> double \<times> nat" where
  "strtod s =
     (let (neg, n) = sign_of s;
          ip = takeWhile is_digit (drop n s);
          t = drop (n + length ip) s;
          fp = (case t of [] \<Rightarrow> [] | c # cs \<Rightarrow> if c = 46 then takeWhile is_digit cs else []);
          dot = (case t of [] \<Rightarrow> 0 | c # cs \<Rightarrow> if c = 46 then 1 else 0)
      in if ip = [] \<and> fp = [] then (Fin False 0 0, 0)
         else let used = n + length ip + dot + length fp; (x, k) = exponent_part (drop used s) in
           (double_of_dec neg (nat (digits_val (ip @ fp))) (x - int (length fp)), used + k))"

definition number_char :: "byte \<Rightarrow> bool" where
  "number_char c \<longleftrightarrow> is_digit c \<or> c = 43 \<or> c = 45 \<or> c = 101 \<or> c = 69 \<or> c = 46"

text \<open>The copy of at most 63 characters; \<open>n\<close> is the room left in \<open>number_c_string\<close>.\<close>

fun number_copy :: "bytes \<Rightarrow> nat \<Rightarrow> nat \<Rightarrow> nat \<Rightarrow> bytes option" where
  "number_copy m len p 0 = Some []"
| "number_copy m len p (Suc n) =
     (if p < len then do {
        c \<leftarrow> byte_at m p;
        if number_char c then do { s \<leftarrow> number_copy m len (p + 1) n; Some (c # s) } else Some []
      }
      else Some [])"

text \<open>The saturating conversion to \<open>int\<close>; of a NaN it is undefined.\<close>

fun int_of_double :: "double \<Rightarrow> int option" where
  "int_of_double NaN = None"
| "int_of_double (Inf neg) = Some (if neg then -2147483648 else 2147483647)"
| "int_of_double (Fin neg m e) =
     (let k = int (mag_floor m e) in
      if \<not> neg \<and> 2147483647 \<le> k then Some 2147483647
      else if neg \<and> 2147483648 \<le> k then Some (-2147483648)
      else Some (if neg then - k else k))"

end
