(* ===== verification/Cjson_Heap.thy ===== *)
theory Cjson_Heap
  imports Cjson_Text
begin

text \<open>
  The parser of \<^verbatim>\<open>cJSON.c\<close> on the heap: nodes with their pointers, allocation that may fail,
  \<open>cJSON_Delete\<close>, the mutually recursive parsing functions with their linked lists, and the entry
  points. An address is a positive number, 0 is the null pointer. Access to an address that is
  not allocated, a second free included, is \<open>None\<close>.
\<close>

section \<open>Nodes and the allocator\<close>

record cJSON =
  c_next :: nat
  c_prev :: nat
  c_child :: nat
  c_type :: int
  c_valuestring :: nat
  c_valueint :: int
  c_valuedouble :: double
  c_string :: nat

abbreviation (input) cJSON_Invalid :: int where "cJSON_Invalid \<equiv> 0"
abbreviation (input) cJSON_False :: int where "cJSON_False \<equiv> 1"
abbreviation (input) cJSON_True :: int where "cJSON_True \<equiv> 2"
abbreviation (input) cJSON_NULL :: int where "cJSON_NULL \<equiv> 4"
abbreviation (input) cJSON_Number :: int where "cJSON_Number \<equiv> 8"
abbreviation (input) cJSON_String :: int where "cJSON_String \<equiv> 16"
abbreviation (input) cJSON_Array :: int where "cJSON_Array \<equiv> 32"
abbreviation (input) cJSON_Object :: int where "cJSON_Object \<equiv> 64"
abbreviation (input) cJSON_IsReference :: int where "cJSON_IsReference \<equiv> 256"
abbreviation (input) cJSON_StringIsConst :: int where "cJSON_StringIsConst \<equiv> 512"
abbreviation (input) CJSON_NESTING_LIMIT :: nat where "CJSON_NESTING_LIMIT \<equiv> 1000"

text \<open>
  The allocator hands out fresh addresses; \<open>avail\<close> says which allocations succeed, by their number
  \<open>brk\<close>. Nodes and strings live in two tables with disjoint addresses. \<open>global_error\<close> is the text
  and the position of the last failed parse.
\<close>

record heap =
  nodes :: "nat \<rightharpoonup> cJSON"
  strs :: "nat \<rightharpoonup> bytes"
  brk :: nat
  avail :: "nat \<Rightarrow> bool"
  global_error :: "(bytes \<times> nat) option"

definition zero_node :: cJSON where
  "zero_node = \<lparr>c_next = 0, c_prev = 0, c_child = 0, c_type = 0, c_valuestring = 0, c_valueint = 0,
     c_valuedouble = Fin False 0 0, c_string = 0\<rparr>"

definition cJSON_New_Item :: "heap \<Rightarrow> nat \<times> heap" where
  "cJSON_New_Item h =
     (if avail h (brk h)
      then (Suc (brk h), h\<lparr>nodes := (nodes h)(Suc (brk h) \<mapsto> zero_node), brk := Suc (brk h)\<rparr>)
      else (0, h\<lparr>brk := Suc (brk h)\<rparr>))"

definition allocate :: "heap \<Rightarrow> nat \<times> heap" where
  "allocate h =
     (if avail h (brk h)
      then (Suc (brk h), h\<lparr>strs := (strs h)(Suc (brk h) \<mapsto> []), brk := Suc (brk h)\<rparr>)
      else (0, h\<lparr>brk := Suc (brk h)\<rparr>))"

definition upd_node :: "nat \<Rightarrow> (cJSON \<Rightarrow> cJSON) \<Rightarrow> heap \<Rightarrow> heap option" where
  "upd_node p f h = map_option (\<lambda>n. h\<lparr>nodes := (nodes h)(p \<mapsto> f n)\<rparr>) (nodes h p)"

definition free_str :: "nat \<Rightarrow> heap \<Rightarrow> heap option" where
  "free_str p h = (if strs h p = None then None else Some (h\<lparr>strs := (strs h)(p := None)\<rparr>))"

definition free_node :: "nat \<Rightarrow> heap \<Rightarrow> heap option" where
  "free_node p h = (if nodes h p = None then None else Some (h\<lparr>nodes := (nodes h)(p := None)\<rparr>))"

definition flag :: "int \<Rightarrow> int \<Rightarrow> bool" where
  "flag t f \<longleftrightarrow> t AND f \<noteq> 0"

text \<open>Deleting a list of items; a cyclic list has no result.\<close>

partial_function (option) cJSON_Delete :: "nat \<Rightarrow> heap \<Rightarrow> heap option" where
  "cJSON_Delete item h =
     (if item = 0 then Some h
      else do {
        n \<leftarrow> nodes h item;
        h1 \<leftarrow> (if \<not> flag (c_type n) cJSON_IsReference \<and> c_child n \<noteq> 0
               then cJSON_Delete (c_child n) h else Some h);
        n1 \<leftarrow> nodes h1 item;
        h2 \<leftarrow> (if \<not> flag (c_type n1) cJSON_IsReference \<and> c_valuestring n1 \<noteq> 0
               then free_str (c_valuestring n1) h1 else Some h1);
        n2 \<leftarrow> nodes h2 item;
        h3 \<leftarrow> (if \<not> flag (c_type n2) cJSON_StringIsConst \<and> c_string n2 \<noteq> 0
               then free_str (c_string n2) h2 else Some h2);
        h4 \<leftarrow> free_node item h3;
        cJSON_Delete (c_next n) h4
      })"

declare cJSON_Delete.simps [code]

section \<open>Scalars\<close>

type_synonym parsed = "(bool \<times> parse_buffer \<times> heap) option"

definition parse_number :: "nat \<Rightarrow> parse_buffer \<Rightarrow> heap \<Rightarrow> parsed" where
  "parse_number item b h =
     do {
       s \<leftarrow> number_copy (content b) (buf_length b) (offset b) 63;
       let (number, used) = strtod s;
       if used = 0 then Some (False, b, h)
       else do {
         i \<leftarrow> int_of_double number;
         h1 \<leftarrow> upd_node item (\<lambda>n. n\<lparr>c_valuedouble := number, c_valueint := i, c_type := cJSON_Number\<rparr>) h;
         Some (True, b\<lparr>offset := offset b + used\<rparr>, h1)
       }
     }"

definition parse_string :: "nat \<Rightarrow> parse_buffer \<Rightarrow> heap \<Rightarrow> parsed" where
  "parse_string item b h =
     do {
       c \<leftarrow> byte_at (content b) (offset b);
       let start = offset b + 1;
       if c \<noteq> 34 then Some (False, b\<lparr>offset := start\<rparr>, h)
       else do {
         r \<leftarrow> string_end (content b) (buf_length b) start 0;
         case r of
           None \<Rightarrow> Some (False, b\<lparr>offset := start\<rparr>, h)
         | Some (e, skipped) \<Rightarrow> do {
             let cap = e - offset b - skipped + 1;
             let (outp, h1) = allocate h;
             if outp = 0 then Some (False, b\<lparr>offset := start\<rparr>, h1)
             else do {
               (p, d) \<leftarrow> string_decode (content b) cap e start [];
               case d of
                 None \<Rightarrow> do { h2 \<leftarrow> free_str outp h1; Some (False, b\<lparr>offset := p\<rparr>, h2) }
               | Some out \<Rightarrow> do {
                   z \<leftarrow> emit cap out [0];
                   h2 \<leftarrow> upd_node item (\<lambda>n. n\<lparr>c_type := cJSON_String, c_valuestring := outp\<rparr>)
                           (h1\<lparr>strs := (strs h1)(outp \<mapsto> z)\<rparr>);
                   Some (True, b\<lparr>offset := e + 1\<rparr>, h2)
                 }
             }
           }
       }
     }"

section \<open>Values, arrays and objects\<close>

text \<open>Linking a new item to the end of the list that starts at \<open>head\<close>; the result is the head.\<close>

definition attach :: "nat \<Rightarrow> nat \<Rightarrow> nat \<Rightarrow> heap \<Rightarrow> (nat \<times> heap) option" where
  "attach head current new h =
     (if head = 0 then Some (new, h)
      else do {
        h1 \<leftarrow> upd_node current (\<lambda>n. n\<lparr>c_next := new\<rparr>) h;
        h2 \<leftarrow> upd_node new (\<lambda>n. n\<lparr>c_prev := current\<rparr>) h1;
        Some (head, h2)
      })"

text \<open>The labels \<open>success\<close> and \<open>fail\<close> of the two container functions.\<close>

definition container_success :: "int \<Rightarrow> nat \<Rightarrow> nat \<Rightarrow> nat \<Rightarrow> parse_buffer \<Rightarrow> heap \<Rightarrow> parsed" where
  "container_success ty item head current b h =
     do {
       h1 \<leftarrow> (if head \<noteq> 0 then upd_node head (\<lambda>n. n\<lparr>c_prev := current\<rparr>) h else Some h);
       h2 \<leftarrow> upd_node item (\<lambda>n. n\<lparr>c_type := ty, c_child := head\<rparr>) h1;
       Some (True, b\<lparr>depth := depth b - 1, offset := offset b + 1\<rparr>, h2)
     }"

definition container_fail :: "nat \<Rightarrow> parse_buffer \<Rightarrow> heap \<Rightarrow> parsed" where
  "container_fail head b h =
     do { h1 \<leftarrow> (if head \<noteq> 0 then cJSON_Delete head h else Some h); Some (False, b, h1) }"

text \<open>
  The three functions call each other: the containers take \<open>parse_value\<close> as their first argument,
  \<open>parse_value\<close> below ties the knot. Recursion and loops are bounded by a number, \<open>None\<close> when it
  runs out. The loops return the head and the current item with the outcome.
\<close>

type_synonym value_parser = "nat \<Rightarrow> parse_buffer \<Rightarrow> heap \<Rightarrow> parsed"
type_synonym loop_result = "(nat \<times> nat \<times> bool \<times> parse_buffer \<times> heap) option"

primrec array_loop :: "value_parser \<Rightarrow> nat \<Rightarrow> nat \<Rightarrow> nat \<Rightarrow> parse_buffer \<Rightarrow> heap \<Rightarrow> loop_result" where
  "array_loop pv 0 head cur b h = None"
| "array_loop pv (Suc f) head cur b h =
     do {
       let (new, h1) = cJSON_New_Item h;
       if new = 0 then Some (head, cur, False, b, h1)
       else do {
         (head1, h2) \<leftarrow> attach head cur new h1;
         b1 \<leftarrow> buffer_skip_whitespace (b\<lparr>offset := offset b + 1\<rparr>);
         (ok, b2, h3) \<leftarrow> pv new b1 h2;
         if \<not> ok then Some (head1, new, False, b2, h3)
         else do {
           b3 \<leftarrow> buffer_skip_whitespace b2;
           c \<leftarrow> peek b3;
           if c = Some 44 then array_loop pv f head1 new b3 h3
           else Some (head1, new, c = Some 93, b3, h3)
         }
       }
     }"

definition parse_array :: "value_parser \<Rightarrow> nat \<Rightarrow> value_parser" where
  "parse_array pv f item b h =
     (if depth b \<ge> CJSON_NESTING_LIMIT then Some (False, b, h)
      else do {
        let b1 = b\<lparr>depth := depth b + 1\<rparr>;
        c \<leftarrow> byte_at (content b) (offset b);
        if c \<noteq> 91 then Some (False, b1, h)
        else do {
          b2 \<leftarrow> buffer_skip_whitespace (b1\<lparr>offset := offset b + 1\<rparr>);
          c \<leftarrow> peek b2;
          if c = Some 93 then container_success cJSON_Array item 0 0 b2 h
          else if c = None then Some (False, b2\<lparr>offset := offset b2 - 1\<rparr>, h)
          else do {
            (head, cur, ok, b3, h3) \<leftarrow> array_loop pv f 0 0 (b2\<lparr>offset := offset b2 - 1\<rparr>) h;
            if ok then container_success cJSON_Array item head cur b3 h3 else container_fail head b3 h3
          }
        }
      })"

primrec object_loop :: "value_parser \<Rightarrow> nat \<Rightarrow> nat \<Rightarrow> nat \<Rightarrow> parse_buffer \<Rightarrow> heap \<Rightarrow> loop_result" where
  "object_loop pv 0 head cur b h = None"
| "object_loop pv (Suc f) head cur b h =
     do {
       let (new, h1) = cJSON_New_Item h;
       if new = 0 then Some (head, cur, False, b, h1)
       else do {
         (head1, h2) \<leftarrow> attach head cur new h1;
         b1 \<leftarrow> buffer_skip_whitespace (b\<lparr>offset := offset b + 1\<rparr>);
         (ok, b2, h3) \<leftarrow> parse_string new b1 h2;
         if \<not> ok then Some (head1, new, False, b2, h3)
         else do {
           b3 \<leftarrow> buffer_skip_whitespace b2;
           h4 \<leftarrow> upd_node new (\<lambda>n. n\<lparr>c_string := c_valuestring n, c_valuestring := 0\<rparr>) h3;
           c \<leftarrow> peek b3;
           if c \<noteq> Some 58 then Some (head1, new, False, b3, h4)
           else do {
             b4 \<leftarrow> buffer_skip_whitespace (b3\<lparr>offset := offset b3 + 1\<rparr>);
             (ok, b5, h5) \<leftarrow> pv new b4 h4;
             if \<not> ok then Some (head1, new, False, b5, h5)
             else do {
               b6 \<leftarrow> buffer_skip_whitespace b5;
               c \<leftarrow> peek b6;
               if c = Some 44 then object_loop pv f head1 new b6 h5
               else Some (head1, new, c = Some 125, b6, h5)
             }
           }
         }
       }
     }"

definition parse_object :: "value_parser \<Rightarrow> nat \<Rightarrow> value_parser" where
  "parse_object pv f item b h =
     (if depth b \<ge> CJSON_NESTING_LIMIT then Some (False, b, h)
      else do {
        let b1 = b\<lparr>depth := depth b + 1\<rparr>;
        c \<leftarrow> peek b;
        if c \<noteq> Some 123 then Some (False, b1, h)
        else do {
          b2 \<leftarrow> buffer_skip_whitespace (b1\<lparr>offset := offset b + 1\<rparr>);
          c \<leftarrow> peek b2;
          if c = Some 125 then container_success cJSON_Object item 0 0 b2 h
          else if c = None then Some (False, b2\<lparr>offset := offset b2 - 1\<rparr>, h)
          else do {
            (head, cur, ok, b3, h3) \<leftarrow> object_loop pv f 0 0 (b2\<lparr>offset := offset b2 - 1\<rparr>) h;
            if ok then container_success cJSON_Object item head cur b3 h3 else container_fail head b3 h3
          }
        }
      })"

text \<open>The value of a keyword of \<open>n\<close> characters.\<close>

definition set_item :: "(cJSON \<Rightarrow> cJSON) \<Rightarrow> nat \<Rightarrow> value_parser" where
  "set_item g n item b h =
     do { h1 \<leftarrow> upd_node item g h; Some (True, b\<lparr>offset := offset b + n\<rparr>, h1) }"

primrec parse_value :: "nat \<Rightarrow> value_parser" where
  "parse_value 0 item b h = None"
| "parse_value (Suc f) item b h =
     do {
       is_null \<leftarrow> keyword b (ascii ''null'');
       if is_null then set_item (\<lambda>n. n\<lparr>c_type := cJSON_NULL\<rparr>) 4 item b h
       else do {
         is_false \<leftarrow> keyword b (ascii ''false'');
         if is_false then set_item (\<lambda>n. n\<lparr>c_type := cJSON_False\<rparr>) 5 item b h
         else do {
           is_true \<leftarrow> keyword b (ascii ''true'');
           if is_true then set_item (\<lambda>n. n\<lparr>c_type := cJSON_True, c_valueint := 1\<rparr>) 4 item b h
           else do {
             c \<leftarrow> peek b;
             case c of
               None \<Rightarrow> Some (False, b, h)
             | Some x \<Rightarrow>
                 if x = 34 then parse_string item b h
                 else if x = 45 \<or> (48 \<le> x \<and> x \<le> 57) then parse_number item b h
                 else if x = 91 then parse_array (parse_value f) f item b h
                 else if x = 123 then parse_object (parse_value f) f item b h
                 else Some (False, b, h)
           }
         }
       }
     }"

section \<open>Entry points\<close>

text \<open>The recursion bound is enough for the length, see \<^verbatim>\<open>Cjson_Refine\<close>.\<close>

definition parse_fuel :: "nat \<Rightarrow> nat" where
  "parse_fuel len = len + 1"

text \<open>
  The result is the root, the value stored through \<open>return_parse_end\<close> (as an offset) and the heap.
\<close>

definition cJSON_ParseWithLengthOpts ::
  "bytes option \<Rightarrow> nat \<Rightarrow> bool \<Rightarrow> heap \<Rightarrow> (nat \<times> nat option \<times> heap) option"
where
  "cJSON_ParseWithLengthOpts val len require_null_terminated h =
     (let h0 = h\<lparr>global_error := None\<rparr> in
      case val of
        None \<Rightarrow> Some (0, None, h0)
      | Some m \<Rightarrow>
          if len = 0 then Some (0, Some 0, h0\<lparr>global_error := Some (m, 0)\<rparr>)
          else do {
            let b = \<lparr>content = m, buf_length = len, offset = 0, depth = 0\<rparr>;
            let (item, h1) = cJSON_New_Item h0;
            (ok, b2, h2) \<leftarrow>
              (if item = 0 then Some (False, b, h1)
               else do {
                 sb \<leftarrow> skip_utf8_bom b;
                 case sb of
                   None \<Rightarrow> Some (False, b, h1)
                 | Some b0 \<Rightarrow> do { b1 \<leftarrow> buffer_skip_whitespace b0; parse_value (parse_fuel len) item b1 h1 }
               });
            (ok, b3) \<leftarrow>
              (if ok \<and> require_null_terminated
               then do {
                 b3 \<leftarrow> buffer_skip_whitespace b2;
                 c \<leftarrow> peek b3;
                 Some (c = Some 0, b3)
               }
               else Some (ok, b2));
            if ok then Some (item, Some (offset b3), h2)
            else do {
              h3 \<leftarrow> (if item \<noteq> 0 then cJSON_Delete item h2 else Some h2);
              let position = (if offset b3 < len then offset b3 else len - 1);
              Some (0, Some position, h3\<lparr>global_error := Some (m, position)\<rparr>)
            }
          })"

text \<open>\<open>strlen\<close> of the text at the start of an array, none when the array has no terminator.\<close>

definition c_strlen :: "bytes \<Rightarrow> nat option" where
  "c_strlen m = (if 0 \<in> set m then Some (length (takeWhile (\<lambda>c. c \<noteq> 0) m)) else None)"

definition cJSON_ParseWithOpts :: "bytes option \<Rightarrow> bool \<Rightarrow> heap \<Rightarrow> (nat \<times> nat option \<times> heap) option" where
  "cJSON_ParseWithOpts val require_null_terminated h =
     (case val of
        None \<Rightarrow> Some (0, None, h)
      | Some m \<Rightarrow> do { n \<leftarrow> c_strlen m; cJSON_ParseWithLengthOpts (Some m) (n + 1) require_null_terminated h })"

definition cJSON_Parse :: "bytes option \<Rightarrow> heap \<Rightarrow> (nat \<times> heap) option" where
  "cJSON_Parse val h = do { (item, e, h') \<leftarrow> cJSON_ParseWithOpts val False h; Some (item, h') }"

definition cJSON_ParseWithLength :: "bytes option \<Rightarrow> nat \<Rightarrow> heap \<Rightarrow> (nat \<times> heap) option" where
  "cJSON_ParseWithLength val len h =
     do { (item, e, h') \<leftarrow> cJSON_ParseWithLengthOpts val len False h; Some (item, h') }"

section \<open>Reading the tree\<close>

definition cJSON_IsType :: "int \<Rightarrow> heap \<Rightarrow> nat \<Rightarrow> bool option" where
  "cJSON_IsType ty h item =
     (if item = 0 then Some False else do { n \<leftarrow> nodes h item; Some (c_type n AND 0xFF = ty) })"

abbreviation (input) "cJSON_IsString \<equiv> cJSON_IsType cJSON_String"
abbreviation (input) "cJSON_IsNumber \<equiv> cJSON_IsType cJSON_Number"

definition to_lower :: "byte \<Rightarrow> byte" where
  "to_lower c = (if 65 \<le> c \<and> c \<le> 90 then c + 32 else c)"

text \<open>Comparing two C strings from given positions; running out of an array is \<open>None\<close>.\<close>

fun lower_cmp :: "bytes \<Rightarrow> bytes \<Rightarrow> int option" where
  "lower_cmp (a # as) (b # bs) =
     (if to_lower a = to_lower b then (if a = 0 then Some 0 else lower_cmp as bs)
      else Some (uint (to_lower a) - uint (to_lower b)))"
| "lower_cmp _ _ = None"

fun str_cmp :: "bytes \<Rightarrow> bytes \<Rightarrow> int option" where
  "str_cmp (a # as) (b # bs) =
     (if a = b then (if a = 0 then Some 0 else str_cmp as bs) else Some (uint a - uint b))"
| "str_cmp _ _ = None"

text \<open>A null string is different from every string.\<close>

definition name_differs :: "bool \<Rightarrow> heap \<Rightarrow> bytes \<Rightarrow> nat \<Rightarrow> bool option" where
  "name_differs case_sensitive h name p =
     (if p = 0 then Some (\<not> case_sensitive)
      else do { s \<leftarrow> strs h p; r \<leftarrow> (if case_sensitive then str_cmp name s else lower_cmp name s); Some (r \<noteq> 0) })"

partial_function (option) find_element :: "bool \<Rightarrow> heap \<Rightarrow> bytes \<Rightarrow> nat \<Rightarrow> nat option" where
  "find_element case_sensitive h name cur =
     (if cur = 0 then Some 0
      else do {
        n \<leftarrow> nodes h cur;
        d \<leftarrow> name_differs case_sensitive h name (c_string n);
        if d then find_element case_sensitive h name (c_next n) else Some cur
      })"

declare find_element.simps [code]

definition get_object_item :: "heap \<Rightarrow> nat \<Rightarrow> bytes option \<Rightarrow> bool \<Rightarrow> nat option" where
  "get_object_item h obj name case_sensitive =
     (case name of
        None \<Rightarrow> Some 0
      | Some nm \<Rightarrow>
          if obj = 0 then Some 0
          else do {
            n \<leftarrow> nodes h obj;
            cur \<leftarrow> find_element case_sensitive h nm (c_child n);
            if cur = 0 then Some 0
            else do { e \<leftarrow> nodes h cur; Some (if c_string e = 0 then 0 else cur) }
          })"

definition cJSON_GetObjectItem :: "heap \<Rightarrow> nat \<Rightarrow> bytes option \<Rightarrow> nat option" where
  "cJSON_GetObjectItem h obj name = get_object_item h obj name False"

definition cJSON_GetObjectItemCaseSensitive :: "heap \<Rightarrow> nat \<Rightarrow> bytes option \<Rightarrow> nat option" where
  "cJSON_GetObjectItemCaseSensitive h obj name = get_object_item h obj name True"

definition cJSON_HasObjectItem :: "heap \<Rightarrow> nat \<Rightarrow> bytes option \<Rightarrow> bool option" where
  "cJSON_HasObjectItem h obj name = map_option (\<lambda>p. p \<noteq> 0) (cJSON_GetObjectItem h obj name)"

partial_function (option) array_size :: "heap \<Rightarrow> nat \<Rightarrow> nat \<Rightarrow> nat option" where
  "array_size h cur n =
     (if cur = 0 then Some n else do { c \<leftarrow> nodes h cur; array_size h (c_next c) (n + 1) })"

declare array_size.simps [code]

definition cJSON_GetArraySize :: "heap \<Rightarrow> nat \<Rightarrow> int option" where
  "cJSON_GetArraySize h array =
     (if array = 0 then Some 0
      else do { n \<leftarrow> nodes h array; k \<leftarrow> array_size h (c_child n) 0; Some (int_cast k) })"

fun array_item :: "heap \<Rightarrow> nat \<Rightarrow> nat \<Rightarrow> nat option" where
  "array_item h cur 0 = Some cur"
| "array_item h cur (Suc i) =
     (if cur = 0 then Some 0 else do { c \<leftarrow> nodes h cur; array_item h (c_next c) i })"

definition get_array_item :: "heap \<Rightarrow> nat \<Rightarrow> nat \<Rightarrow> nat option" where
  "get_array_item h array i =
     (if array = 0 then Some 0 else do { n \<leftarrow> nodes h array; array_item h (c_child n) i })"

definition cJSON_GetArrayItem :: "heap \<Rightarrow> nat \<Rightarrow> int \<Rightarrow> nat option" where
  "cJSON_GetArrayItem h array i = (if i < 0 then Some 0 else get_array_item h array (nat i))"

definition cJSON_GetStringValue :: "heap \<Rightarrow> nat \<Rightarrow> nat option" where
  "cJSON_GetStringValue h item =
     do {
       b \<leftarrow> cJSON_IsString h item;
       if \<not> b then Some 0 else do { n \<leftarrow> nodes h item; Some (c_valuestring n) }
     }"

definition cJSON_GetNumberValue :: "heap \<Rightarrow> nat \<Rightarrow> double option" where
  "cJSON_GetNumberValue h item =
     do {
       b \<leftarrow> cJSON_IsNumber h item;
       if \<not> b then Some NaN else do { n \<leftarrow> nodes h item; Some (c_valuedouble n) }
     }"

end
