(* ===== verification/Loop.thy ===== *)
theory Loop
  imports Transport Http_Request Cjson_Heap
begin

text \<open>
  \<^verbatim>\<open>RuruLoop.cpp\<close>: the loop object, its event queue, the sockets under \<open>epoll\<close> and the signalling
  requests over HTTP. A pointer to a \<open>RuruConnectionData\<close> is its address in \<open>conns\<close>; \<open>delete\<close>
  removes it, so a later use is \<open>None\<close>. The functions that parse JSON work on a pair of the cJSON
  heap and the server.
\<close>

abbreviation (input) MAX_EVENT :: nat where "MAX_EVENT \<equiv> 1000"
abbreviation (input) EPOLLIN :: u32 where "EPOLLIN \<equiv> 1"
abbreviation (input) EPOLLERR :: u32 where "EPOLLERR \<equiv> 8"
abbreviation (input) EPOLLHUP :: u32 where "EPOLLHUP \<equiv> 16"
abbreviation (input) SOMAXCONN :: int where "SOMAXCONN \<equiv> 4096"
abbreviation (input) HTTP_MAX_SIZE :: nat where "HTTP_MAX_SIZE \<equiv> 4096"

section \<open>Construction and destruction\<close>

text \<open>The object before the constructor body: its scalar members are uninitialised.\<close>

definition loop_object :: "bool \<Rightarrow> int \<Rightarrow> 'w \<Rightarrow> 'w server option" where
  "loop_object init count w =
     do {
       a \<leftarrow> RuruArena 20;
       Some \<lparr>udp_fd = None, tcp_fd = None, ep_fd = None, ev_array = None, clientMgr = [], que = [],
         arena = a, conns = Map.empty, next_conn = 1, usrsctpInit = init, scan_count = count, world = w\<rparr>
     }"

definition Destory :: "('w, 'z) usrsctp_scheme \<Rightarrow> 'w server \<Rightarrow> 'w server option" where
  "Destory k s =
     do {
       u \<leftarrow> udp_fd s;
       let s1 = (if u > 0 then s\<lparr>world := sys_close k u (world s), udp_fd := Some (-1)\<rparr> else s);
       t \<leftarrow> tcp_fd s1;
       let s2 = (if t > 0 then s1\<lparr>world := sys_close k t (world s1), tcp_fd := Some (-1)\<rparr> else s1);
       e \<leftarrow> ev_array s2;
       Some (if e then s2\<lparr>ev_array := Some False\<rparr> else s2)
     }"

definition new_connection :: "int \<Rightarrow> 'w server \<Rightarrow> nat \<times> 'w server" where
  "new_connection fd s =
     (next_conn s, s\<lparr>conns := (conns s)(next_conn s \<mapsto> conn_new\<lparr>con_fd := fd\<rparr>), next_conn := next_conn s + 1\<rparr>)"

definition epoll_watch :: "('w, 'z) usrsctp_scheme \<Rightarrow> int \<Rightarrow> int \<Rightarrow> 'w server \<Rightarrow> int \<times> 'w server" where
  "epoll_watch k ep fd s =
     (let (p, s1) = new_connection fd s; (r, w) = sys_epoll_add k ep fd p (world s1) in (r, s1\<lparr>world := w\<rparr>))"

definition RuruLoop_new :: "('w, 'z) usrsctp_scheme \<Rightarrow> bytes \<Rightarrow> bytes \<Rightarrow> 'w server \<Rightarrow> 'w server option" where
  "RuruLoop_new k hst prt s =
     do {
       (u, w1) \<leftarrow> CreateUdpSocket k hst prt (world s);
       let s1 = s\<lparr>udp_fd := Some u, world := w1\<rparr>;
       if u < 0 then Some s1
       else let (r, w2) = SetNonBlocking k u w1; s2 = s1\<lparr>world := w2\<rparr> in
       if r < 0 then Destory k s2
       else do {
         (t, w3) \<leftarrow> CreateTcpSocket k hst prt w2;
         let s3 = s2\<lparr>tcp_fd := Some t, world := w3\<rparr>;
         if t < 0 then Destory k s3
         else let (r, w4) = SetNonBlocking k t w3; s4 = s3\<lparr>world := w4\<rparr> in
         if r < 0 then Destory k s4
         else let (r, w5) = sys_listen k t SOMAXCONN w4; s5 = s4\<lparr>world := w5\<rparr> in
         if r < 0 then Destory k s5
         else let (ep, w6) = sys_epoll_create k w5; s6 = s5\<lparr>ep_fd := Some ep, world := w6\<rparr> in
         if ep < 0 then Destory k s6
         else let (r, s7) = epoll_watch k ep u s6 in
         if r = -1 then Destory k s7
         else let (r, s8) = epoll_watch k ep t s7 in
         if r = -1 then Destory k s8
         else Some (UsrsctpStartInit k (s8\<lparr>ev_array := Some True\<rparr>))
       }
     }"

section \<open>The event queue\<close>

definition UpdateEvent :: "'w server \<Rightarrow> RuruEvent option \<times> 'w server" where
  "UpdateEvent s =
     (case que s of
        e # q \<Rightarrow> (Some e, s\<lparr>que := q\<rparr>)
      | [] \<Rightarrow> (None, s\<lparr>arena := ArenaReset (arena s)\<rparr>))"

text \<open>The first client with the given address, or none.\<close>

definition FindClientByAddress :: "RuruAddress \<Rightarrow> 'w server \<Rightarrow> nat option" where
  "FindClientByAddress a s =
     find (\<lambda>i. host (address (clientMgr s ! i)) = host a \<and> port (address (clientMgr s ! i)) = port a)
       [0..<length (clientMgr s)]"

fun push_cached :: "(nat \<times> client) list \<Rightarrow> 'w server \<Rightarrow> (bool \<times> 'w server) option" where
  "push_cached [] s = Some (False, s)"
| "push_cached ((i, c) # cs) s =
     (if cache c \<noteq> []
      then if attached c
        then do {
          (b, s') \<leftarrow> push_cached cs
            (s\<lparr>que := que s @ [RuruEvent_new\<lparr>ev_client := Some i, ev_type := EVT_SendCacheData\<rparr>]\<rparr>);
          Some (True, s')
        }
        else None
      else push_cached cs s)"

text \<open>\<open>count\<close> is a signed 32-bit counter: its increment is checked.\<close>

definition ScanClientCacheData :: "'w server \<Rightarrow> (bool \<times> 'w server) option" where
  "ScanClientCacheData s =
     do {
       n \<leftarrow> i32 (scan_count s + 1);
       let s1 = s\<lparr>scan_count := n\<rparr>;
       if scan_count s mod 100 \<noteq> 0 then Some (False, s1)
       else push_cached (enumerate 0 (clientMgr s1)) s1
     }"

section \<open>Signalling requests\<close>

type_synonym 'w process = "heap \<times> 'w server"

definition BodyParse ::
  "('w, 'z) usrsctp_scheme \<Rightarrow> bytes \<Rightarrow> int \<Rightarrow> heap \<Rightarrow> (RuruAddress option \<times> heap) option"
where
  "BodyParse k data len h =
     (if len < 0 then Some (None, h)
      else do {
        (root, h1) \<leftarrow> cJSON_Parse (Some data) h;
        if root = 0 then Some (None, h1)
        else do {
          ip \<leftarrow> cJSON_GetObjectItem h1 root (Some (ascii ''ip'' @ [0]));
          prt \<leftarrow> cJSON_GetObjectItem h1 root (Some (ascii ''port'' @ [0]));
          if ip = 0 \<or> prt = 0 then do { h2 \<leftarrow> cJSON_Delete root h1; Some (None, h2) }
          else do {
            is_str \<leftarrow> cJSON_IsString h1 ip;
            is_num \<leftarrow> cJSON_IsNumber h1 prt;
            if \<not> is_str \<or> \<not> is_num then do { h2 \<leftarrow> cJSON_Delete root h1; Some (None, h2) }
            else do {
              n \<leftarrow> nodes h1 ip;
              s \<leftarrow> strs h1 (c_valuestring n);
              q \<leftarrow> nodes h1 prt;
              h2 \<leftarrow> cJSON_Delete root h1;
              Some (Some \<lparr>host = ntohl (libc_inet_addr k s), port = word_of_int (c_valueint q)\<rparr>, h2)
            }
          }
        }
      })"

definition content_length_name :: bytes where
  "content_length_name = ascii ''content-length''"

text \<open>\<open>strncasecmp\<close> with a literal, up to the first difference.\<close>

fun casecmp_at :: "bytes \<Rightarrow> nat \<Rightarrow> bytes \<Rightarrow> bool option" where
  "casecmp_at m p [] = Some True"
| "casecmp_at m p (c # cs) =
     do { d \<leftarrow> byte_at m p; if to_lower d = c then casecmp_at m (p + 1) cs else Some False }"

text \<open>The value of the first \<open>Content-Length\<close> header, 0 without one.\<close>

fun content_length :: "bytes \<Rightarrow> phr_header list \<Rightarrow> int option" where
  "content_length m [] = Some 0"
| "content_length m (x # xs) =
     (if hname_len x = 14
      then (case hname x of
          None \<Rightarrow> None
        | Some p \<Rightarrow> do {
            same \<leftarrow> casecmp_at m p content_length_name;
            if same then atoi m (hvalue x) else content_length m xs
          })
      else content_length m xs)"

definition HTTP_BAD_REQUEST :: bytes where
  "HTTP_BAD_REQUEST = ascii ''HTTP/1.1 400 Bad request'' @ [13, 10, 13, 10]"

definition HTTP_OK :: bytes where
  "HTTP_OK = ascii ''HTTP/1.1 200 OK'' @ [13, 10] @ ascii ''Content-Type: application/json'' @ [13, 10]
     @ ascii ''Connection: close'' @ [13, 10] @ [13, 10]"

definition close_connection :: "('w, 'z) usrsctp_scheme \<Rightarrow> nat \<Rightarrow> conn \<Rightarrow> 'w server \<Rightarrow> 'w server" where
  "close_connection k p c s = s\<lparr>world := sys_close k (con_fd c) (world s), conns := (conns s)(p := None)\<rparr>"

definition answer :: "('w, 'z) usrsctp_scheme \<Rightarrow> conn \<Rightarrow> bytes \<Rightarrow> 'w server \<Rightarrow> 'w server option" where
  "answer k c msg s = do { (r, w) \<leftarrow> SocketWrite k (con_fd c) msg (world s); Some (s\<lparr>world := w\<rparr>) }"

definition accept_client ::
  "('w, 'z) usrsctp_scheme \<Rightarrow> conn \<Rightarrow> nat \<Rightarrow> int \<Rightarrow> 'w process \<Rightarrow> 'w process option"
where
  "accept_client k c status len hs =
     do {
       let (h, s) = hs;
       (a, h1) \<leftarrow> BodyParse k (drop status (con_data c)) len h;
       s1 \<leftarrow> (case a of
           None \<Rightarrow> answer k c HTTP_BAD_REQUEST s
         | Some addr \<Rightarrow> do {
             fd \<leftarrow> udp_fd s;
             (i, s1) \<leftarrow> RuruClient_new k addr fd s;
             s2 \<leftarrow> AttachClientInfo i s1;
             answer k c HTTP_OK s2
           });
       Some (h1, s1)
     }"

text \<open>
  The part of a turn of the loop of \<open>HttpRequestHandle\<close> after the read: \<open>c\<close> is the connection with the
  new bytes, \<open>lastLen\<close> the length before them. The \<open>bool\<close> tells whether the function returns. What the
  parser stored is there whenever its answer is positive.
\<close>

definition http_dispatch ::
  "('w, 'z) usrsctp_scheme \<Rightarrow> nat \<Rightarrow> conn \<Rightarrow> nat \<Rightarrow> 'w process \<Rightarrow> (bool \<times> 'w process) option"
where
  "http_dispatch k p c lastLen hs =
     (let (h, s) = hs in
      do {
        (status, stored) \<leftarrow> phr_parse_request (con_data c) (nat (con_length c)) 16 lastLen;
        if status > 0
        then do {
          r \<leftarrow> stored;
          cl \<leftarrow> content_length (con_data c) (headers r);
          if cl \<noteq> 0
          then do {
            total \<leftarrow> i32 (status + cl);
            if con_length c = total
            then do {
              (h1, s1) \<leftarrow> accept_client k c (nat status) cl (h, s);
              Some (True, h1, close_connection k p c s1)
            }
            else Some (False, h, s)
          }
          else Some (False, h, s)
        }
        else if status = -1 then Some (True, h, close_connection k p c s)
        else if con_length c = int HTTP_MAX_SIZE
        then do {
          s1 \<leftarrow> answer k c HTTP_BAD_REQUEST s;
          Some (True, h, close_connection k p c s1)
        }
        else Some (False, h, s)
      })"

text \<open>
  One turn: the position and the room given to \<open>read\<close> come from the signed \<open>con->length\<close>; outside
  of the 4096 bytes the access is undefined. A length that became negative is the length given to the
  parser, as a \<open>size_t\<close>: its \<open>buf_start + len\<close> is no pointer into the array, which is undefined too.
\<close>

definition http_turn :: "('w, 'z) usrsctp_scheme \<Rightarrow> nat \<Rightarrow> 'w process \<Rightarrow> (bool \<times> 'w process) option" where
  "http_turn k p hs =
     do {
       let (h, s) = hs;
       c \<leftarrow> conns s p;
       if con_length c < 0 \<or> int HTTP_MAX_SIZE < con_length c then None
       else do {
         let lastLen = nat (con_length c);
         let (len, bs, w) = sys_read k (con_fd c) (HTTP_MAX_SIZE - lastLen) (world s);
         let s1 = s\<lparr>world := w\<rparr>;
         if (len < 0 \<and> sys_errno k w \<noteq> EAGAIN) \<or> len = 0
         then Some (True, h, close_connection k p c s1)
         else do {
           d \<leftarrow> memcpy_at lastLen bs (con_data c);
           let c1 = c\<lparr>con_data := d, con_length := con_length c + len\<rparr>;
           if con_length c1 < 0 then None
           else http_dispatch k p c1 lastLen (h, s1\<lparr>conns := (conns s1)(p \<mapsto> c1)\<rparr>)
         }
       }
     }"

partial_function (option) HttpRequestHandle ::
  "('w, 'z) usrsctp_scheme \<Rightarrow> nat \<Rightarrow> 'w process \<Rightarrow> 'w process option"
where
  "HttpRequestHandle k p hs =
     do { (fin, hs') \<leftarrow> http_turn k p hs; if fin then Some hs' else HttpRequestHandle k p hs' }"

section \<open>The sockets\<close>

partial_function (option) udp_loop :: "('w, 'z) usrsctp_scheme \<Rightarrow> int \<Rightarrow> bool \<Rightarrow> 'w server \<Rightarrow> (bool \<times> 'w server) option" where
  "udp_loop k fd have_data s =
     (let (n, buffer, remote, w) = sys_recvfrom k fd 4096 (world s); s1 = s\<lparr>world := w\<rparr> in
      if n > 0
      then let a = \<lparr>host = ntohl (sin_addr remote), port = ntohs (sin_port remote)\<rparr> in
        (case FindClientByAddress a s1 of
           None \<Rightarrow> udp_loop k fd True s1
         | Some i \<Rightarrow> do {
             s2 \<leftarrow> HandleDtlsPacket k i (take (nat n) buffer) s1;
             udp_loop k fd True s2
           })
      else Some (have_data, s1))"

partial_function (option) accept_loop :: "('w, 'z) usrsctp_scheme \<Rightarrow> int \<Rightarrow> int \<Rightarrow> 'w server \<Rightarrow> 'w server option" where
  "accept_loop k fd ep s =
     (let (cfd, w) = sys_accept k fd (world s); s1 = s\<lparr>world := w\<rparr> in
      if cfd = -1 then Some s1
      else let (r, w2) = SetNonBlocking k cfd w; s2 = s1\<lparr>world := w2\<rparr> in
        if r = -1 then accept_loop k fd ep (s2\<lparr>world := sys_close k cfd w2\<rparr>)
        else let (r, s3) = epoll_watch k ep cfd s2 in
          if r = -1 then accept_loop k fd ep (s3\<lparr>world := sys_close k cfd (world s3)\<rparr>)
          else accept_loop k fd ep s3)"

definition epoll_event :: "('w, 'z) usrsctp_scheme \<Rightarrow> nat \<Rightarrow> u32 \<Rightarrow> 'w process \<Rightarrow> (bool \<times> 'w process) option" where
  "epoll_event k p ev hs =
     do {
       let (h, s) = hs;
       c \<leftarrow> conns s p;
       if ev AND EPOLLERR \<noteq> 0 \<or> ev AND EPOLLHUP \<noteq> 0 \<or> ev AND EPOLLIN = 0
       then Some (False, h, close_connection k p c s)
       else do {
         u \<leftarrow> udp_fd s;
         t \<leftarrow> tcp_fd s;
         if con_fd c = u then do { (b, s1) \<leftarrow> udp_loop k u False s; Some (b, h, s1) }
         else if con_fd c = t
         then do { ep \<leftarrow> ep_fd s; s1 \<leftarrow> accept_loop k t ep s; Some (True, h, s1) }
         else do { hs1 \<leftarrow> HttpRequestHandle k p hs; Some (True, hs1) }
       }
     }"

fun epoll_events :: "('w, 'z) usrsctp_scheme \<Rightarrow> (nat \<times> u32) list \<Rightarrow> 'w process \<Rightarrow> (bool \<times> 'w process) option" where
  "epoll_events k [] hs = Some (False, hs)"
| "epoll_events k ((p, ev) # es) hs =
     do {
       (b, hs1) \<leftarrow> epoll_event k p ev hs;
       (b', hs2) \<leftarrow> epoll_events k es hs1;
       Some (b \<or> b', hs2)
     }"

definition EpollWait :: "('w, 'z) usrsctp_scheme \<Rightarrow> 'w process \<Rightarrow> (bool \<times> 'w process) option" where
  "EpollWait k hs =
     do {
       let (h, s) = hs;
       ep \<leftarrow> ep_fd s;
       let (es, w) = sys_epoll_wait k ep MAX_EVENT (world s);
       epoll_events k es (h, s\<lparr>world := w\<rparr>)
     }"

definition Loop :: "('w, 'z) usrsctp_scheme \<Rightarrow> 'w process \<Rightarrow> (RuruEvent option \<times> bool \<times> 'w process) option" where
  "Loop k hs =
     (let (h, s) = hs in
      case UpdateEvent s of
        (Some e, s1) \<Rightarrow> Some (Some e, True, h, s1)
      | (None, s1) \<Rightarrow> do {
          (b, s2) \<leftarrow> ScanClientCacheData s1;
          (b', hs3) \<leftarrow> EpollWait k (h, s2);
          Some (None, b \<or> b', hs3)
        })"

end
