(* ===== verification/Cjson_Tree.thy ===== *)
theory Cjson_Tree
  imports Cjson_Heap
begin

text \<open>
  What a cJSON structure on the heap stands for: \<open>item h p F t\<close> and \<open>chain h ps e F ts\<close> say that
  the node \<open>p\<close>, or the list of nodes \<open>ps\<close> whose last \<open>next\<close> pointer is \<open>e\<close>, represents the tree
  \<open>t\<close>, the trees \<open>ts\<close>, and owns the addresses \<open>F\<close>. \<open>cJSON_Delete\<close> releases exactly these.
\<close>

datatype jtree = JT (jt_type: int) (jt_int: int) (jt_double: double) (jt_string: "bytes option")
  (jt_name: "bytes option") (jt_kids: "jtree list")

section \<open>Representation\<close>

text \<open>A string pointer: null, or the address of a block that holds a terminator.\<close>

definition own :: "heap \<Rightarrow> nat \<Rightarrow> nat list \<Rightarrow> bytes option \<Rightarrow> bool" where
  "own h p F v \<longleftrightarrow>
     (if p = 0 then F = [] \<and> v = None else F = [p] \<and> strs h p = v \<and> (\<exists>s. v = Some s \<and> 0 \<in> set s))"

definition prevs :: "heap \<Rightarrow> nat list \<Rightarrow> bool" where
  "prevs h ps \<longleftrightarrow> (\<forall>i<length ps. \<exists>n. nodes h (ps ! i) = Some n
     \<and> c_prev n = (if i = 0 then last ps else ps ! (i - 1)))"

inductive item :: "heap \<Rightarrow> nat \<Rightarrow> nat list \<Rightarrow> jtree \<Rightarrow> bool"
  and chain :: "heap \<Rightarrow> nat list \<Rightarrow> nat \<Rightarrow> nat list \<Rightarrow> jtree list \<Rightarrow> bool"
  for h
where
  node: "nodes h p = Some n \<Longrightarrow> p \<noteq> 0 \<Longrightarrow> own h (c_valuestring n) Fv v \<Longrightarrow> own h (c_string n) Fs nm \<Longrightarrow>
    \<not> flag (c_type n) cJSON_IsReference \<Longrightarrow> \<not> flag (c_type n) cJSON_StringIsConst \<Longrightarrow>
    chain h kps 0 Fk kids \<Longrightarrow> c_child n = hd (kps @ [0]) \<Longrightarrow> prevs h kps \<Longrightarrow>
    item h p (p # Fv @ Fs @ Fk) (JT (c_type n) (c_valueint n) (c_valuedouble n) v nm kids)"
| nil: "chain h [] e [] []"
| cons: "item h p F t \<Longrightarrow> nodes h p = Some n \<Longrightarrow> c_next n = hd (ps @ [e]) \<Longrightarrow> chain h ps e G ts \<Longrightarrow>
    chain h (p # ps) e (F @ G) (t # ts)"

inductive_cases item_elim: "item h p F t"
inductive_cases chain_nil_elim: "chain h [] e F ts"
inductive_cases chain_cons_elim: "chain h (p # ps) e F ts"

lemma chain_nil_iff [simp]: "chain h [] e F ts \<longleftrightarrow> F = [] \<and> ts = []"
  by (auto elim: chain_nil_elim intro: nil)

text \<open>Two heaps that agree on the addresses of \<open>F\<close>.\<close>

definition same_on :: "nat set \<Rightarrow> heap \<Rightarrow> heap \<Rightarrow> bool" where
  "same_on A h h' \<longleftrightarrow> (\<forall>a\<in>A. nodes h' a = nodes h a \<and> strs h' a = strs h a)"

lemma same_onD: "same_on A h h' \<Longrightarrow> a \<in> A \<Longrightarrow> nodes h' a = nodes h a \<and> strs h' a = strs h a"
  by (simp add: same_on_def)

lemma same_on_subset: "same_on A h h' \<Longrightarrow> B \<subseteq> A \<Longrightarrow> same_on B h h'"
  by (auto simp: same_on_def)

lemma own_frame: "own h p F v \<Longrightarrow> same_on (set F) h h' \<Longrightarrow> own h' p F v"
  by (auto simp: own_def same_on_def split: if_splits)

lemma item_in: "item h p F t \<Longrightarrow> p \<in> set F \<and> (\<exists>n. nodes h p = Some n) \<and> p \<noteq> 0"
  by (auto elim: item_elim)

lemma chain_in: "chain h ps e F ts \<Longrightarrow> set ps \<subseteq> set F \<and> length ts = length ps \<and> 0 \<notin> set ps"
proof (induction ps arbitrary: F ts)
  case (Cons p ps)
  from Cons.prems obtain F' t n G ts' where c: "F = F' @ G" "ts = t # ts'" "item h p F' t" "chain h ps e G ts'"
    by (elim chain_cons_elim) blast
  with Cons.IH [OF c(4)] item_in [OF c(3)] show ?case by auto
qed simp

lemma prevs_frame: "prevs h ps \<Longrightarrow> same_on A h h' \<Longrightarrow> set ps \<subseteq> A \<Longrightarrow> prevs h' ps"
  unfolding prevs_def by (metis nth_mem same_onD subsetD)

lemma item_chain_frame:
  "item h p F t \<Longrightarrow> same_on (set F) h h' \<longrightarrow> item h' p F t"
  "chain h ps e F ts \<Longrightarrow> same_on (set F) h h' \<longrightarrow> chain h' ps e F ts"
proof (induction rule: item_chain.inducts)
  case (node p n Fv v Fs nm kps Fk kids)
  show ?case
  proof
    assume s: "same_on (set (p # Fv @ Fs @ Fk)) h h'"
    have "nodes h' p = Some n" using node s by (simp add: same_on_def)
    moreover have "own h' (c_valuestring n) Fv v"
      by (rule own_frame [OF \<open>own h (c_valuestring n) Fv v\<close> same_on_subset [OF s]]) auto
    moreover have "own h' (c_string n) Fs nm"
      by (rule own_frame [OF \<open>own h (c_string n) Fs nm\<close> same_on_subset [OF s]]) auto
    moreover have sk: "same_on (set Fk) h h'"
      by (rule same_on_subset [OF s]) auto
    moreover have "chain h' kps 0 Fk kids"
      using node sk by simp
    moreover have "prevs h' kps"
      by (rule prevs_frame [OF \<open>prevs h kps\<close> sk]) (use chain_in [OF \<open>chain h kps 0 Fk kids\<close>] in simp)
    ultimately show "item h' p (p # Fv @ Fs @ Fk) (JT (c_type n) (c_valueint n) (c_valuedouble n) v nm kids)"
      using node by (intro item_chain.node) simp_all
  qed
next
  case (cons p F t n ps e G ts)
  then show ?case
    using item_in [OF \<open>item h p F t\<close>]
    by (auto intro!: item_chain.cons elim: same_on_subset simp: same_on_def)
qed (auto intro: item_chain.nil)

lemmas item_frame = item_chain_frame(1) [rule_format]
lemmas chain_frame = item_chain_frame(2) [rule_format]

lemma chain_append:
  "chain h ps (hd (qs @ [e])) F ts \<Longrightarrow> chain h qs e G us \<Longrightarrow> chain h (ps @ qs) e (F @ G) (ts @ us)"
proof (induction ps arbitrary: F ts)
  case (Cons p ps)
  from Cons.prems(1) obtain F' t n G' ts' where c: "F = F' @ G'" "ts = t # ts'" "item h p F' t"
      "nodes h p = Some n" "c_next n = hd (ps @ [hd (qs @ [e])])" "chain h ps (hd (qs @ [e])) G' ts'"
    by (elim chain_cons_elim) blast
  then have "chain h (ps @ qs) e (G' @ G) (ts' @ us)" using Cons by auto
  moreover have "c_next n = hd ((ps @ qs) @ [e])" using c by (cases ps) auto
  ultimately have "chain h (p # (ps @ qs)) e (F' @ (G' @ G)) (t # (ts' @ us))"
    using c by (intro cons)
  then show ?case using c by simp
qed simp

lemma chain_single:
  "item h p F t \<Longrightarrow> nodes h p = Some n \<Longrightarrow> c_next n = e \<Longrightarrow> chain h [p] e F [t]"
  using cons [of h p F t n "[]" e "[]" "[]"] by (simp add: nil)

text \<open>The links of a node are not part of the tree it stands for.\<close>

lemma item_links:
  assumes "item h p F t" "distinct F" "nodes h p = Some n"
    and "n' = n\<lparr>c_next := x, c_prev := y\<rparr>"
  shows "item (h\<lparr>nodes := (nodes h)(p \<mapsto> n')\<rparr>) p F t"
proof -
  obtain Fv v Fs nm kps Fk kids where i: "F = p # Fv @ Fs @ Fk"
      "t = JT (c_type n) (c_valueint n) (c_valuedouble n) v nm kids" "p \<noteq> 0"
      "own h (c_valuestring n) Fv v" "own h (c_string n) Fs nm"
      "\<not> flag (c_type n) 256" "\<not> flag (c_type n) 512" "chain h kps 0 Fk kids"
      "c_child n = hd (kps @ [0])" "prevs h kps"
    using assms(1,3) by (elim item_elim) auto
  let ?h = "h\<lparr>nodes := (nodes h)(p \<mapsto> n')\<rparr>"
  have s: "same_on (set (Fv @ Fs @ Fk)) h ?h"
    using i(1) assms(2) by (auto simp: same_on_def)
  have "item ?h p (p # Fv @ Fs @ Fk) (JT (c_type n') (c_valueint n') (c_valuedouble n') v nm kids)"
  proof (rule node)
    show "own ?h (c_valuestring n') Fv v" "own ?h (c_string n') Fs nm"
      using i s assms(4) by (auto intro!: own_frame [where h = h] elim: same_on_subset)
    show "chain ?h kps 0 Fk kids" using i s by (auto intro!: chain_frame [where h = h] elim: same_on_subset)
    show "prevs ?h kps"
      using i(10) s chain_in [OF i(8)] by (elim prevs_frame) auto
  qed (use i assms(4) in auto)
  then show ?thesis using i assms(4) by simp
qed

section \<open>Well-formed heaps\<close>

definition heap_wf :: "heap \<Rightarrow> bool" where
  "heap_wf h \<longleftrightarrow> (\<forall>a n. nodes h a = Some n \<longrightarrow> 0 < a \<and> a \<le> brk h \<and> strs h a = None)
     \<and> (\<forall>a s. strs h a = Some s \<longrightarrow> 0 < a \<and> a \<le> brk h)"

lemma heap_wf_node: "heap_wf h \<Longrightarrow> nodes h p = Some n \<Longrightarrow> 0 < p \<and> p \<le> brk h \<and> strs h p = None"
  by (simp add: heap_wf_def)

lemma heap_wf_str: "heap_wf h \<Longrightarrow> strs h p = Some s \<Longrightarrow> 0 < p \<and> p \<le> brk h \<and> nodes h p = None"
  unfolding heap_wf_def by (metis option.distinct(1) option.exhaust)

lemma heap_wf_fresh: "heap_wf h \<Longrightarrow> brk h < a \<Longrightarrow> nodes h a = None \<and> strs h a = None"
  unfolding heap_wf_def by (metis leD not_None_eq)

lemma heap_wf_zero: "heap_wf h \<Longrightarrow> nodes h 0 = None \<and> strs h 0 = None"
  unfolding heap_wf_def by (metis less_numeral_extra(3) not_None_eq)

lemma heap_wf_upd: "heap_wf h \<Longrightarrow> nodes h p = Some n \<Longrightarrow> heap_wf (h\<lparr>nodes := (nodes h)(p \<mapsto> n')\<rparr>)"
  by (simp add: heap_wf_def)

definition release :: "nat list \<Rightarrow> heap \<Rightarrow> heap" where
  "release F h = h\<lparr>nodes := nodes h |` (- set F), strs := strs h |` (- set F)\<rparr>"

lemma release_Nil [simp]: "release [] h = h"
  by (cases h) (simp add: release_def restrict_map_def)

lemma release_fields [simp]:
  "brk (release F h) = brk h" "avail (release F h) = avail h" "global_error (release F h) = global_error h"
  by (simp_all add: release_def)

lemma release_release: "release F (release G h) = release (G @ F) h"
  by (simp add: release_def Int_commute Compl_Un)

lemma release_wf: "heap_wf h \<Longrightarrow> heap_wf (release F h)"
  by (auto simp: heap_wf_def release_def restrict_map_def)

lemma release_same: "set F \<inter> A = {} \<Longrightarrow> same_on A h (release F h)"
  by (auto simp: same_on_def release_def restrict_map_def)

lemma same_on_release: "same_on A h h' \<Longrightarrow> B \<subseteq> A \<Longrightarrow> set F \<inter> B = {} \<Longrightarrow> same_on B h (release F h')"
  by (auto simp: same_on_def release_def restrict_map_def)

lemma release_perm: "set F = set G \<Longrightarrow> release F h = release G h"
  by (simp add: release_def)

lemma free_node_release:
  assumes "heap_wf h" "nodes h p = Some n" shows "free_node p h = Some (release [p] h)"
proof -
  have "strs h p = None" using heap_wf_node assms by blast
  then have "strs h |` (- {p}) = strs h" by (auto simp: restrict_map_def)
  moreover have "nodes h |` (- {p}) = (nodes h)(p := None)" by (auto simp: restrict_map_def)
  ultimately show ?thesis using assms by (simp add: free_node_def release_def)
qed

lemma free_str_release:
  assumes "heap_wf h" "own h p F v"
  shows "(if p \<noteq> 0 then free_str p h else Some h) = Some (release F h)"
proof (cases "p = 0")
  case False
  then have F: "F = [p]" and s: "strs h p \<noteq> None" using assms(2) by (auto simp: own_def)
  have "nodes h p = None" using heap_wf_str assms s by blast
  then have "nodes h |` (- {p}) = nodes h" by (auto simp: restrict_map_def)
  moreover have "strs h |` (- {p}) = (strs h)(p := None)" by (auto simp: restrict_map_def)
  ultimately show ?thesis using F s False by (auto simp: free_str_def release_def)
qed (use assms in \<open>auto simp: own_def\<close>)

section \<open>Deleting\<close>

lemma Delete_chain_aux:
  "item h p F t \<Longrightarrow> distinct F \<longrightarrow> (\<forall>h' n. same_on (set F) h h' \<and> heap_wf h' \<and> nodes h p = Some n \<longrightarrow>
     cJSON_Delete p h' = cJSON_Delete (c_next n) (release F h'))"
  "chain h ps e F ts \<Longrightarrow> distinct F \<longrightarrow> e = 0 \<longrightarrow> (\<forall>h'. same_on (set F) h h' \<and> heap_wf h' \<longrightarrow>
     cJSON_Delete (hd (ps @ [0])) h' = Some (release F h'))"
proof (induction rule: item_chain.inducts)
  case (node p n Fv v Fs nm kps Fk kids)
  show ?case
  proof (intro impI allI)
    fix h' n1
    assume d: "distinct (p # Fv @ Fs @ Fk)"
      and a: "same_on (set (p # Fv @ Fs @ Fk)) h h' \<and> heap_wf h' \<and> nodes h p = Some n1"
    then have s: "same_on (set (p # Fv @ Fs @ Fk)) h h'" and wf: "heap_wf h'" and n1: "n1 = n"
      using node by auto
    have np: "nodes h' p = Some n" using s node by (simp add: same_on_def)
    have kids: "(if \<not> flag (c_type n) 256 \<and> c_child n \<noteq> 0 then cJSON_Delete (c_child n) h' else Some h')
        = Some (release Fk h')"
    proof -
      have "cJSON_Delete (hd (kps @ [0])) h' = Some (release Fk h')"
      proof -
        have "same_on (set Fk) h h'" by (rule same_on_subset [OF s]) auto
        then show ?thesis using node d wf by simp
      qed
      moreover have "cJSON_Delete 0 h' = Some h'" by (subst cJSON_Delete.simps) simp
      ultimately show ?thesis using node by auto
    qed
    let ?h1 = "release Fk h'"
    have np1: "nodes ?h1 p = Some n" using np d by (simp add: release_def)
    have "own ?h1 (c_valuestring n) Fv v"
      by (rule own_frame [OF \<open>own h (c_valuestring n) Fv v\<close> same_on_release [OF s]]) (use d in auto)
    then have v: "(if c_valuestring n \<noteq> 0 then free_str (c_valuestring n) ?h1 else Some ?h1)
        = Some (release (Fk @ Fv) h')"
      using free_str_release [OF release_wf [OF wf, of Fk]] by (simp add: release_release)
    let ?h2 = "release (Fk @ Fv) h'"
    have np2: "nodes ?h2 p = Some n" using np d by (simp add: release_def)
    have "own ?h2 (c_string n) Fs nm"
      by (rule own_frame [OF \<open>own h (c_string n) Fs nm\<close> same_on_release [OF s]]) (use d in auto)
    then have nm: "(if c_string n \<noteq> 0 then free_str (c_string n) ?h2 else Some ?h2)
        = Some (release ((Fk @ Fv) @ Fs) h')"
      using free_str_release [OF release_wf [OF wf, of "Fk @ Fv"]] by (simp add: release_release)
    let ?h3 = "release ((Fk @ Fv) @ Fs) h'"
    have "nodes ?h3 p = Some n" using np d by (simp add: release_def)
    then have fin: "free_node p ?h3 = Some (release (((Fk @ Fv) @ Fs) @ [p]) h')"
      using free_node_release [OF release_wf [OF wf]] by (simp add: release_release)
    have "release (((Fk @ Fv) @ Fs) @ [p]) h' = release (p # Fv @ Fs @ Fk) h'"
      by (rule release_perm) auto
    with np np1 np2 kids v nm fin node n1
    show "cJSON_Delete p h' = cJSON_Delete (c_next n1) (release (p # Fv @ Fs @ Fk) h')"
      by (subst cJSON_Delete.simps) simp
  qed
next
  case (nil e)
  then show ?case by (simp add: cJSON_Delete.simps [of 0])
next
  case (cons p F t n ps e G ts)
  show ?case
  proof (intro impI allI)
    fix h'
    assume d: "distinct (F @ G)" and e: "e = 0" and a: "same_on (set (F @ G)) h h' \<and> heap_wf h'"
    have "cJSON_Delete p h' = cJSON_Delete (c_next n) (release F h')"
      using cons d a by (auto elim: same_on_subset)
    moreover have "same_on (set G) h (release F h')"
      using a d release_same [of F "set G" h'] by (auto simp: same_on_def)
    then have "cJSON_Delete (hd (ps @ [0])) (release F h') = Some (release G (release F h'))"
      using cons d e a release_wf by auto
    ultimately show "cJSON_Delete (hd ((p # ps) @ [0])) h' = Some (release (F @ G) h')"
      using cons e by (simp add: release_release)
  qed
qed

lemma cJSON_Delete_chain:
  "chain h ps 0 F ts \<Longrightarrow> distinct F \<Longrightarrow> heap_wf h \<Longrightarrow>
     cJSON_Delete (hd (ps @ [0])) h = Some (release F h)"
  using Delete_chain_aux(2) [of h ps 0 F ts] by (simp add: same_on_def)

end
