(* ===== verification/Cjson_Text_Safety.thy ===== *)
theory Cjson_Text_Safety
  imports Cjson_Text
begin

text \<open>
  The character level stays inside its arrays: every scanner is total on a buffer whose length is
  not larger than its array, the decoded string never outgrows the allocation computed by the
  first loop.
\<close>

section \<open>White space and keywords\<close>

definition buffer_ok :: "parse_buffer \<Rightarrow> bool" where
  "buffer_ok b \<longleftrightarrow> buf_length b \<le> length (content b)"

text \<open>A function moved the offset of the buffer only.\<close>

definition moved :: "parse_buffer \<Rightarrow> parse_buffer \<Rightarrow> bool" where
  "moved b b' \<longleftrightarrow> b' = b\<lparr>offset := offset b'\<rparr>"

lemma moved_simps [simp]: "moved b (b\<lparr>offset := p\<rparr>)" "moved b b"
  by (simp_all add: moved_def)

lemma moved_fields:
  "moved b b' \<Longrightarrow> content b' = content b \<and> buf_length b' = buf_length b \<and> depth b' = depth b"
  unfolding moved_def by (metis parse_buffer.select_convs parse_buffer.surjective parse_buffer.update_convs(3))

lemma skip_ws_bounds:
  "len \<le> length m \<Longrightarrow> p \<le> len \<Longrightarrow> \<exists>q. skip_ws m len p = Some q \<and> p \<le> q \<and> q \<le> len
     \<and> (\<forall>i. p \<le> i \<and> i < q \<longrightarrow> m ! i \<le> 32) \<and> (q < len \<longrightarrow> \<not> m ! q \<le> 32)"
proof (induction m len p rule: skip_ws.induct)
  case (1 m len p)
  show ?case
  proof (cases "p < len \<and> m ! p \<le> 32")
    case True
    then obtain q where q: "skip_ws m len (p + 1) = Some q" "p + 1 \<le> q" "q \<le> len"
        "\<forall>i. p + 1 \<le> i \<and> i < q \<longrightarrow> m ! i \<le> 32" "q < len \<longrightarrow> \<not> m ! q \<le> 32"
      using "1.IH" [of "m ! p"] "1.prems" by auto
    have "m ! i \<le> 32" if "p \<le> i" "i < q" for i
      using q(4) that True by (cases "i = p") auto
    then show ?thesis using True q "1.prems" by (subst skip_ws.simps) auto
  next
    case False
    then show ?thesis using "1.prems" by (subst skip_ws.simps) auto
  qed
qed

lemma buffer_skip_whitespace_total:
  assumes "buffer_ok b"
  shows "\<exists>p. buffer_skip_whitespace b = Some (b\<lparr>offset := p\<rparr>) \<and> offset b \<le> p
    \<and> (offset b < buf_length b \<longrightarrow> p < buf_length b) \<and> (\<not> offset b < buf_length b \<longrightarrow> p = offset b)"
proof (cases "can_access_at_index b 0")
  case True
  then obtain q where q: "skip_ws (content b) (buf_length b) (offset b) = Some q"
      "offset b \<le> q" "q \<le> buf_length b"
    using skip_ws_bounds [of "buf_length b" "content b" "offset b"] assms
    by (auto simp: buffer_ok_def can_access_at_index_def)
  with True show ?thesis
    by (auto simp: buffer_skip_whitespace_def can_access_at_index_def intro!: exI [of _ "if q = buf_length b then q - 1 else q"])
next
  case False
  then show ?thesis
    by (auto simp: buffer_skip_whitespace_def can_access_at_index_def intro!: exI [of _ "offset b"])
qed

lemma literal_at_total:
  "p + length s \<le> length m \<Longrightarrow> literal_at m p s = Some (chunk m p (length s) = s)"
proof (induction m p s rule: literal_at.induct)
  case (2 m p c cs)
  then have "drop p m = m ! p # drop (p + 1) m" by (simp add: Cons_nth_drop_Suc)
  then show ?case using 2 by (auto simp: chunk_def)
qed (simp add: chunk_def)

lemma keyword_total:
  assumes "buffer_ok b"
  shows "keyword b s = Some (can_read b (length s) \<and> chunk (content b) (offset b) (length s) = s)"
  using assms by (auto simp: keyword_def can_read_def buffer_ok_def literal_at_total)

lemma peek_total:
  "buffer_ok b \<Longrightarrow> peek b = Some (if offset b < buf_length b then Some (content b ! offset b) else None)"
  by (auto simp: peek_def can_access_at_index_def buffer_ok_def)

lemma skip_utf8_bom_total:
  assumes "buffer_ok b" "offset b = 0"
  shows "\<exists>p. skip_utf8_bom b = Some (Some (b\<lparr>offset := p\<rparr>)) \<and> (p = 0 \<or> p = 3 \<and> 4 < buf_length b)"
proof (cases "can_access_at_index b 4")
  case True
  then have "literal_at (content b) 0 [0xEF, 0xBB, 0xBF] = Some (chunk (content b) 0 3 = [0xEF, 0xBB, 0xBF])"
    using literal_at_total [of 0 "[0xEF, 0xBB, 0xBF]" "content b"] assms
    by (simp add: can_access_at_index_def buffer_ok_def numeral_3_eq_3 del: literal_at.simps)
  then show ?thesis
    using True assms by (cases b) (auto simp: skip_utf8_bom_def can_access_at_index_def)
next
  case False
  then show ?thesis using assms by (cases b) (auto simp: skip_utf8_bom_def)
qed

section \<open>UTF-16 literals\<close>

lemma unat_ucast_byte [simp]: "unat (ucast (c :: byte) :: u32) = unat c"
  by (simp add: unsigned_ucast_eq take_bit_nat_eq_self unsigned_less [THEN order_less_le_trans])

lemma hex_digit_bound: "hex_digit c = Some d \<Longrightarrow> unat d < 16"
  by (auto simp: hex_digit_def word_le_nat_alt unat_sub unat_word_ariths split: if_splits)

lemma hex_loop_total: "p + n \<le> length m \<Longrightarrow> \<exists>r. hex_loop m p n h = Some r"
proof (induction n arbitrary: p h)
  case (Suc n)
  then show ?case by (cases "hex_digit (m ! p)") auto
qed simp

lemma parse_hex4_total: "p + 4 \<le> length m \<Longrightarrow> \<exists>r. parse_hex4 m p = Some r"
  unfolding parse_hex4_def by (rule hex_loop_total)

lemma unat_push_4: "unat (x :: u32) \<le> 4096 \<Longrightarrow> unat (push_bit 4 x) = 16 * unat x"
  by (simp add: push_bit_eq_mult unat_word_ariths(2))

text \<open>Four digits never leave 16 bits.\<close>

lemma hex_loop_bound:
  "hex_loop m p n h = Some r \<Longrightarrow> 0 < n \<Longrightarrow> n \<le> 4 \<Longrightarrow> unat h + 16 \<le> 16 ^ (5 - n) \<Longrightarrow> unat r < 65536"
proof (induction n arbitrary: p h)
  case (Suc n)
  obtain c where c: "byte_at m p = Some c" using Suc.prems(1) by (auto simp: run_simps)
  show ?case
  proof (cases "hex_digit c")
    case None
    then show ?thesis using Suc.prems(1) c by simp
  next
    case (Some d)
    have pow: "(16::nat) ^ (5 - Suc n) \<le> 16 ^ 4" using Suc.prems(3) by (intro power_increasing) auto
    have hd: "unat (h + d) = unat h + unat d" "unat (h + d) + 1 \<le> 16 ^ (5 - Suc n)"
      using hex_digit_bound [OF Some] Suc.prems(4) pow by (auto simp: unat_word_ariths)
    show ?thesis
    proof (cases n)
      case 0
      then show ?thesis using Suc.prems(1) c Some hd(2) by simp
    next
      case (Suc k)
      have p5: "(16::nat) ^ (5 - n) = 16 * 16 ^ (5 - Suc n)"
        using Suc.prems(3) by (simp flip: power_Suc add: Suc_diff_le)
      have "(16::nat) ^ (5 - Suc n) \<le> 16 ^ 3" using Suc by (intro power_increasing) auto
      then have "unat (push_bit 4 (h + d)) = 16 * unat (h + d)"
        using hd(2) by (intro unat_push_4) simp
      then have "unat (push_bit 4 (h + d)) + 16 \<le> 16 ^ (5 - n)"
        using hd(2) p5 by simp
      then show ?thesis
        using Suc.IH [of "p + 1" "push_bit 4 (h + d)"] Suc.prems Suc c Some by simp
    qed
  qed
qed simp

lemma parse_hex4_bound: "parse_hex4 m p = Some r \<Longrightarrow> unat r < 65536"
  unfolding parse_hex4_def by (erule hex_loop_bound) auto

text \<open>What the decoding loop relies on: the sequence ends inside the string and its output is short.\<close>

lemma utf8_fill_length: "length (snd (utf8_fill n cp bs)) = n + length bs"
  by (induction n cp bs rule: utf8_fill.induct) auto

lemma utf8_encode_length:
  "utf8_encode cp = Some bs \<Longrightarrow> 1 \<le> length bs \<and> length bs \<le> 4 \<and> (cp < 0x10000 \<longrightarrow> length bs \<le> 3)"
  using utf8_fill_length [of 1 cp "[]"] utf8_fill_length [of 2 cp "[]"] utf8_fill_length [of 3 cp "[]"]
  by (auto simp: utf8_encode_def split: if_splits prod.splits)

lemma utf16_code_cases:
  assumes "e \<le> length m"
  shows "\<exists>n cp. utf16_code m p e = Some (n, cp) \<and> (n = 0 \<or> n = 6 \<and> cp < 0x10000 \<and> p + 6 \<le> e \<or> n = 12 \<and> p + 12 \<le> e)"
proof (cases "e < p + 6")
  case True
  then show ?thesis by (simp add: utf16_code_def)
next
  case long: False
  then obtain r where r: "parse_hex4 m (p + 2) = Some r"
    using parse_hex4_total [of "p + 2" m] assms by auto
  have small: "ucast r < (0x10000 :: u64)"
  proof -
    have "unat (ucast r :: u64) = unat r"
      by (simp add: unsigned_ucast_eq take_bit_nat_eq_self unsigned_less [THEN order_less_le_trans])
    then show ?thesis using parse_hex4_bound [OF r] by (simp add: word_less_nat_alt)
  qed
  show ?thesis
  proof (cases "0xD800 \<le> r \<and> r \<le> 0xDBFF \<and> \<not> e < p + 6 + 6 \<and> m ! (p + 6) = 92 \<and> m ! (p + 7) = 117")
    case True
    then obtain r2 where "parse_hex4 m (p + 8) = Some r2"
      using parse_hex4_total [of "p + 8" m] assms by auto
    then show ?thesis using long r True assms by (auto simp: utf16_code_def)
  next
    case False
    then show ?thesis using long r small assms by (auto simp: utf16_code_def)
  qed
qed

lemma utf16_literal_cases:
  assumes "e \<le> length m"
  shows "\<exists>n bs. utf16_literal_to_utf8 m p e = Some (n, bs)
    \<and> (n = 0 \<and> bs = [] \<or> n = 6 \<and> length bs \<le> 3 \<and> p + 6 \<le> e \<or> n = 12 \<and> length bs \<le> 4 \<and> p + 12 \<le> e)"
proof -
  obtain n cp where n: "utf16_code m p e = Some (n, cp)"
      "n = 0 \<or> n = 6 \<and> cp < 0x10000 \<and> p + 6 \<le> e \<or> n = 12 \<and> p + 12 \<le> e"
    using utf16_code_cases [OF assms] by blast
  then show ?thesis
    by (cases "utf8_encode cp") (auto simp: utf16_literal_to_utf8_def dest: utf8_encode_length)
qed

section \<open>The output of a string fits its allocation\<close>

text \<open>
  \<open>units m e p u\<close>: the first loop gets from \<open>p\<close> to the closing quote at \<open>e\<close> in \<open>u\<close> turns. The
  allocation has room for one byte per turn. An escape with \<open>\\u\<close> may make the second loop lose
  step with the first: it can be at the second byte of a pair, and then has one more byte of room.
\<close>

inductive units :: "bytes \<Rightarrow> nat \<Rightarrow> nat \<Rightarrow> nat \<Rightarrow> bool" for m e where
  stop: "units m e e 0"
| plain: "p < e \<Longrightarrow> m ! p \<noteq> 34 \<Longrightarrow> m ! p \<noteq> 92 \<Longrightarrow> units m e (p + 1) u \<Longrightarrow> units m e p (Suc u)"
| pair: "p + 1 < e \<Longrightarrow> m ! p = 92 \<Longrightarrow> units m e (p + 2) u \<Longrightarrow> units m e p (Suc u)"

lemma string_end_units:
  "string_end m len p sk = Some (Some (e, sk')) \<Longrightarrow> len \<le> length m \<Longrightarrow>
     e < len \<and> m ! e = 34 \<and> p \<le> e \<and> sk \<le> sk' \<and> sk' - sk \<le> e - p \<and> units m e p (e - p - (sk' - sk))"
proof (induction m len p sk rule: string_end.induct)
  case (1 m len p sk)
  from "1.prems" have p: "p < len" by (subst (asm) string_end.simps) (auto split: if_splits)
  consider (quote) "m ! p = 34" | (esc) "m ! p = 92" | (other) "m ! p \<noteq> 34" "m ! p \<noteq> 92" by blast
  then show ?case
  proof cases
    case quote
    then show ?thesis using "1.prems" p
      by (subst (asm) string_end.simps) (auto intro: units.stop)
  next
    case esc
    then have nx: "string_end m len (p + 2) (sk + 1) = Some (Some (e, sk'))" "\<not> len \<le> p + 1"
      using "1.prems" p by (subst (asm) string_end.simps; auto split: if_splits)+
    have ih: "e < len \<and> m ! e = 34 \<and> p + 2 \<le> e \<and> sk + 1 \<le> sk' \<and> sk' - (sk + 1) \<le> e - (p + 2)
        \<and> units m e (p + 2) (e - (p + 2) - (sk' - (sk + 1)))"
      using "1.IH"(1) [of "m ! p"] nx esc p "1.prems"(2) by auto
    then have "e - p - (sk' - sk) = Suc (e - (p + 2) - (sk' - (sk + 1)))" by auto
    with ih esc show ?thesis by (auto intro!: units.pair)
  next
    case other
    then have nx: "string_end m len (p + 1) sk = Some (Some (e, sk'))"
      using "1.prems" p by (subst (asm) string_end.simps) (auto split: if_splits)
    have ih: "e < len \<and> m ! e = 34 \<and> p + 1 \<le> e \<and> sk \<le> sk' \<and> sk' - sk \<le> e - (p + 1)
        \<and> units m e (p + 1) (e - (p + 1) - (sk' - sk))"
      using "1.IH"(2) [of "m ! p"] nx other p "1.prems"(2) by auto
    then have "e - p - (sk' - sk) = Suc (e - (p + 1) - (sk' - sk))" by auto
    with ih other show ?thesis by (auto intro!: units.plain)
  qed
qed

lemma string_end_total: "len \<le> length m \<Longrightarrow> string_end m len p sk \<noteq> None"
proof (induction m len p sk rule: string_end.induct)
  case (1 m len p sk)
  then show ?case by (subst string_end.simps) auto
qed

lemma units_le: "units m e p u \<Longrightarrow> p \<le> e \<and> u \<le> e - p"
  by (induction rule: units.induct) auto

lemma units_jump:
  "units m e p u \<Longrightarrow> p \<le> q \<Longrightarrow> q \<le> e \<Longrightarrow>
     \<exists>v. v \<le> u \<and> (units m e q v \<and> q \<le> p + 2 * (u - v) \<or> units m e (q + 1) v \<and> q + 1 \<le> p + 2 * (u - v))"
proof (induction arbitrary: q rule: units.induct)
  case stop
  then show ?case by (auto intro!: exI [of _ 0] units.stop)
next
  case (plain p u)
  show ?case
  proof (cases "q = p")
    case True
    then show ?thesis using plain.hyps by (intro exI [of _ "Suc u"]) (auto intro: units.plain)
  next
    case False
    then obtain v where "v \<le> u" "units m e q v \<and> q \<le> p + 1 + 2 * (u - v)
        \<or> units m e (q + 1) v \<and> q + 1 \<le> p + 1 + 2 * (u - v)"
      using plain.IH [of q] plain.prems by auto
    then show ?thesis by (intro exI [of _ v]) auto
  qed
next
  case (pair p u)
  consider "q = p" | "q = p + 1" | "p + 2 \<le> q" using pair.prems by linarith
  then show ?case
  proof cases
    case 1
    then show ?thesis using pair.hyps by (intro exI [of _ "Suc u"]) (auto intro: units.pair)
  next
    case 2
    then show ?thesis using pair.hyps by (intro exI [of _ u]) auto
  next
    case 3
    then obtain v where "v \<le> u" "units m e q v \<and> q \<le> p + 2 + 2 * (u - v)
        \<or> units m e (q + 1) v \<and> q + 1 \<le> p + 2 + 2 * (u - v)"
      using pair.IH [of q] pair.prems by auto
    then show ?thesis by (intro exI [of _ v]) auto
  qed
qed

definition room :: "bytes \<Rightarrow> nat \<Rightarrow> nat \<Rightarrow> nat \<Rightarrow> nat \<Rightarrow> bool" where
  "room m cap e p n \<longleftrightarrow>
     (\<exists>u. units m e p u \<and> n + u \<le> cap) \<or> (\<exists>u. units m e (p + 1) u \<and> n + u + 1 \<le> cap)
     \<or> e \<le> p \<and> n \<le> cap"

text \<open>Skipping \<open>k\<close> input bytes for \<open>j\<close> output bytes keeps the room when \<open>2 * j \<le> k\<close> or so.\<close>

lemma room_jump:
  assumes "room m cap e p n" "p < e" "2 * j \<le> k" "p + k \<le> e \<or> k = 2 \<and> j = 1"
    and "j \<le> 1 \<or> 2 * j \<le> k"
  shows "n + j \<le> cap \<and> room m cap e (p + k) (n + j)"
proof -
  from assms(1,2) consider (on) u where "units m e p u" "n + u \<le> cap"
    | (off) u where "units m e (p + 1) u" "n + u + 1 \<le> cap"
    by (auto simp: room_def)
  then show ?thesis
  proof cases
    case on
    show ?thesis
    proof (cases "p + k \<le> e")
      case True
      obtain v where "v \<le> u" "units m e (p + k) v \<and> p + k \<le> p + 2 * (u - v)
          \<or> units m e (p + k + 1) v \<and> p + k + 1 \<le> p + 2 * (u - v)"
        using units_jump [OF on(1), of "p + k"] True by auto
      then show ?thesis using on(2) assms(3) by (auto simp: room_def)
    next
      case False
      have "0 < u" using on(1) assms(2) by (cases rule: units.cases) auto
      then show ?thesis using False on(2) assms(4) by (auto simp: room_def)
    qed
  next
    case off
    show ?thesis
    proof (cases "p + k \<le> e \<and> 0 < k")
      case True
      obtain v where v: "v \<le> u" "units m e (p + k) v \<and> p + k \<le> p + 1 + 2 * (u - v)
          \<or> units m e (p + k + 1) v \<and> p + k + 1 \<le> p + 1 + 2 * (u - v)"
        using units_jump [OF off(1), of "p + k"] True by auto
      then show ?thesis using off(2) assms(3) by (auto simp: room_def)
    next
      case False
      then show ?thesis using off assms(3,4) by (auto simp: room_def)
    qed
  qed
qed

lemma room_plain:
  assumes "room m cap e p n" "p < e" "m ! p \<noteq> 92"
  shows "n + 1 \<le> cap \<and> room m cap e (p + 1) (n + 1)"
proof -
  from assms(1,2) consider (on) u where "units m e p u" "n + u \<le> cap"
    | (off) u where "units m e (p + 1) u" "n + u + 1 \<le> cap"
    by (auto simp: room_def)
  then show ?thesis
  proof cases
    case on
    from on(1) assms(2,3) obtain v where "u = Suc v" "units m e (p + 1) v"
      by (cases rule: units.cases) auto
    then show ?thesis using on(2) by (auto simp: room_def)
  next
    case off
    then show ?thesis by (auto simp: room_def)
  qed
qed

lemma string_decode_fits:
  "room m lim e p (length out) \<Longrightarrow> lim \<le> cap \<Longrightarrow> e < length m \<Longrightarrow>
     \<exists>q r. string_decode m cap e p out = Some (q, r) \<and> (\<forall>bs. r = Some bs \<longrightarrow> length bs \<le> lim)
       \<and> (r = None \<longrightarrow> q < e)"
proof (induction m cap e p out rule: string_decode.induct)
  case (1 m cap e p out)
  note R = "1.prems"(1) and lim = "1.prems"(2) and e = "1.prems"(3)
  show ?case
  proof (cases "p < e")
    case False
    have "length out \<le> lim" using R by (auto simp: room_def)
    then show ?thesis using False by (subst string_decode.simps) simp
  next
    case p: True
    show ?thesis
    proof (cases "m ! p = 92")
      case False
      note r = room_plain [OF R p False]
      then show ?thesis
        using "1.IH"(1) [OF p, of "m ! p" "out @ [m ! p]"] False p e lim
        by (subst string_decode.simps) (simp add: emit_def)
    next
      case esc: True
      show ?thesis
      proof (cases "m ! (p + 1) = 117")
        case True
        obtain n bs where n: "utf16_literal_to_utf8 m p e = Some (n, bs)"
            "n = 0 \<and> bs = [] \<or> n = 6 \<and> length bs \<le> 3 \<and> p + 6 \<le> e \<or> n = 12 \<and> length bs \<le> 4 \<and> p + 12 \<le> e"
          using utf16_literal_cases [of e m p] e by auto
        show ?thesis
        proof (cases "n = 0")
          case True
          then have "length out \<le> lim" using R by (auto simp: room_def)
          then show ?thesis
            using True n esc \<open>m ! (p + 1) = 117\<close> p e lim
            by (subst string_decode.simps) (simp add: emit_def)
        next
          case False
          then have r: "length out + length bs \<le> lim \<and> room m lim e (p + n) (length out + length bs)"
            using n(2) by (intro room_jump [OF R p]) auto
          then show ?thesis
            using "1.IH"(2) [OF p, of "m ! p" "m ! (p + 1)" "(n, bs)" n bs "out @ bs"] False n esc True p e lim
            by (subst string_decode.simps) (simp add: emit_def)
        qed
      next
        case False
        show ?thesis
        proof (cases "escape (m ! (p + 1))")
          case None
          then show ?thesis using esc False p e by (subst string_decode.simps) simp
        next
          case (Some x)
          have r: "length out + 1 \<le> lim \<and> room m lim e (p + 2) (length out + 1)"
            by (rule room_jump [OF R p]) auto
          then show ?thesis
            using "1.IH"(3) [OF p, of "m ! p" "m ! (p + 1)" x "out @ [x]"] Some esc False p e lim
            by (subst string_decode.simps) (simp add: emit_def)
        qed
      qed
    qed
  qed
qed

section \<open>Numbers\<close>

lemma number_copy_total:
  "len \<le> length m \<Longrightarrow> \<exists>s. number_copy m len p n = Some s \<and> p + length s \<le> max p len \<and> length s \<le> n"
proof (induction n arbitrary: p)
  case (Suc n)
  then show ?case using Suc.IH [of "p + 1"] by (auto simp: run_simps)
qed simp

lemma int_of_double_strtod: "\<exists>i. int_of_double (fst (strtod s)) = Some i \<and> - 2147483648 \<le> i \<and> i \<le> 2147483647"
proof -
  have "fst (strtod s) \<noteq> NaN"
    by (auto simp: strtod_def double_of_dec_def double_of_frac_def Let_def split: prod.splits list.splits if_splits)
  then show ?thesis by (cases "fst (strtod s)") (auto simp: Let_def)
qed

lemma sign_of_le: "snd (sign_of s) \<le> length s"
  by (cases s) (auto simp: sign_of_def)

lemma takeWhile_drop_le: "k \<le> length s \<Longrightarrow> k + length (takeWhile P (drop k s)) \<le> length s"
  using length_takeWhile_le [of P "drop k s"] by simp

lemma exponent_part_le: "snd (exponent_part s) \<le> length s"
proof (cases s)
  case (Cons c cs)
  obtain neg n where n: "sign_of cs = (neg, n)" by fastforce
  then have "n + length (takeWhile is_digit (drop n cs)) \<le> length cs"
    using sign_of_le [of cs] by (intro takeWhile_drop_le) simp
  then show ?thesis using Cons n by (auto simp: exponent_part_def Let_def)
qed (simp add: exponent_part_def)

lemma strtod_used: "snd (strtod s) \<le> length s"
proof -
  obtain neg n where n: "sign_of s = (neg, n)" by fastforce
  define ip where "ip = takeWhile is_digit (drop n s)"
  define t where "t = drop (n + length ip) s"
  define fp where "fp = (case t of [] \<Rightarrow> [] | c # cs \<Rightarrow> if c = 46 then takeWhile is_digit cs else [])"
  define dot :: nat where "dot = (case t of [] \<Rightarrow> 0 | c # cs \<Rightarrow> if c = 46 then 1 else 0)"
  obtain x k where k: "exponent_part (drop (n + length ip + dot + length fp) s) = (x, k)" by fastforce
  have ip: "n + length ip \<le> length s"
    using sign_of_le [of s] n unfolding ip_def by (intro takeWhile_drop_le) simp
  have "dot + length fp \<le> length t"
    by (cases t) (auto simp: dot_def fp_def intro: length_takeWhile_le)
  then have u: "n + length ip + dot + length fp \<le> length s" using ip by (simp add: t_def)
  have "k \<le> length (drop (n + length ip + dot + length fp) s)"
    using exponent_part_le [of "drop (n + length ip + dot + length fp) s"] k by simp
  then have "n + length ip + dot + length fp + k \<le> length s" using u by simp
  then show ?thesis
    using n k by (simp add: strtod_def Let_def ip_def [symmetric] t_def [symmetric] fp_def [symmetric] dot_def [symmetric])
qed

end
