(* ===== verification/Cjson_Refine.thy ===== *)
theory Cjson_Refine
  imports Cjson_Tree Cjson_Text_Safety
begin

text \<open>
  A reference parser from text to trees, without heap, and the proof that the parser of
  \<^verbatim>\<open>Cjson_Heap\<close> implements it: on a text that ends with a null byte it always returns, it builds
  on the heap the tree the reference parser reads, it fails only when the reference parser fails
  or an allocation failed, and after a failure the heap is what it was.
\<close>

section \<open>The reference parser\<close>

type_synonym ref_parser = "parse_buffer \<Rightarrow> (jtree \<times> parse_buffer) option"

definition leaf :: "int \<Rightarrow> int \<Rightarrow> double \<Rightarrow> bytes option \<Rightarrow> jtree" where
  "leaf ty i d s = JT ty i d s None []"

abbreviation (input) zero_double :: double where "zero_double \<equiv> Fin False 0 0"

fun set_name :: "bytes option \<Rightarrow> jtree \<Rightarrow> jtree" where
  "set_name nm (JT ty i d s _ ks) = JT ty i d s nm ks"

definition ref_number :: ref_parser where
  "ref_number b =
     do {
       s \<leftarrow> number_copy (content b) (buf_length b) (offset b) 63;
       let (d, used) = strtod s;
       if used = 0 then None
       else do { i \<leftarrow> int_of_double d; Some (leaf 8 i d None, b\<lparr>offset := offset b + used\<rparr>) }
     }"

definition ref_string :: "parse_buffer \<Rightarrow> (bytes \<times> parse_buffer) option" where
  "ref_string b =
     do {
       c \<leftarrow> byte_at (content b) (offset b);
       if c \<noteq> 34 then None
       else do {
         r \<leftarrow> string_end (content b) (buf_length b) (offset b + 1) 0;
         (e, skipped) \<leftarrow> r;
         (p, d) \<leftarrow> string_decode (content b) (e - offset b - skipped + 1) e (offset b + 1) [];
         out \<leftarrow> d;
         Some (out @ [0], b\<lparr>offset := e + 1\<rparr>)
       }
     }"

definition ref_string_value :: ref_parser where
  "ref_string_value b = map_option (\<lambda>(s, b'). (leaf 16 0 zero_double (Some s), b')) (ref_string b)"

primrec ref_elems :: "ref_parser \<Rightarrow> nat \<Rightarrow> parse_buffer \<Rightarrow> (jtree list \<times> parse_buffer) option" where
  "ref_elems rv 0 b = None"
| "ref_elems rv (Suc f) b =
     do {
       b1 \<leftarrow> buffer_skip_whitespace (b\<lparr>offset := offset b + 1\<rparr>);
       (t, b2) \<leftarrow> rv b1;
       b3 \<leftarrow> buffer_skip_whitespace b2;
       c \<leftarrow> peek b3;
       if c = Some 44 then do { (ts, b4) \<leftarrow> ref_elems rv f b3; Some (t # ts, b4) }
       else if c = Some 93 then Some ([t], b3) else None
     }"

primrec ref_members :: "ref_parser \<Rightarrow> nat \<Rightarrow> parse_buffer \<Rightarrow> (jtree list \<times> parse_buffer) option" where
  "ref_members rv 0 b = None"
| "ref_members rv (Suc f) b =
     do {
       b1 \<leftarrow> buffer_skip_whitespace (b\<lparr>offset := offset b + 1\<rparr>);
       (nm, b2) \<leftarrow> ref_string b1;
       b3 \<leftarrow> buffer_skip_whitespace b2;
       c \<leftarrow> peek b3;
       if c \<noteq> Some 58 then None
       else do {
         b4 \<leftarrow> buffer_skip_whitespace (b3\<lparr>offset := offset b3 + 1\<rparr>);
         (t, b5) \<leftarrow> rv b4;
         b6 \<leftarrow> buffer_skip_whitespace b5;
         c \<leftarrow> peek b6;
         if c = Some 44 then do { (ts, b7) \<leftarrow> ref_members rv f b6; Some (set_name (Some nm) t # ts, b7) }
         else if c = Some 125 then Some ([set_name (Some nm) t], b6) else None
       }
     }"

text \<open>An array or an object: \<open>close\<close> is its last character, \<open>parts\<close> parses the inside.\<close>

definition ref_container ::
  "int \<Rightarrow> byte \<Rightarrow> (parse_buffer \<Rightarrow> (jtree list \<times> parse_buffer) option) \<Rightarrow> ref_parser"
where
  "ref_container ty close parts b =
     (if depth b \<ge> CJSON_NESTING_LIMIT then None
      else do {
        b2 \<leftarrow> buffer_skip_whitespace (b\<lparr>depth := depth b + 1, offset := offset b + 1\<rparr>);
        c \<leftarrow> peek b2;
        (ts, b3) \<leftarrow> (if c = Some close then Some ([], b2)
                  else if c = None then None
                  else parts (b2\<lparr>offset := offset b2 - 1\<rparr>));
        Some (JT ty 0 zero_double None None ts, b3\<lparr>depth := depth b3 - 1, offset := offset b3 + 1\<rparr>)
      })"

primrec ref_value :: "nat \<Rightarrow> ref_parser" where
  "ref_value 0 b = None"
| "ref_value (Suc f) b =
     do {
       is_null \<leftarrow> keyword b (ascii ''null'');
       if is_null then Some (leaf 4 0 zero_double None, b\<lparr>offset := offset b + 4\<rparr>)
       else do {
         is_false \<leftarrow> keyword b (ascii ''false'');
         if is_false then Some (leaf 1 0 zero_double None, b\<lparr>offset := offset b + 5\<rparr>)
         else do {
           is_true \<leftarrow> keyword b (ascii ''true'');
           if is_true then Some (leaf 2 1 zero_double None, b\<lparr>offset := offset b + 4\<rparr>)
           else do {
             c \<leftarrow> peek b;
             case c of
               None \<Rightarrow> None
             | Some x \<Rightarrow>
                 if x = 34 then ref_string_value b
                 else if x = 45 \<or> (48 \<le> x \<and> x \<le> 57) then ref_number b
                 else if x = 91 then ref_container 32 93 (ref_elems (ref_value f) f) b
                 else if x = 123 then ref_container 64 125 (ref_members (ref_value f) f) b
                 else None
           }
         }
       }
     }"

section \<open>What a parsing function does to the heap\<close>

definition terminated :: "parse_buffer \<Rightarrow> bool" where
  "terminated b \<longleftrightarrow> buffer_ok b \<and> 0 < buf_length b \<and> content b ! (buf_length b - 1) = 0"

definition same_text :: "parse_buffer \<Rightarrow> parse_buffer \<Rightarrow> bool" where
  "same_text b b' \<longleftrightarrow> content b' = content b \<and> buf_length b' = buf_length b"

lemma same_text_refl [simp]: "same_text b b" "same_text b (b\<lparr>offset := p\<rparr>)" "same_text b (b\<lparr>depth := d\<rparr>)"
  by (simp_all add: same_text_def)

lemma same_text_trans: "same_text a b \<Longrightarrow> same_text b c \<Longrightarrow> same_text a c"
  by (simp add: same_text_def)

lemma same_text_terminated: "same_text b b' \<Longrightarrow> terminated b \<Longrightarrow> terminated b'"
  by (simp add: same_text_def terminated_def buffer_ok_def)

definition heap_step :: "heap \<Rightarrow> heap \<Rightarrow> bool" where
  "heap_step h h' \<longleftrightarrow> heap_wf h' \<and> brk h \<le> brk h' \<and> avail h' = avail h \<and> global_error h' = global_error h"

definition oom :: "heap \<Rightarrow> heap \<Rightarrow> bool" where
  "oom h h' \<longleftrightarrow> (\<exists>i. brk h \<le> i \<and> i < brk h' \<and> \<not> avail h i)"

lemma heap_step_refl: "heap_wf h \<Longrightarrow> heap_step h h"
  by (simp add: heap_step_def)

lemma heap_step_trans: "heap_step h h1 \<Longrightarrow> heap_step h1 h2 \<Longrightarrow> heap_step h h2"
  by (simp add: heap_step_def)

lemma oom_step:
  "heap_step h h1 \<Longrightarrow> oom h1 h2 \<Longrightarrow> oom h h2"
  "oom h h1 \<Longrightarrow> heap_step h1 h2 \<Longrightarrow> oom h h2"
  by (auto simp: oom_def heap_step_def intro: order_trans order_less_le_trans)

text \<open>Only the new addresses \<open>F\<close> and the node \<open>p\<close> have changed.\<close>

definition framed :: "nat list \<Rightarrow> nat \<Rightarrow> heap \<Rightarrow> heap \<Rightarrow> bool" where
  "framed F p h h' \<longleftrightarrow>
     (\<forall>a. a \<notin> set F \<and> a \<noteq> p \<longrightarrow> nodes h' a = nodes h a) \<and> (\<forall>a. a \<notin> set F \<longrightarrow> strs h' a = strs h a)
     \<and> set F \<subseteq> {brk h<..brk h'}"

definition blank_node :: "cJSON \<Rightarrow> bool" where
  "blank_node n \<longleftrightarrow> c_child n = 0 \<and> c_valuestring n = 0 \<and> c_valueint n = 0 \<and> c_valuedouble n = zero_double"

definition no_flags :: "int \<Rightarrow> bool" where
  "no_flags t \<longleftrightarrow> \<not> flag t cJSON_IsReference \<and> \<not> flag t cJSON_StringIsConst"

lemma no_flags_types [simp]:
  "no_flags 0" "no_flags 1" "no_flags 2" "no_flags 4" "no_flags 8" "no_flags 16" "no_flags 32" "no_flags 64"
  by (simp_all add: no_flags_def flag_def)

definition filled :: "heap \<Rightarrow> nat \<Rightarrow> cJSON \<Rightarrow> nat list \<Rightarrow> jtree \<Rightarrow> bool" where
  "filled h p n F t \<longleftrightarrow>
     (\<exists>n' Fv Fk kps. F = Fv @ Fk \<and> distinct F \<and> nodes h p = Some n'
        \<and> c_next n' = c_next n \<and> c_prev n' = c_prev n \<and> c_string n' = c_string n
        \<and> c_type n' = jt_type t \<and> c_valueint n' = jt_int t \<and> c_valuedouble n' = jt_double t
        \<and> no_flags (jt_type t) \<and> own h (c_valuestring n') Fv (jt_string t)
        \<and> chain h kps 0 Fk (jt_kids t) \<and> c_child n' = hd (kps @ [0]) \<and> prevs h kps)"

definition value_result ::
  "ref_parser \<Rightarrow> nat \<Rightarrow> cJSON \<Rightarrow> parse_buffer \<Rightarrow> heap \<Rightarrow> bool \<times> parse_buffer \<times> heap \<Rightarrow> bool"
where
  "value_result ref p n b h r \<longleftrightarrow>
     (case r of (ok, b', h') \<Rightarrow>
        heap_step h h' \<and> same_text b b'
        \<and> (if ok then \<exists>t F. ref b = Some (t, b') \<and> jt_name t = None \<and> offset b < offset b'
              \<and> offset b' \<le> buf_length b \<and> depth b' = depth b \<and> framed F p h h' \<and> filled h' p n F t
           else nodes h' = nodes h \<and> strs h' = strs h \<and> (ref b = None \<or> oom h h')))"

definition value_spec :: "value_parser \<Rightarrow> ref_parser \<Rightarrow> nat \<Rightarrow> bool" where
  "value_spec pv ref k \<longleftrightarrow>
     (\<forall>p n b h. heap_wf h \<and> nodes h p = Some n \<and> blank_node n \<and> terminated b \<and> buf_length b - offset b < k \<longrightarrow>
        (\<exists>r. pv p b h = Some r \<and> value_result ref p n b h r))"

section \<open>Scalars\<close>

text \<open>A result that changes the node only.\<close>

lemma scalar_result:
  assumes "heap_wf h" "nodes h p = Some n" "blank_node n"
    and "n' = n\<lparr>c_valuedouble := d, c_valueint := i, c_type := ty\<rparr>" "no_flags ty"
    and "ref b = Some (leaf ty i d None, b\<lparr>offset := q\<rparr>)" "offset b < q" "q \<le> buf_length b"
  shows "value_result ref p n b h (True, b\<lparr>offset := q\<rparr>, h\<lparr>nodes := (nodes h)(p \<mapsto> n')\<rparr>)"
proof -
  have "filled (h\<lparr>nodes := (nodes h)(p \<mapsto> n')\<rparr>) p n [] (leaf ty i d None)"
    using assms unfolding filled_def
    by (intro exI [of _ n'] exI [of _ "[]"]) (simp add: blank_node_def leaf_def own_def prevs_def)
  then show ?thesis
    using assms heap_wf_upd [OF assms(1,2)]
    by (auto simp: value_result_def heap_step_def framed_def leaf_def intro!: exI [of _ "[]"])
qed

lemma parse_number_result:
  assumes "heap_wf h" "nodes h p = Some n" "blank_node n" "terminated b"
  shows "\<exists>r. parse_number p b h = Some r \<and> value_result ref_number p n b h r"
proof -
  obtain s where s: "number_copy (content b) (buf_length b) (offset b) 63 = Some s"
      "offset b + length s \<le> max (offset b) (buf_length b)"
    using number_copy_total [of "buf_length b" "content b" "offset b" 63] assms(4)
    by (auto simp: terminated_def buffer_ok_def)
  obtain d used where d: "strtod s = (d, used)" by fastforce
  show ?thesis
  proof (cases "used = 0")
    case True
    then show ?thesis
      using s d assms(1) by (auto simp: parse_number_def ref_number_def value_result_def heap_step_refl)
  next
    case False
    obtain i where i: "int_of_double d = Some i" using int_of_double_strtod [of s] d by auto
    have "used \<le> length s" using strtod_used [of s] d by simp
    then have "offset b + used \<le> buf_length b" "offset b < offset b + used" using False s(2) by auto
    moreover have "parse_number p b h = Some (True, b\<lparr>offset := offset b + used\<rparr>,
        h\<lparr>nodes := (nodes h)(p \<mapsto> n\<lparr>c_valuedouble := d, c_valueint := i, c_type := 8\<rparr>)\<rparr>)"
      using s(1) d i False assms(2) by (simp add: parse_number_def upd_node_def)
    moreover have "ref_number b = Some (leaf 8 i d None, b\<lparr>offset := offset b + used\<rparr>)"
      using s(1) d i False by (simp add: ref_number_def)
    ultimately show ?thesis
      using scalar_result [OF assms(1-3) refl, of 8 ref_number b i d "offset b + used"] by simp
  qed
qed

lemma allocate_step:
  assumes "heap_wf h" "allocate h = (outp, h1)"
  shows "heap_step h h1" "outp = 0 \<Longrightarrow> nodes h1 = nodes h \<and> strs h1 = strs h \<and> oom h h1"
    "outp \<noteq> 0 \<Longrightarrow> outp = Suc (brk h) \<and> brk h1 = Suc (brk h) \<and> nodes h1 = nodes h \<and> strs h1 = (strs h)(outp \<mapsto> [])
       \<and> nodes h outp = None \<and> strs h outp = None"
proof -
  have fresh: "nodes h (Suc (brk h)) = None" "strs h (Suc (brk h)) = None"
    using heap_wf_fresh [OF assms(1)] by auto
  have le: "\<And>a n. nodes h a = Some n \<Longrightarrow> 0 < a \<and> a \<le> Suc (brk h) \<and> strs h a = None"
      "\<And>a s. strs h a = Some s \<Longrightarrow> 0 < a \<and> a \<le> Suc (brk h)"
    using heap_wf_node [OF assms(1)] heap_wf_str [OF assms(1)] le_SucI by blast+
  show "heap_step h h1" using assms(2) fresh
    by (auto simp: allocate_def heap_step_def heap_wf_def dest: le split: if_splits)
  show "outp = 0 \<Longrightarrow> nodes h1 = nodes h \<and> strs h1 = strs h \<and> oom h h1"
    using assms by (auto simp: allocate_def oom_def split: if_splits)
  show "outp \<noteq> 0 \<Longrightarrow> outp = Suc (brk h) \<and> brk h1 = Suc (brk h) \<and> nodes h1 = nodes h \<and> strs h1 = (strs h)(outp \<mapsto> [])
       \<and> nodes h outp = None \<and> strs h outp = None"
    using assms fresh by (auto simp: allocate_def split: if_splits)
qed

lemma parse_string_result:
  assumes wf: "heap_wf h" and n: "nodes h p = Some n" and bl: "blank_node n" and b: "terminated b"
    and o: "offset b < buf_length b"
  shows "\<exists>r. parse_string p b h = Some r \<and> value_result ref_string_value p n b h r"
proof -
  let ?m = "content b" and ?s = "offset b + 1"
  have len: "buf_length b \<le> length ?m" using b by (simp add: terminated_def buffer_ok_def)
  have o': "offset b < length ?m" using o len by simp
  have failed: "value_result ref_string_value p n b h (False, b\<lparr>offset := q\<rparr>, h1)"
    if "heap_step h h1" "nodes h1 = nodes h" "strs h1 = strs h" "ref_string b = None \<or> oom h h1" for q h1
    using that by (auto simp: value_result_def ref_string_value_def)
  obtain r where r: "string_end ?m (buf_length b) ?s 0 = Some r"
    using string_end_total [OF len] by fastforce
  consider (other) "?m ! offset b \<noteq> 34" | (unclosed) "?m ! offset b = 34" "r = None"
    | (closed) e k where "?m ! offset b = 34" "r = Some (e, k)" by (cases r) auto
  then show ?thesis
  proof cases
    case other
    then show ?thesis
      using o' failed [OF heap_step_refl [OF wf]] by (simp add: parse_string_def ref_string_def)
  next
    case unclosed
    then show ?thesis
      using o' r failed [OF heap_step_refl [OF wf]] by (simp add: parse_string_def ref_string_def)
  next
    case closed
    have r': "string_end ?m (buf_length b) ?s 0 = Some (Some (e, k))" using r closed by simp
    let ?cap = "e - offset b - k + 1"
    obtain outp h1 where al: "allocate h = (outp, h1)" by fastforce
    note st = allocate_step [OF wf al]
    have u: "e < buf_length b" "?s \<le> e" "k \<le> e - ?s" "units ?m e ?s (e - ?s - k)"
      using string_end_units [OF r' len] by auto
    have "room ?m (e - ?s - k) e ?s (length [])" using u(4) by (auto simp: room_def)
    moreover have "e - ?s - k \<le> ?cap" by simp
    ultimately obtain q d where d: "string_decode ?m ?cap e ?s [] = Some (q, d)"
        "\<forall>bs. d = Some bs \<longrightarrow> length bs \<le> e - ?s - k"
      using string_decode_fits [of ?m "e - ?s - k" e ?s "[]" ?cap] u(1) len by auto
    show ?thesis
    proof (cases "outp = 0")
      case True
      then show ?thesis
        using o' r' closed al failed [OF st(1), of ?s] st(2) by (simp add: parse_string_def)
    next
      case ok: False
      note f = st(3) [OF ok]
      show ?thesis
      proof (cases d)
        case None
        let ?h2 = "h1\<lparr>strs := (strs h1)(outp := None)\<rparr>"
        have eq: "nodes ?h2 = nodes h" "strs ?h2 = strs h" using f by auto
        moreover have "heap_step h ?h2"
          using st(1) f by (auto simp: heap_step_def heap_wf_def)
        moreover have "ref_string b = None" using o' r' closed d None by (simp add: ref_string_def)
        moreover have "free_str outp h1 = Some ?h2" using f by (simp add: free_str_def)
        ultimately show ?thesis
          using o' r' closed al ok d None failed [of ?h2 q] by (simp add: parse_string_def)
      next
        case (Some out)
        let ?z = "out @ [0]"
        let ?n = "n\<lparr>c_type := 16, c_valuestring := outp\<rparr>"
        let ?h2 = "h1\<lparr>strs := (strs h1)(outp \<mapsto> ?z), nodes := (nodes h1)(p \<mapsto> ?n)\<rparr>"
        have np: "p \<noteq> outp" "nodes h1 p = Some n" using n f by auto
        have z: "emit ?cap out [0] = Some ?z" using d(2) Some u by (auto simp: emit_def)
        have run: "parse_string p b h = Some (True, b\<lparr>offset := e + 1\<rparr>, ?h2)"
          using o' r' closed al ok d(1) Some z np by (simp add: parse_string_def upd_node_def)
        have ref: "ref_string_value b = Some (leaf 16 0 zero_double (Some ?z), b\<lparr>offset := e + 1\<rparr>)"
          using o' r' closed d(1) Some by (simp add: ref_string_value_def ref_string_def)
        have fill: "filled ?h2 p n [outp] (leaf 16 0 zero_double (Some ?z))"
          using bl f np unfolding filled_def
          by (intro exI [of _ ?n] exI [of _ "[outp]"] exI [of _ "[]"]) (simp add: blank_node_def leaf_def own_def prevs_def)
        have "heap_step h ?h2"
          using st(1) f np n by (auto simp: heap_step_def heap_wf_def)
        moreover have "framed [outp] p h ?h2"
          using f np by (auto simp: framed_def)
        ultimately show ?thesis
          using run ref fill u(1,2) by (auto simp: value_result_def leaf_def)
      qed
    qed
  qed
qed

section \<open>The list under construction\<close>

definition links :: "heap \<Rightarrow> nat list \<Rightarrow> bool" where
  "links h ps \<longleftrightarrow> (\<forall>i. Suc i < length ps \<longrightarrow> (\<exists>n. nodes h (ps ! Suc i) = Some n \<and> c_prev n = ps ! i))"

lemma links_frame: "links h ps \<Longrightarrow> same_on A h h' \<Longrightarrow> set ps \<subseteq> A \<Longrightarrow> links h' ps"
  unfolding links_def by (metis nth_mem same_onD subsetD)

lemma links_snoc:
  assumes "links h ps" "ps \<noteq> [] \<Longrightarrow> \<exists>n. nodes h p = Some n \<and> c_prev n = last ps"
  shows "links h (ps @ [p])"
  unfolding links_def
proof (intro allI impI)
  fix i assume i: "Suc i < length (ps @ [p])"
  show "\<exists>n. nodes h ((ps @ [p]) ! Suc i) = Some n \<and> c_prev n = (ps @ [p]) ! i"
  proof (cases "Suc i < length ps")
    case True
    then show ?thesis using assms(1) by (simp add: links_def nth_append)
  next
    case False
    then have l: "length ps = Suc i" using i by simp
    then have "ps \<noteq> []" by auto
    moreover have "last ps = ps ! i" using l \<open>ps \<noteq> []\<close> by (simp add: last_conv_nth)
    ultimately show ?thesis using assms(2) l by (simp add: nth_append)
  qed
qed

text \<open>
  \<open>built h0 h head cur ts F\<close>: since the heap \<open>h0\<close> the list from \<open>head\<close> to \<open>cur\<close> with the trees
  \<open>ts\<close> was built at the addresses \<open>F\<close> and nothing else changed. In \<open>opened\<close> its last node \<open>new\<close> is
  still without a value; it may have a name already.
\<close>

definition built :: "heap \<Rightarrow> heap \<Rightarrow> nat \<Rightarrow> nat \<Rightarrow> jtree list \<Rightarrow> nat list \<Rightarrow> bool" where
  "built h0 h head cur ts F \<longleftrightarrow>
     distinct F \<and> framed F 0 h0 h \<and> heap_step h0 h
     \<and> (head = 0 \<and> ts = [] \<and> F = []
        \<or> (\<exists>ps t0 ts0 F0 Fc n. chain h ps cur F0 ts0 \<and> item h cur Fc t0 \<and> nodes h cur = Some n \<and> c_next n = 0
             \<and> head = hd (ps @ [cur]) \<and> links h (ps @ [cur]) \<and> ts = ts0 @ [t0] \<and> F = F0 @ Fc))"

definition opened ::
  "heap \<Rightarrow> heap \<Rightarrow> nat \<Rightarrow> nat \<Rightarrow> jtree list \<Rightarrow> nat list \<Rightarrow> nat list \<Rightarrow> bytes option \<Rightarrow> bool"
where
  "opened h0 h head new ts F Fs nm \<longleftrightarrow>
     distinct (F @ new # Fs) \<and> framed (F @ new # Fs) 0 h0 h \<and> heap_step h0 h
     \<and> (\<exists>ps n. chain h ps new F ts \<and> nodes h new = Some n \<and> c_next n = 0 \<and> blank_node n \<and> no_flags (c_type n)
          \<and> own h (c_string n) Fs nm \<and> head = hd (ps @ [new]) \<and> links h (ps @ [new]))"

lemma New_Item_step:
  assumes "heap_wf h" "cJSON_New_Item h = (new, h1)"
  shows "heap_step h h1" "new = 0 \<Longrightarrow> nodes h1 = nodes h \<and> strs h1 = strs h \<and> oom h h1"
    "new \<noteq> 0 \<Longrightarrow> new = Suc (brk h) \<and> brk h1 = Suc (brk h) \<and> nodes h1 = (nodes h)(new \<mapsto> zero_node)
       \<and> strs h1 = strs h \<and> nodes h new = None \<and> strs h new = None"
proof -
  have fresh: "nodes h (Suc (brk h)) = None" "strs h (Suc (brk h)) = None"
    using heap_wf_fresh [OF assms(1)] by auto
  have le: "\<And>a n. nodes h a = Some n \<Longrightarrow> 0 < a \<and> a \<le> Suc (brk h) \<and> strs h a = None"
      "\<And>a s. strs h a = Some s \<Longrightarrow> 0 < a \<and> a \<le> Suc (brk h)"
    using heap_wf_node [OF assms(1)] heap_wf_str [OF assms(1)] le_SucI by blast+
  show "heap_step h h1" using assms(2) fresh
    by (auto simp: cJSON_New_Item_def heap_step_def heap_wf_def dest: le split: if_splits)
  show "new = 0 \<Longrightarrow> nodes h1 = nodes h \<and> strs h1 = strs h \<and> oom h h1"
    using assms by (auto simp: cJSON_New_Item_def oom_def split: if_splits)
  show "new \<noteq> 0 \<Longrightarrow> new = Suc (brk h) \<and> brk h1 = Suc (brk h) \<and> nodes h1 = (nodes h)(new \<mapsto> zero_node)
       \<and> strs h1 = strs h \<and> nodes h new = None \<and> strs h new = None"
    using assms fresh by (auto simp: cJSON_New_Item_def split: if_splits)
qed

text \<open>Nothing changed but the allocation counter.\<close>

lemma framed_unchanged:
  assumes "framed F p h0 h" "nodes h' = nodes h" "strs h' = strs h" "brk h \<le> brk h'"
  shows "framed F p h0 h'"
  using assms by (auto simp: framed_def intro: order_trans)

lemma same_on_unchanged: "nodes h' = nodes h \<Longrightarrow> strs h' = strs h \<Longrightarrow> same_on A h h'"
  by (simp add: same_on_def)

lemma built_unchanged:
  assumes "built h0 h head cur ts F" "heap_step h h'" "nodes h' = nodes h" "strs h' = strs h"
  shows "built h0 h' head cur ts F"
proof -
  have s: "same_on A h h'" for A using assms by (simp add: same_on_unchanged)
  have "distinct F" "framed F 0 h0 h'" "heap_step h0 h'"
    using assms framed_unchanged heap_step_trans by (auto simp: built_def heap_step_def)
  moreover from assms(1) consider "head = 0 \<and> ts = [] \<and> F = []"
    | ps t0 ts0 F0 Fc n where "chain h ps cur F0 ts0" "item h cur Fc t0" "nodes h cur = Some n" "c_next n = 0"
        "head = hd (ps @ [cur])" "links h (ps @ [cur])" "ts = ts0 @ [t0]" "F = F0 @ Fc"
    unfolding built_def by blast
  then have "head = 0 \<and> ts = [] \<and> F = []
      \<or> (\<exists>ps t0 ts0 F0 Fc n. chain h' ps cur F0 ts0 \<and> item h' cur Fc t0 \<and> nodes h' cur = Some n \<and> c_next n = 0
             \<and> head = hd (ps @ [cur]) \<and> links h' (ps @ [cur]) \<and> ts = ts0 @ [t0] \<and> F = F0 @ Fc)"
  proof cases
    case 2
    then show ?thesis
      using chain_frame [OF 2(1) s] item_frame [OF 2(2) s] links_frame [OF 2(6) s subset_UNIV] assms(3)
      by metis
  qed simp
  ultimately show ?thesis by (simp add: built_def)
qed

lemma opened_unchanged:
  assumes "opened h0 h head new ts F Fs nm" "heap_step h h'" "nodes h' = nodes h" "strs h' = strs h"
  shows "opened h0 h' head new ts F Fs nm"
proof -
  have s: "same_on A h h'" for A using assms by (simp add: same_on_unchanged)
  obtain ps n where o: "chain h ps new F ts" "nodes h new = Some n" "c_next n = 0" "blank_node n"
      "no_flags (c_type n)" "own h (c_string n) Fs nm" "head = hd (ps @ [new])" "links h (ps @ [new])"
    using assms(1) unfolding opened_def by blast
  have "distinct (F @ new # Fs)" "framed (F @ new # Fs) 0 h0 h'" "heap_step h0 h'"
    using assms framed_unchanged heap_step_trans by (auto simp: opened_def heap_step_def)
  then show ?thesis
    using o chain_frame [OF o(1) s] own_frame [OF o(6) s] links_frame [OF o(8) s subset_UNIV] assms(3)
    unfolding opened_def by metis
qed

lemma opened_node:
  "opened h0 h head new ts F Fs nm \<Longrightarrow>
     \<exists>n. nodes h new = Some n \<and> blank_node n \<and> heap_wf h \<and> heap_step h0 h"
  unfolding opened_def heap_step_def by blast

text \<open>Giving up on the last node: it still counts as an item, of the type it has.\<close>

lemma opened_built:
  assumes "opened h0 h head new ts F Fs nm"
  shows "\<exists>t. built h0 h head new (ts @ [t]) (F @ new # Fs)"
proof -
  obtain ps n where o: "chain h ps new F ts" "nodes h new = Some n" "c_next n = 0" "blank_node n"
      "no_flags (c_type n)" "own h (c_string n) Fs nm" "head = hd (ps @ [new])" "links h (ps @ [new])"
    using assms unfolding opened_def by blast
  have wf: "heap_wf h" using assms by (simp add: opened_def heap_step_def)
  have "item h new (new # [] @ Fs @ []) (JT (c_type n) (c_valueint n) (c_valuedouble n) None nm [])"
    by (rule node [where kps = "[]" and n = n])
       (use o heap_wf_node [OF wf o(2)] in \<open>auto simp: blank_node_def own_def no_flags_def prevs_def\<close>)
  then show ?thesis
    using o assms unfolding built_def opened_def by fastforce
qed

lemma built_head: "built h0 h head cur ts F \<Longrightarrow> head = 0 \<longleftrightarrow> ts = []"
  unfolding built_def using chain_in item_in
  by (metis append_is_Nil_conv hd_append2 hd_in_set list.sel(1) not_Cons_self2 self_append_conv2)

lemma built_addresses: "built h0 h head cur ts F \<Longrightarrow> heap_wf h \<and> heap_step h0 h \<and> (\<forall>a\<in>set F. brk h0 < a \<and> a \<le> brk h)"
  by (auto simp: built_def framed_def heap_step_def)

lemma attach_opened:
  assumes B: "built h0 h head cur ts F" and al: "cJSON_New_Item h = (new, h1)" and new: "new \<noteq> 0"
  shows "\<exists>head1 h2. attach head cur new h1 = Some (head1, h2) \<and> opened h0 h2 head1 new ts F [] None \<and> heap_step h h2"
proof -
  note A = built_addresses [OF B]
  note N = New_Item_step [OF A [THEN conjunct1] al]
  note f = N(3) [OF new]
  have fr: "framed F 0 h0 h" "distinct F" using B by (simp_all add: built_def)
  have nF: "new \<notin> set F" using A f by auto
  have zn: "blank_node zero_node" "c_next zero_node = 0" "c_string zero_node = 0" "c_type zero_node = 0"
    by (simp_all add: zero_node_def blank_node_def)
  from B consider (first) "head = 0" "ts = []" "F = []"
    | (more) ps t0 ts0 F0 Fc n where "chain h ps cur F0 ts0" "item h cur Fc t0" "nodes h cur = Some n" "c_next n = 0"
        "head = hd (ps @ [cur])" "links h (ps @ [cur])" "ts = ts0 @ [t0]" "F = F0 @ Fc"
    unfolding built_def by blast
  then show ?thesis
  proof cases
    case first
    have "framed [new] 0 h0 h1"
      using fr first f A by (auto simp: framed_def heap_step_def)
    then have "opened h0 h1 new new ts F [] None"
      using first f new zn heap_step_trans [OF A [THEN conjunct2, THEN conjunct1] N(1)]
      unfolding opened_def
      by (auto simp: own_def links_def intro!: exI [of _ "[]"])
    then show ?thesis using first N(1) by (auto simp: attach_def)
  next
    case more
    let ?n = "n\<lparr>c_next := new, c_prev := c_prev n\<rparr>" and ?z = "zero_node\<lparr>c_prev := cur\<rparr>"
    let ?hc = "h\<lparr>nodes := (nodes h)(cur \<mapsto> ?n)\<rparr>"
    let ?h2 = "h1\<lparr>nodes := (nodes h1)(cur \<mapsto> n\<lparr>c_next := new\<rparr>, new \<mapsto> ?z)\<rparr>"
    have nc: "new \<noteq> cur" using f more(3) by auto
    have head: "head \<noteq> 0" using built_head [OF B] more(7) by simp
    have at: "attach head cur new h1 = Some (head, ?h2)"
      using head f more(3) nc by (simp add: attach_def upd_node_def)
    have cF: "cur \<in> set Fc" "cur \<notin> set F0" using item_in [OF more(2)] fr(2) more(8) by auto
    have s0: "same_on (set F0) h ?h2" using f nF cF more(8) by (auto simp: same_on_def)
    have "item ?hc cur Fc t0"
      by (rule item_links [OF more(2) _ more(3) refl]) (use fr(2) more(8) in simp)
    moreover have "same_on (set Fc) ?hc ?h2" using f nF more(8) by (auto simp: same_on_def)
    ultimately have it: "item ?h2 cur Fc t0" by (rule item_frame)
    have "chain ?h2 [cur] new Fc [t0]"
      by (rule chain_single [OF it]) (use nc in auto)
    then have ch: "chain ?h2 (ps @ [cur]) new F ts"
      using chain_append [of ?h2 ps "[cur]" new F0 ts0 Fc "[t0]"] chain_frame [OF more(1) s0] more(7,8) by simp
    have "links ?h2 (ps @ [cur])"
    proof -
      have "set (ps @ [cur]) \<subseteq> set F" using chain_in [OF more(1)] cF more(8) by auto
      then have nin: "new \<notin> set (ps @ [cur])" using nF by blast
      show ?thesis
        using more(6) nin more(3) f unfolding links_def
        by (auto simp: nth_mem dest!: nth_mem [of "Suc _"])
    qed
    then have li: "links ?h2 ((ps @ [cur]) @ [new])"
      by (rule links_snoc) simp
    have "heap_step h ?h2"
      using N(1) f more(3) nc by (auto simp: heap_step_def heap_wf_def)
    moreover have "framed (F @ [new]) 0 h0 ?h2"
    proof -
      have "cur \<in> set F" using cF more(8) by simp
      then show ?thesis using fr f A by (auto simp: framed_def heap_step_def)
    qed
    moreover have "head = hd ((ps @ [cur]) @ [new])" using more(5) by (cases ps) auto
    ultimately have "opened h0 ?h2 head new ts F [] None"
      using ch li fr(2) nF new zn heap_step_trans [OF A [THEN conjunct2, THEN conjunct1]]
      unfolding opened_def
      by (auto simp: own_def blank_node_def intro!: exI [of _ "ps @ [cur]"])
    then show ?thesis using at \<open>heap_step h ?h2\<close> by blast
  qed
qed

lemma links_same_prev:
  assumes "links h ps"
    and "\<And>a n. a \<in> set ps \<Longrightarrow> nodes h a = Some n \<Longrightarrow> \<exists>n'. nodes h' a = Some n' \<and> c_prev n' = c_prev n"
  shows "links h' ps"
  unfolding links_def
proof (intro allI impI)
  fix i assume i: "Suc i < length ps"
  then obtain n where n: "nodes h (ps ! Suc i) = Some n" "c_prev n = ps ! i"
    using assms(1) by (auto simp: links_def)
  then show "\<exists>n. nodes h' (ps ! Suc i) = Some n \<and> c_prev n = ps ! i"
    using assms(2) [OF nth_mem [OF i] n(1)] by auto
qed

text \<open>A step that changes the node \<open>new\<close> and fresh addresses keeps the list in front of it.\<close>

lemma opened_front:
  assumes O: "opened h0 h head new ts F Fs nm" and fr: "framed G new h h'"
    and n': "nodes h new = Some n" "nodes h' new = Some n'" "c_prev n' = c_prev n"
  shows "\<exists>ps. chain h' ps new F ts \<and> head = hd (ps @ [new]) \<and> links h' (ps @ [new])"
    and "own h' (c_string n) Fs nm"
    and "heap_step h h' \<Longrightarrow> framed (F @ new # Fs @ G) 0 h0 h'"
    and "distinct G \<Longrightarrow> distinct (F @ new # Fs @ G)"
proof -
  obtain ps where o: "chain h ps new F ts" "own h (c_string n) Fs nm" "head = hd (ps @ [new])"
      "links h (ps @ [new])"
    using O n'(1) unfolding opened_def by auto
  have D: "distinct (F @ new # Fs)" and f0: "framed (F @ new # Fs) 0 h0 h" and st: "heap_step h0 h"
    using O by (auto simp: opened_def)
  have G: "\<And>a. a \<in> set G \<Longrightarrow> brk h < a" and old: "\<And>a. a \<in> set (F @ new # Fs) \<Longrightarrow> a \<le> brk h"
    using fr f0 by (auto simp: framed_def)
  have GF: "a \<notin> set G" if "a \<in> set (F @ new # Fs)" for a
    using G [of a] old [OF that] by auto
  have sF: "same_on (set F) h h'" "same_on (set Fs) h h'"
    using fr D GF by (auto simp: same_on_def framed_def)
  have "links h' (ps @ [new])"
  proof (rule links_same_prev [OF o(4)])
    fix a m assume a: "a \<in> set (ps @ [new])" "nodes h a = Some m"
    show "\<exists>m'. nodes h' a = Some m' \<and> c_prev m' = c_prev m"
    proof (cases "a = new")
      case True
      then show ?thesis using a n' by simp
    next
      case False
      then have "a \<in> set F" using a chain_in [OF o(1)] by auto
      then show ?thesis using sF(1) a(2) by (simp add: same_on_def)
    qed
  qed
  then show "\<exists>ps. chain h' ps new F ts \<and> head = hd (ps @ [new]) \<and> links h' (ps @ [new])"
    using chain_frame [OF o(1) sF(1)] o(3) by blast
  show "own h' (c_string n) Fs nm" by (rule own_frame [OF o(2) sF(2)])
  show "framed (F @ new # Fs @ G) 0 h0 h'" if "heap_step h h'"
  proof -
    have le: "brk h \<le> brk h'" "brk h0 \<le> brk h" using that st by (simp_all add: heap_step_def)
    have "a \<in> {brk h0<..brk h'}" if "a \<in> set (F @ new # Fs @ G)" for a
    proof (cases "a \<in> set G")
      case True
      then show ?thesis using fr le by (auto simp: framed_def)
    next
      case False
      then have "a \<in> set (F @ new # Fs)" using that by auto
      then have "a \<in> {brk h0<..brk h}" using f0 unfolding framed_def by blast
      then show ?thesis using le by simp
    qed
    then show ?thesis using f0 fr by (simp add: framed_def subset_iff)
  qed
  show "distinct (F @ new # Fs @ G)" if "distinct G"
    using D GF that by auto
qed

lemma distinct_rotate: "distinct (F @ new # Fs @ Fv @ Fk) \<longleftrightarrow> distinct (F @ new # Fv @ Fs @ Fk)"
  by auto

lemma framed_set: "framed F p h h' \<Longrightarrow> set G = set F \<Longrightarrow> framed G p h h'"
  by (simp add: framed_def)

lemma opened_value:
  assumes O: "opened h0 h head new ts F Fs nm" and n: "nodes h new = Some n"
    and R: "value_result ref new n b h (True, b', h')"
  shows "\<exists>t F'. ref b = Some (t, b') \<and> offset b < offset b' \<and> offset b' \<le> buf_length b \<and> depth b' = depth b
    \<and> same_text b b' \<and> built h0 h' head new (ts @ [set_name nm t]) F' \<and> heap_step h h'"
proof -
  obtain t G where R': "ref b = Some (t, b')" "jt_name t = None" "offset b < offset b'"
      "offset b' \<le> buf_length b" "depth b' = depth b" "framed G new h h'" "filled h' new n G t"
    and st: "heap_step h h'" and sb: "same_text b b'"
    using R by (auto simp: value_result_def)
  obtain n' Fv Fk kps where fl: "G = Fv @ Fk" "distinct G" "nodes h' new = Some n'"
      "c_next n' = c_next n" "c_prev n' = c_prev n" "c_string n' = c_string n"
      "c_type n' = jt_type t" "c_valueint n' = jt_int t" "c_valuedouble n' = jt_double t"
      "no_flags (jt_type t)" "own h' (c_valuestring n') Fv (jt_string t)"
      "chain h' kps 0 Fk (jt_kids t)" "c_child n' = hd (kps @ [0])" "prevs h' kps"
    using R'(7) unfolding filled_def by blast
  note front = opened_front [OF O R'(6) n fl(3,5)]
  have next0: "c_next n = 0" using O n by (auto simp: opened_def)
  have new0: "new \<noteq> 0" using O n heap_wf_node [of h new n] by (auto simp: opened_def heap_step_def)
  have "item h' new (new # Fv @ Fs @ Fk)
      (JT (c_type n') (c_valueint n') (c_valuedouble n') (jt_string t) nm (jt_kids t))"
    by (rule node [OF fl(3) new0 fl(11) _ _ _ fl(12,13,14)])
       (use front(2) fl in \<open>auto simp: no_flags_def\<close>)
  moreover have "JT (c_type n') (c_valueint n') (c_valuedouble n') (jt_string t) nm (jt_kids t) = set_name nm t"
    using fl by (cases t) simp
  ultimately have it: "item h' new (new # Fv @ Fs @ Fk) (set_name nm t)" by simp
  have "distinct (F @ new # Fv @ Fs @ Fk)"
    using front(4) [OF fl(2)] fl(1) distinct_rotate [of F new Fs Fv Fk] by simp
  moreover have "framed (F @ new # Fv @ Fs @ Fk) 0 h0 h'"
    using front(3) [OF st] fl(1) by (auto elim!: framed_set)
  moreover have "heap_step h0 h'" using O st heap_step_trans by (auto simp: opened_def)
  ultimately have "built h0 h' head new (ts @ [set_name nm t]) (F @ new # Fv @ Fs @ Fk)"
    using front(1) it fl(3,4) next0 unfolding built_def by fastforce
  then show ?thesis using R' st sb by blast
qed

text \<open>In an object the string parsed first becomes the name of the node.\<close>

lemma opened_name:
  assumes O: "opened h0 h head new ts F [] None" and n: "nodes h new = Some n"
    and R: "value_result ref_string_value new n b h (True, b', h')"
  shows "\<exists>nm h2 Fs. ref_string b = Some (nm, b') \<and> offset b < offset b' \<and> offset b' \<le> buf_length b
    \<and> depth b' = depth b \<and> same_text b b'
    \<and> upd_node new (\<lambda>n. n\<lparr>c_string := c_valuestring n, c_valuestring := 0\<rparr>) h' = Some h2
    \<and> opened h0 h2 head new ts F Fs (Some nm) \<and> heap_step h h2"
proof -
  obtain t G where R': "ref_string_value b = Some (t, b')" "offset b < offset b'"
      "offset b' \<le> buf_length b" "depth b' = depth b" "framed G new h h'" "filled h' new n G t"
    and st: "heap_step h h'" and sb: "same_text b b'"
    using R by (auto simp: value_result_def)
  obtain nm where nm: "ref_string b = Some (nm, b')" "t = leaf 16 0 zero_double (Some nm)"
    using R'(1) by (auto simp: ref_string_value_def)
  obtain n' Fv Fk kps where fl: "G = Fv @ Fk" "distinct G" "nodes h' new = Some n'"
      "c_next n' = c_next n" "c_prev n' = c_prev n" "c_type n' = 16" "c_valueint n' = 0"
      "c_valuedouble n' = zero_double" "own h' (c_valuestring n') Fv (Some nm)"
      "chain h' kps 0 Fk []" "c_child n' = hd (kps @ [0])"
    using R'(6) unfolding filled_def nm(2) leaf_def by auto
  have kps: "kps = []" using chain_in [OF fl(10)] by simp
  then have Fk: "Fk = []" using fl(10) by simp
  let ?n = "n'\<lparr>c_string := c_valuestring n', c_valuestring := 0\<rparr>"
  let ?h2 = "h'\<lparr>nodes := (nodes h')(new \<mapsto> ?n)\<rparr>"
  have up: "upd_node new (\<lambda>n. n\<lparr>c_string := c_valuestring n, c_valuestring := 0\<rparr>) h' = Some ?h2"
    using fl(3) by (simp add: upd_node_def)
  have fr2: "framed G new h ?h2" using R'(5) by (simp add: framed_def)
  have st2: "heap_step h ?h2"
    using st fl(3) heap_wf_upd [of h' new n'] by (simp add: heap_step_def)
  have "nodes ?h2 new = Some ?n" "c_prev ?n = c_prev n" using fl(5) by auto
  note front = opened_front [OF O fr2 n this]
  have next0: "c_next ?n = 0" using O n fl(4) by (auto simp: opened_def)
  have own2: "own ?h2 (c_string ?n) Fv (Some nm)" using fl(9) by (simp add: own_def split: if_splits)
  have bl: "blank_node ?n" using fl(7,8,11) kps by (simp add: blank_node_def)
  have "distinct (F @ new # Fv)" "framed (F @ new # Fv) 0 h0 ?h2"
    using front(3) [OF st2] front(4) [OF fl(2)] fl(1) Fk by simp_all
  moreover have "heap_step h0 ?h2" using O st2 heap_step_trans by (auto simp: opened_def)
  ultimately have "opened h0 ?h2 head new ts F Fv (Some nm)"
    using front(1) next0 own2 bl fl(6) unfolding opened_def by fastforce
  then show ?thesis using nm(1) R'(2-4) sb up st2 by blast
qed

section \<open>The loops\<close>

definition loop_ok ::
  "heap \<Rightarrow> heap \<Rightarrow> parse_buffer \<Rightarrow> jtree list \<Rightarrow> (jtree list \<times> parse_buffer) option
     \<Rightarrow> nat \<times> nat \<times> bool \<times> parse_buffer \<times> heap \<Rightarrow> bool"
where
  "loop_ok h0 h b ts res r \<longleftrightarrow>
     (case r of (head, cur, ok, b', h') \<Rightarrow>
        heap_step h h' \<and> same_text b b'
        \<and> (\<exists>ts' F'. built h0 h' head cur ts' F'
           \<and> (if ok then \<exists>us. res = Some (us, b') \<and> us \<noteq> [] \<and> ts' = ts @ us \<and> offset b < offset b'
                 \<and> offset b' < buf_length b \<and> depth b' = depth b
              else res = None \<or> oom h h')))"

lemma loop_ok_fail:
  assumes "built h0 h' head cur ts' F'" "heap_step h h'" "same_text b b'" "res = None \<or> oom h h'"
  shows "loop_ok h0 h b ts res (head, cur, False, b', h')"
  using assms by (auto simp: loop_ok_def)

text \<open>The new buffer position after white space, with the character found there.\<close>

lemma skip_peek:
  assumes "terminated b"
  shows "\<exists>p. buffer_skip_whitespace b = Some (b\<lparr>offset := p\<rparr>) \<and> offset b \<le> p
    \<and> (offset b < buf_length b \<longrightarrow> p < buf_length b) \<and> (\<not> offset b < buf_length b \<longrightarrow> p = offset b)
    \<and> peek (b\<lparr>offset := p\<rparr>) = Some (if p < buf_length b then Some (content b ! p) else None)
    \<and> (p < buf_length b \<and> content b ! p \<noteq> 0 \<longrightarrow> p + 1 < buf_length b)"
proof -
  obtain p where p: "buffer_skip_whitespace b = Some (b\<lparr>offset := p\<rparr>)" "offset b \<le> p"
      "offset b < buf_length b \<longrightarrow> p < buf_length b" "\<not> offset b < buf_length b \<longrightarrow> p = offset b"
    using buffer_skip_whitespace_total assms by (auto simp: terminated_def)
  have "peek (b\<lparr>offset := p\<rparr>) = Some (if p < buf_length b then Some (content b ! p) else None)"
    using peek_total [of "b\<lparr>offset := p\<rparr>"] assms by (simp add: terminated_def buffer_ok_def)
  moreover have "p < buf_length b \<and> content b ! p \<noteq> 0 \<longrightarrow> p + 1 < buf_length b"
    using assms unfolding terminated_def
    by (metis Suc_eq_plus1 Suc_lessI diff_Suc_1)
  ultimately show ?thesis using p by blast
qed

text \<open>Both loops start with a new item; without memory they stop there.\<close>

lemma loop_no_memory:
  assumes "built h0 h head cur ts F" "cJSON_New_Item h = (0, h1)"
  shows "loop_ok h0 h b ts0 res (head, cur, False, b, h1)"
proof -
  note N = New_Item_step [OF built_addresses [OF assms(1), THEN conjunct1] assms(2)]
  show ?thesis
    using built_unchanged [OF assms(1) N(1)] N(1,2) by (auto intro: loop_ok_fail)
qed

text \<open>A value that failed to parse ends the loop with the unfinished item in the list.\<close>

lemma loop_value_failed:
  assumes O: "opened h0 h2 head new ts F Fs nm" and st: "heap_step h h2"
    and R: "value_result rv new n b1 h2 (False, b2, h3)" and sb: "same_text b b1"
    and ref: "rv b1 = None \<Longrightarrow> res = None"
  shows "loop_ok h0 h b ts0 res (head, new, False, b2, h3)"
proof -
  have r: "heap_step h2 h3" "same_text b1 b2" "nodes h3 = nodes h2" "strs h3 = strs h2"
      "rv b1 = None \<or> oom h2 h3"
    using R by (auto simp: value_result_def)
  obtain t where "built h0 h3 head new (ts @ [t]) (F @ new # Fs)"
    using opened_built [OF opened_unchanged [OF O r(1,3,4)]] by blast
  then show ?thesis
    using heap_step_trans [OF st r(1)] same_text_trans [OF sb r(2)] r(5) ref oom_step(1) [OF st]
    by (auto intro: loop_ok_fail)
qed

lemma loop_ok_step:
  assumes "loop_ok h0 h3 b3 (ts @ [t]) res r" "heap_step h h3" "same_text b b3"
    and "offset b \<le> offset b3" "depth b3 = depth b"
    and "res' = map_option (\<lambda>(us, b'). (t # us, b')) res"
  shows "loop_ok h0 h b ts res' r"
proof -
  obtain head cur ok b' h' where r: "r = (head, cur, ok, b', h')" by (cases r) auto
  have l: "heap_step h3 h'" "same_text b3 b'"
    using assms(1) by (simp_all add: loop_ok_def r)
  have st: "heap_step h h'" "same_text b b'"
    using heap_step_trans [OF assms(2) l(1)] same_text_trans [OF assms(3) l(2)] by auto
  show ?thesis
  proof (cases ok)
    case True
    then obtain us ts' F' where "res = Some (us, b')" "ts' = (ts @ [t]) @ us" "built h0 h' head cur ts' F'"
        "offset b3 < offset b'" "offset b' < buf_length b3" "depth b' = depth b3"
      using assms(1) by (auto simp: loop_ok_def r)
    then show ?thesis
      using st True assms(3-6) by (auto simp: loop_ok_def r same_text_def)
  next
    case False
    then obtain ts' F' where "built h0 h' head cur ts' F'" "res = None \<or> oom h3 h'"
      using assms(1) by (auto simp: loop_ok_def r)
    then show ?thesis
      using st False assms(6) oom_step(1) [OF assms(2)] by (auto simp: loop_ok_def r)
  qed
qed

text \<open>
  One value of a list: it fails and ends the loop, or it is added and the position after the white
  space that follows holds the next character.
\<close>

definition element_ok ::
  "ref_parser \<Rightarrow> parse_buffer \<Rightarrow> parse_buffer \<Rightarrow> heap \<Rightarrow> heap \<Rightarrow> nat \<Rightarrow> nat \<Rightarrow> jtree list \<Rightarrow> bytes option
     \<Rightarrow> bool \<times> parse_buffer \<times> heap \<Rightarrow> bool"
where
  "element_ok rv b b1 h0 h head new ts nm r \<longleftrightarrow>
     (case r of (ok, b2, h3) \<Rightarrow>
        if ok then \<exists>t F' q. rv b1 = Some (t, b2) \<and> buffer_skip_whitespace b2 = Some (b2\<lparr>offset := q\<rparr>)
         \<and> peek (b2\<lparr>offset := q\<rparr>) = Some (if q < buf_length b then Some (content b ! q) else None)
         \<and> offset b1 < q \<and> (q < buf_length b \<and> content b ! q \<noteq> 0 \<longrightarrow> q + 1 < buf_length b)
         \<and> built h0 h3 head new (ts @ [set_name nm t]) F' \<and> heap_step h h3
         \<and> same_text b (b2\<lparr>offset := q\<rparr>) \<and> depth b2 = depth b
       else \<forall>res ts0. (rv b1 = None \<longrightarrow> res = None) \<longrightarrow> loop_ok h0 h b ts0 res (head, new, False, b2, h3))"

lemma element_step:
  assumes V: "value_spec pv rv k" and O: "opened h0 h2 head new ts F Fs nm" and st: "heap_step h h2"
    and sb: "same_text b b1" "depth b1 = depth b" and tm: "terminated b"
    and pos: "offset b < offset b1" "offset b1 < buf_length b" and k: "buf_length b - offset b1 < k"
  shows "\<exists>r. pv new b1 h2 = Some r \<and> element_ok rv b b1 h0 h head new ts nm r"
proof -
  obtain n where n: "nodes h2 new = Some n" "blank_node n" "heap_wf h2"
    using opened_node [OF O] by blast
  have tm1: "terminated b1" using sb(1) tm by (rule same_text_terminated)
  have "buf_length b1 - offset b1 < k" using k sb(1) by (simp add: same_text_def)
  then obtain r where r: "pv new b1 h2 = Some r" "value_result rv new n b1 h2 r"
    using V n tm1 unfolding value_spec_def by blast
  obtain ok b2 h3 where v: "r = (ok, b2, h3)" by (cases r)
  have "element_ok rv b b1 h0 h head new ts nm (ok, b2, h3)"
  proof (cases ok)
    case False
    then show ?thesis
      using r(2) v loop_value_failed [OF O st, of rv n b1 b2 h3 b] sb(1) by (simp add: element_ok_def)
  next
    case True
    obtain t F' where t: "rv b1 = Some (t, b2)" "offset b1 < offset b2" "offset b2 \<le> buf_length b1"
        "depth b2 = depth b1" "same_text b1 b2" "built h0 h3 head new (ts @ [set_name nm t]) F'" "heap_step h2 h3"
      using opened_value [OF O n(1), of rv b1 b2 h3] r(2) v True by auto
    have sb2: "same_text b b2" using sb(1) t(5) by (rule same_text_trans)
    then have eq: "content b2 = content b" "buf_length b2 = buf_length b" by (simp_all add: same_text_def)
    obtain q where q: "buffer_skip_whitespace b2 = Some (b2\<lparr>offset := q\<rparr>)" "offset b2 \<le> q"
        "peek (b2\<lparr>offset := q\<rparr>) = Some (if q < buf_length b then Some (content b ! q) else None)"
        "q < buf_length b \<and> content b ! q \<noteq> 0 \<longrightarrow> q + 1 < buf_length b"
      using skip_peek [OF same_text_terminated [OF sb2 tm]] unfolding eq by blast
    have st3: "heap_step h h3" using st t(7) by (rule heap_step_trans)
    have sb3: "same_text b (b2\<lparr>offset := q\<rparr>)" using eq by (simp add: same_text_def)
    have lt: "offset b1 < q" "depth b2 = depth b" using t(2,4) q(2) sb(2) by auto
    show ?thesis
      using True unfolding element_ok_def
      by (simp only: prod.case if_True)
         (intro exI [of _ t] exI [of _ F'] exI [of _ q] conjI t(1) q(1) q(3) lt q(4) t(6) st3 sb3)
  qed
  with r(1) v show ?thesis by blast
qed

lemma element_ok_cases:
  assumes "element_ok rv b b1 h0 h head new ts nm (ok, b2, h3)"
  obtains (failed) "\<not> ok" "\<And>res ts0. (rv b1 = None \<Longrightarrow> res = None) \<Longrightarrow> loop_ok h0 h b ts0 res (head, new, False, b2, h3)"
  | (added) t F' q where "ok" "rv b1 = Some (t, b2)" "buffer_skip_whitespace b2 = Some (b2\<lparr>offset := q\<rparr>)"
      "peek (b2\<lparr>offset := q\<rparr>) = Some (if q < buf_length b then Some (content b ! q) else None)"
      "offset b1 < q" "q < buf_length b \<and> content b ! q \<noteq> 0 \<longrightarrow> q + 1 < buf_length b"
      "built h0 h3 head new (ts @ [set_name nm t]) F'" "heap_step h h3"
      "same_text b (b2\<lparr>offset := q\<rparr>)" "depth b2 = depth b"
  using assms unfolding element_ok_def by (cases ok) (simp_all, blast)

text \<open>The character after a value: a comma, the closing bracket or neither.\<close>

lemma loop_closed:
  assumes "built h0 h3 head new (ts @ [t]) F'" "heap_step h h3" "same_text b (b2\<lparr>offset := q\<rparr>)"
    and "depth b2 = depth b" "offset b < q" "q < buf_length b"
  shows "loop_ok h0 h b ts (Some ([t], b2\<lparr>offset := q\<rparr>)) (head, new, True, b2\<lparr>offset := q\<rparr>, h3)"
  using assms by (auto simp: loop_ok_def)

lemma array_loop_result:
  assumes V: "value_spec pv rv k" and named: "\<And>b t b'. rv b = Some (t, b') \<Longrightarrow> jt_name t = None"
  shows "built h0 h head cur ts F \<Longrightarrow> terminated b \<Longrightarrow> offset b + 1 < buf_length b \<Longrightarrow>
    buf_length b - (offset b + 1) < k \<Longrightarrow> buf_length b - (offset b + 1) \<le> f \<Longrightarrow>
    \<exists>r. array_loop pv f head cur b h = Some r \<and> loop_ok h0 h b ts (ref_elems rv f b) r"
proof (induction f arbitrary: head cur ts F b h)
  case (Suc f)
  note B = Suc.prems(1) and tm = Suc.prems(2)
  obtain new h1 where al: "cJSON_New_Item h = (new, h1)" by fastforce
  show ?case
  proof (cases "new = 0")
    case True
    then show ?thesis using al loop_no_memory [OF B] by auto
  next
    case new: False
    obtain head1 h2 where at: "attach head cur new h1 = Some (head1, h2)"
        "opened h0 h2 head1 new ts F [] None" "heap_step h h2"
      using attach_opened [OF B al new] by blast
    have "terminated (b\<lparr>offset := offset b + 1\<rparr>)" using tm by (rule same_text_terminated [rotated]) simp
    then obtain p where p: "buffer_skip_whitespace (b\<lparr>offset := offset b + 1\<rparr>) = Some (b\<lparr>offset := p\<rparr>)"
        "offset b + 1 \<le> p" "p < buf_length b"
      using skip_peek [of "b\<lparr>offset := offset b + 1\<rparr>"] Suc.prems(3) by auto
    let ?b1 = "b\<lparr>offset := p\<rparr>"
    obtain ok b2 h3 where v: "pv new ?b1 h2 = Some (ok, b2, h3)"
      and e: "element_ok rv b ?b1 h0 h head1 new ts None (ok, b2, h3)"
    proof -
      have "\<exists>r. pv new ?b1 h2 = Some r \<and> element_ok rv b ?b1 h0 h head1 new ts None r"
        by (rule element_step [OF V at(2,3) _ _ tm]) (use p Suc.prems(4) in auto)
      then show thesis using that by auto
    qed
    note run = al new at(1) p(1) v
    from e show ?thesis
    proof (cases rule: element_ok_cases)
      case failed
      have "ref_elems rv (Suc f) b = None" if "rv ?b1 = None" using that p(1) by simp
      then show ?thesis using run failed by simp
    next
      case (added t F' q)
      note ok = added(1) and t = added(2-6) and bt = added(7-10)
      have nm: "set_name None t = t" using named [OF t(1)] by (cases t) simp
      consider (comma) "q < buf_length b" "content b ! q = 44" | (close) "q < buf_length b" "content b ! q = 93"
        | (bad) "\<not> (q < buf_length b \<and> (content b ! q = 44 \<or> content b ! q = 93))" by blast
      then show ?thesis
      proof cases
        case comma
        let ?b3 = "b2\<lparr>offset := q\<rparr>"
        have "buf_length ?b3 = buf_length b" using bt(3) by (simp add: same_text_def)
        then have "\<exists>r. array_loop pv f head1 new ?b3 h3 = Some r
            \<and> loop_ok h0 h3 ?b3 (ts @ [t]) (ref_elems rv f ?b3) r"
          by (intro Suc.IH [OF bt(1)[unfolded nm] same_text_terminated [OF bt(3) tm]])
             (use comma t(4,5) p Suc.prems(4,5) in auto)
        then obtain r where r: "array_loop pv f head1 new ?b3 h3 = Some r"
            "loop_ok h0 h3 ?b3 (ts @ [t]) (ref_elems rv f ?b3) r" by blast
        have "ref_elems rv (Suc f) b = map_option (\<lambda>(us, b'). (t # us, b')) (ref_elems rv f ?b3)"
          using p(1) t(1-3) comma by (cases "ref_elems rv f ?b3") auto
        then show ?thesis
          using run ok t(2,3) comma r loop_ok_step [OF r(2) bt(2,3)] bt(4) t(4) p(2) by simp
      next
        case close
        then show ?thesis
          using run ok t(1-3) p(1) loop_closed [OF bt(1)[unfolded nm] bt(2-4)] t(4) p(2) by simp
      next
        case bad
        then have "ref_elems rv (Suc f) b = None" using p(1) t(1-3) by auto
        then show ?thesis
          using run ok t(2,3) bad loop_ok_fail [OF bt(1-3)] by auto
      qed
    qed
  qed
qed simp

text \<open>The name of a member and the white space after it.\<close>

lemma name_step:
  assumes O: "opened h0 h2 head new ts F [] None" and st: "heap_step h h2"
    and sb: "same_text b b1" "depth b1 = depth b" and tm: "terminated b"
    and pos: "offset b1 < buf_length b"
  obtains (failed) b2 h3 where "parse_string new b1 h2 = Some (False, b2, h3)"
      "\<And>res ts0. (ref_string b1 = None \<Longrightarrow> res = None) \<Longrightarrow> loop_ok h0 h b ts0 res (head, new, False, b2, h3)"
  | (named) b2 h3 nm q h4 Fs where "parse_string new b1 h2 = Some (True, b2, h3)"
      "ref_string b1 = Some (nm, b2)" "buffer_skip_whitespace b2 = Some (b2\<lparr>offset := q\<rparr>)"
      "upd_node new (\<lambda>n. n\<lparr>c_string := c_valuestring n, c_valuestring := 0\<rparr>) h3 = Some h4"
      "peek (b2\<lparr>offset := q\<rparr>) = Some (if q < buf_length b then Some (content b ! q) else None)"
      "offset b1 < q" "q < buf_length b \<and> content b ! q \<noteq> 0 \<longrightarrow> q + 1 < buf_length b"
      "opened h0 h4 head new ts F Fs (Some nm)" "heap_step h h4" "same_text b b2" "depth b2 = depth b"
proof -
  obtain n where n: "nodes h2 new = Some n" "blank_node n" "heap_wf h2"
    using opened_node [OF O] by blast
  have tm1: "terminated b1" using sb(1) tm by (rule same_text_terminated)
  have "offset b1 < buf_length b1" using pos sb(1) by (simp add: same_text_def)
  then obtain r where r: "parse_string new b1 h2 = Some r" "value_result ref_string_value new n b1 h2 r"
    using parse_string_result [OF n(3,1,2) tm1] by blast
  obtain ok b2 h3 where v: "r = (ok, b2, h3)" by (cases r)
  show thesis
  proof (cases ok)
    case False
    have "loop_ok h0 h b ts0 res (head, new, False, b2, h3)" if "ref_string b1 = None \<Longrightarrow> res = None" for res ts0
      using r(2) v False that
      by (intro loop_value_failed [OF O st _ sb(1), of ref_string_value n]) (auto simp: ref_string_value_def)
    note L = this
    have "parse_string new b1 h2 = Some (False, b2, h3)" using r(1) v False by simp
    then show thesis by (rule failed) (rule L)
  next
    case True
    obtain nm h4 Fs where t: "ref_string b1 = Some (nm, b2)" "offset b1 < offset b2" "depth b2 = depth b1"
        "same_text b1 b2" "opened h0 h4 head new ts F Fs (Some nm)" "heap_step h2 h4"
        "upd_node new (\<lambda>n. n\<lparr>c_string := c_valuestring n, c_valuestring := 0\<rparr>) h3 = Some h4"
      using opened_name [OF O n(1), of b1 b2 h3] r(2) v True by auto
    have sb2: "same_text b b2" using sb(1) t(4) by (rule same_text_trans)
    then have eq: "content b2 = content b" "buf_length b2 = buf_length b" by (simp_all add: same_text_def)
    obtain q where q: "buffer_skip_whitespace b2 = Some (b2\<lparr>offset := q\<rparr>)" "offset b2 \<le> q"
        "peek (b2\<lparr>offset := q\<rparr>) = Some (if q < buf_length b then Some (content b ! q) else None)"
        "q < buf_length b \<and> content b ! q \<noteq> 0 \<longrightarrow> q + 1 < buf_length b"
      using skip_peek [OF same_text_terminated [OF sb2 tm]] unfolding eq by blast
    have "heap_step h h4" using st t(6) by (rule heap_step_trans)
    moreover have "offset b1 < q" "depth b2 = depth b" using t(2,3) q(2) sb(2) by auto
    moreover have "parse_string new b1 h2 = Some (True, b2, h3)" using r(1) v True by simp
    ultimately show thesis
      by (intro named [of b2 h3 nm q h4 Fs] t(1,5,7) q(1,3,4) sb2)
  qed
qed

lemma object_loop_result:
  assumes V: "value_spec pv rv k"
  shows "built h0 h head cur ts F \<Longrightarrow> terminated b \<Longrightarrow> offset b + 1 < buf_length b \<Longrightarrow>
    buf_length b - (offset b + 1) < k \<Longrightarrow> buf_length b - (offset b + 1) \<le> f \<Longrightarrow>
    \<exists>r. object_loop pv f head cur b h = Some r \<and> loop_ok h0 h b ts (ref_members rv f b) r"
proof (induction f arbitrary: head cur ts F b h)
  case (Suc f)
  note B = Suc.prems(1) and tm = Suc.prems(2)
  obtain new h1 where al: "cJSON_New_Item h = (new, h1)" by fastforce
  show ?case
  proof (cases "new = 0")
    case True
    then show ?thesis using al loop_no_memory [OF B] by auto
  next
    case new: False
    obtain head1 h2 where at: "attach head cur new h1 = Some (head1, h2)"
        "opened h0 h2 head1 new ts F [] None" "heap_step h h2"
      using attach_opened [OF B al new] by blast
    have "terminated (b\<lparr>offset := offset b + 1\<rparr>)" using tm by (rule same_text_terminated [rotated]) simp
    then obtain p where p: "buffer_skip_whitespace (b\<lparr>offset := offset b + 1\<rparr>) = Some (b\<lparr>offset := p\<rparr>)"
        "offset b + 1 \<le> p" "p < buf_length b"
      using skip_peek [of "b\<lparr>offset := offset b + 1\<rparr>"] Suc.prems(3) by auto
    let ?b1 = "b\<lparr>offset := p\<rparr>"
    have sb1: "same_text b ?b1" "depth ?b1 = depth b" "offset ?b1 < buf_length b" using p(3) by simp_all
    note run1 = al new at(1) p(1)
    from at(2,3) sb1(1,2) tm sb1(3) show ?thesis
    proof (cases rule: name_step)
      case (failed b2 h3)
      have "ref_members rv (Suc f) b = None" if "ref_string ?b1 = None" using that p(1) by simp
      then show ?thesis using run1 failed by simp
    next
      case (named b2 h3 nm q h4 Fs)
      show ?thesis
      proof (cases "q < buf_length b \<and> content b ! q = 58")
        case False
        then have "ref_members rv (Suc f) b = None" using p(1) named(2,3,5) by auto
        moreover obtain t where "built h0 h4 head1 new (ts @ [t]) (F @ new # Fs)"
          using opened_built [OF named(8)] by blast
        moreover have "same_text b (b2\<lparr>offset := q\<rparr>)" using named(10) by (simp add: same_text_def)
        ultimately show ?thesis
          using run1 named(1,3,4,5) False loop_ok_fail [OF _ named(9)] by auto
      next
        case True
        have eq: "buf_length b2 = buf_length b" "content b2 = content b"
          using named(10) by (simp_all add: same_text_def)
        have "terminated (b2\<lparr>offset := q + 1\<rparr>)"
          using named(10) tm by (auto simp: same_text_def terminated_def buffer_ok_def)
        then obtain p' where p': "buffer_skip_whitespace (b2\<lparr>offset := q + 1\<rparr>) = Some (b2\<lparr>offset := p'\<rparr>)"
            "q + 1 \<le> p'" "p' < buf_length b"
          using skip_peek [of "b2\<lparr>offset := q + 1\<rparr>"] named(7) True eq by auto
        let ?b4 = "b2\<lparr>offset := p'\<rparr>"
        have pos: "offset b < p'" using p(2) named(6) p'(2) by simp
        have "\<exists>r. pv new ?b4 h4 = Some r \<and> element_ok rv b ?b4 h0 h head1 new ts (Some nm) r"
          by (rule element_step [OF V named(8,9) _ _ tm])
             (use named(10,11) pos p' Suc.prems(4) in \<open>auto simp: same_text_def\<close>)
        then obtain ok b5 h5 where v: "pv new ?b4 h4 = Some (ok, b5, h5)"
            "element_ok rv b ?b4 h0 h head1 new ts (Some nm) (ok, b5, h5)" by auto
        note run = run1 named(1,3,4,5) True p'(1) v(1) and ref = p(1) named(2,3,5) True p'(1)
        from v(2) show ?thesis
        proof (cases rule: element_ok_cases)
          case failed
          have "ref_members rv (Suc f) b = None" if "rv ?b4 = None" using that ref by simp
          then show ?thesis using run failed by simp
        next
          case (added t F' q')
          let ?t = "set_name (Some nm) t" and ?b6 = "b5\<lparr>offset := q'\<rparr>"
          consider (comma) "q' < buf_length b" "content b ! q' = 44"
            | (close) "q' < buf_length b" "content b ! q' = 125"
            | (bad) "\<not> (q' < buf_length b \<and> (content b ! q' = 44 \<or> content b ! q' = 125))" by blast
          then show ?thesis
          proof cases
            case comma
            have "buf_length ?b6 = buf_length b" using added(9) by (simp add: same_text_def)
            then have "\<exists>r. object_loop pv f head1 new ?b6 h5 = Some r
                \<and> loop_ok h0 h5 ?b6 (ts @ [?t]) (ref_members rv f ?b6) r"
              by (intro Suc.IH [OF added(7) same_text_terminated [OF added(9) tm]])
                 (use comma added(5,6) pos Suc.prems(4,5) in auto)
            then obtain r where r: "object_loop pv f head1 new ?b6 h5 = Some r"
                "loop_ok h0 h5 ?b6 (ts @ [?t]) (ref_members rv f ?b6) r" by blast
            have "ref_members rv (Suc f) b = map_option (\<lambda>(us, b'). (?t # us, b')) (ref_members rv f ?b6)"
              using ref added(2-4) comma by (cases "ref_members rv f ?b6") auto
            then show ?thesis
              using run added(1,3,4,5) comma r loop_ok_step [OF r(2) added(8,9)] added(10) pos by simp
          next
            case close
            then show ?thesis
              using run ref added(1-5) loop_closed [OF added(7-10)] pos by simp
          next
            case bad
            then have "ref_members rv (Suc f) b = None" using ref added(2-4) by auto
            then show ?thesis
              using run added(1,3,4) bad loop_ok_fail [OF added(7-9)] by auto
          qed
        qed
      qed
    qed
  qed
qed simp

section \<open>Arrays and objects\<close>

lemma chain_distinct: "chain h ps e F ts \<Longrightarrow> distinct F \<Longrightarrow> distinct ps"
proof (induction ps arbitrary: F ts)
  case (Cons p ps)
  from Cons.prems(1) obtain F' t n G ts' where c: "F = F' @ G" "item h p F' t" "chain h ps e G ts'"
    by (elim chain_cons_elim) blast
  then have "distinct ps" using Cons by auto
  moreover have "p \<notin> set ps" using c chain_in [OF c(3)] item_in [OF c(2)] Cons.prems(2) by auto
  ultimately show ?case by simp
qed simp

lemma chain_upd_prev:
  "chain h ps e F ts \<Longrightarrow> distinct F \<Longrightarrow> q \<in> set ps \<Longrightarrow> nodes h q = Some m \<Longrightarrow>
     chain (h\<lparr>nodes := (nodes h)(q \<mapsto> m\<lparr>c_prev := x\<rparr>)\<rparr>) ps e F ts"
proof (induction ps arbitrary: F ts)
  case (Cons p ps)
  let ?h = "h\<lparr>nodes := (nodes h)(q \<mapsto> m\<lparr>c_prev := x\<rparr>)\<rparr>"
  from Cons.prems(1) obtain F' t n G ts' where c: "F = F' @ G" "ts = t # ts'" "item h p F' t"
      "nodes h p = Some n" "c_next n = hd (ps @ [e])" "chain h ps e G ts'"
    by (elim chain_cons_elim) blast
  show ?case
  proof (cases "q = p")
    case True
    then have m: "m = n" using Cons.prems(4) c(4) by simp
    have "item (h\<lparr>nodes := (nodes h)(p \<mapsto> n\<lparr>c_next := c_next n, c_prev := x\<rparr>)\<rparr>) p F' t"
      by (rule item_links [OF c(3) _ c(4) refl]) (use Cons.prems(2) c(1) in simp)
    then have it: "item ?h p F' t" using True m by simp
    have "q \<notin> set G" using True item_in [OF c(3)] Cons.prems(2) c(1) by auto
    then have "same_on (set G) h ?h" by (auto simp: same_on_def)
    then have ch: "chain ?h ps e G ts'" by (rule chain_frame [OF c(6)])
    have nn: "nodes ?h p = Some (n\<lparr>c_prev := x\<rparr>)" using True m by simp
    show ?thesis unfolding c(1,2) by (rule cons [OF it nn _ ch]) (use c(5) in simp)
  next
    case False
    then have q: "q \<in> set ps" using Cons.prems(3) by simp
    then have "q \<notin> set F'" using chain_in [OF c(6)] Cons.prems(2) c(1) by auto
    then have "same_on (set F') h ?h" by (auto simp: same_on_def)
    then have it: "item ?h p F' t" by (rule item_frame [OF c(3)])
    have "distinct G" using Cons.prems(2) c(1) by simp
    then have ch: "chain ?h ps e G ts'" by (rule Cons.IH [OF c(6) _ q Cons.prems(4)])
    have nn: "nodes ?h p = Some n" using False c(4) by simp
    show ?thesis unfolding c(1,2) by (rule cons [OF it nn c(5) ch])
  qed
qed simp

text \<open>Closing the list: the first node gets the last one as its \<open>prev\<close>.\<close>

lemma built_closed:
  assumes B: "built h0 h head cur ts F"
  shows "\<exists>kps h1. (if head \<noteq> 0 then upd_node head (\<lambda>n. n\<lparr>c_prev := cur\<rparr>) h else Some h) = Some h1
    \<and> chain h1 kps 0 F ts \<and> head = hd (kps @ [0]) \<and> prevs h1 kps \<and> framed F 0 h0 h1 \<and> heap_step h0 h1"
proof (cases "head = 0")
  case True
  then have "ts = []" using built_head [OF B] by simp
  moreover have "F = []" using B True calculation by (auto simp: built_def)
  ultimately show ?thesis
    using B True by (auto simp: built_def prevs_def intro!: exI [of _ "[]"])
next
  case False
  obtain ps t0 ts0 F0 Fc n where o: "chain h ps cur F0 ts0" "item h cur Fc t0" "nodes h cur = Some n" "c_next n = 0"
      "head = hd (ps @ [cur])" "links h (ps @ [cur])" "ts = ts0 @ [t0]" "F = F0 @ Fc"
    using B False unfolding built_def by blast
  have D: "distinct F" "framed F 0 h0 h" "heap_step h0 h" using B by (auto simp: built_def)
  let ?k = "ps @ [cur]"
  have ch: "chain h ?k 0 F ts"
    using chain_append [of h ps "[cur]" 0 F0 ts0 Fc "[t0]"] o chain_single [OF o(2,3,4)] by simp
  have hk: "head \<in> set ?k" "head = ?k ! 0" using o(5) by (cases ps; simp)+
  have dk: "distinct ?k" using chain_distinct [OF ch D(1)] .
  obtain m where m: "nodes h head = Some m"
  proof -
    have "head \<in> set F" using hk chain_in [OF ch] by blast
    show thesis
    proof (cases "ps")
      case Nil
      then show thesis using o(3,5) that by simp
    next
      case (Cons a as)
      then show thesis using o(1,5) that by (auto elim!: chain_cons_elim)
    qed
  qed
  let ?h1 = "h\<lparr>nodes := (nodes h)(head \<mapsto> m\<lparr>c_prev := cur\<rparr>)\<rparr>"
  have ch1: "chain ?h1 ?k 0 F ts" by (rule chain_upd_prev [OF ch D(1) hk(1) m])
  have "prevs ?h1 ?k"
    unfolding prevs_def
  proof (intro allI impI)
    fix i assume i: "i < length ?k"
    show "\<exists>n. nodes ?h1 (?k ! i) = Some n \<and> c_prev n = (if i = 0 then last ?k else ?k ! (i - 1))"
    proof (cases i)
      case 0
      then show ?thesis using hk(2) by auto
    next
      case (Suc j)
      then have "?k ! i \<noteq> head" using dk i hk(2) nth_eq_iff_index_eq [of ?k i 0] by auto
      then show ?thesis using o(6) Suc i unfolding links_def by auto
    qed
  qed
  moreover have "framed F 0 h0 ?h1"
    using D(2) hk(1) chain_in [OF ch] by (auto simp: framed_def)
  moreover have "heap_step h0 ?h1"
    using D(3) heap_wf_upd [OF _ m] by (simp add: heap_step_def)
  ultimately show ?thesis
    using False m ch1 hk(2) by (intro exI [of _ ?k] exI [of _ ?h1]) (auto simp: upd_node_def nth_append hd_append hd_conv_nth split: if_splits)
qed

lemma container_success_result:
  assumes B: "built h h' head cur ts F" and n: "nodes h p = Some n" "blank_node n" and wf: "heap_wf h"
    and ty: "no_flags ty"
  shows "\<exists>h2. container_success ty p head cur b h'
      = Some (True, b\<lparr>depth := depth b - 1, offset := offset b + 1\<rparr>, h2)
    \<and> heap_step h h2 \<and> framed F p h h2 \<and> filled h2 p n F (JT ty 0 zero_double None None ts)"
proof -
  obtain kps h1 where c: "(if head \<noteq> 0 then upd_node head (\<lambda>n. n\<lparr>c_prev := cur\<rparr>) h' else Some h') = Some h1"
      "chain h1 kps 0 F ts" "head = hd (kps @ [0])" "prevs h1 kps" "framed F 0 h h1" "heap_step h h1"
    using built_closed [OF B] by blast
  have p: "0 < p" "p \<le> brk h" using heap_wf_node [OF wf n(1)] by auto
  have pF: "p \<notin> set F" using c(5) p by (auto simp: framed_def)
  have n1: "nodes h1 p = Some n" using c(5) pF p n(1) by (simp add: framed_def)
  let ?n = "n\<lparr>c_type := ty, c_child := head\<rparr>"
  let ?h2 = "h1\<lparr>nodes := (nodes h1)(p \<mapsto> ?n)\<rparr>"
  have s: "same_on (set F) h1 ?h2" using pF by (auto simp: same_on_def)
  have ch: "chain ?h2 kps 0 F ts" by (rule chain_frame [OF c(2) s])
  have pr: "prevs ?h2 kps" using prevs_frame [OF c(4) s] chain_in [OF c(2)] by simp
  have "filled ?h2 p n F (JT ty 0 zero_double None None ts)"
    using ch pr c(3) n(2) ty B unfolding filled_def
    by (intro exI [of _ ?n] exI [of _ "[]"] exI [of _ F] exI [of _ kps])
       (simp add: blank_node_def own_def built_def)
  moreover have "heap_step h ?h2" using c(6) heap_wf_upd [OF _ n1] by (simp add: heap_step_def)
  moreover have "framed F p h ?h2"
  proof -
    have "nodes h1 0 = nodes h 0" using heap_wf_zero wf c(6) by (simp add: heap_step_def)
    then have "nodes h1 a = nodes h a" if "a \<notin> set F" for a
      using c(5) that by (cases "a = 0") (simp_all add: framed_def)
    then show ?thesis using c(5) by (simp add: framed_def)
  qed
  ultimately show ?thesis using c(1) n1 by (auto simp: container_success_def upd_node_def)
qed

lemma container_fail_result:
  assumes B: "built h h' head cur ts F" and wf: "heap_wf h"
  shows "\<exists>h2. container_fail head b h' = Some (False, b, h2) \<and> heap_step h' h2
    \<and> nodes h2 = nodes h \<and> strs h2 = strs h"
proof -
  have D: "distinct F" "framed F 0 h h'" "heap_step h h'" using B by (auto simp: built_def)
  have wf': "heap_wf h'" using D(3) by (simp add: heap_step_def)
  have eq: "nodes (release F h') = nodes h \<and> strs (release F h') = strs h"
  proof -
    have "a \<in> set F \<Longrightarrow> nodes h a = None \<and> strs h a = None" for a
      using D(2) heap_wf_fresh [OF wf, of a] by (auto simp: framed_def)
    moreover have "nodes h' 0 = nodes h 0" using heap_wf_zero wf wf' by simp
    ultimately have "nodes (release F h') a = nodes h a \<and> strs (release F h') a = strs h a" for a
      using D(2) by (cases "a = 0") (auto simp: release_def restrict_map_def framed_def)
    then show ?thesis by blast
  qed
  have st: "heap_step h' (release F h')" using release_wf [OF wf'] by (simp add: heap_step_def)
  show ?thesis
  proof (cases "head = 0")
    case True
    then have "ts = []" using built_head [OF B] by simp
    then have "F = []" using B True by (auto simp: built_def)
    then show ?thesis using True eq st by (auto simp: container_fail_def)
  next
    case False
    obtain ps t0 ts0 F0 Fc n where o: "chain h' ps cur F0 ts0" "item h' cur Fc t0" "nodes h' cur = Some n" "c_next n = 0"
        "head = hd (ps @ [cur])" "ts = ts0 @ [t0]" "F = F0 @ Fc"
      using B False unfolding built_def by blast
    have ch: "chain h' (ps @ [cur]) 0 F ts"
      using chain_append [of h' ps "[cur]" 0 F0 ts0 Fc "[t0]"] o chain_single [OF o(2,3,4)] by simp
    have "hd ((ps @ [cur]) @ [0]) = head" using o(5) by (cases ps) auto
    then have "cJSON_Delete head h' = Some (release F h')"
      using cJSON_Delete_chain [OF ch D(1) wf'] by simp
    then show ?thesis using False eq st by (auto simp: container_fail_def)
  qed
qed

end
