(* ===== verification/Cjson_Correct.thy ===== *)
theory Cjson_Correct
  imports Cjson_Refine
begin

text \<open>
  The parser as a whole: \<open>parse_value\<close> implements the reference parser within its recursion bound,
  so \<open>cJSON_Parse\<close> always returns, never leaves its buffers, leaks nothing when it fails and hands
  out a tree that \<open>cJSON_Delete\<close> takes apart completely.
\<close>

section \<open>Values\<close>

lemma value_failed:
  "heap_wf h \<Longrightarrow> same_text b b' \<Longrightarrow> ref b = None \<Longrightarrow> value_result ref p n b h (False, b', h)"
  by (simp add: value_result_def heap_step_refl)

definition container ::
  "int \<Rightarrow> byte \<Rightarrow> (parse_buffer \<Rightarrow> loop_result) \<Rightarrow> nat \<Rightarrow> parse_buffer \<Rightarrow> heap \<Rightarrow> parsed"
where
  "container ty close lp p b h =
     do {
       b2 \<leftarrow> buffer_skip_whitespace (b\<lparr>depth := depth b + 1, offset := offset b + 1\<rparr>);
       c \<leftarrow> peek b2;
       if c = Some close then container_success ty p 0 0 b2 h
       else if c = None then Some (False, b2\<lparr>offset := offset b2 - 1\<rparr>, h)
       else do {
         (head, cur, ok, b3, h3) \<leftarrow> lp (b2\<lparr>offset := offset b2 - 1\<rparr>);
         if ok then container_success ty p head cur b3 h3 else container_fail head b3 h3
       }
     }"

lemma built_empty: "heap_wf h \<Longrightarrow> built h h 0 0 [] []"
  by (simp add: built_def framed_def heap_step_refl)

lemma container_result:
  assumes wf: "heap_wf h" and n: "nodes h p = Some n" "blank_node n" and tm: "terminated b"
    and d: "depth b < CJSON_NESTING_LIMIT" and o: "offset b < buf_length b" and ty: "no_flags ty"
    and loop: "\<And>b0. terminated b0 \<Longrightarrow> same_text b b0 \<Longrightarrow> offset b \<le> offset b0 \<Longrightarrow>
      offset b0 + 1 < buf_length b \<Longrightarrow> \<exists>r. lp b0 = Some r \<and> loop_ok h h b0 [] (parts b0) r"
  shows "\<exists>r. container ty close lp p b h = Some r \<and> value_result (ref_container ty close parts) p n b h r"
proof -
  let ?b1 = "b\<lparr>depth := depth b + 1, offset := offset b + 1\<rparr>"
  have sb1: "same_text b ?b1" by (simp add: same_text_def)
  have tm1: "terminated ?b1" using sb1 tm by (rule same_text_terminated)
  obtain q where q: "buffer_skip_whitespace ?b1 = Some (?b1\<lparr>offset := q\<rparr>)" "offset b + 1 \<le> q"
      "offset b + 1 < buf_length b \<longrightarrow> q < buf_length b" "\<not> offset b + 1 < buf_length b \<longrightarrow> q = offset b + 1"
      "peek (?b1\<lparr>offset := q\<rparr>) = Some (if q < buf_length b then Some (content b ! q) else None)"
  proof -
    have "buf_length ?b1 = buf_length b" "content ?b1 = content b" "offset ?b1 = offset b + 1" by simp_all
    then show thesis using skip_peek [OF tm1] that by metis
  qed
  let ?b2 = "?b1\<lparr>offset := q\<rparr>"
  have closing: "\<exists>h2. container_success ty p head cur b3 h' = Some (True, b3\<lparr>depth := depth b3 - 1, offset := offset b3 + 1\<rparr>, h2)
      \<and> value_result (ref_container ty close parts) p n b h
          (True, b3\<lparr>depth := depth b3 - 1, offset := offset b3 + 1\<rparr>, h2)"
    if B: "built h h' head cur ts F" and sb: "same_text b b3" "depth b3 = depth b + 1" "offset b < offset b3"
      "offset b3 < buf_length b"
      and ref: "ref_container ty close parts b
        = Some (JT ty 0 zero_double None None ts, b3\<lparr>depth := depth b3 - 1, offset := offset b3 + 1\<rparr>)"
    for head cur b3 h' ts F
    using container_success_result [OF B n wf ty, of b3] sb ref
    by (fastforce simp: value_result_def same_text_def)
  consider (empty) "q < buf_length b" "content b ! q = close" | (end_) "\<not> q < buf_length b"
    | (parts) "q < buf_length b" "content b ! q \<noteq> close" by blast
  then show ?thesis
  proof cases
    case empty
    have "ref_container ty close parts b
        = Some (JT ty 0 zero_double None None [], ?b2\<lparr>depth := depth ?b2 - 1, offset := offset ?b2 + 1\<rparr>)"
      using d q empty by (simp add: ref_container_def)
    from closing [OF built_empty [OF wf] _ _ _ _ this] show ?thesis
      using q empty sb1 by (auto simp: container_def same_text_def)
  next
    case end_
    have "ref_container ty close parts b = None" using d q end_ by (simp add: ref_container_def)
    then show ?thesis
      using q end_ value_failed [OF wf] by (auto simp: container_def same_text_def)
  next
    case parts
    let ?b0 = "?b2\<lparr>offset := q - 1\<rparr>"
    have sb0: "same_text b ?b0" by (simp add: same_text_def)
    have "\<exists>r. lp ?b0 = Some r \<and> loop_ok h h ?b0 [] (parts ?b0) r"
      by (rule loop [OF same_text_terminated [OF sb0 tm] sb0]) (use q(2) parts(1) in auto)
    then obtain r where r: "lp ?b0 = Some r" "loop_ok h h ?b0 [] (parts ?b0) r" by blast
    obtain head cur ok b3 h3 where r5: "r = (head, cur, ok, b3, h3)" by (cases r) auto
    have lk: "heap_step h h3" "same_text ?b0 b3" using r(2) by (simp_all add: loop_ok_def r5)
    have sb3: "same_text b b3" using sb0 lk(2) by (rule same_text_trans)
    show ?thesis
    proof (cases ok)
      case True
      obtain us F' where u: "parts ?b0 = Some (us, b3)" "built h h3 head cur us F'" "q - 1 < offset b3"
          "offset b3 < buf_length b" "depth b3 = depth b + 1"
        using r(2) True by (auto simp: loop_ok_def r5)
      have "ref_container ty close parts b
          = Some (JT ty 0 zero_double None None us, b3\<lparr>depth := depth b3 - 1, offset := offset b3 + 1\<rparr>)"
        using d q parts u(1) by (simp add: ref_container_def)
      moreover have "offset b < offset b3" using q(2) u(3) by simp
      ultimately show ?thesis
        using closing [OF u(2) sb3 u(5) _ u(4)] q parts r(1) r5 True by (auto simp: container_def)
    next
      case False
      obtain ts' F' where u: "built h h3 head cur ts' F'" "parts ?b0 = None \<or> oom h h3"
        using r(2) False by (auto simp: loop_ok_def r5)
      obtain h2 where h2: "container_fail head b3 h3 = Some (False, b3, h2)" "heap_step h3 h2"
          "nodes h2 = nodes h" "strs h2 = strs h"
        using container_fail_result [OF u(1) wf] by blast
      have "parts ?b0 = None \<Longrightarrow> ref_container ty close parts b = None"
        using d q parts by (simp add: ref_container_def)
      then have "value_result (ref_container ty close parts) p n b h (False, b3, h2)"
        using heap_step_trans [OF lk(1) h2(2)] h2(3,4) sb3 u(2) oom_step(2) [OF _ h2(2)]
        by (auto simp: value_result_def)
      then show ?thesis
        using q parts r(1) r5 False h2(1) by (auto simp: container_def)
    qed
  qed
qed

lemma parse_array_container:
  assumes "depth b < CJSON_NESTING_LIMIT" "offset b < length (content b)" "content b ! offset b = 91"
  shows "parse_array pv f p b h = container 32 93 (\<lambda>b. array_loop pv f 0 0 b h) p b h"
  using assms by (simp add: parse_array_def container_def)

lemma parse_object_container:
  assumes "depth b < CJSON_NESTING_LIMIT" "peek b = Some (Some 123)"
  shows "parse_object pv f p b h = container 64 125 (\<lambda>b. object_loop pv f 0 0 b h) p b h"
  using assms by (simp add: parse_object_def container_def)

lemma ref_number_name: "ref_number b = Some (t, b') \<Longrightarrow> jt_name t = None"
  by (auto simp: ref_number_def leaf_def run_simps Let_def split: prod.splits if_splits)

lemma ref_string_value_name: "ref_string_value b = Some (t, b') \<Longrightarrow> jt_name t = None"
  by (auto simp: ref_string_value_def leaf_def)

lemma ref_container_name: "ref_container ty c parts b = Some (t, b') \<Longrightarrow> jt_name t = None"
  by (auto simp: ref_container_def run_simps split: if_splits)

lemma ref_value_name: "ref_value f b = Some (t, b') \<Longrightarrow> jt_name t = None"
proof (cases f)
  case (Suc g)
  assume "ref_value f b = Some (t, b')"
  then consider "leaf 4 0 zero_double None = t" | "leaf 1 0 zero_double None = t" | "leaf 2 1 zero_double None = t"
    | "ref_string_value b = Some (t, b')" | "ref_number b = Some (t, b')"
    | ty c parts where "ref_container ty c parts b = Some (t, b')"
    unfolding Suc ref_value.simps bind_eq_Some_conv
    by (elim exE conjE) (simp split: if_split_asm option.split_asm add: bind_eq_Some_conv; blast)
  then show ?thesis
    by cases (auto simp: leaf_def dest: ref_number_name ref_string_value_name ref_container_name)
qed simp

lemma value_result_cong:
  "value_result ref p n b h r \<Longrightarrow> ref b = ref' b \<Longrightarrow> value_result ref' p n b h r"
  by (cases r) (auto simp: value_result_def split: if_splits)

lemma set_item_result:
  assumes "heap_wf h" "nodes h p = Some n" "blank_node n"
    and "g n = n\<lparr>c_valuedouble := zero_double, c_valueint := i, c_type := ty\<rparr>" "no_flags ty"
    and "ref b = Some (leaf ty i zero_double None, b\<lparr>offset := offset b + k\<rparr>)" "0 < k" "offset b + k \<le> buf_length b"
  shows "\<exists>r. set_item g k p b h = Some r \<and> value_result ref p n b h r"
proof -
  have "value_result ref p n b h (True, b\<lparr>offset := offset b + k\<rparr>, h\<lparr>nodes := (nodes h)(p \<mapsto> g n)\<rparr>)"
    by (rule scalar_result [OF assms(1-5)]) (use assms(6-8) in auto)
  then show ?thesis using assms(2) by (simp add: set_item_def upd_node_def)
qed

lemma keyword_True: "keyword b s = Some True \<Longrightarrow> offset b + length s \<le> buf_length b"
  by (simp add: keyword_def can_read_def split: if_splits)

theorem parse_value_spec: "value_spec (parse_value f) (ref_value f) f"
proof (induction f)
  case 0
  then show ?case by (simp add: value_spec_def)
next
  case (Suc f)
  show ?case
    unfolding value_spec_def
  proof (intro allI impI)
    fix p n b h
    assume a: "heap_wf h \<and> nodes h p = Some n \<and> blank_node n \<and> terminated b \<and> buf_length b - offset b < Suc f"
    then have wf: "heap_wf h" and n: "nodes h p = Some n" "blank_node n" and tm: "terminated b"
      and rem: "buf_length b - offset b \<le> f" by auto
    have bo: "buffer_ok b" using tm by (simp add: terminated_def)
    note kw = keyword_total [OF bo]
    let ?goal = "\<exists>r. parse_value (Suc f) p b h = Some r \<and> value_result (ref_value (Suc f)) p n b h r"
    have pk: "peek b = Some (if offset b < buf_length b then Some (content b ! offset b) else None)"
      by (rule peek_total [OF bo])
    have tf: "keyword b s = Some True \<or> keyword b s = Some False" for s
      unfolding kw by simp
    consider (null) "keyword b (ascii ''null'') = Some True"
      | (false_) "keyword b (ascii ''null'') = Some False" "keyword b (ascii ''false'') = Some True"
      | (true_) "keyword b (ascii ''null'') = Some False" "keyword b (ascii ''false'') = Some False"
          "keyword b (ascii ''true'') = Some True"
      | (other) "keyword b (ascii ''null'') = Some False" "keyword b (ascii ''false'') = Some False"
          "keyword b (ascii ''true'') = Some False"
      using tf by blast
    then show ?goal
    proof cases
      case null
      then have "\<exists>r. set_item (\<lambda>n. n\<lparr>c_type := 4\<rparr>) 4 p b h = Some r
          \<and> value_result (ref_value (Suc f)) p n b h r"
        using n(2) by (intro set_item_result [OF wf n, where ty = 4 and i = 0])
          (cases n; auto simp: blank_node_def dest: keyword_True)+
      then show ?thesis using null by simp
    next
      case false_
      then have "\<exists>r. set_item (\<lambda>n. n\<lparr>c_type := 1\<rparr>) 5 p b h = Some r
          \<and> value_result (ref_value (Suc f)) p n b h r"
        using n(2) by (intro set_item_result [OF wf n, where ty = 1 and i = 0])
          (cases n; auto simp: blank_node_def dest: keyword_True)+
      then show ?thesis using false_ by simp
    next
      case true_
      then have "\<exists>r. set_item (\<lambda>n. n\<lparr>c_type := 2, c_valueint := 1\<rparr>) 4 p b h = Some r
          \<and> value_result (ref_value (Suc f)) p n b h r"
        using n(2) by (intro set_item_result [OF wf n, where ty = 2 and i = 1])
          (cases n; auto simp: blank_node_def dest: keyword_True)+
      then show ?thesis using true_ by simp
    next
      case other
      show ?thesis
      proof (cases "offset b < buf_length b")
        case False
        then have "ref_value (Suc f) b = None" using other pk by simp
        then show ?thesis using False other pk value_failed [OF wf] by simp
      next
        case o: True
        let ?x = "content b ! offset b"
        have oc: "offset b < length (content b)" using o bo by (simp add: buffer_ok_def)
        consider (str) "?x = 34" | (num) "?x \<noteq> 34" "?x = 45 \<or> 48 \<le> ?x \<and> ?x \<le> 57" | (arr) "?x = 91" | (obj) "?x = 123"
          | (bad) "?x \<noteq> 34" "\<not> (?x = 45 \<or> 48 \<le> ?x \<and> ?x \<le> 57)" "?x \<noteq> 91" "?x \<noteq> 123" by blast
        then show ?thesis
        proof cases
          case str
          have run: "parse_value (Suc f) p b h = parse_string p b h"
            and ref: "ref_string_value b = ref_value (Suc f) b" using other pk o str by simp_all
          show ?thesis
            unfolding run using parse_string_result [OF wf n tm o] value_result_cong [of ref_string_value p n b h _ "ref_value (Suc f)", OF _ ref] by blast
        next
          case num
          have run: "parse_value (Suc f) p b h = parse_number p b h"
            and ref: "ref_number b = ref_value (Suc f) b" using other pk o num by simp_all
          show ?thesis
            unfolding run using parse_number_result [OF wf n tm] value_result_cong [of ref_number p n b h _ "ref_value (Suc f)", OF _ ref] by blast
        next
          case arr
          have run: "parse_value (Suc f) p b h = parse_array (parse_value f) f p b h"
            and ref: "ref_value (Suc f) b = ref_container 32 93 (ref_elems (ref_value f) f) b"
            using other pk o arr by simp_all
          show ?thesis
          proof (cases "depth b < CJSON_NESTING_LIMIT")
            case False
            then show ?thesis
              using run ref value_failed [OF wf] by (simp add: parse_array_def ref_container_def)
          next
            case True
            have "\<exists>r. array_loop (parse_value f) f 0 0 b0 h = Some r
                \<and> loop_ok h h b0 [] (ref_elems (ref_value f) f b0) r"
              if "terminated b0" "same_text b b0" "offset b \<le> offset b0" "offset b0 + 1 < buf_length b" for b0
              using that rem
              by (intro array_loop_result [OF Suc.IH ref_value_name built_empty [OF wf]]) (auto simp: same_text_def)
            note L = this
            have "\<exists>r. container 32 93 (\<lambda>b. array_loop (parse_value f) f 0 0 b h) p b h = Some r
                \<and> value_result (ref_container 32 93 (ref_elems (ref_value f) f)) p n b h r"
              by (rule container_result [OF wf n tm True o]) (simp, rule L)
            then show ?thesis
              unfolding run parse_array_container [OF True oc arr]
              by (blast intro: value_result_cong ref [symmetric])
          qed
        next
          case obj
          have run: "parse_value (Suc f) p b h = parse_object (parse_value f) f p b h"
            and ref: "ref_value (Suc f) b = ref_container 64 125 (ref_members (ref_value f) f) b"
            using other pk o obj by simp_all
          have pko: "peek b = Some (Some 123)" using pk o obj by simp
          show ?thesis
          proof (cases "depth b < CJSON_NESTING_LIMIT")
            case False
            then show ?thesis
              using run ref value_failed [OF wf] by (simp add: parse_object_def ref_container_def)
          next
            case True
            have "\<exists>r. object_loop (parse_value f) f 0 0 b0 h = Some r
                \<and> loop_ok h h b0 [] (ref_members (ref_value f) f b0) r"
              if "terminated b0" "same_text b b0" "offset b \<le> offset b0" "offset b0 + 1 < buf_length b" for b0
              using that rem
              by (intro object_loop_result [OF Suc.IH built_empty [OF wf]]) (auto simp: same_text_def)
            note L = this
            have "\<exists>r. container 64 125 (\<lambda>b. object_loop (parse_value f) f 0 0 b h) p b h = Some r
                \<and> value_result (ref_container 64 125 (ref_members (ref_value f) f)) p n b h r"
              by (rule container_result [OF wf n tm True o]) (simp, rule L)
            then show ?thesis
              unfolding run parse_object_container [OF True pko]
              by (blast intro: value_result_cong ref [symmetric])
          qed
        next
          case bad
          then have "ref_value (Suc f) b = None" "parse_value (Suc f) p b h = Some (False, b, h)"
            using other pk o by auto
          then show ?thesis using value_failed [OF wf] by simp
        qed
      qed
    qed
  qed
qed

section \<open>Whole texts\<close>

text \<open>The reference for a text of \<open>len\<close> bytes: the tree and the position after it.\<close>

definition ref_text :: "bytes \<Rightarrow> nat \<Rightarrow> bool \<Rightarrow> (jtree \<times> nat) option" where
  "ref_text m len require_null_terminated =
     do {
       sb \<leftarrow> skip_utf8_bom \<lparr>content = m, buf_length = len, offset = 0, depth = 0\<rparr>;
       b0 \<leftarrow> sb;
       b1 \<leftarrow> buffer_skip_whitespace b0;
       (t, b2) \<leftarrow> ref_value (parse_fuel len) b1;
       if require_null_terminated
       then do { b3 \<leftarrow> buffer_skip_whitespace b2; c \<leftarrow> peek b3; if c = Some 0 then Some (t, offset b3) else None }
       else Some (t, offset b2)
     }"

lemma filled_item:
  assumes "filled h p n F t" "c_string n = 0" "p \<noteq> 0" "jt_name t = None"
  shows "item h p (p # F) t \<and> (\<exists>n'. nodes h p = Some n' \<and> c_next n' = c_next n)"
proof -
  obtain n' Fv Fk kps where fl: "F = Fv @ Fk" "nodes h p = Some n'" "c_next n' = c_next n" "c_string n' = c_string n"
      "c_type n' = jt_type t" "c_valueint n' = jt_int t" "c_valuedouble n' = jt_double t"
      "no_flags (jt_type t)" "own h (c_valuestring n') Fv (jt_string t)"
      "chain h kps 0 Fk (jt_kids t)" "c_child n' = hd (kps @ [0])" "prevs h kps"
    using assms(1) unfolding filled_def by blast
  have "item h p (p # Fv @ [] @ Fk)
      (JT (c_type n') (c_valueint n') (c_valuedouble n') (jt_string t) None (jt_kids t))"
    by (rule node [OF fl(2) assms(3) fl(9) _ _ _ fl(10,11,12)])
       (use fl assms(2) in \<open>auto simp: no_flags_def own_def\<close>)
  moreover have "JT (c_type n') (c_valueint n') (c_valuedouble n') (jt_string t) None (jt_kids t) = t"
    using fl assms(4) by (cases t) simp
  ultimately show ?thesis using fl(1-3) by simp
qed

lemma blank_item:
  assumes "nodes h p = Some n" "blank_node n" "no_flags (c_type n)" "c_string n = 0" "p \<noteq> 0"
  shows "\<exists>t. item h p [p] t"
proof -
  have "item h p (p # [] @ [] @ []) (JT (c_type n) (c_valueint n) (c_valuedouble n) None None [])"
    by (rule node [OF assms(1,5), where kps = "[]"])
       (use assms in \<open>auto simp: blank_node_def own_def no_flags_def prevs_def\<close>)
  then show ?thesis by auto
qed

text \<open>A root created in \<open>h\<close> and everything below it is released again by \<open>cJSON_Delete\<close>.\<close>

lemma root_deleted:
  assumes wf: "heap_wf h" and new: "cJSON_New_Item h = (p, h1)" "p \<noteq> 0"
    and fr: "framed F p h1 h2" and it: "item h2 p (p # F) t" "distinct (p # F)"
    and n: "nodes h2 p = Some n" "c_next n = 0" and wf2: "heap_wf h2"
  shows "cJSON_Delete p h2 = Some (release (p # F) h2)
    \<and> nodes (release (p # F) h2) = nodes h \<and> strs (release (p # F) h2) = strs h"
proof -
  note N = New_Item_step [OF wf new(1)] and f = New_Item_step(3) [OF wf new(1) new(2)]
  have "cJSON_Delete p h2 = Some (release (p # F) h2)"
    using cJSON_Delete_chain [OF chain_single [OF it(1) n] it(2) wf2] by simp
  moreover have "nodes (release (p # F) h2) a = nodes h a \<and> strs (release (p # F) h2) a = strs h a" for a
  proof (cases "a \<in> set (p # F)")
    case True
    then have "brk h < a" using fr f by (auto simp: framed_def)
    then show ?thesis using heap_wf_fresh [OF wf] True by (simp add: release_def)
  next
    case False
    then show ?thesis using fr f by (simp add: release_def framed_def)
  qed
  ultimately show ?thesis by blast
qed

text \<open>What the caller gets. A root owns the addresses \<open>F\<close>; deleting it gives back the old heap.\<close>

definition parse_outcome ::
  "(jtree \<times> nat) option \<Rightarrow> bytes \<Rightarrow> nat \<Rightarrow> heap \<Rightarrow> nat \<times> nat option \<times> heap \<Rightarrow> bool"
where
  "parse_outcome ref m len h r \<longleftrightarrow>
     (case r of (root, parse_end, h') \<Rightarrow>
        heap_wf h' \<and> avail h' = avail h \<and> brk h \<le> brk h'
        \<and> (if root \<noteq> 0
           then \<exists>t q F h2. ref = Some (t, q) \<and> parse_end = Some q \<and> q \<le> len \<and> global_error h' = None
              \<and> item h' root F t \<and> distinct F \<and> set F \<subseteq> {brk h<..brk h'}
              \<and> (\<forall>a. a \<notin> set F \<longrightarrow> nodes h' a = nodes h a \<and> strs h' a = strs h a)
              \<and> cJSON_Delete root h' = Some h2 \<and> nodes h2 = nodes h \<and> strs h2 = strs h
           else nodes h' = nodes h \<and> strs h' = strs h \<and> (ref = None \<or> oom h h')
              \<and> (\<exists>q<len. parse_end = Some q \<and> global_error h' = Some (m, q))))"

lemma parse_failed:
  assumes wf: "heap_wf h2" "avail h2 = avail h" "brk h \<le> brk h2"
    and del: "(if p \<noteq> 0 then cJSON_Delete p h2 else Some h2) = Some h3" "h3 = release F h2"
    and eq: "nodes h3 = nodes h" "strs h3 = strs h" and len: "0 < len" and r: "ref = None \<or> oom h h2"
  shows "parse_outcome ref m len h
    (0, Some (if o' < len then o' else len - 1), h3\<lparr>global_error := Some (m, if o' < len then o' else len - 1)\<rparr>)"
proof -
  have "heap_wf h3" using wf(1) del(2) release_wf by simp
  then have "heap_wf (h3\<lparr>global_error := e\<rparr>)" for e by (simp add: heap_wf_def)
  moreover have "oom h h2 \<Longrightarrow> oom h (h3\<lparr>global_error := e\<rparr>)" for e
    using del(2) by (simp add: oom_def)
  ultimately show ?thesis using assms by (auto simp: parse_outcome_def)
qed

theorem cJSON_ParseWithLengthOpts_correct:
  assumes wf0: "heap_wf h" and len: "0 < len" "len \<le> length m" and nul: "m ! (len - 1) = 0"
  shows "\<exists>r. cJSON_ParseWithLengthOpts (Some m) len req h = Some r \<and> parse_outcome (ref_text m len req) m len h r"
proof -
  let ?h0 = "h\<lparr>global_error := None\<rparr>"
  let ?b = "\<lparr>content = m, buf_length = len, offset = 0, depth = 0\<rparr>"
  have wf: "heap_wf ?h0" using wf0 by (simp add: heap_wf_def)
  have tm: "terminated ?b" using len nul by (simp add: terminated_def buffer_ok_def)
  have bo: "buffer_ok ?b" using tm by (simp add: terminated_def)
  obtain p h1 where new: "cJSON_New_Item ?h0 = (p, h1)" by fastforce
  note N = New_Item_step [OF wf new]
  show ?thesis
  proof (cases "p = 0")
    case True
    have "parse_outcome (ref_text m len req) m len h
        (0, Some (if 0 < len then 0 else len - 1), h1\<lparr>global_error := Some (m, if 0 < len then 0 else len - 1)\<rparr>)"
      using N(1) N(2) [OF True] True len
      by (intro parse_failed [where p = 0 and F = "[]" and ?h2.0 = h1]) (auto simp: heap_step_def oom_def)
    then show ?thesis using True new len by (auto simp: cJSON_ParseWithLengthOpts_def)
  next
    case p: False
    note f = N(3) [OF p]
    obtain q0 where q0: "skip_utf8_bom ?b = Some (Some (?b\<lparr>offset := q0\<rparr>))"
      using skip_utf8_bom_total [OF bo] by auto
    have "terminated (?b\<lparr>offset := q0\<rparr>)" using tm by (rule same_text_terminated [rotated]) (simp add: same_text_def)
    then obtain q1 where q1: "buffer_skip_whitespace (?b\<lparr>offset := q0\<rparr>) = Some (?b\<lparr>offset := q1\<rparr>)"
      using skip_peek by fastforce
    let ?b1 = "?b\<lparr>offset := q1\<rparr>"
    have tm1: "terminated ?b1" using tm by (rule same_text_terminated [rotated]) (simp add: same_text_def)
    have n: "nodes h1 p = Some zero_node" "blank_node zero_node" "c_next zero_node = 0" "c_string zero_node = 0"
        "c_type zero_node = 0" using f by (auto simp: zero_node_def blank_node_def)
    have wf1: "heap_wf h1" using N(1) by (simp add: heap_step_def)
    obtain ok b2 h2 where r: "parse_value (parse_fuel len) p ?b1 h1 = Some (ok, b2, h2)"
        "value_result (ref_value (parse_fuel len)) p zero_node ?b1 h1 (ok, b2, h2)"
    proof -
      have "buf_length ?b1 - offset ?b1 < parse_fuel len" by (simp add: parse_fuel_def)
      then have "\<exists>r. parse_value (parse_fuel len) p ?b1 h1 = Some r
          \<and> value_result (ref_value (parse_fuel len)) p zero_node ?b1 h1 r"
        using parse_value_spec [of "parse_fuel len"] wf1 n(1,2) tm1 unfolding value_spec_def by blast
      then show thesis using that by (metis prod_cases3)
    qed
    have st: "heap_step ?h0 h2" "same_text ?b1 b2" "heap_step h1 h2"
      using r(2) heap_step_trans [OF N(1)] by (auto simp: value_result_def)
    then have st': "heap_wf h2" "avail h2 = avail h" "brk h \<le> brk h2" "global_error h2 = None"
      by (auto simp: heap_step_def)
    have tm2: "terminated b2" using st(2) tm1 by (rule same_text_terminated)
    have len2: "buf_length b2 = len" using st(2) by (simp add: same_text_def)
    show ?thesis
    proof (cases ok)
      case False
      have h2: "nodes h2 = nodes h1" "strs h2 = strs h1" "ref_value (parse_fuel len) ?b1 = None \<or> oom h1 h2"
        using r(2) False by (auto simp: value_result_def)
      obtain t where "item h2 p [p] t" using blank_item [of h2 p zero_node] h2(1) n p by auto
      moreover have "framed [] p h1 h2" using h2 by (simp add: framed_def)
      ultimately have del: "cJSON_Delete p h2 = Some (release [p] h2)" "nodes (release [p] h2) = nodes h"
          "strs (release [p] h2) = strs h"
        using root_deleted [OF wf new p, of "[]" h2 t zero_node] h2(1) n(1,3) st'(1) by auto
      have "oom h1 h2 \<Longrightarrow> oom h h2" using oom_step(1) [OF N(1)] by (simp add: oom_def)
      then have "parse_outcome (ref_text m len req) m len h
          (0, Some (if offset b2 < len then offset b2 else len - 1),
           (release [p] h2)\<lparr>global_error := Some (m, if offset b2 < len then offset b2 else len - 1)\<rparr>)"
        using del p h2(3) len q0 q1
        by (intro parse_failed [OF st'(1-3), of p _ "[p]"]) (auto simp: ref_text_def)
      then show ?thesis using new p len q0 q1 r(1) False del by (simp add: cJSON_ParseWithLengthOpts_def Let_def)
    next
      case True
      obtain t F where t: "ref_value (parse_fuel len) ?b1 = Some (t, b2)" "jt_name t = None" "framed F p h1 h2"
          "filled h2 p zero_node F t" "offset b2 \<le> len"
        using r(2) True by (auto simp: value_result_def)
      obtain n' where it: "item h2 p (p # F) t" "nodes h2 p = Some n'" "c_next n' = 0"
        using filled_item [OF t(4) n(4) p t(2)] n(3) by auto
      have D: "distinct (p # F)" using t(3,4) f by (auto simp: framed_def filled_def)
      note del = root_deleted [OF wf new p t(3) it(1) D it(2,3) st'(1)]
      obtain q2 where q2: "buffer_skip_whitespace b2 = Some (b2\<lparr>offset := q2\<rparr>)"
          "offset b2 < len \<longrightarrow> q2 < len" "\<not> offset b2 < len \<longrightarrow> q2 = offset b2"
          "peek (b2\<lparr>offset := q2\<rparr>) = Some (if q2 < len then Some (content b2 ! q2) else None)"
        using skip_peek [OF tm2] len2 by metis
      have win: "parse_outcome ref m len h (p, Some q, h2)" if "ref = Some (t, q)" "q \<le> len" for ref q
      proof -
        have "set (p # F) \<subseteq> {brk h<..brk h2}" using t(3) f st(3) by (auto simp: framed_def heap_step_def)
        moreover have "nodes h2 a = nodes h a \<and> strs h2 a = strs h a" if "a \<notin> set (p # F)" for a
          using that t(3) f by (simp add: framed_def)
        ultimately have "\<exists>t' q' F' h3. ref = Some (t', q') \<and> Some q = Some q' \<and> q' \<le> len
            \<and> global_error h2 = None \<and> item h2 p F' t' \<and> distinct F' \<and> set F' \<subseteq> {brk h<..brk h2}
            \<and> (\<forall>a. a \<notin> set F' \<longrightarrow> nodes h2 a = nodes h a \<and> strs h2 a = strs h a)
            \<and> cJSON_Delete p h2 = Some h3 \<and> nodes h3 = nodes h \<and> strs h3 = strs h"
          using that st'(4) it(1) D del
          by (intro exI [of _ t] exI [of _ q] exI [of _ "p # F"] exI [of _ "release (p # F) h2"]) simp
        then show ?thesis
          using st' p unfolding parse_outcome_def by (simp only: prod.case if_True not_False_eq_True simp_thms)
      qed
      show ?thesis
      proof (cases "req \<and> \<not> (q2 < len \<and> content b2 ! q2 = 0)")
        case bad: True
        have "parse_outcome (ref_text m len req) m len h
            (0, Some (if q2 < len then q2 else len - 1),
             (release (p # F) h2)\<lparr>global_error := Some (m, if q2 < len then q2 else len - 1)\<rparr>)"
          using del p len q0 q1 q2 t(1) bad
          by (intro parse_failed [OF st'(1-3), of p _ "p # F"]) (auto simp: ref_text_def)
        then show ?thesis
          using new p len q0 q1 q2 r(1) True del bad by (auto simp: cJSON_ParseWithLengthOpts_def Let_def)
      next
        case False
        then show ?thesis
          using new p len q0 q1 q2 r(1) True t(1,5) win [of "ref_text m len req" "if req then q2 else offset b2"]
          by (auto simp: cJSON_ParseWithLengthOpts_def ref_text_def)
      qed
    qed
  qed
qed

end
