(* ===== verification/Cjson_Links.thy ===== *)
theory Cjson_Links
  imports Cjson_Tree
begin

text \<open>
  The list of children of a node as a doubly linked list: segments of it, the trees of its nodes
  taken apart from their links, and what a change of links keeps.
\<close>

section \<open>Segments\<close>

text \<open>The nodes \<open>ps\<close> in a row, between \<open>b\<close> and \<open>e\<close>; the first \<open>prev\<close> of a list is its last node.\<close>

primrec seg :: "(nat \<rightharpoonup> cJSON) \<Rightarrow> nat \<Rightarrow> nat list \<Rightarrow> nat \<Rightarrow> bool" where
  "seg m b [] e \<longleftrightarrow> True"
| "seg m b (p # ps) e \<longleftrightarrow> (\<exists>n. m p = Some n \<and> c_prev n = b \<and> c_next n = hd (ps @ [e])) \<and> seg m p ps e"

definition linked :: "(nat \<rightharpoonup> cJSON) \<Rightarrow> nat list \<Rightarrow> bool" where
  "linked m ps \<longleftrightarrow> seg m (last ps) ps 0"

lemma seg_append [simp]: "seg m b (ps @ qs) e \<longleftrightarrow> seg m b ps (hd (qs @ [e])) \<and> seg m (last (b # ps)) qs e"
  by (induction ps arbitrary: b) (auto simp: hd_append)

lemma seg_upd [simp]: "p \<notin> set ps \<Longrightarrow> seg (m(p \<mapsto> n)) b ps e = seg m b ps e"
  by (induction ps arbitrary: b) auto

lemma seg_node: "seg m b ps e \<Longrightarrow> p \<in> set ps \<Longrightarrow> \<exists>n. m p = Some n"
  by (induction ps arbitrary: b) auto

lemma seg_cong: "(\<And>p. p \<in> set ps \<Longrightarrow> m' p = m p) \<Longrightarrow> seg m' b ps e = seg m b ps e"
  by (induction ps arbitrary: b) auto

section \<open>Children and links\<close>

definition kids_in :: "heap \<Rightarrow> nat list \<Rightarrow> (nat list \<times> jtree) list \<Rightarrow> bool" where
  "kids_in h ps Ks \<longleftrightarrow> list_all2 (\<lambda>p K. item h p (fst K) (snd K)) ps Ks"

lemma kids_in_simps [simp]:
  "kids_in h [] Ks \<longleftrightarrow> Ks = []"
  "kids_in h (p # ps) (K # Ks) \<longleftrightarrow> item h p (fst K) (snd K) \<and> kids_in h ps Ks"
  by (simp_all add: kids_in_def)

lemma kids_in_length: "kids_in h ps Ks \<Longrightarrow> length Ks = length ps"
  by (simp add: kids_in_def list_all2_lengthD)

lemma kids_in_append: "length ps = length Ks \<Longrightarrow> kids_in h (ps @ qs) (Ks @ Ls) \<longleftrightarrow> kids_in h ps Ks \<and> kids_in h qs Ls"
  by (simp add: kids_in_def list_all2_append)

lemma kids_in_append_left:
  "kids_in h (ps @ qs) Ms \<Longrightarrow> \<exists>Ks Ls. Ms = Ks @ Ls \<and> kids_in h ps Ks \<and> kids_in h qs Ls \<and> length Ks = length ps"
  by (auto simp: kids_in_def list_all2_append1)

lemma chain_iff:
  "chain h ps e F ts \<and> (\<forall>i<length ps. \<exists>n. nodes h (ps ! i) = Some n \<and> c_prev n = (if i = 0 then b else ps ! (i - 1)))
   \<longleftrightarrow> seg (nodes h) b ps e \<and> (\<exists>Ks. kids_in h ps Ks \<and> F = concat (map fst Ks) \<and> ts = map snd Ks)"
proof (induction ps arbitrary: b F ts)
  case (Cons p ps)
  have all: "(\<forall>i<length (p # ps). \<exists>n. nodes h ((p # ps) ! i) = Some n \<and> c_prev n = (if i = 0 then b else (p # ps) ! (i - 1)))
     \<longleftrightarrow> (\<exists>n. nodes h p = Some n \<and> c_prev n = b)
       \<and> (\<forall>i<length ps. \<exists>n. nodes h (ps ! i) = Some n \<and> c_prev n = (if i = 0 then p else ps ! (i - 1)))"
    unfolding length_Cons All_less_Suc2 by (simp add: nth_Cons')
  have ch: "chain h (p # ps) e F ts \<longleftrightarrow> (\<exists>F' t n G ts'. F = F' @ G \<and> ts = t # ts' \<and> item h p F' t
      \<and> nodes h p = Some n \<and> c_next n = hd (ps @ [e]) \<and> chain h ps e G ts')"
    (is "?l \<longleftrightarrow> ?r")
  proof
    assume ?l then show ?r by (elim chain_cons_elim) blast
  next
    assume ?r then show ?l by (blast intro: item_chain.cons)
  qed
  have kd: "(\<exists>Ks. kids_in h (p # ps) Ks \<and> F = concat (map fst Ks) \<and> ts = map snd Ks)
      \<longleftrightarrow> (\<exists>F' t G ts'. F = F' @ G \<and> ts = t # ts' \<and> item h p F' t
        \<and> (\<exists>Ks. kids_in h ps Ks \<and> G = concat (map fst Ks) \<and> ts' = map snd Ks))" (is "?l \<longleftrightarrow> ?r")
  proof
    assume ?l
    then obtain Ks where "kids_in h (p # ps) Ks" "F = concat (map fst Ks)" "ts = map snd Ks" by blast
    then show ?r by (cases Ks) (auto simp: kids_in_def)
  next
    assume ?r
    then obtain F' t Ks where "F = F' @ concat (map fst Ks)" "ts = t # map snd Ks" "item h p F' t" "kids_in h ps Ks" by blast
    then show ?l by (intro exI [of _ "(F', t) # Ks"]) simp
  qed
  show ?case
    unfolding all ch kd seg.simps(2)
  proof (rule iffI, goal_cases)
    case 1
    then obtain F' t n G ts' where c: "F = F' @ G" "ts = t # ts'" "item h p F' t" "nodes h p = Some n"
        "c_next n = hd (ps @ [e])" "chain h ps e G ts'" "c_prev n = b"
      by auto
    then have "seg (nodes h) p ps e \<and> (\<exists>Ks. kids_in h ps Ks \<and> G = concat (map fst Ks) \<and> ts' = map snd Ks)"
      using 1 by (subst Cons.IH [symmetric]) blast
    then show ?case using c by blast
  next
    case 2
    then obtain F' t G ts' n where c: "F = F' @ G" "ts = t # ts'" "item h p F' t" "nodes h p = Some n"
        "c_next n = hd (ps @ [e])" "c_prev n = b" "\<exists>Ks. kids_in h ps Ks \<and> G = concat (map fst Ks) \<and> ts' = map snd Ks"
      by (elim conjE exE) blast
    with 2 Cons.IH [of G ts' p] show ?case by blast
  qed
qed auto

text \<open>A node with its parts.\<close>

lemma item_parts:
  "item h p F t \<longleftrightarrow>
     (\<exists>n Fv v Fs nm ps Ks. nodes h p = Some n \<and> p \<noteq> 0 \<and> own h (c_valuestring n) Fv v \<and> own h (c_string n) Fs nm
        \<and> \<not> flag (c_type n) cJSON_IsReference \<and> \<not> flag (c_type n) cJSON_StringIsConst
        \<and> kids_in h ps Ks \<and> linked (nodes h) ps \<and> c_child n = hd (ps @ [0])
        \<and> F = p # Fv @ Fs @ concat (map fst Ks)
        \<and> t = JT (c_type n) (c_valueint n) (c_valuedouble n) v nm (map snd Ks))"
  (is "_ \<longleftrightarrow> ?r")
proof
  assume "item h p F t"
  then obtain n Fv v Fs nm kps Fk kids
    where i: "nodes h p = Some n" "p \<noteq> 0" "own h (c_valuestring n) Fv v" "own h (c_string n) Fs nm"
      "\<not> flag (c_type n) 256" "\<not> flag (c_type n) 512" "chain h kps 0 Fk kids" "c_child n = hd (kps @ [0])" "prevs h kps"
      and eq: "F = p # Fv @ Fs @ Fk" "t = JT (c_type n) (c_valueint n) (c_valuedouble n) v nm kids"
    by (elim item_elim) blast
  obtain Ks where "linked (nodes h) kps" "kids_in h kps Ks" "Fk = concat (map fst Ks)" "kids = map snd Ks"
    using chain_iff [of h kps 0 Fk kids "last kps"] i unfolding prevs_def linked_def by blast
  with i show ?r unfolding eq by blast
next
  assume ?r
  then obtain n Fv v Fs nm ps Ks where i: "nodes h p = Some n" "p \<noteq> 0" "own h (c_valuestring n) Fv v" "own h (c_string n) Fs nm"
        "\<not> flag (c_type n) 256" "\<not> flag (c_type n) 512"
        "kids_in h ps Ks" "linked (nodes h) ps" "c_child n = hd (ps @ [0])"
        and eq: "F = p # Fv @ Fs @ concat (map fst Ks)"
        "t = JT (c_type n) (c_valueint n) (c_valuedouble n) v nm (map snd Ks)"
    by blast
  have "chain h ps 0 (concat (map fst Ks)) (map snd Ks) \<and> prevs h ps"
    using chain_iff [of h ps 0 "concat (map fst Ks)" "map snd Ks" "last ps"] i unfolding prevs_def linked_def by blast
  then show "item h p F t" unfolding eq using i by (intro item_chain.node) auto
qed

lemma kids_in_roots: "kids_in h ps Ks \<Longrightarrow> set ps \<subseteq> set (concat (map fst Ks)) \<and> 0 \<notin> set ps"
  unfolding kids_in_def by (induction rule: list_all2_induct) (auto dest: item_in)

lemma kids_in_distinct: "kids_in h ps Ks \<Longrightarrow> distinct (concat (map fst Ks)) \<Longrightarrow> distinct ps"
  unfolding kids_in_def
proof (induction rule: list_all2_induct)
  case (Cons p ps K Ks)
  then show ?case using item_in [OF Cons(1)] kids_in_roots [of h ps Ks] by (auto simp: kids_in_def)
qed simp

section \<open>Changing links\<close>

text \<open>Only the links of the nodes in \<open>L\<close> and the child pointer of \<open>a\<close> change.\<close>

definition links_only :: "nat \<Rightarrow> nat set \<Rightarrow> (nat \<rightharpoonup> cJSON) \<Rightarrow> (nat \<rightharpoonup> cJSON) \<Rightarrow> bool" where
  "links_only a L m m' \<longleftrightarrow> dom m' = dom m
     \<and> (\<forall>q. q \<noteq> a \<longrightarrow> (if q \<in> L then \<forall>n. m q = Some n \<longrightarrow> (\<exists>x y. m' q = Some (n\<lparr>c_next := x, c_prev := y\<rparr>))
            else m' q = m q))"

definition relinked :: "nat \<Rightarrow> nat set \<Rightarrow> heap \<Rightarrow> heap \<Rightarrow> bool" where
  "relinked a L h h' \<longleftrightarrow> strs h' = strs h \<and> brk h' = brk h \<and> avail h' = avail h \<and> global_error h' = global_error h
     \<and> links_only a L (nodes h) (nodes h')"

lemma same_links [simp]:
  "\<exists>x y. n = n\<lparr>c_next := x, c_prev := y\<rparr>"
  "\<exists>x y. n\<lparr>c_next := z\<rparr> = n\<lparr>c_next := x, c_prev := y\<rparr>"
  "\<exists>x y. n\<lparr>c_prev := w\<rparr> = n\<lparr>c_next := x, c_prev := y\<rparr>"
  "\<exists>x y. n\<lparr>c_next := z, c_prev := w\<rparr> = n\<lparr>c_next := x, c_prev := y\<rparr>"
  "\<exists>x y. n\<lparr>c_prev := w, c_next := z\<rparr> = n\<lparr>c_next := x, c_prev := y\<rparr>"
  by (rule exI [of _ "c_next n"], rule exI [of _ "c_prev n"], simp)
    (rule exI [of _ z], rule exI [of _ "c_prev n"], simp, rule exI [of _ "c_next n"], rule exI [of _ w], simp,
     (rule exI [of _ z], rule exI [of _ w], simp)+)

lemma links_only_refl [simp]: "links_only a L m m"
  by (auto simp: links_only_def)

lemma links_only_upd:
  "links_only a L m m' \<Longrightarrow> p \<in> L \<Longrightarrow> m p \<noteq> None \<Longrightarrow> \<forall>n. m p = Some n \<longrightarrow> (\<exists>x y. n' = n\<lparr>c_next := x, c_prev := y\<rparr>)
   \<Longrightarrow> links_only a L m (m'(p \<mapsto> n'))"
  by (auto simp: links_only_def)

lemma links_only_child: "links_only a L m m' \<Longrightarrow> m a \<noteq> None \<Longrightarrow> links_only a L m (m'(a \<mapsto> n'))"
  by (auto simp: links_only_def)

lemma relinked_wf: "relinked a L h h' \<Longrightarrow> heap_wf h \<Longrightarrow> heap_wf h'"
  unfolding relinked_def links_only_def heap_wf_def by (metis domI domIff not_None_eq)

lemma item_relinked:
  assumes "item h p F t" "distinct F" "relinked a L h h'" "a \<notin> set F" "set F \<inter> L \<subseteq> {p}"
  shows "item h' p F t"
proof -
  obtain n where n: "nodes h p = Some n" using item_in [OF assms(1)] by blast
  have pF: "p \<in> set F" using item_in [OF assms(1)] by blast
  have pa: "p \<noteq> a" using pF assms(4) by blast
  obtain x y where xy: "nodes h' p = Some (n\<lparr>c_next := x, c_prev := y\<rparr>)"
  proof (cases "p \<in> L")
    case True
    then show ?thesis using that assms(3) n pa unfolding relinked_def links_only_def by metis
  next
    case False
    then have "nodes h' p = Some (n\<lparr>c_next := c_next n, c_prev := c_prev n\<rparr>)"
      using assms(3) n pa unfolding relinked_def links_only_def by simp
    then show ?thesis using that by blast
  qed
  let ?h = "h\<lparr>nodes := (nodes h)(p \<mapsto> n\<lparr>c_next := x, c_prev := y\<rparr>)\<rparr>"
  have "item ?h p F t" by (rule item_links [OF assms(1,2) n refl])
  moreover have "same_on (set F) ?h h'"
    unfolding same_on_def
  proof
    fix q assume q: "q \<in> set F"
    then have "q \<noteq> a" "q = p \<or> q \<notin> L" using assms(4,5) by blast+
    then show "nodes h' q = nodes ?h q \<and> strs h' q = strs ?h q"
      using assms(3) xy unfolding relinked_def links_only_def by (cases "q = p") auto
  qed
  ultimately show ?thesis by (rule item_frame)
qed

lemma distinct_concat_nth:
  "distinct (concat (map f Ks)) \<Longrightarrow> i < length Ks \<Longrightarrow> j < length Ks \<Longrightarrow> i \<noteq> j \<Longrightarrow> set (f (Ks ! i)) \<inter> set (f (Ks ! j)) = {}"
proof (induction Ks arbitrary: i j)
  case (Cons K Ks)
  have "set (f K) \<inter> set (f (Ks ! k)) = {}" if "k < length Ks" for k
    using Cons.prems(1) nth_mem [OF that] by auto
  then show ?case using Cons by (cases i; cases j) (simp_all add: Int_commute)
qed simp

lemma kids_relinked:
  assumes k: "kids_in h ps Ks" and d: "distinct (concat (map fst Ks))" and r: "relinked a (set ps) h h'"
    and a: "a \<notin> set (concat (map fst Ks))"
  shows "kids_in h' ps Ks"
  unfolding kids_in_def list_all2_conv_all_nth
proof (intro conjI allI impI)
  show l: "length ps = length Ks" using kids_in_length [OF k] by simp
  fix i assume i: "i < length ps"
  have it: "item h (ps ! i) (fst (Ks ! i)) (snd (Ks ! i))" using k i l by (simp add: kids_in_def list_all2_conv_all_nth)
  have sub: "set (fst (Ks ! j)) \<subseteq> set (concat (map fst Ks))" if "j < length Ks" for j
    using that by (fastforce simp: in_set_conv_nth)
  have fam: "set (fst (Ks ! i)) \<inter> set (fst (Ks ! j)) = {}" if "i < length Ks" "j < length Ks" "i \<noteq> j" for i j
    using d that by (simp add: distinct_concat_nth)
  have "set (fst (Ks ! i)) \<inter> set ps \<subseteq> {ps ! i}"
  proof
    fix q assume q: "q \<in> set (fst (Ks ! i)) \<inter> set ps"
    then obtain j where j: "j < length ps" "q = ps ! j" by (auto simp: in_set_conv_nth)
    then have "q \<in> set (fst (Ks ! j))" using k l item_in by (fastforce simp: kids_in_def list_all2_conv_all_nth)
    then have "j = i" using fam [of i j] q i j(1) l by auto
    then show "q \<in> {ps ! i}" using j by simp
  qed
  then show "item h' (ps ! i) (fst (Ks ! i)) (snd (Ks ! i))"
    using item_relinked [OF it _ r] sub [of i] a d i l by (auto simp: distinct_concat_iff)
qed

end
