(* ===== verification/Cjson_Lookup.thy ===== *)
theory Cjson_Lookup
  imports Cjson_Links
begin

text \<open>
  Reading a cJSON structure: the member of an object with a given name, the elements of an array
  and their number, in terms of the tree it represents.
\<close>

section \<open>Looking up a member\<close>

definition member_is :: "bytes \<Rightarrow> jtree \<Rightarrow> bool" where
  "member_is name t \<longleftrightarrow> (case jt_name t of None \<Rightarrow> False | Some s \<Rightarrow> lower_cmp name s = Some 0)"

definition member :: "bytes \<Rightarrow> jtree \<Rightarrow> jtree option" where
  "member name t = find (member_is name) (jt_kids t)"

lemma to_lower_0: "to_lower c = 0 \<longleftrightarrow> c = 0"
proof -
  have "c + 32 \<noteq> 0" if "65 \<le> c" "c \<le> 90"
  proof
    assume "c + 32 = 0"
    then have "c = - 32" by (simp add: eq_neg_iff_add_eq_0)
    then show False using that by simp
  qed
  then show ?thesis by (auto simp: to_lower_def)
qed

lemma lower_cmp_total: "0 \<in> set a \<Longrightarrow> 0 \<in> set b \<Longrightarrow> \<exists>r. lower_cmp a b = Some r"
proof (induction a b rule: lower_cmp.induct)
  case (1 x xs y ys)
  show ?case
  proof (cases "to_lower x = to_lower y \<and> x \<noteq> 0")
    case True
    then have "y \<noteq> 0" using to_lower_0 by metis
    then show ?thesis using True 1 by auto
  qed auto
qed auto

lemma item_name: "item h p F t \<Longrightarrow> nodes h p = Some n \<Longrightarrow> \<exists>Fs. own h (c_string n) Fs (jt_name t)"
  by (auto elim!: item_elim)

lemma name_differs_item:
  assumes "item h p F t" "nodes h p = Some n" "0 \<in> set name"
  shows "name_differs False h name (c_string n) = Some (\<not> member_is name t)"
proof -
  obtain Fs where o: "own h (c_string n) Fs (jt_name t)" using item_name [OF assms(1,2)] by blast
  show ?thesis
  proof (cases "c_string n = 0")
    case True
    then show ?thesis using o by (simp add: own_def name_differs_def member_is_def)
  next
    case False
    then obtain s where s: "jt_name t = Some s" "strs h (c_string n) = Some s" "0 \<in> set s"
      using o by (auto simp: own_def)
    then show ?thesis
      using False lower_cmp_total [OF assms(3) s(3)] by (auto simp: name_differs_def member_is_def)
  qed
qed

lemma find_element_chain:
  "chain h ps 0 F ts \<Longrightarrow> 0 \<in> set name \<Longrightarrow>
     \<exists>p. find_element False h name (hd (ps @ [0])) = Some p
       \<and> (case find (member_is name) ts of None \<Rightarrow> p = 0 | Some t \<Rightarrow> \<exists>G. item h p G t)"
proof (induction ps arbitrary: F ts)
  case Nil
  then show ?case by (simp add: find_element.simps [of _ _ _ 0])
next
  case (Cons p ps)
  from Cons.prems(1) obtain F' t n G ts' where c: "ts = t # ts'" "item h p F' t" "nodes h p = Some n"
      "c_next n = hd (ps @ [0])" "chain h ps 0 G ts'"
    by (elim chain_cons_elim) blast
  have p: "p \<noteq> 0" using item_in [OF c(2)] by simp
  note d = name_differs_item [OF c(2,3) Cons.prems(2)]
  show ?case
  proof (cases "member_is name t")
    case True
    then show ?thesis using c(1-3) p d by (auto simp: find_element.simps [of _ _ _ p])
  next
    case False
    then show ?thesis
      using Cons.IH [OF c(5) Cons.prems(2)] c p d by (simp add: find_element.simps [of _ _ _ p])
  qed
qed

lemma GetObjectItem_item:
  assumes "item h p F t" and "0 \<in> set name"
  shows "\<exists>q. cJSON_GetObjectItem h p (Some name) = Some q
    \<and> (case member name t of None \<Rightarrow> q = 0 | Some u \<Rightarrow> q \<noteq> 0 \<and> (\<exists>G. item h q G u))"
proof -
  obtain n kps Fk where n: "nodes h p = Some n" "p \<noteq> 0" "chain h kps 0 Fk (jt_kids t)" "c_child n = hd (kps @ [0])"
    using assms(1) by (auto elim!: item_elim)
  obtain q where q: "find_element False h name (hd (kps @ [0])) = Some q"
      "case find (member_is name) (jt_kids t) of None \<Rightarrow> q = 0 | Some u \<Rightarrow> \<exists>G. item h q G u"
    using find_element_chain [OF n(3) assms(2)] by blast
  show ?thesis
  proof (cases "find (member_is name) (jt_kids t)")
    case None
    then show ?thesis using n q
      by (simp add: cJSON_GetObjectItem_def get_object_item_def member_def)
  next
    case (Some u)
    then obtain G where g: "item h q G u" using q(2) by auto
    obtain m where m: "nodes h q = Some m" "q \<noteq> 0" using item_in [OF g] by auto
    have "member_is name u" using Some by (auto simp: find_Some_iff)
    then have "c_string m \<noteq> 0"
      using item_name [OF g m(1)] by (auto simp: member_is_def own_def split: option.splits if_splits)
    then show ?thesis using n q(1) Some g m
      by (auto simp: cJSON_GetObjectItem_def get_object_item_def member_def)
  qed
qed

section \<open>Positions\<close>

text \<open>
  Whether a child has the name; the position of the first such child. The case sensitive search
  stops at a child without a name.
\<close>

definition named :: "bool \<Rightarrow> bytes \<Rightarrow> jtree \<Rightarrow> bool" where
  "named case_sensitive name t \<longleftrightarrow>
     (case jt_name t of None \<Rightarrow> False
      | Some s \<Rightarrow> (if case_sensitive then str_cmp name s else lower_cmp name s) = Some 0)"

fun first_named :: "bool \<Rightarrow> bytes \<Rightarrow> jtree list \<Rightarrow> nat option" where
  "first_named case_sensitive name [] = None"
| "first_named case_sensitive name (t # ts) =
     (if named case_sensitive name t then Some 0
      else if case_sensitive \<and> jt_name t = None then None
      else map_option Suc (first_named case_sensitive name ts))"

lemma str_cmp_total: "0 \<in> set as \<Longrightarrow> 0 \<in> set bs \<Longrightarrow> \<exists>r. str_cmp as bs = Some r"
  by (induction as bs rule: str_cmp.induct) auto

lemma name_differs_named:
  assumes "item h p F t" "nodes h p = Some n" "0 \<in> set name"
  shows "name_differs cs h name (c_string n)
    = Some (if jt_name t = None then \<not> cs else \<not> named cs name t)" and "jt_name t = None \<longleftrightarrow> c_string n = 0"
proof -
  obtain Fs where o: "own h (c_string n) Fs (jt_name t)" using item_name [OF assms(1,2)] by blast
  show "jt_name t = None \<longleftrightarrow> c_string n = 0" using o by (auto simp: own_def split: if_splits)
  show "name_differs cs h name (c_string n) = Some (if jt_name t = None then \<not> cs else \<not> named cs name t)"
  proof (cases "c_string n = 0")
    case True
    then show ?thesis using o by (simp add: own_def name_differs_def)
  next
    case False
    then obtain s where s: "jt_name t = Some s" "strs h (c_string n) = Some s" "0 \<in> set s"
      using o by (auto simp: own_def)
    then show ?thesis
      using False lower_cmp_total [OF assms(3) s(3)] str_cmp_total [OF assms(3) s(3)]
      by (auto simp: name_differs_def named_def)
  qed
qed

lemma find_element_kids:
  "kids_in h ps Ks \<Longrightarrow> seg (nodes h) b ps 0 \<Longrightarrow> 0 \<in> set name \<Longrightarrow>
   \<exists>q. find_element cs h name (hd (ps @ [0])) = Some q
     \<and> (case first_named cs name (map snd Ks) of
          Some i \<Rightarrow> i < length ps \<and> q = ps ! i \<and> jt_name (snd (Ks ! i)) \<noteq> None
        | None \<Rightarrow> q = 0 \<or> (\<exists>n. nodes h q = Some n \<and> c_string n = 0))"
proof (induction ps arbitrary: b Ks)
  case Nil
  then show ?case by (simp add: find_element.simps [of _ _ _ 0])
next
  case (Cons p ps)
  obtain K Ks' where K: "Ks = K # Ks'" "item h p (fst K) (snd K)" "kids_in h ps Ks'"
    using Cons.prems(1) by (cases Ks) (auto simp: kids_in_def)
  obtain n where n: "nodes h p = Some n" "c_next n = hd (ps @ [0])" "seg (nodes h) p ps 0" using Cons.prems(2) by auto
  have p: "p \<noteq> 0" using item_in [OF K(2)] by simp
  note d = name_differs_named(1) [OF K(2) n(1) Cons.prems(3), of cs] name_differs_named(2) [OF K(2) n(1) Cons.prems(3)]
  consider "named cs name (snd K)" | "\<not> named cs name (snd K)" "cs" "jt_name (snd K) = None"
    | "\<not> named cs name (snd K)" "\<not> (cs \<and> jt_name (snd K) = None)" by satx
  then show ?case
  proof cases
    case 1
    then have "jt_name (snd K) \<noteq> None" by (cases "jt_name (snd K)") (simp_all add: named_def)
    then show ?thesis using 1 K(1) n(1) p d by (simp add: find_element.simps [of _ _ _ p])
  next
    case 2
    then show ?thesis using K(1) n(1) p d by (simp add: find_element.simps [of _ _ _ p])
  next
    case 3
    then have "find_element cs h name p = find_element cs h name (hd (ps @ [0]))"
      using n(1,2) p d by (auto simp: find_element.simps [of _ _ _ p])
    then show ?thesis
      using Cons.IH [OF K(3) n(3) Cons.prems(3)] 3 K(1) by (auto split: option.splits)
  qed
qed

lemma get_object_item_kids:
  assumes k: "kids_in h ps Ks" "linked (nodes h) ps" and a: "nodes h a = Some n" "a \<noteq> 0" "c_child n = hd (ps @ [0])"
    and nm: "0 \<in> set name"
  shows "get_object_item h a (Some name) cs
    = Some (case first_named cs name (map snd Ks) of None \<Rightarrow> 0 | Some i \<Rightarrow> ps ! i)"
proof -
  obtain q where q: "find_element cs h name (hd (ps @ [0])) = Some q"
      "case first_named cs name (map snd Ks) of
          Some i \<Rightarrow> i < length ps \<and> q = ps ! i \<and> jt_name (snd (Ks ! i)) \<noteq> None
        | None \<Rightarrow> q = 0 \<or> (\<exists>n. nodes h q = Some n \<and> c_string n = 0)"
    using find_element_kids [OF k(1) _ nm] k(2) unfolding linked_def by blast
  show ?thesis
  proof (cases "first_named cs name (map snd Ks)")
    case None
    then show ?thesis using q a by (auto simp: get_object_item_def)
  next
    case (Some i)
    then have i: "i < length ps" "q = ps ! i" "jt_name (snd (Ks ! i)) \<noteq> None" using q by auto
    have it: "item h q (fst (Ks ! i)) (snd (Ks ! i))"
      using k(1) i by (simp add: kids_in_def list_all2_conv_all_nth)
    obtain m where m: "nodes h q = Some m" "q \<noteq> 0" using item_in [OF it] by auto
    have "c_string m \<noteq> 0" using name_differs_named(2) [OF it m(1) nm] i by simp
    then show ?thesis using Some q a m i by (simp add: get_object_item_def)
  qed
qed

section \<open>Arrays\<close>

lemma array_item_kids: "seg (nodes h) b ps 0 \<Longrightarrow> 0 \<notin> set ps \<Longrightarrow> array_item h (hd (ps @ [0])) i = Some (if i < length ps then ps ! i else 0)"
proof (induction ps arbitrary: b i)
  case Nil
  then show ?case by (cases i) auto
next
  case (Cons p ps)
  then show ?case by (cases i) auto
qed

lemma get_array_item_kids:
  "linked (nodes h) ps \<Longrightarrow> 0 \<notin> set ps \<Longrightarrow> nodes h a = Some n \<Longrightarrow> a \<noteq> 0 \<Longrightarrow> c_child n = hd (ps @ [0]) \<Longrightarrow>
   get_array_item h a i = Some (if i < length ps then ps ! i else 0)"
  by (simp add: get_array_item_def linked_def array_item_kids)

lemma array_size_kids: "seg (nodes h) b ps 0 \<Longrightarrow> 0 \<notin> set ps \<Longrightarrow> array_size h (hd (ps @ [0])) k = Some (k + length ps)"
proof (induction ps arbitrary: b k)
  case (Cons p ps)
  then show ?case by (auto simp: array_size.simps [of _ p])
qed (simp add: array_size.simps [of _ 0])

lemma GetArraySize_item: "item h a F t \<Longrightarrow> cJSON_GetArraySize h a = Some (int_cast (length (jt_kids t)))"
  unfolding item_parts
proof (elim exE conjE)
  fix n Fv v Fs nm ps Ks
  assume "nodes h a = Some n" "a \<noteq> 0" "kids_in h ps Ks" "linked (nodes h) ps" "c_child n = hd (ps @ [0])"
    "t = JT (c_type n) (c_valueint n) (c_valuedouble n) v nm (map snd Ks)"
  then show "cJSON_GetArraySize h a = Some (int_cast (length (jt_kids t)))"
    using kids_in_roots [of h ps Ks] kids_in_length [of h ps Ks]
    by (simp add: cJSON_GetArraySize_def linked_def array_size_kids)
qed

end
