(* ===== verification/Loop_Body.thy ===== *)
theory Loop_Body
  imports Loop Cjson_Correct Cjson_Lookup
begin

text \<open>
  \<open>BodyParse\<close>: what the function returns for a text in terms of the reference parser.
\<close>

section \<open>Trees the parser builds\<close>

text \<open>A node of type string has a string.\<close>

fun typed :: "jtree \<Rightarrow> bool" where
  "typed (JT ty i d s nm ks) \<longleftrightarrow> (ty AND 255 = 16 \<longrightarrow> s \<noteq> None) \<and> (\<forall>k\<in>set ks. typed k)"

lemma typed_set_name [simp]: "typed (set_name nm t) = typed t"
  by (cases t) simp

lemma typed_leaf: "typed (leaf ty i d s) \<longleftrightarrow> (ty AND 255 = 16 \<longrightarrow> s \<noteq> None)"
  by (simp add: leaf_def)

lemma ref_elems_typed:
  assumes "\<And>b t b'. rv b = Some (t, b') \<Longrightarrow> typed t"
  shows "ref_elems rv f b = Some (ts, b') \<Longrightarrow> \<forall>t\<in>set ts. typed t"
  by (induction f arbitrary: b ts b')
     (auto simp: bind_eq_Some_conv split: if_splits dest: assms intro: assms)

lemma ref_members_typed:
  assumes "\<And>b t b'. rv b = Some (t, b') \<Longrightarrow> typed t"
  shows "ref_members rv f b = Some (ts, b') \<Longrightarrow> \<forall>t\<in>set ts. typed t"
  by (induction f arbitrary: b ts b')
     (simp, (auto simp: bind_eq_Some_conv split: if_splits; (rule assms, assumption)?))

lemma ref_container_typed:
  assumes "ref_container ty c parts b = Some (t, b')" "ty AND 255 \<noteq> 16"
    and "\<And>b ts b'. parts b = Some (ts, b') \<Longrightarrow> \<forall>t\<in>set ts. typed t"
  shows "typed t"
proof -
  obtain ts where "t = JT ty 0 zero_double None None ts" "\<forall>t\<in>set ts. typed t"
    using assms(1,3) by (auto simp: ref_container_def bind_eq_Some_conv split: if_splits)
  then show ?thesis using assms(2) by simp
qed

lemma ref_value_cases:
  assumes "ref_value (Suc g) b = Some (t, b')"
  shows "t = leaf 4 0 zero_double None \<or> t = leaf 1 0 zero_double None \<or> t = leaf 2 1 zero_double None
    \<or> ref_string_value b = Some (t, b') \<or> ref_number b = Some (t, b')
    \<or> ref_container 32 93 (ref_elems (ref_value g) g) b = Some (t, b')
    \<or> ref_container 64 125 (ref_members (ref_value g) g) b = Some (t, b')"
  using assms unfolding ref_value.simps bind_eq_Some_conv
  by (elim exE conjE) (simp split: if_split_asm option.split_asm add: bind_eq_Some_conv; blast)

lemma ref_number_leaf:
  assumes "ref_number b = Some (t, b')" shows "\<exists>i d. t = leaf 8 i d None"
proof -
  obtain s where s: "number_copy (content b) (buf_length b) (offset b) 63 = Some s"
    using assms by (auto simp: ref_number_def bind_eq_Some_conv)
  obtain d used where d: "strtod s = (d, used)" by fastforce
  show ?thesis using assms s d by (auto simp: ref_number_def bind_eq_Some_conv split: if_splits)
qed

lemma ref_value_typed: "ref_value f b = Some (t, b') \<Longrightarrow> typed t"
proof (induction f arbitrary: b t b')
  case (Suc g)
  from ref_value_cases [OF Suc.prems] show ?case
  proof (elim disjE)
    assume "ref_string_value b = Some (t, b')"
    then show ?thesis by (auto simp: ref_string_value_def typed_leaf)
  next
    assume "ref_number b = Some (t, b')"
    then show ?thesis using ref_number_leaf by (fastforce simp: typed_leaf)
  next
    assume "ref_container 32 93 (ref_elems (ref_value g) g) b = Some (t, b')"
    then show ?thesis by (rule ref_container_typed) (simp, rule ref_elems_typed [OF Suc.IH])
  next
    assume "ref_container 64 125 (ref_members (ref_value g) g) b = Some (t, b')"
    then show ?thesis by (rule ref_container_typed) (simp, rule ref_members_typed [OF Suc.IH])
  qed (simp_all add: typed_leaf)
qed simp

lemma ref_text_typed: "ref_text m len req = Some (t, q) \<Longrightarrow> typed t"
  by (auto simp: ref_text_def bind_eq_Some_conv split: if_splits dest: ref_value_typed)

lemma member_typed: "typed t \<Longrightarrow> member name t = Some u \<Longrightarrow> typed u"
  by (cases t) (auto simp: member_def find_Some_iff)

section \<open>\<open>BodyParse\<close>\<close>

text \<open>The address a tree describes: members \<open>ip\<close>, a string, and \<open>port\<close>, a number.\<close>

definition body_address :: "('w, 'z) usrsctp_scheme \<Rightarrow> jtree \<Rightarrow> RuruAddress option" where
  "body_address k t =
     do {
       ip \<leftarrow> member (ascii ''ip'' @ [0]) t;
       prt \<leftarrow> member (ascii ''port'' @ [0]) t;
       if jt_type ip AND 255 \<noteq> 16 \<or> jt_type prt AND 255 \<noteq> 8 then None
       else do { s \<leftarrow> jt_string ip; Some \<lparr>host = ntohl (libc_inet_addr k s), port = word_of_int (jt_int prt)\<rparr> }
     }"

lemma cJSON_Parse_correct:
  assumes "heap_wf h" and "0 \<in> set m"
  shows "\<exists>root e h'. cJSON_Parse (Some m) h = Some (root, h') \<and>
    parse_outcome (ref_text m (Suc (length (takeWhile (\<lambda>c. c \<noteq> 0) m))) False) m
      (Suc (length (takeWhile (\<lambda>c. c \<noteq> 0) m))) h (root, e, h')"
proof -
  let ?n = "length (takeWhile (\<lambda>c. c \<noteq> 0) m)"
  have n: "?n < length m" "m ! ?n = 0"
    using assms(2) nth_length_takeWhile [of "\<lambda>c. c \<noteq> 0" m]
    by (metis (mono_tags, lifting) length_takeWhile_le order_le_neq_trans takeWhile_eq_all_conv takeWhile_eq_take take_all, auto)
      (metis (mono_tags, lifting) length_takeWhile_le order_le_neq_trans takeWhile_eq_all_conv takeWhile_eq_take take_all)
  obtain root e h' where "cJSON_ParseWithLengthOpts (Some m) (Suc ?n) False h = Some (root, e, h')"
      "parse_outcome (ref_text m (Suc ?n) False) m (Suc ?n) h (root, e, h')"
    using cJSON_ParseWithLengthOpts_correct [OF assms(1), of "Suc ?n" m False] n by auto
  then show ?thesis
    using assms(2) by (auto simp: cJSON_Parse_def cJSON_ParseWithOpts_def c_strlen_def)
qed

lemma IsType_item:
  "item h p F t \<Longrightarrow> cJSON_IsType ty h p = Some (jt_type t AND 255 = ty)"
  by (auto simp: cJSON_IsType_def elim!: item_elim)

lemma BodyParse_result:
  assumes wf: "heap_wf h" and nul: "0 \<in> set m" and len: "0 \<le> len"
  shows "\<exists>r h'. BodyParse k m len h = Some (r, h') \<and> nodes h' = nodes h \<and> strs h' = strs h
    \<and> (let ref = ref_text m (Suc (length (takeWhile (\<lambda>c. c \<noteq> 0) m))) False \<bind> (\<lambda>(t, q). body_address k t)
       in r = ref \<or> r = None \<and> oom h h')"
proof -
  let ?ref = "ref_text m (Suc (length (takeWhile (\<lambda>c. c \<noteq> 0) m))) False"
  obtain root e h1 where p: "cJSON_Parse (Some m) h = Some (root, h1)"
      "parse_outcome ?ref m (Suc (length (takeWhile (\<lambda>c. c \<noteq> 0) m))) h (root, e, h1)"
    using cJSON_Parse_correct [OF wf nul] by blast
  show ?thesis
  proof (cases "root = 0")
    case True
    then show ?thesis using p len by (auto simp: parse_outcome_def BodyParse_def)
  next
    case False
    obtain t q F h2 where t: "?ref = Some (t, q)" "item h1 root F t"
        "cJSON_Delete root h1 = Some h2" "nodes h2 = nodes h" "strs h2 = strs h"
      using p(2) False unfolding parse_outcome_def by auto
    have z: "0 \<in> set (ascii ''ip'' @ [0])" "0 \<in> set (ascii ''port'' @ [0])" by simp_all
    obtain ip where ip: "cJSON_GetObjectItem h1 root (Some (ascii ''ip'' @ [0])) = Some ip"
        "case member (ascii ''ip'' @ [0]) t of None \<Rightarrow> ip = 0 | Some u \<Rightarrow> ip \<noteq> 0 \<and> (\<exists>G. item h1 ip G u)"
      using GetObjectItem_item [OF t(2) z(1)] by blast
    obtain pt where pt: "cJSON_GetObjectItem h1 root (Some (ascii ''port'' @ [0])) = Some pt"
        "case member (ascii ''port'' @ [0]) t of None \<Rightarrow> pt = 0 | Some u \<Rightarrow> pt \<noteq> 0 \<and> (\<exists>G. item h1 pt G u)"
      using GetObjectItem_item [OF t(2) z(2)] by blast
    note run = p(1) False ip(1) pt(1) t(3) len
    show ?thesis
    proof (cases "member (ascii ''ip'' @ [0]) t = None \<or> member (ascii ''port'' @ [0]) t = None")
      case True
      then have "ip = 0 \<or> pt = 0" using ip(2) pt(2) by auto
      moreover have "body_address k t = None" using True by (auto simp: body_address_def)
      ultimately show ?thesis using run t by (auto simp: BodyParse_def)
    next
      case both: False
      then obtain u v G1 G2 where u: "member (ascii ''ip'' @ [0]) t = Some u" "ip \<noteq> 0" "item h1 ip G1 u"
          and v: "member (ascii ''port'' @ [0]) t = Some v" "pt \<noteq> 0" "item h1 pt G2 v"
        using ip(2) pt(2) by auto
      note ty = IsType_item [OF u(3), of 16] IsType_item [OF v(3), of 8]
      show ?thesis
      proof (cases "jt_type u AND 255 = 16 \<and> jt_type v AND 255 = 8")
        case False
        then have "body_address k t = None" using u v by (auto simp: body_address_def)
        then show ?thesis using run t u v ty False by (auto simp: BodyParse_def)
      next
        case True
        have "typed u" using member_typed [OF ref_text_typed [OF t(1)] u(1)] .
        then obtain s where s: "jt_string u = Some s" using True by (cases u) auto
        obtain n where n: "nodes h1 ip = Some n" "strs h1 (c_valuestring n) = Some s"
          using u(3) s by (auto elim!: item_elim simp: own_def split: if_splits)
        obtain m' where m': "nodes h1 pt = Some m'" "c_valueint m' = jt_int v"
          using v(3) by (auto elim!: item_elim)
        have "body_address k t = Some \<lparr>host = ntohl (libc_inet_addr k s), port = word_of_int (jt_int v)\<rparr>"
          using u v True s by (simp add: body_address_def)
        then show ?thesis using run t u v ty True n m' by (auto simp: BodyParse_def)
      qed
    qed
  qed
qed

end
