(* ===== verification/Cjson_Properties.thy ===== *)
theory Cjson_Properties
  imports Loop_Body
begin

text \<open>
  The properties of \<^verbatim>\<open>cJSON.c\<close>: the parser against its reference, the memory it owns, the decoding
  of strings and the access to members.
\<close>

definition heap0 :: heap where
  "heap0 = \<lparr>nodes = Map.empty, strs = Map.empty, brk = 0, avail = (\<lambda>_. True), global_error = None\<rparr>"

lemma heap0_wf: "heap_wf heap0"
  by (simp add: heap_wf_def heap0_def)

text \<open>JSON text with its quotes written as \<open>@\<close>.\<close>

definition quoted :: "string \<Rightarrow> bytes" where
  "quoted s = map (\<lambda>c. if c = 64 then 34 else c) (ascii s)"

section \<open>Parsing\<close>

text \<open>
  C1: on every text whose last byte is its terminator, on every well-formed heap and whatever
  allocations fail, \<open>cJSON_ParseWithLengthOpts\<close> returns. When it returns an item, the reference
  parser accepts the text with the same end position and the item represents the reference's tree,
  the items are new, the rest of the heap is untouched and deleting the item restores the heap.
  Otherwise the heap is as before, the reference rejects the text or memory ran out, and the error
  position lies in the text.
\<close>
theorem parse_refines_reference:
  assumes "heap_wf h" and "0 < len" "len \<le> length m" and "m ! (len - 1) = 0"
  shows "\<exists>r. cJSON_ParseWithLengthOpts (Some m) len req h = Some r \<and> parse_outcome (ref_text m len req) m len h r"
  by (rule cJSON_ParseWithLengthOpts_correct [OF assms])

theorem parse_refines_reference_witness:
  "\<exists>r. cJSON_ParseWithLengthOpts (Some (quoted ''{@a@:[1]}'' @ [0])) 10 True heap0 = Some r
     \<and> parse_outcome (ref_text (quoted ''{@a@:[1]}'' @ [0]) 10 True) (quoted ''{@a@:[1]}'' @ [0]) 10 heap0 r"
  by (rule parse_refines_reference) (simp_all add: heap0_wf quoted_def ascii_def)

section \<open>Owning and deleting\<close>

text \<open>
  C32: \<open>cJSON_Delete\<close> of a list of items that owns the addresses \<open>F\<close> returns and frees exactly these
  addresses, each of them once.
\<close>
theorem Delete_frees_exactly:
  assumes "chain h ps 0 F ts" and "distinct F" and "heap_wf h"
  shows "\<exists>h'. cJSON_Delete (hd (ps @ [0])) h = Some h' \<and> heap_wf h'
    \<and> nodes h' = nodes h |` (- set F) \<and> strs h' = strs h |` (- set F)"
  using cJSON_Delete_chain [OF assms] release_wf [OF assms(3)] by (auto simp: release_def)

definition heap1 :: heap where
  "heap1 = heap0\<lparr>nodes := [1 \<mapsto> zero_node\<lparr>c_prev := 1, c_type := 16, c_valuestring := 2\<rparr>],
     strs := [2 \<mapsto> [65, 0]], brk := 2\<rparr>"

lemma heap1_wf: "heap_wf heap1"
  by (simp add: heap_wf_def heap1_def heap0_def)

lemma heap1_item: "item heap1 1 [1, 2] (JT 16 0 (Fin False 0 0) (Some [65, 0]) None [])"
  using item_chain.node [of heap1 1 "zero_node\<lparr>c_prev := 1, c_type := 16, c_valuestring := 2\<rparr>" "[2]"
      "Some [65, 0]" "[]" None "[]" "[]" "[]"]
  by (simp add: heap1_def heap0_def zero_node_def own_def flag_def prevs_def)

lemma heap1_chain: "chain heap1 [1] 0 [1, 2] [JT 16 0 (Fin False 0 0) (Some [65, 0]) None []]"
  by (rule chain_single [OF heap1_item, where n = "zero_node\<lparr>c_prev := 1, c_type := 16, c_valuestring := 2\<rparr>"])
    (simp_all add: heap1_def zero_node_def)

theorem Delete_frees_exactly_witness:
  "\<exists>h'. cJSON_Delete 1 heap1 = Some h' \<and> heap_wf h'
    \<and> nodes h' = nodes heap1 |` (- {1, 2}) \<and> strs h' = strs heap1 |` (- {1, 2})"
  using Delete_frees_exactly [OF heap1_chain _ heap1_wf] by simp

section \<open>Strings\<close>

text \<open>
  C19: decoding a string stays inside of the allocation \<open>parse_string\<close> computes from the number of
  escapes, terminator included, and never reads beyond the closing quote it found.
\<close>
theorem string_decode_in_allocation:
  assumes "string_end m len (p + 1) 0 = Some (Some (e, skipped))" and "len \<le> length m"
  shows "\<exists>q out. string_decode m (e - p - skipped + 1) e (p + 1) [] = Some (q, out)
    \<and> (case out of None \<Rightarrow> True | Some bs \<Rightarrow> emit (e - p - skipped + 1) bs [0] = Some (bs @ [0]))"
proof -
  note u = string_end_units [OF assms]
  have r: "room m (e - p - 1 - skipped) e (p + 1) (length [])"
    using u unfolding room_def by (intro disjI1 exI [of _ "e - (p + 1) - (skipped - 0)"]) simp
  have c: "e - p - 1 - skipped < e - p - skipped + 1" using u by linarith
  obtain q out where "string_decode m (e - p - skipped + 1) e (p + 1) [] = Some (q, out)"
      "\<forall>bs. out = Some bs \<longrightarrow> length bs \<le> e - p - 1 - skipped"
    using string_decode_fits [OF r less_imp_le [OF c]] u assms(2) by fastforce
  then show ?thesis using c u by (auto simp: emit_def split: option.split)
qed

theorem string_decode_in_allocation_witness:
  "\<exists>q out. string_decode (quoted ''@ab@'') (3 - 0 - 0 + 1) 3 (0 + 1) [] = Some (q, out)
    \<and> (case out of None \<Rightarrow> True | Some bs \<Rightarrow> emit (3 - 0 - 0 + 1) bs [0] = Some (bs @ [0]))"
  by (rule string_decode_in_allocation [of _ 4])
    (simp_all add: quoted_def ascii_def string_end.simps byte_at_def)

text \<open>
  a \<open>\u\<close> escape with a digit that is not hexadecimal is not rejected: \<open>parse_hex4\<close> returns the code
  0, the same as for \<open>0000\<close>, and the string gets a NUL character.
\<close>
theorem invalid_hex_is_zero:
  assumes "p + 4 \<le> length m" and "i < 4" and "hex_digit (m ! (p + i)) = None"
  shows "parse_hex4 m p = Some 0"
proof -
  have "hex_loop m p n h = Some 0" if "p + n \<le> length m" "i < n" "hex_digit (m ! (p + i)) = None" for n p i h
    using that
  proof (induction n arbitrary: p i h)
    case (Suc n)
    show ?case
    proof (cases i)
      case 0
      then show ?thesis using Suc.prems by simp
    next
      case (Suc j)
      then have "hex_loop m (p + 1) n h' = Some 0" for h'
        using Suc.prems by (intro Suc.IH [of "p + 1" j]) simp_all
      then show ?thesis using Suc.prems by (auto split: option.split)
    qed
  qed simp
  from this [OF assms] show ?thesis by (simp add: parse_hex4_def)
qed

theorem invalid_hex_is_zero_witness:
  "parse_hex4 (ascii ''12ZZ'') 0 = Some 0"
  by (rule invalid_hex_is_zero [of 0 _ 2]) (simp_all add: ascii_def hex_digit_def)

section \<open>A text without its terminator\<close>

definition cut_text :: bytes where
  "cut_text = quoted ''{@a@:null,''"

lemma cut_bytes: "cut_text = [123, 34, 97, 34, 58, 110, 117, 108, 108, 44]"
  by (simp add: cut_text_def quoted_def ascii_def)

abbreviation (input) at_cut :: "nat \<Rightarrow> nat \<Rightarrow> parse_buffer" where
  "at_cut o' d \<equiv> \<lparr>content = cut_text, buf_length = 10, offset = o', depth = d\<rparr>"

lemmas cut_simps = keyword_def peek_def can_read_def can_access_at_index_def cut_bytes ascii_def byte_at_def

lemma cut_skip: "o' \<in> {0, 1, 4, 5, 9, 10} \<Longrightarrow> buffer_skip_whitespace (at_cut o' d) = Some (at_cut o' d)"
  by (auto simp: buffer_skip_whitespace_def cut_simps skip_ws.simps)

lemma cut_name:
  "nodes h p = Some n \<Longrightarrow> avail h (brk h) \<Longrightarrow>
     \<exists>h' n'. parse_string p (at_cut 1 d) h = Some (True, at_cut 4 d, h') \<and> nodes h' p = Some n' \<and> avail h' = avail h"
  by (auto simp: parse_string_def cut_simps string_end.simps string_decode.simps emit_def allocate_def upd_node_def)

lemma cut_null:
  "nodes h p = Some n \<Longrightarrow>
     \<exists>h'. parse_value (Suc f) p (at_cut 5 d) h = Some (True, at_cut 9 d, h') \<and> nodes h' p \<noteq> None \<and> avail h' = avail h"
  by (simp add: cut_simps set_item_def upd_node_def)

lemma cut_second:
  "avail h = (\<lambda>_. True) \<Longrightarrow> head \<noteq> 0 \<Longrightarrow> nodes h cur \<noteq> None \<Longrightarrow>
     object_loop pv (Suc f) head cur (at_cut 9 d) h = None"
  using cut_skip [of 10 d]
  by (auto simp: cJSON_New_Item_def attach_def upd_node_def parse_string_def cut_simps)

lemma cut_first:
  assumes "avail h = (\<lambda>_. True)"
  shows "object_loop (parse_value (Suc f)) (Suc (Suc g)) 0 0 (at_cut 0 d) h = None"
proof -
  let ?p = "Suc (brk h)" and ?h1 = "h\<lparr>nodes := (nodes h)(Suc (brk h) \<mapsto> zero_node), brk := Suc (brk h)\<rparr>"
  obtain h2 n where s: "parse_string ?p (at_cut 1 d) ?h1 = Some (True, at_cut 4 d, h2)" "nodes h2 ?p = Some n"
      "avail h2 = avail h"
    using cut_name [of ?h1 ?p zero_node d] assms by auto
  let ?h3 = "h2\<lparr>nodes := (nodes h2)(?p \<mapsto> n\<lparr>c_string := c_valuestring n, c_valuestring := 0\<rparr>)\<rparr>"
  obtain h4 where v: "parse_value (Suc f) ?p (at_cut 5 d) ?h3 = Some (True, at_cut 9 d, h4)" "nodes h4 ?p \<noteq> None"
      "avail h4 = avail h"
    using cut_null [of ?h3 ?p _ f d] s(3) by auto
  have "object_loop (parse_value (Suc f)) (Suc g) ?p ?p (at_cut 9 d) h4 = None"
    by (rule cut_second) (use v assms in auto)
  then show ?thesis
    using cut_skip [of 1 d] cut_skip [of 4 d] cut_skip [of 5 d] cut_skip [of 9 d] s v assms
    by (simp add: cJSON_New_Item_def attach_def upd_node_def peek_def can_access_at_index_def byte_at_def cut_bytes
        del: parse_value.simps)
qed

lemma cut_object:
  assumes "avail h = (\<lambda>_. True)"
  shows "parse_value (Suc (Suc (Suc f))) p (at_cut 0 0) h = None"
proof -
  have "parse_value (Suc (Suc (Suc f))) p (at_cut 0 0) h
      = parse_object (parse_value (Suc (Suc f))) (Suc (Suc f)) p (at_cut 0 0) h"
    by (subst parse_value.simps) (simp add: cut_simps del: parse_value.simps)
  then show ?thesis
    using cut_skip [of 1 1] cut_first [OF assms, of "Suc f" f 1]
    by (simp add: parse_object_def cut_simps del: parse_value.simps object_loop.simps)
qed

text \<open>
  \<open>cJSON_ParseWithLength\<close> on the ten bytes of an object cut after its comma reads the byte after
  the end of the array: \<open>parse_object\<close> moves over the comma and \<open>parse_string\<close> looks at the byte
  there without asking whether it exists.
\<close>
theorem cut_object_reads_outside:
  "cJSON_ParseWithLength (Some (quoted ''{@a@:null,'')) 10 heap0 = None"
proof -
  have "parse_value 11 p (at_cut 0 0) h = None" if "avail h = (\<lambda>_. True)" for p h
    using cut_object [OF that, of 8 p] by (simp del: parse_value.simps)
  moreover have "skip_utf8_bom (at_cut 0 0) = Some (Some (at_cut 0 0))"
    by (simp add: skip_utf8_bom_def cut_simps)
  ultimately show ?thesis
    unfolding cJSON_ParseWithLength_def cJSON_ParseWithLengthOpts_def cut_text_def [symmetric]
    using cut_skip [of 0 0]
    by (simp add: cJSON_New_Item_def heap0_def parse_fuel_def del: parse_value.simps)
qed

section \<open>Members\<close>

text \<open>
  \<open>cJSON_GetObjectItem\<close> returns the first child whose name is the given one up to case, and null
  exactly when there is none.
\<close>
theorem GetObjectItem_first:
  assumes "item h p F t" and "0 \<in> set name"
  shows "\<exists>q. cJSON_GetObjectItem h p (Some name) = Some q
    \<and> (case member name t of None \<Rightarrow> q = 0 | Some u \<Rightarrow> q \<noteq> 0 \<and> (\<exists>G. item h q G u))"
  by (rule GetObjectItem_item [OF assms])

theorem GetObjectItem_first_witness:
  "\<exists>q. cJSON_GetObjectItem heap1 1 (Some [65, 0]) = Some q
    \<and> (case member [65, 0] (JT 16 0 (Fin False 0 0) (Some [65, 0]) None []) of None \<Rightarrow> q = 0
       | Some u \<Rightarrow> q \<noteq> 0 \<and> (\<exists>G. item heap1 q G u))"
  by (rule GetObjectItem_first [OF heap1_item]) simp

end
