(* ===== verification/Cjson_Edit.thy ===== *)
theory Cjson_Edit
  imports Cjson_Heap
begin

text \<open>
  The functions of \<^verbatim>\<open>cJSON.c\<close> that build and change trees: creating items, adding them to arrays and
  objects, detaching, inserting, replacing, setting values, copying. A string argument is the
  address of a block of the heap, 0 for a null pointer, for the items may keep it.
\<close>

section \<open>Strings\<close>

definition cJSON_strdup :: "nat \<Rightarrow> heap \<Rightarrow> (nat \<times> heap) option" where
  "cJSON_strdup string h =
     (if string = 0 then Some (0, h)
      else do {
        s \<leftarrow> strs h string;
        n \<leftarrow> c_strlen s;
        let (copy, h1) = allocate h;
        if copy = 0 then Some (0, h1)
        else Some (copy, h1\<lparr>strs := (strs h1)(copy \<mapsto> take (n + 1) s)\<rparr>)
      })"

text \<open>The name a lookup takes from a pointer.\<close>

definition name_arg :: "heap \<Rightarrow> nat \<Rightarrow> bytes option option" where
  "name_arg h string = (if string = 0 then Some None else map_option Some (strs h string))"

section \<open>Creating items\<close>

definition create :: "(cJSON \<Rightarrow> cJSON) \<Rightarrow> heap \<Rightarrow> (nat \<times> heap) option" where
  "create g h =
     (let (item, h1) = cJSON_New_Item h in
      if item \<noteq> 0 then do { h2 \<leftarrow> upd_node item g h1; Some (item, h2) } else Some (0, h1))"

definition cJSON_CreateNull :: "heap \<Rightarrow> (nat \<times> heap) option" where
  "cJSON_CreateNull = create (\<lambda>n. n\<lparr>c_type := cJSON_NULL\<rparr>)"

definition cJSON_CreateTrue :: "heap \<Rightarrow> (nat \<times> heap) option" where
  "cJSON_CreateTrue = create (\<lambda>n. n\<lparr>c_type := cJSON_True\<rparr>)"

definition cJSON_CreateFalse :: "heap \<Rightarrow> (nat \<times> heap) option" where
  "cJSON_CreateFalse = create (\<lambda>n. n\<lparr>c_type := cJSON_False\<rparr>)"

definition cJSON_CreateBool :: "bool \<Rightarrow> heap \<Rightarrow> (nat \<times> heap) option" where
  "cJSON_CreateBool boolean = create (\<lambda>n. n\<lparr>c_type := (if boolean then cJSON_True else cJSON_False)\<rparr>)"

text \<open>The conversion of a NaN to \<open>int\<close> is undefined.\<close>

definition cJSON_CreateNumber :: "double \<Rightarrow> heap \<Rightarrow> (nat \<times> heap) option" where
  "cJSON_CreateNumber num h =
     (let (item, h1) = cJSON_New_Item h in
      if item \<noteq> 0
      then do {
        i \<leftarrow> int_of_double num;
        h2 \<leftarrow> upd_node item (\<lambda>n. n\<lparr>c_type := cJSON_Number, c_valuedouble := num, c_valueint := i\<rparr>) h1;
        Some (item, h2)
      }
      else Some (0, h1))"

abbreviation (input) cJSON_Raw :: int where "cJSON_Raw \<equiv> 128"

text \<open>\<open>cJSON_CreateString\<close> and \<open>cJSON_CreateRaw\<close> differ in the type.\<close>

definition create_text :: "int \<Rightarrow> nat \<Rightarrow> heap \<Rightarrow> (nat \<times> heap) option" where
  "create_text ty string h =
     (let (item, h1) = cJSON_New_Item h in
      if item \<noteq> 0
      then do {
        h2 \<leftarrow> upd_node item (\<lambda>n. n\<lparr>c_type := ty\<rparr>) h1;
        (copy, h3) \<leftarrow> cJSON_strdup string h2;
        h4 \<leftarrow> upd_node item (\<lambda>n. n\<lparr>c_valuestring := copy\<rparr>) h3;
        if copy = 0 then do { h5 \<leftarrow> cJSON_Delete item h4; Some (0, h5) } else Some (item, h4)
      }
      else Some (0, h1))"

definition cJSON_CreateString :: "nat \<Rightarrow> heap \<Rightarrow> (nat \<times> heap) option" where
  "cJSON_CreateString = create_text cJSON_String"

definition cJSON_CreateRaw :: "nat \<Rightarrow> heap \<Rightarrow> (nat \<times> heap) option" where
  "cJSON_CreateRaw = create_text cJSON_Raw"

definition cJSON_CreateStringReference :: "nat \<Rightarrow> heap \<Rightarrow> (nat \<times> heap) option" where
  "cJSON_CreateStringReference string =
     create (\<lambda>n. n\<lparr>c_type := cJSON_String OR cJSON_IsReference, c_valuestring := string\<rparr>)"

definition cJSON_CreateObjectReference :: "nat \<Rightarrow> heap \<Rightarrow> (nat \<times> heap) option" where
  "cJSON_CreateObjectReference child =
     create (\<lambda>n. n\<lparr>c_type := cJSON_Object OR cJSON_IsReference, c_child := child\<rparr>)"

definition cJSON_CreateArrayReference :: "nat \<Rightarrow> heap \<Rightarrow> (nat \<times> heap) option" where
  "cJSON_CreateArrayReference child =
     create (\<lambda>n. n\<lparr>c_type := cJSON_Array OR cJSON_IsReference, c_child := child\<rparr>)"

definition cJSON_CreateArray :: "heap \<Rightarrow> (nat \<times> heap) option" where
  "cJSON_CreateArray = create (\<lambda>n. n\<lparr>c_type := cJSON_Array\<rparr>)"

definition cJSON_CreateObject :: "heap \<Rightarrow> (nat \<times> heap) option" where
  "cJSON_CreateObject = create (\<lambda>n. n\<lparr>c_type := cJSON_Object\<rparr>)"

section \<open>Adding items\<close>

definition suffix_object :: "nat \<Rightarrow> nat \<Rightarrow> heap \<Rightarrow> heap option" where
  "suffix_object prev item h =
     do { h1 \<leftarrow> upd_node prev (\<lambda>n. n\<lparr>c_next := item\<rparr>) h; upd_node item (\<lambda>n. n\<lparr>c_prev := prev\<rparr>) h1 }"

definition create_reference :: "nat \<Rightarrow> heap \<Rightarrow> (nat \<times> heap) option" where
  "create_reference item h =
     (if item = 0 then Some (0, h)
      else let (reference, h1) = cJSON_New_Item h in
        if reference = 0 then Some (0, h1)
        else do {
          n \<leftarrow> nodes h1 item;
          h2 \<leftarrow> upd_node reference (\<lambda>_. n\<lparr>c_string := 0, c_type := c_type n OR cJSON_IsReference,
                  c_next := 0, c_prev := 0\<rparr>) h1;
          Some (reference, h2)
        })"

definition add_item_to_array :: "nat \<Rightarrow> nat \<Rightarrow> heap \<Rightarrow> (bool \<times> heap) option" where
  "add_item_to_array array item h =
     (if item = 0 \<or> array = 0 \<or> array = item then Some (False, h)
      else do {
        a \<leftarrow> nodes h array;
        if c_child a = 0
        then do {
          h1 \<leftarrow> upd_node array (\<lambda>n. n\<lparr>c_child := item\<rparr>) h;
          h2 \<leftarrow> upd_node item (\<lambda>n. n\<lparr>c_prev := item, c_next := 0\<rparr>) h1;
          Some (True, h2)
        }
        else do {
          c \<leftarrow> nodes h (c_child a);
          if c_prev c \<noteq> 0
          then do {
            h1 \<leftarrow> suffix_object (c_prev c) item h;
            a1 \<leftarrow> nodes h1 array;
            h2 \<leftarrow> upd_node (c_child a1) (\<lambda>n. n\<lparr>c_prev := item\<rparr>) h1;
            Some (True, h2)
          }
          else Some (True, h)
        }
      })"

definition cJSON_AddItemToArray :: "nat \<Rightarrow> nat \<Rightarrow> heap \<Rightarrow> (bool \<times> heap) option" where
  "cJSON_AddItemToArray = add_item_to_array"

definition add_item_to_object :: "nat \<Rightarrow> nat \<Rightarrow> nat \<Rightarrow> bool \<Rightarrow> heap \<Rightarrow> (bool \<times> heap) option" where
  "add_item_to_object obj string item constant_key h =
     (if obj = 0 \<or> string = 0 \<or> item = 0 \<or> obj = item then Some (False, h)
      else do {
        (new_key, h1) \<leftarrow> (if constant_key then Some (string, h) else cJSON_strdup string h);
        if new_key = 0 then Some (False, h1)
        else do {
          n \<leftarrow> nodes h1 item;
          let new_type = (if constant_key then c_type n OR cJSON_StringIsConst
                          else c_type n AND NOT cJSON_StringIsConst);
          h2 \<leftarrow> (if \<not> flag (c_type n) cJSON_StringIsConst \<and> c_string n \<noteq> 0
                 then free_str (c_string n) h1 else Some h1);
          h3 \<leftarrow> upd_node item (\<lambda>n. n\<lparr>c_string := new_key, c_type := new_type\<rparr>) h2;
          add_item_to_array obj item h3
        }
      })"

definition cJSON_AddItemToObject :: "nat \<Rightarrow> nat \<Rightarrow> nat \<Rightarrow> heap \<Rightarrow> (bool \<times> heap) option" where
  "cJSON_AddItemToObject obj string item h = add_item_to_object obj string item False h"

definition cJSON_AddItemToObjectCS :: "nat \<Rightarrow> nat \<Rightarrow> nat \<Rightarrow> heap \<Rightarrow> (bool \<times> heap) option" where
  "cJSON_AddItemToObjectCS obj string item h = add_item_to_object obj string item True h"

definition cJSON_AddItemReferenceToArray :: "nat \<Rightarrow> nat \<Rightarrow> heap \<Rightarrow> (bool \<times> heap) option" where
  "cJSON_AddItemReferenceToArray array item h =
     (if array = 0 then Some (False, h)
      else do { (r, h1) \<leftarrow> create_reference item h; add_item_to_array array r h1 })"

definition cJSON_AddItemReferenceToObject :: "nat \<Rightarrow> nat \<Rightarrow> nat \<Rightarrow> heap \<Rightarrow> (bool \<times> heap) option" where
  "cJSON_AddItemReferenceToObject obj string item h =
     (if obj = 0 \<or> string = 0 then Some (False, h)
      else do { (r, h1) \<leftarrow> create_reference item h; add_item_to_object obj string r False h1 })"

text \<open>The body that the functions \<open>cJSON_Add...ToObject\<close> share: a new item is added or deleted.\<close>

definition add_created :: "nat \<Rightarrow> nat \<Rightarrow> nat \<times> heap \<Rightarrow> (nat \<times> heap) option" where
  "add_created obj name r =
     (case r of (item, h) \<Rightarrow> do {
        (ok, h1) \<leftarrow> add_item_to_object obj name item False h;
        if ok then Some (item, h1) else do { h2 \<leftarrow> cJSON_Delete item h1; Some (0, h2) }
      })"

definition cJSON_AddNullToObject :: "nat \<Rightarrow> nat \<Rightarrow> heap \<Rightarrow> (nat \<times> heap) option" where
  "cJSON_AddNullToObject obj name h = do { r \<leftarrow> cJSON_CreateNull h; add_created obj name r }"

definition cJSON_AddTrueToObject :: "nat \<Rightarrow> nat \<Rightarrow> heap \<Rightarrow> (nat \<times> heap) option" where
  "cJSON_AddTrueToObject obj name h = do { r \<leftarrow> cJSON_CreateTrue h; add_created obj name r }"

definition cJSON_AddFalseToObject :: "nat \<Rightarrow> nat \<Rightarrow> heap \<Rightarrow> (nat \<times> heap) option" where
  "cJSON_AddFalseToObject obj name h = do { r \<leftarrow> cJSON_CreateFalse h; add_created obj name r }"

definition cJSON_AddBoolToObject :: "nat \<Rightarrow> nat \<Rightarrow> bool \<Rightarrow> heap \<Rightarrow> (nat \<times> heap) option" where
  "cJSON_AddBoolToObject obj name boolean h = do { r \<leftarrow> cJSON_CreateBool boolean h; add_created obj name r }"

definition cJSON_AddNumberToObject :: "nat \<Rightarrow> nat \<Rightarrow> double \<Rightarrow> heap \<Rightarrow> (nat \<times> heap) option" where
  "cJSON_AddNumberToObject obj name number h = do { r \<leftarrow> cJSON_CreateNumber number h; add_created obj name r }"

definition cJSON_AddStringToObject :: "nat \<Rightarrow> nat \<Rightarrow> nat \<Rightarrow> heap \<Rightarrow> (nat \<times> heap) option" where
  "cJSON_AddStringToObject obj name string h = do { r \<leftarrow> cJSON_CreateString string h; add_created obj name r }"

definition cJSON_AddRawToObject :: "nat \<Rightarrow> nat \<Rightarrow> nat \<Rightarrow> heap \<Rightarrow> (nat \<times> heap) option" where
  "cJSON_AddRawToObject obj name raw h = do { r \<leftarrow> cJSON_CreateRaw raw h; add_created obj name r }"

definition cJSON_AddObjectToObject :: "nat \<Rightarrow> nat \<Rightarrow> heap \<Rightarrow> (nat \<times> heap) option" where
  "cJSON_AddObjectToObject obj name h = do { r \<leftarrow> cJSON_CreateObject h; add_created obj name r }"

definition cJSON_AddArrayToObject :: "nat \<Rightarrow> nat \<Rightarrow> heap \<Rightarrow> (nat \<times> heap) option" where
  "cJSON_AddArrayToObject obj name h = do { r \<leftarrow> cJSON_CreateArray h; add_created obj name r }"

section \<open>Taking items out\<close>

definition cJSON_DetachItemViaPointer :: "nat \<Rightarrow> nat \<Rightarrow> heap \<Rightarrow> (nat \<times> heap) option" where
  "cJSON_DetachItemViaPointer parent item h =
     (if parent = 0 \<or> item = 0 then Some (0, h)
      else do {
        p \<leftarrow> nodes h parent;
        i \<leftarrow> nodes h item;
        h1 \<leftarrow> (if item \<noteq> c_child p then upd_node (c_prev i) (\<lambda>n. n\<lparr>c_next := c_next i\<rparr>) h else Some h);
        i1 \<leftarrow> nodes h1 item;
        h2 \<leftarrow> (if c_next i1 \<noteq> 0 then upd_node (c_next i1) (\<lambda>n. n\<lparr>c_prev := c_prev i1\<rparr>) h1 else Some h1);
        p2 \<leftarrow> nodes h2 parent;
        i2 \<leftarrow> nodes h2 item;
        h3 \<leftarrow> (if item = c_child p2 then upd_node parent (\<lambda>n. n\<lparr>c_child := c_next i2\<rparr>) h2
               else if c_next i2 = 0 then upd_node (c_child p2) (\<lambda>n. n\<lparr>c_prev := c_prev i2\<rparr>) h2
               else Some h2);
        h4 \<leftarrow> upd_node item (\<lambda>n. n\<lparr>c_prev := 0, c_next := 0\<rparr>) h3;
        Some (item, h4)
      })"

definition cJSON_DetachItemFromArray :: "nat \<Rightarrow> int \<Rightarrow> heap \<Rightarrow> (nat \<times> heap) option" where
  "cJSON_DetachItemFromArray array which h =
     (if which < 0 then Some (0, h)
      else do { item \<leftarrow> get_array_item h array (nat which); cJSON_DetachItemViaPointer array item h })"

definition cJSON_DeleteItemFromArray :: "nat \<Rightarrow> int \<Rightarrow> heap \<Rightarrow> heap option" where
  "cJSON_DeleteItemFromArray array which h =
     do { (item, h1) \<leftarrow> cJSON_DetachItemFromArray array which h; cJSON_Delete item h1 }"

definition cJSON_DetachItemFromObject :: "nat \<Rightarrow> nat \<Rightarrow> heap \<Rightarrow> (nat \<times> heap) option" where
  "cJSON_DetachItemFromObject obj string h =
     do {
       name \<leftarrow> name_arg h string;
       to_detach \<leftarrow> cJSON_GetObjectItem h obj name;
       cJSON_DetachItemViaPointer obj to_detach h
     }"

definition cJSON_DetachItemFromObjectCaseSensitive :: "nat \<Rightarrow> nat \<Rightarrow> heap \<Rightarrow> (nat \<times> heap) option" where
  "cJSON_DetachItemFromObjectCaseSensitive obj string h =
     do {
       name \<leftarrow> name_arg h string;
       to_detach \<leftarrow> cJSON_GetObjectItemCaseSensitive h obj name;
       cJSON_DetachItemViaPointer obj to_detach h
     }"

definition cJSON_DeleteItemFromObject :: "nat \<Rightarrow> nat \<Rightarrow> heap \<Rightarrow> heap option" where
  "cJSON_DeleteItemFromObject obj string h =
     do { (item, h1) \<leftarrow> cJSON_DetachItemFromObject obj string h; cJSON_Delete item h1 }"

definition cJSON_DeleteItemFromObjectCaseSensitive :: "nat \<Rightarrow> nat \<Rightarrow> heap \<Rightarrow> heap option" where
  "cJSON_DeleteItemFromObjectCaseSensitive obj string h =
     do { (item, h1) \<leftarrow> cJSON_DetachItemFromObjectCaseSensitive obj string h; cJSON_Delete item h1 }"

section \<open>Inserting and replacing\<close>

definition cJSON_InsertItemInArray :: "nat \<Rightarrow> int \<Rightarrow> nat \<Rightarrow> heap \<Rightarrow> (bool \<times> heap) option" where
  "cJSON_InsertItemInArray array which newitem h =
     (if which < 0 then Some (False, h)
      else do {
        after_inserted \<leftarrow> get_array_item h array (nat which);
        if after_inserted = 0 then add_item_to_array array newitem h
        else do {
          h1 \<leftarrow> upd_node newitem (\<lambda>n. n\<lparr>c_next := after_inserted\<rparr>) h;
          a \<leftarrow> nodes h1 after_inserted;
          h2 \<leftarrow> upd_node newitem (\<lambda>n. n\<lparr>c_prev := c_prev a\<rparr>) h1;
          h3 \<leftarrow> upd_node after_inserted (\<lambda>n. n\<lparr>c_prev := newitem\<rparr>) h2;
          r \<leftarrow> nodes h3 array;
          h4 \<leftarrow> (if after_inserted = c_child r then upd_node array (\<lambda>n. n\<lparr>c_child := newitem\<rparr>) h3
                 else do { w \<leftarrow> nodes h3 newitem; upd_node (c_prev w) (\<lambda>n. n\<lparr>c_next := newitem\<rparr>) h3 });
          Some (True, h4)
        }
      })"

text \<open>The links around \<open>item\<close> are given to \<open>replacement\<close>: the part between the early returns and the deletion.\<close>

definition replace_links :: "nat \<Rightarrow> nat \<Rightarrow> nat \<Rightarrow> heap \<Rightarrow> heap option" where
  "replace_links parent item replacement h =
     do {
       i \<leftarrow> nodes h item;
       h1 \<leftarrow> upd_node replacement (\<lambda>n. n\<lparr>c_next := c_next i, c_prev := c_prev i\<rparr>) h;
       r1 \<leftarrow> nodes h1 replacement;
       h2 \<leftarrow> (if c_next r1 \<noteq> 0 then upd_node (c_next r1) (\<lambda>n. n\<lparr>c_prev := replacement\<rparr>) h1 else Some h1);
       p \<leftarrow> nodes h2 parent;
       if c_child p = item
       then do {
         c \<leftarrow> nodes h2 (c_child p);
         h3 \<leftarrow> (if c_prev c = c_child p then upd_node replacement (\<lambda>n. n\<lparr>c_prev := replacement\<rparr>) h2 else Some h2);
         upd_node parent (\<lambda>n. n\<lparr>c_child := replacement\<rparr>) h3
       }
       else do {
         r2 \<leftarrow> nodes h2 replacement;
         h3 \<leftarrow> (if c_prev r2 \<noteq> 0 then upd_node (c_prev r2) (\<lambda>n. n\<lparr>c_next := replacement\<rparr>) h2 else Some h2);
         r3 \<leftarrow> nodes h3 replacement;
         if c_next r3 = 0
         then do { p3 \<leftarrow> nodes h3 parent; upd_node (c_child p3) (\<lambda>n. n\<lparr>c_prev := replacement\<rparr>) h3 }
         else Some h3
       }
     }"

definition cJSON_ReplaceItemViaPointer :: "nat \<Rightarrow> nat \<Rightarrow> nat \<Rightarrow> heap \<Rightarrow> (bool \<times> heap) option" where
  "cJSON_ReplaceItemViaPointer parent item replacement h =
     (if parent = 0 \<or> replacement = 0 \<or> item = 0 then Some (False, h)
      else if replacement = item then Some (True, h)
      else do {
        h1 \<leftarrow> replace_links parent item replacement h;
        h2 \<leftarrow> upd_node item (\<lambda>n. n\<lparr>c_next := 0, c_prev := 0\<rparr>) h1;
        h3 \<leftarrow> cJSON_Delete item h2;
        Some (True, h3)
      })"

definition cJSON_ReplaceItemInArray :: "nat \<Rightarrow> int \<Rightarrow> nat \<Rightarrow> heap \<Rightarrow> (bool \<times> heap) option" where
  "cJSON_ReplaceItemInArray array which newitem h =
     (if which < 0 then Some (False, h)
      else do { item \<leftarrow> get_array_item h array (nat which); cJSON_ReplaceItemViaPointer array item newitem h })"

definition replace_item_in_object :: "nat \<Rightarrow> nat \<Rightarrow> nat \<Rightarrow> bool \<Rightarrow> heap \<Rightarrow> (bool \<times> heap) option" where
  "replace_item_in_object obj string replacement case_sensitive h =
     (if replacement = 0 \<or> string = 0 then Some (False, h)
      else do {
        r \<leftarrow> nodes h replacement;
        h1 \<leftarrow> (if \<not> flag (c_type r) cJSON_StringIsConst \<and> c_string r \<noteq> 0 then free_str (c_string r) h else Some h);
        (copy, h2) \<leftarrow> cJSON_strdup string h1;
        h3 \<leftarrow> upd_node replacement (\<lambda>n. n\<lparr>c_string := copy, c_type := c_type n AND NOT cJSON_StringIsConst\<rparr>) h2;
        name \<leftarrow> name_arg h3 string;
        item \<leftarrow> get_object_item h3 obj name case_sensitive;
        cJSON_ReplaceItemViaPointer obj item replacement h3
      })"

definition cJSON_ReplaceItemInObject :: "nat \<Rightarrow> nat \<Rightarrow> nat \<Rightarrow> heap \<Rightarrow> (bool \<times> heap) option" where
  "cJSON_ReplaceItemInObject obj string newitem h = replace_item_in_object obj string newitem False h"

definition cJSON_ReplaceItemInObjectCaseSensitive :: "nat \<Rightarrow> nat \<Rightarrow> nat \<Rightarrow> heap \<Rightarrow> (bool \<times> heap) option" where
  "cJSON_ReplaceItemInObjectCaseSensitive obj string newitem h = replace_item_in_object obj string newitem True h"

section \<open>Setting values\<close>

definition cJSON_SetNumberHelper :: "nat \<Rightarrow> double \<Rightarrow> heap \<Rightarrow> (double \<times> heap) option" where
  "cJSON_SetNumberHelper obj number h =
     do {
       i \<leftarrow> int_of_double number;
       h1 \<leftarrow> upd_node obj (\<lambda>n. n\<lparr>c_valueint := i, c_valuedouble := number\<rparr>) h;
       Some (number, h1)
     }"

text \<open>\<open>strcpy\<close> of a string to itself is undefined.\<close>

definition cJSON_SetValuestring :: "nat \<Rightarrow> nat \<Rightarrow> heap \<Rightarrow> (nat \<times> heap) option" where
  "cJSON_SetValuestring obj valuestring h =
     do {
       n \<leftarrow> nodes h obj;
       if \<not> flag (c_type n) cJSON_String \<or> flag (c_type n) cJSON_IsReference then Some (0, h)
       else do {
         s \<leftarrow> strs h valuestring;
         k \<leftarrow> c_strlen s;
         old \<leftarrow> strs h (c_valuestring n);
         l \<leftarrow> c_strlen old;
         if k \<le> l
         then if valuestring = c_valuestring n then None
           else Some (c_valuestring n, h\<lparr>strs := (strs h)(c_valuestring n \<mapsto> take (k + 1) s @ drop (k + 1) old)\<rparr>)
         else do {
           (copy, h1) \<leftarrow> cJSON_strdup valuestring h;
           if copy = 0 then Some (0, h1)
           else do {
             h2 \<leftarrow> (if c_valuestring n \<noteq> 0 then free_str (c_valuestring n) h1 else Some h1);
             h3 \<leftarrow> upd_node obj (\<lambda>n. n\<lparr>c_valuestring := copy\<rparr>) h2;
             Some (copy, h3)
           }
         }
       }
     }"

section \<open>Arrays from C arrays\<close>

text \<open>
  The loop of the four functions: \<open>k\<close> elements are left, \<open>i\<close> is the next index, \<open>p\<close> the item before
  it, \<open>mk\<close> makes an item. The result is the last item, or none after the array was deleted.
\<close>

fun create_loop :: "('a \<Rightarrow> heap \<Rightarrow> (nat \<times> heap) option) \<Rightarrow> 'a list \<Rightarrow> nat \<Rightarrow> nat \<Rightarrow> nat \<Rightarrow> nat \<Rightarrow> heap \<Rightarrow> (nat option \<times> heap) option" where
  "create_loop mk xs a 0 i p h = Some (Some p, h)"
| "create_loop mk xs a (Suc k) i p h =
     (if i < length xs
      then do {
        (n, h1) \<leftarrow> mk (xs ! i) h;
        if n = 0 then do { h2 \<leftarrow> cJSON_Delete a h1; Some (None, h2) }
        else do {
          h2 \<leftarrow> (if i = 0 then upd_node a (\<lambda>c. c\<lparr>c_child := n\<rparr>) h1 else suffix_object p n h1);
          create_loop mk xs a k (Suc i) n h2
        }
      }
      else None)"

definition create_array :: "('a \<Rightarrow> heap \<Rightarrow> (nat \<times> heap) option) \<Rightarrow> 'a list option \<Rightarrow> int \<Rightarrow> heap \<Rightarrow> (nat \<times> heap) option" where
  "create_array mk numbers count h =
     (if count < 0 then Some (0, h)
      else case numbers of
        None \<Rightarrow> Some (0, h)
      | Some xs \<Rightarrow> do {
          (a, h1) \<leftarrow> cJSON_CreateArray h;
          (n, h2) \<leftarrow> (if a \<noteq> 0 then create_loop mk xs a (nat count) 0 0 h1 else Some (Some 0, h1));
          case n of
            None \<Rightarrow> Some (0, h2)
          | Some n \<Rightarrow> do {
              r \<leftarrow> nodes h2 a;
              h3 \<leftarrow> upd_node (c_child r) (\<lambda>c. c\<lparr>c_prev := n\<rparr>) h2;
              Some (a, h3)
            }
        })"

definition double_of_int :: "int \<Rightarrow> double" where
  "double_of_int i = double_of_frac (i < 0) (nat \<bar>i\<bar>) 1"

definition cJSON_CreateIntArray :: "int list option \<Rightarrow> int \<Rightarrow> heap \<Rightarrow> (nat \<times> heap) option" where
  "cJSON_CreateIntArray = create_array (\<lambda>i. cJSON_CreateNumber (double_of_int i))"

text \<open>A \<open>float\<close> is given as the double of its value.\<close>

definition cJSON_CreateFloatArray :: "double list option \<Rightarrow> int \<Rightarrow> heap \<Rightarrow> (nat \<times> heap) option" where
  "cJSON_CreateFloatArray = create_array cJSON_CreateNumber"

definition cJSON_CreateDoubleArray :: "double list option \<Rightarrow> int \<Rightarrow> heap \<Rightarrow> (nat \<times> heap) option" where
  "cJSON_CreateDoubleArray = create_array cJSON_CreateNumber"

definition cJSON_CreateStringArray :: "nat list option \<Rightarrow> int \<Rightarrow> heap \<Rightarrow> (nat \<times> heap) option" where
  "cJSON_CreateStringArray = create_array cJSON_CreateString"

end
