(* ===== verification/Cjson_Edit_Links.thy ===== *)
theory Cjson_Edit_Links
  imports Cjson_Edit Cjson_Links
begin

text \<open>
  What the editing functions of \<^verbatim>\<open>cJSON.c\<close> do to the list of children, on the links alone. A list is
  split where the code cuts it: \<open>us @ p # vs\<close>.
\<close>

lemma upd_node_Some [simp]: "nodes h p = Some n \<Longrightarrow> upd_node p f h = Some (h\<lparr>nodes := (nodes h)(p \<mapsto> f n)\<rparr>)"
  by (simp add: upd_node_def)

lemma relinked_nodes [simp]: "relinked a L h (h\<lparr>nodes := M\<rparr>) \<longleftrightarrow> links_only a L (nodes h) M"
  by (simp add: relinked_def)

lemmas link_intros = links_only_upd links_only_child links_only_refl

text \<open>The shape of a list with its last node apart.\<close>

lemma list_ends: "ps = [] \<or> (\<exists>u. ps = [u]) \<or> (\<exists>u us w. ps = u # us @ [w])"
  by (cases ps; cases "tl ps" rule: rev_cases) auto

lemma add_links:
  assumes l: "linked (nodes h) ps" "distinct ps" and a: "nodes h a = Some n" "c_child n = hd (ps @ [0])"
    and x: "nodes h x = Some nx" "c_next nx = 0" and ne: "a \<notin> set ps" "x \<notin> set ps" "a \<noteq> x" "a \<noteq> 0" "x \<noteq> 0" "0 \<notin> set ps"
  shows "\<exists>h'. add_item_to_array a x h = Some (True, h') \<and> relinked a (set (ps @ [x])) h h'
    \<and> linked (nodes h') (ps @ [x]) \<and> nodes h' a = Some (n\<lparr>c_child := hd (ps @ [x])\<rparr>)"
proof -
  consider "ps = []" | u where "ps = [u]" | u us w where "ps = u # us @ [w]"
    using list_ends [of ps] by blast
  then show ?thesis
  proof cases
    case 1
    then show ?thesis
      using assms by (auto simp: add_item_to_array_def linked_def intro!: link_intros)
  next
    case (2 u)
    then show ?thesis
      using assms by (auto simp: add_item_to_array_def suffix_object_def linked_def intro!: link_intros)
  next
    case (3 u us w)
    then show ?thesis
      using assms by (auto simp: add_item_to_array_def suffix_object_def linked_def intro!: link_intros)
  qed
qed

text \<open>The places where a list is cut: around its only node, at an end, inside.\<close>

lemma cut_cases [case_names only first last1 mid1 last mid]:
  obtains "us = []" "vs = []" | v vs' where "us = []" "vs = v # vs'"
    | u where "us = [u]" "vs = []" | u v vs' where "us = [u]" "vs = v # vs'"
    | u us' w where "us = u # us' @ [w]" "vs = []" | u us' w v vs' where "us = u # us' @ [w]" "vs = v # vs'"
  using list_ends [of us] by (cases vs) blast+

text \<open>Detaching \<open>p\<close> from \<open>us @ p # vs\<close>.\<close>

lemma detach_links:
  assumes l: "linked (nodes h) (us @ p # vs)" "distinct (us @ p # vs)"
    and a: "nodes h a = Some n" "c_child n = hd (us @ p # vs)"
    and ne: "a \<notin> set (us @ p # vs)" "a \<noteq> 0" "0 \<notin> set (us @ p # vs)"
  shows "\<exists>h' np. cJSON_DetachItemViaPointer a p h = Some (p, h') \<and> relinked a (set (us @ p # vs)) h h'
    \<and> linked (nodes h') (us @ vs) \<and> nodes h' a = Some (n\<lparr>c_child := hd (us @ vs @ [0])\<rparr>)
    \<and> nodes h' p = Some np \<and> c_next np = 0 \<and> c_prev np = 0"
proof -
  show ?thesis
    by (cases us vs rule: cut_cases) (use assms in \<open>auto simp: cJSON_DetachItemViaPointer_def linked_def intro!: link_intros\<close>)
qed

lemma insert_links:
  assumes l: "linked (nodes h) (us @ p # vs)" "distinct (us @ p # vs)"
    and a: "nodes h a = Some n" "c_child n = hd (us @ p # vs)"
    and x: "nodes h x = Some nx" "x \<notin> set (us @ p # vs)" "a \<noteq> x" "x \<noteq> 0"
    and ne: "a \<notin> set (us @ p # vs)" "a \<noteq> 0" "0 \<notin> set (us @ p # vs)"
    and i: "0 \<le> i" "get_array_item h a (nat i) = Some p"
  shows "\<exists>h'. cJSON_InsertItemInArray a i x h = Some (True, h') \<and> relinked a (set (us @ x # p # vs)) h h'
    \<and> linked (nodes h') (us @ x # p # vs) \<and> nodes h' a = Some (n\<lparr>c_child := hd (us @ x # p # vs)\<rparr>)"
proof -
  show ?thesis
    by (cases us vs rule: cut_cases) (use assms in \<open>auto simp: cJSON_InsertItemInArray_def linked_def intro!: link_intros\<close>)
qed

lemma last_outside: "q \<notin> set ps \<Longrightarrow> ps \<noteq> [] \<Longrightarrow> last ps \<noteq> q"
  by auto

lemma replace_links_run:
  assumes l: "linked (nodes h) (us @ p # vs)" "distinct (us @ p # vs)"
    and a: "nodes h a = Some n" "c_child n = hd (us @ p # vs)"
    and x: "nodes h x = Some nx" "x \<notin> set (us @ p # vs)" "a \<noteq> x" "x \<noteq> 0"
    and ne: "a \<notin> set (us @ p # vs)" "a \<noteq> 0" "0 \<notin> set (us @ p # vs)"
  shows "\<exists>h'. replace_links a p x h = Some h' \<and> relinked a (set (us @ x # p # vs)) h h'
    \<and> linked (nodes h') (us @ x # vs) \<and> nodes h' a = Some (n\<lparr>c_child := hd (us @ x # vs)\<rparr>)"
proof -
  show ?thesis
    by (cases us vs rule: cut_cases) (use assms in \<open>auto simp: last_outside replace_links_def linked_def intro!: link_intros\<close>)
qed

end
