(* ===== verification/Cjson_Edit_Refine.thy ===== *)
theory Cjson_Edit_Refine
  imports Cjson_Edit_Links Cjson_Lookup Cjson_Refine "HOL-Library.Multiset"
begin

text \<open>
  The editing functions of \<^verbatim>\<open>cJSON.c\<close> on the trees that the items represent: adding, inserting,
  detaching and replacing children are the operations of lists.
\<close>

section \<open>A node and its children\<close>

definition with_kids :: "jtree \<Rightarrow> jtree list \<Rightarrow> jtree" where
  "with_kids t ks = JT (jt_type t) (jt_int t) (jt_double t) (jt_string t) (jt_name t) ks"

lemma with_kids_sel [simp]:
  "jt_kids (with_kids t ks) = ks" "jt_name (with_kids t ks) = jt_name t" "with_kids (with_kids t js) ks = with_kids t ks"
  by (simp_all add: with_kids_def)

text \<open>Only the addresses in \<open>A\<close> change; the allocator stands where it stood.\<close>

definition edits :: "nat set \<Rightarrow> heap \<Rightarrow> heap \<Rightarrow> bool" where
  "edits A h h' \<longleftrightarrow> same_on (- A) h h' \<and> brk h' = brk h \<and> avail h' = avail h \<and> global_error h' = global_error h
     \<and> (heap_wf h \<longrightarrow> heap_wf h')"

lemma edits_refl [simp]: "edits A h h"
  by (simp add: edits_def same_on_def)

lemma edits_relinked:
  assumes r: "relinked a L h h'" and A: "insert a L \<subseteq> A"
  shows "edits A h h'"
proof -
  have "nodes h' q = nodes h q" if "q \<notin> A" for q
  proof -
    have "q \<noteq> a" "q \<notin> L" using A that by auto
    then show ?thesis using r by (simp add: relinked_def links_only_def)
  qed
  then show ?thesis using relinked_wf [OF r] r by (auto simp: edits_def same_on_def relinked_def)
qed

lemma edits_trans: "edits A h h1 \<Longrightarrow> edits A h1 h2 \<Longrightarrow> edits A h h2"
  by (auto simp: edits_def same_on_def)

text \<open>A node with its children taken apart.\<close>

definition parent :: "heap \<Rightarrow> nat \<Rightarrow> nat list \<Rightarrow> jtree \<Rightarrow> cJSON \<Rightarrow> nat list \<Rightarrow> nat list \<Rightarrow> (nat list \<times> jtree) list \<Rightarrow> bool" where
  "parent h a F t n Fo ps Ks \<longleftrightarrow> nodes h a = Some n \<and> a \<noteq> 0
     \<and> \<not> flag (c_type n) cJSON_IsReference \<and> \<not> flag (c_type n) cJSON_StringIsConst
     \<and> (\<exists>Fv v Fs nm. own h (c_valuestring n) Fv v \<and> own h (c_string n) Fs nm \<and> Fo = Fv @ Fs
          \<and> t = JT (c_type n) (c_valueint n) (c_valuedouble n) v nm (map snd Ks))
     \<and> kids_in h ps Ks \<and> linked (nodes h) ps \<and> c_child n = hd (ps @ [0]) \<and> F = a # Fo @ concat (map fst Ks)"

lemma item_parent: "item h a F t \<longleftrightarrow> (\<exists>n Fo ps Ks. parent h a F t n Fo ps Ks)"
  unfolding item_parts parent_def by fastforce

lemma parent_simps:
  assumes "parent h a F t n Fo ps Ks"
  shows "nodes h a = Some n" "a \<noteq> 0" "kids_in h ps Ks" "linked (nodes h) ps" "c_child n = hd (ps @ [0])"
    "F = a # Fo @ concat (map fst Ks)" "jt_kids t = map snd Ks" "0 \<notin> set ps" "length Ks = length ps"
  using assms kids_in_roots [of h ps Ks] kids_in_length [of h ps Ks] by (auto simp: parent_def)

lemma parent_rekid:
  assumes "parent h a F t n Fo ps Ks" "strs h' = strs h" "nodes h' a = Some (n\<lparr>c_child := hd (ps' @ [0])\<rparr>)"
    "kids_in h' ps' Ks'" "linked (nodes h') ps'"
  shows "item h' a (a # Fo @ concat (map fst Ks')) (with_kids t (map snd Ks'))"
proof -
  obtain Fv v Fs nm where o: "own h (c_valuestring n) Fv v" "own h (c_string n) Fs nm" "Fo = Fv @ Fs"
      "t = JT (c_type n) (c_valueint n) (c_valuedouble n) v nm (map snd Ks)"
    using assms(1) unfolding parent_def by blast
  have "own h' (c_valuestring n) Fv v" "own h' (c_string n) Fs nm" using o assms(2) by (simp_all add: own_def)
  then show ?thesis
    unfolding item_parts o(3,4) with_kids_def
    by (intro exI [of _ "n\<lparr>c_child := hd (ps' @ [0])\<rparr>"] exI [of _ Fv] exI [of _ v] exI [of _ Fs] exI [of _ nm]
        exI [of _ ps'] exI [of _ Ks']) (use assms in \<open>simp add: parent_def\<close>)
qed

text \<open>Where an item joins the children of another.\<close>

lemma parent_apart:
  assumes "kids_in h ps Ks" "distinct ((a # Fo @ concat (map fst Ks)) @ G)" "x \<in> set G"
  shows "distinct ps" "a \<notin> set ps" "x \<notin> set ps" "a \<noteq> x" "0 \<notin> set ps"
    "distinct (concat (map fst Ks) @ G)" "a \<notin> set (concat (map fst Ks) @ G)"
  using assms kids_in_roots [OF assms(1)] kids_in_distinct [OF assms(1)] by auto

lemma kids_joined:
  assumes "kids_in h ps Ks" "item h x G u" "relinked a (set (ps @ [x])) h h'"
    and "distinct (concat (map fst Ks) @ G)" "a \<notin> set (concat (map fst Ks) @ G)"
  shows "kids_in h' ps Ks" "item h' x G u"
proof -
  have l: "length Ks = length ps" using kids_in_length [OF assms(1)] .
  have "kids_in h (ps @ [x]) (Ks @ [(G, u)])" using assms(1,2) l by (simp add: kids_in_append)
  then have "kids_in h' (ps @ [x]) (Ks @ [(G, u)])" 
    by (rule kids_relinked [OF _ _ assms(3)]) (use assms(4,5) in simp_all)
  then show "kids_in h' ps Ks" "item h' x G u" using l by (simp_all add: kids_in_append)
qed

lemma kids_in_part: "kids_in h ps Ks \<Longrightarrow> kids_in h (take i ps) (take i Ks)" "kids_in h ps Ks \<Longrightarrow> kids_in h (drop i ps) (drop i Ks)"
  by (simp_all add: kids_in_def list_all2_takeI list_all2_dropI)

section \<open>Inserting and adding\<close>

text \<open>An item outside of every list.\<close>

definition detached :: "heap \<Rightarrow> nat \<Rightarrow> bool" where
  "detached h x \<longleftrightarrow> (\<exists>n. nodes h x = Some n \<and> c_next n = 0 \<and> c_prev n = 0)"

lemma insert_item:
  assumes a: "item h a F t" and x: "item h x G u" "detached h x" and d: "distinct (F @ G)" and i: "0 \<le> i"
  shows "\<exists>h' F'. cJSON_InsertItemInArray a i x h = Some (True, h') \<and> edits (set (F @ G)) h h'
    \<and> item h' a F' (with_kids t (take (nat i) (jt_kids t) @ u # drop (nat i) (jt_kids t)))
    \<and> set F' = set (F @ G) \<and> distinct F'"
proof -
  obtain n Fo ps Ks where pt: "parent h a F t n Fo ps Ks" using a unfolding item_parent by blast
  note p = parent_simps(1-5) [OF pt] and F = parent_simps(6) [OF pt] and kt = parent_simps(7) [OF pt]
  obtain nx where nx: "nodes h x = Some nx" "c_next nx = 0" using x(2) by (auto simp: detached_def)
  have xG: "x \<in> set G" "x \<noteq> 0" using item_in [OF x(1)] by auto
  note ap = parent_apart [OF p(3) d [unfolded F] xG(1)]
  let ?k = "nat i"
  note gi = get_array_item_kids [OF p(4) ap(5) p(1,2,5), of ?k]
  obtain h' where h': "cJSON_InsertItemInArray a i x h = Some (True, h')" "relinked a (set (ps @ [x])) h h'"
      "linked (nodes h') (take ?k ps @ x # drop ?k ps)" "nodes h' a = Some (n\<lparr>c_child := hd (take ?k ps @ x # drop ?k ps)\<rparr>)"
  proof (cases "?k < length ps")
    case True
    have ps: "ps = take ?k ps @ ps ! ?k # drop (Suc ?k) ps" using True by (simp add: id_take_nth_drop)
    have dr: "drop ?k ps = ps ! ?k # drop (Suc ?k) ps" using True by (simp add: Cons_nth_drop_Suc)
    have g: "get_array_item h a ?k = Some (ps ! ?k)" using gi True by simp
    have st: "set (take ?k ps @ x # ps ! ?k # drop (Suc ?k) ps) = set (ps @ [x])" by (subst (3) ps) auto
    have "\<exists>h'. cJSON_InsertItemInArray a i x h = Some (True, h')
      \<and> relinked a (set (take ?k ps @ x # ps ! ?k # drop (Suc ?k) ps)) h h'
      \<and> linked (nodes h') (take ?k ps @ x # ps ! ?k # drop (Suc ?k) ps)
      \<and> nodes h' a = Some (n\<lparr>c_child := hd (take ?k ps @ x # ps ! ?k # drop (Suc ?k) ps)\<rparr>)"
      by (rule insert_links [where nx = nx])
        (unfold ps [symmetric], use True p ap nx(1) xG i g in \<open>auto simp: hd_append\<close>)
    then show ?thesis using that unfolding st dr by blast
  next
    case False
    have "get_array_item h a ?k = Some 0" using gi False by simp
    then have c: "cJSON_InsertItemInArray a i x h = add_item_to_array a x h" using i by (simp add: cJSON_InsertItemInArray_def)
    show ?thesis
      using add_links [OF p(4) ap(1) p(1,5) nx ap(2,3,4) p(2) xG(2) ap(5)] that False unfolding c by auto
  qed
  note kj = kids_joined [OF p(3) x(1) h'(2) ap(6,7)]
  let ?ps = "take ?k ps @ x # drop ?k ps" and ?Ks = "take ?k Ks @ (G, u) # drop ?k Ks"
  let ?F = "a # Fo @ concat (map fst ?Ks)"
  have "kids_in h' ?ps ?Ks" using kj kids_in_part [OF kj(1)] parent_simps(9) [OF pt] by (simp add: kids_in_append)
  then have "item h' a ?F (with_kids t (map snd ?Ks))"
    using h' by (intro parent_rekid [OF pt]) (auto simp: relinked_def hd_append)
  moreover have "mset ?F = mset (F @ G)"
  proof -
    have "mset (concat (map fst Ks)) = mset (concat (map fst (take ?k Ks))) + mset (concat (map fst (drop ?k Ks)))"
      by (metis append_take_drop_id concat_append map_append mset_append)
    then show ?thesis by (simp add: F)
  qed
  then have "set ?F = set (F @ G)" "distinct ?F"
    using d by (metis set_mset_mset, metis mset_eq_imp_distinct_iff)
  moreover have "edits (set (F @ G)) h h'"
    by (rule edits_relinked [OF h'(2)]) (use kids_in_roots [OF p(3)] xG in \<open>auto simp: F\<close>)
  moreover have "map snd ?Ks = take ?k (jt_kids t) @ u # drop ?k (jt_kids t)" by (simp add: kt take_map drop_map)
  ultimately show ?thesis using h'(1) by metis
qed

lemma append_item:
  assumes a: "item h a F t" and x: "item h x G u" "detached h x" and d: "distinct (F @ G)"
  shows "\<exists>h'. add_item_to_array a x h = Some (True, h') \<and> edits (set (F @ G)) h h'
    \<and> item h' a (F @ G) (with_kids t (jt_kids t @ [u]))"
proof -
  obtain n Fo ps Ks where pt: "parent h a F t n Fo ps Ks" using a unfolding item_parent by blast
  note p = parent_simps(1-5) [OF pt] and F = parent_simps(6) [OF pt] and kt = parent_simps(7) [OF pt]
  obtain nx where nx: "nodes h x = Some nx" "c_next nx = 0" using x(2) by (auto simp: detached_def)
  have xG: "x \<in> set G" "x \<noteq> 0" using item_in [OF x(1)] by auto
  note ap = parent_apart [OF p(3) d [unfolded F] xG(1)]
  note add = add_links [OF p(4) ap(1) p(1,5) nx ap(2,3,4) p(2) xG(2) ap(5)]
  from add obtain h' where h': "add_item_to_array a x h = Some (True, h')" "relinked a (set (ps @ [x])) h h'"
      "linked (nodes h') (ps @ [x])" "nodes h' a = Some (n\<lparr>c_child := hd (ps @ [x])\<rparr>)"
    by (elim exE conjE)
  note kj = kids_joined [OF p(3) x(1) h'(2) ap(6,7)]
  have "kids_in h' (ps @ [x]) (Ks @ [(G, u)])" using kj parent_simps(9) [OF pt] by (simp add: kids_in_append)
  then have "item h' a (a # Fo @ concat (map fst (Ks @ [(G, u)]))) (with_kids t (map snd (Ks @ [(G, u)])))"
    using h' by (intro parent_rekid [OF pt]) (auto simp: relinked_def hd_append)
  moreover have "edits (set (F @ G)) h h'"
    by (rule edits_relinked [OF h'(2)]) (use kids_in_roots [OF p(3)] xG in \<open>auto simp: F\<close>)
  ultimately show ?thesis using h'(1) by (auto simp: F kt)
qed

section \<open>Detaching and deleting\<close>

text \<open>The list of children around one of them.\<close>

lemma kids_split:
  assumes "kids_in h ps Ks" "k < length ps"
  shows "ps = take k ps @ ps ! k # drop (Suc k) ps" "Ks = take k Ks @ Ks ! k # drop (Suc k) Ks"
    "kids_in h (take k ps @ drop (Suc k) ps) (take k Ks @ drop (Suc k) Ks)" "item h (ps ! k) (fst (Ks ! k)) (snd (Ks ! k))"
proof -
  have l: "length Ks = length ps" using kids_in_length [OF assms(1)] .
  show "ps = take k ps @ ps ! k # drop (Suc k) ps" "Ks = take k Ks @ Ks ! k # drop (Suc k) Ks"
    using assms(2) l by (simp_all add: id_take_nth_drop)
  show "kids_in h (take k ps @ drop (Suc k) ps) (take k Ks @ drop (Suc k) Ks)"
    using kids_in_part [OF assms(1)] l by (simp add: kids_in_append)
  show "item h (ps ! k) (fst (Ks ! k)) (snd (Ks ! k))"
    using assms l by (simp add: kids_in_def list_all2_conv_all_nth)
qed

lemma mset_kids:
  "k < length Ks \<Longrightarrow> mset (concat (map fst Ks))
     = mset (fst (Ks ! k)) + mset (concat (map fst (take k Ks @ drop (Suc k) Ks)))"
  by (subst id_take_nth_drop [of k Ks]) simp_all

lemma detach_item:
  assumes pt: "parent h a F t n Fo ps Ks" and d: "distinct F" and k: "k < length ps"
  shows "\<exists>h' F'. cJSON_DetachItemViaPointer a (ps ! k) h = Some (ps ! k, h') \<and> edits (set F) h h'
    \<and> item h' (ps ! k) (fst (Ks ! k)) (jt_kids t ! k) \<and> detached h' (ps ! k)
    \<and> item h' a F' (with_kids t (take k (jt_kids t) @ drop (Suc k) (jt_kids t)))
    \<and> mset (F' @ fst (Ks ! k)) = mset F"
proof -
  note p = parent_simps(1-5) [OF pt] and F = parent_simps(6) [OF pt] and kt = parent_simps(7) [OF pt]
    and z = parent_simps(8) [OF pt] and l = parent_simps(9) [OF pt]
  have dk: "distinct (concat (map fst Ks))" "a \<notin> set (concat (map fst Ks))" using d F by auto
  have ap: "distinct ps" "a \<notin> set ps" using kids_in_distinct [OF p(3) dk(1)] kids_in_roots [OF p(3)] dk(2) by auto
  note sp = kids_split [OF p(3) k]
  let ?p = "ps ! k" and ?us = "take k ps" and ?vs = "drop (Suc k) ps"
  have "\<exists>h' np. cJSON_DetachItemViaPointer a ?p h = Some (?p, h') \<and> relinked a (set (?us @ ?p # ?vs)) h h'
    \<and> linked (nodes h') (?us @ ?vs) \<and> nodes h' a = Some (n\<lparr>c_child := hd (?us @ ?vs @ [0])\<rparr>)
    \<and> nodes h' ?p = Some np \<and> c_next np = 0 \<and> c_prev np = 0"
    by (rule detach_links) (unfold sp(1) [symmetric], use k p ap z in \<open>auto simp: hd_append\<close>)
  then obtain h' np where h': "cJSON_DetachItemViaPointer a ?p h = Some (?p, h')" "relinked a (set ps) h h'"
      "linked (nodes h') (?us @ ?vs)" "nodes h' a = Some (n\<lparr>c_child := hd ((?us @ ?vs) @ [0])\<rparr>)"
      "nodes h' ?p = Some np" "c_next np = 0 \<and> c_prev np = 0"
    unfolding sp(1) [symmetric] append_assoc by blast
  have kr: "kids_in h' ps Ks" by (rule kids_relinked [OF p(3) dk(1) h'(2) dk(2)])
  note sp' = kids_split [OF kr k]
  let ?Ks = "take k Ks @ drop (Suc k) Ks"
  have "item h' a (a # Fo @ concat (map fst ?Ks)) (with_kids t (map snd ?Ks))"
    by (rule parent_rekid [OF pt _ h'(4) sp'(3) h'(3)]) (use h'(2) in \<open>simp add: relinked_def\<close>)
  moreover have "map snd ?Ks = take k (jt_kids t) @ drop (Suc k) (jt_kids t)" by (simp add: kt take_map drop_map)
  moreover have "mset ((a # Fo @ concat (map fst ?Ks)) @ fst (Ks ! k)) = mset F"
    using mset_kids [of k Ks] k l by (simp add: F)
  moreover have "edits (set F) h h'"
    by (rule edits_relinked [OF h'(2)]) (use kids_in_roots [OF p(3)] in \<open>auto simp: F\<close>)
  moreover have "detached h' ?p" using h' by (simp add: detached_def)
  moreover have "item h' ?p (fst (Ks ! k)) (jt_kids t ! k)" using sp'(4) k l by (simp add: kt)
  ultimately show ?thesis using h'(1) by metis
qed

lemma Delete_detached:
  assumes "item h p G u" "detached h p" "distinct G" "heap_wf h"
  shows "cJSON_Delete p h = Some (release G h)"
proof -
  obtain n where "nodes h p = Some n" "c_next n = 0" using assms(2) by (auto simp: detached_def)
  then show ?thesis using cJSON_Delete_chain [OF chain_single [OF assms(1)] assms(3,4)] by simp
qed

lemma edits_release: "set G \<subseteq> A \<Longrightarrow> edits A h (release G h)"
  using release_wf by (auto simp: edits_def same_on_def release_def restrict_map_def)

lemma item_release: "item h p F t \<Longrightarrow> set F \<inter> set G = {} \<Longrightarrow> item (release G h) p F t"
  by (rule item_frame) (auto intro: release_same)

lemma gone: "q \<in> set G \<Longrightarrow> nodes (release G h) q = None \<and> strs (release G h) q = None"
  by (simp add: release_def)

section \<open>Replacing\<close>

lemma replace_item:
  assumes pt: "parent h a F t n Fo ps Ks" and x: "item h x G u" and d: "distinct (F @ G)" and k: "k < length ps"
    and wf: "heap_wf h"
  shows "\<exists>h' F'. cJSON_ReplaceItemViaPointer a (ps ! k) x h = Some (True, h') \<and> edits (set (F @ G)) h h'
    \<and> item h' a F' (with_kids t ((jt_kids t)[k := u])) \<and> mset (F' @ fst (Ks ! k)) = mset (F @ G)
    \<and> (\<forall>q\<in>set (fst (Ks ! k)). nodes h' q = None \<and> strs h' q = None)"
proof -
  note p = parent_simps(1-5) [OF pt] and F = parent_simps(6) [OF pt] and kt = parent_simps(7) [OF pt]
    and z = parent_simps(8) [OF pt] and l = parent_simps(9) [OF pt]
  obtain nx where nx: "nodes h x = Some nx" using item_in [OF x] by blast
  have xG: "x \<in> set G" "x \<noteq> 0" using item_in [OF x] by auto
  note ap = parent_apart [OF p(3) d [unfolded F] xG(1)]
  note sp = kids_split [OF p(3) k]
  let ?p = "ps ! k" and ?us = "take k ps" and ?vs = "drop (Suc k) ps"
  have px: "?p \<noteq> x" "?p \<noteq> 0" "?p \<in> set ps" "?p \<noteq> a" using ap k z nth_mem [OF k] by metis+
  have "\<exists>h'. replace_links a ?p x h = Some h' \<and> relinked a (set (?us @ x # ?p # ?vs)) h h'
    \<and> linked (nodes h') (?us @ x # ?vs) \<and> nodes h' a = Some (n\<lparr>c_child := hd (?us @ x # ?vs)\<rparr>)"
    by (rule replace_links_run [where nx = nx])
      (unfold sp(1) [symmetric], use k p ap z nx xG in \<open>auto simp: hd_append\<close>)
  moreover have "set (?us @ x # ?p # ?vs) = set (ps @ [x])" by (subst (4) sp(1)) auto
  ultimately obtain h1 where h1: "replace_links a ?p x h = Some h1" "relinked a (set (ps @ [x])) h h1"
      "linked (nodes h1) (?us @ x # ?vs)" "nodes h1 a = Some (n\<lparr>c_child := hd (?us @ x # ?vs)\<rparr>)"
    by metis
  obtain m where m: "nodes h ?p = Some m" using item_in [OF sp(4)] by blast
  then obtain m1 where m1: "nodes h1 ?p = Some m1" "\<exists>y z. m1 = m\<lparr>c_next := y, c_prev := z\<rparr>"
    using h1(2) px unfolding relinked_def links_only_def by (metis UnCI set_append)
  let ?h2 = "h1\<lparr>nodes := (nodes h1)(?p \<mapsto> m1\<lparr>c_next := 0, c_prev := 0\<rparr>)\<rparr>"
  have r2: "relinked a (set (ps @ [x])) h ?h2"
    using h1(2) m m1(2) px by (auto simp: relinked_def intro!: links_only_upd)
  have notin: "?p \<notin> set (?us @ x # ?vs)"
    using ap(1) px(1) by (subst (asm) sp(1)) auto
  have l2: "linked (nodes ?h2) (?us @ x # ?vs)" using h1(3) notin by (simp add: linked_def del: seg.simps seg_append)
  have a2: "nodes ?h2 a = Some (n\<lparr>c_child := hd ((?us @ x # ?vs) @ [0])\<rparr>)" using h1(4) px(4) by (simp add: hd_append)
  note kj = kids_joined [OF p(3) x r2 ap(6,7)]
  note sp' = kids_split [OF kj(1) k] and part = kids_in_part [OF kj(1)]
  let ?G = "fst (Ks ! k)" and ?Ks = "take k Ks @ (G, u) # drop (Suc k) Ks"
  let ?F = "a # Fo @ concat (map fst ?Ks)"
  have "item ?h2 a ?F (with_kids t (map snd ?Ks))"
    by (rule parent_rekid [OF pt _ a2 _ l2]) (use r2 part kj(2) l in \<open>simp_all add: relinked_def kids_in_append\<close>)
  moreover have "map snd ?Ks = (jt_kids t)[k := u]"
    using k l by (simp add: kt upd_conv_take_nth_drop take_map drop_map)
  moreover have ms: "mset (?F @ ?G) = mset (F @ G)"
    using mset_kids [of k Ks] k l by (simp add: F)
  moreover have dF: "distinct (?F @ ?G)" using d ms by (metis mset_eq_imp_distinct_iff)
  moreover have del: "cJSON_Delete ?p ?h2 = Some (release ?G ?h2)"
    by (rule Delete_detached [OF sp'(4)]) (use dF relinked_wf [OF r2 wf] in \<open>auto simp: detached_def\<close>)
  moreover have "cJSON_ReplaceItemViaPointer a ?p x h = Some (True, release ?G ?h2)"
    using h1(1) m1 del px p(2) xG(2) by (simp add: cJSON_ReplaceItemViaPointer_def)
  moreover have "edits (set (F @ G)) h (release ?G ?h2)"
  proof (rule edits_trans [OF edits_relinked [OF r2] edits_release])
    show "insert a (set (ps @ [x])) \<subseteq> set (F @ G)" using kids_in_roots [OF p(3)] xG by (auto simp: F)
    show "set ?G \<subseteq> set (F @ G)" using ms by (metis mset_append set_append set_mset_mset Un_upper2)
  qed
  ultimately show ?thesis
    using item_release [of ?h2 a ?F _ ?G] gone [of _ ?G ?h2] by (metis distinct_append)
qed

section \<open>Strings and names\<close>

text \<open>What \<open>strlen\<close> and \<open>strcpy\<close> see of an array.\<close>

definition cstr :: "bytes \<Rightarrow> bytes" where
  "cstr s = takeWhile (\<lambda>c. c \<noteq> 0) s @ [0]"

lemma cstr_0 [simp]: "0 \<in> set (cstr s)"
  by (simp add: cstr_def)

lemma take_cstr: "0 \<in> set s \<Longrightarrow> take (length (takeWhile (\<lambda>c. c \<noteq> 0) s) + 1) s = cstr s"
  by (induction s) (auto simp: cstr_def)

lemma strdup_run:
  assumes "heap_wf h" "strs h s = Some b" "0 \<in> set b"
  shows "\<exists>q h'. cJSON_strdup s h = Some (q, h') \<and> heap_step h h' \<and> nodes h' = nodes h
    \<and> (if q = 0 then strs h' = strs h \<and> oom h h'
       else q = Suc (brk h) \<and> brk h' = q \<and> strs h' = (strs h)(q \<mapsto> cstr b) \<and> strs h q = None \<and> nodes h q = None)"
proof -
  have s: "s \<noteq> 0" using heap_wf_str assms by blast
  have n: "c_strlen b = Some (length (takeWhile (\<lambda>c. c \<noteq> 0) b))" using assms(3) by (simp add: c_strlen_def)
  obtain q h1 where a: "allocate h = (q, h1)" by fastforce
  note r = allocate_step [OF assms(1) a]
  show ?thesis
  proof (cases "q = 0")
    case True
    then show ?thesis using r s n a assms(2) by (auto simp: cJSON_strdup_def)
  next
    case False
    let ?h = "h1\<lparr>strs := (strs h1)(q \<mapsto> cstr b)\<rparr>"
    have "heap_wf ?h" using r(1) r(3) [OF False] by (auto simp: heap_step_def heap_wf_def)
    then show ?thesis
      using r(1) r(3) [OF False] False s n a assms(2) take_cstr [OF assms(3)]
      by (auto simp: cJSON_strdup_def heap_step_def)
  qed
qed

lemma clear_flag: "\<not> flag t f \<Longrightarrow> t AND NOT f = t"
  unfolding flag_def by (metis and.commute and.right_neutral bit.conj_cancel_right bit.conj_disj_distrib bit.disj_cancel_right or.left_neutral)

text \<open>The old name of an item is freed, it gets another one.\<close>

lemma rename_item:
  assumes x: "item h x G u" "nodes h x = Some nx" and d: "distinct G" and wf: "heap_wf h"
    and q: "strs h q = Some s" "0 \<in> set s" "q \<noteq> 0" "q \<notin> set G"
  obtains Fs G' where "own h (c_string nx) Fs (jt_name u)"
    "item ((release Fs h)\<lparr>nodes := (nodes (release Fs h))(x \<mapsto> nx\<lparr>c_string := q\<rparr>)\<rparr>) x G' (set_name (Some s) u)"
    "mset (G' @ Fs) = mset (q # G)" "x \<notin> set Fs" "\<not> flag (c_type nx) cJSON_StringIsConst"
    "q \<in> set G'"
proof -
  obtain Fv v Fs nm ps Ks where i: "x \<noteq> 0" "own h (c_valuestring nx) Fv v" "own h (c_string nx) Fs nm"
      "\<not> flag (c_type nx) 256" "\<not> flag (c_type nx) 512" "kids_in h ps Ks" "linked (nodes h) ps" "c_child nx = hd (ps @ [0])"
      and eq: "G = x # Fv @ Fs @ concat (map fst Ks)" "u = JT (c_type nx) (c_valueint nx) (c_valuedouble nx) v nm (map snd Ks)"
    using x unfolding item_parts by force
  let ?h = "(release Fs h)\<lparr>nodes := (nodes (release Fs h))(x \<mapsto> nx\<lparr>c_string := q\<rparr>)\<rparr>"
  let ?G = "x # Fv @ [q] @ concat (map fst Ks)"
  have same: "same_on (set (Fv @ q # concat (map fst Ks))) h ?h"
    using d q(4) by (auto simp: eq same_on_def release_def restrict_map_def)
  have roots: "set ps \<subseteq> set (concat (map fst Ks))" using kids_in_roots [OF i(6)] by blast
  have sub: "set (fst K) \<subseteq> set (concat (map fst Ks))" if "K \<in> set Ks" for K using that by auto
  have k: "kids_in ?h ps Ks"
    using i(6) unfolding kids_in_def
  proof (rule list.rel_mono_strong)
    fix p K assume K: "p \<in> set ps" "K \<in> set Ks" "item h p (fst K) (snd K)"
    then show "item ?h p (fst K) (snd K)"
      by (elim item_frame) (rule same_on_subset [OF same], use sub [OF K(2)] in auto)
  qed
  have l: "linked (nodes ?h) ps"
  proof -
    have "nodes ?h p = nodes h p" if r: "p \<in> set ps" for p
    proof -
      have "p \<in> set (Fv @ q # concat (map fst Ks))" using subsetD [OF roots r] by simp
      then show ?thesis using same_onD [OF same] by blast
    qed
    from seg_cong [of ps "nodes ?h" "nodes h", OF this] show ?thesis using i(7) unfolding linked_def by blast
  qed
  have "own ?h (c_valuestring nx) Fv v" by (rule own_frame [OF i(2) same_on_subset [OF same]]) auto
  moreover have "own ?h q [q] (Some s)" using q d by (auto simp: own_def release_def eq)
  ultimately have "item ?h x ?G (set_name (Some s) u)"
    unfolding item_parts eq(2) set_name.simps
    by (intro exI [of _ "nx\<lparr>c_string := q\<rparr>"] exI [of _ Fv] exI [of _ v] exI [of _ "[q]"] exI [of _ "Some s"] exI [of _ ps] exI [of _ Ks])
      (use i k l in simp)
  moreover have "mset (?G @ Fs) = mset (q # G)" by (simp add: eq)
  ultimately show thesis using that [of Fs ?G] i(3,5) d by (simp add: eq)
qed

lemma item_chain_allocated:
  "item h p F t \<Longrightarrow> \<forall>q\<in>set F. nodes h q \<noteq> None \<or> strs h q \<noteq> None"
  "chain h ps e F ts \<Longrightarrow> \<forall>q\<in>set F. nodes h q \<noteq> None \<or> strs h q \<noteq> None"
  by (induction rule: item_chain.inducts) (auto simp: own_def split: if_splits)

lemma item_fresh: "item h p F t \<Longrightarrow> nodes h q = None \<Longrightarrow> strs h q = None \<Longrightarrow> q \<notin> set F"
  using item_chain_allocated(1) by blast

section \<open>Adding to an object\<close>

text \<open>
  The outcome of adding the item \<open>x\<close> with the tree \<open>u\<close> under a name: it became the last child and
  every address is owned by the object or free, or there was no memory and nothing changed.
\<close>

definition added :: "heap \<Rightarrow> nat \<Rightarrow> nat list \<Rightarrow> nat list \<Rightarrow> jtree \<Rightarrow> jtree \<Rightarrow> bool \<times> heap \<Rightarrow> bool" where
  "added h a F G t u r \<longleftrightarrow>
     (case r of (ok, h') \<Rightarrow> heap_step h h' \<and>
        (if ok then \<exists>F'. item h' a F' (with_kids t (jt_kids t @ [u])) \<and> distinct F'
             \<and> insert (Suc (brk h)) (set F) \<subseteq> set F' \<and> set F' \<subseteq> insert (Suc (brk h)) (set F \<union> set G)
             \<and> same_on (- insert (Suc (brk h)) (set F \<union> set G)) h h'
             \<and> (\<forall>q\<in>set G - set F'. nodes h' q = None \<and> strs h' q = None)
         else nodes h' = nodes h \<and> strs h' = strs h \<and> oom h h'))"

lemma add_to_object:
  assumes a: "item h a F t" and x: "item h x G u" "detached h x" and d: "distinct (F @ G)" and wf: "heap_wf h"
    and s: "strs h s = Some b" "0 \<in> set b"
  shows "\<exists>r. add_item_to_object a s x False h = Some r \<and> added h a F G t (set_name (Some (cstr b)) u) r"
proof -
  obtain q h1 where q: "cJSON_strdup s h = Some (q, h1)" "heap_step h h1" "nodes h1 = nodes h"
      "if q = 0 then strs h1 = strs h \<and> oom h h1
       else q = Suc (brk h) \<and> brk h1 = q \<and> strs h1 = (strs h)(q \<mapsto> cstr b) \<and> strs h q = None \<and> nodes h q = None"
    using strdup_run [OF wf s] by metis
  have nz: "a \<noteq> 0" "s \<noteq> 0" "x \<noteq> 0" "a \<noteq> x"
    using item_in [OF a] item_in [OF x(1)] heap_wf_str [OF wf s(1)] d by auto
  show ?thesis
  proof (cases "q = 0")
    case True
    then show ?thesis using q nz by (simp add: add_item_to_object_def added_def)
  next
    case False
    then have q1: "q = Suc (brk h)" "brk h1 = q" "strs h1 = (strs h)(q \<mapsto> cstr b)" "strs h q = None" "nodes h q = None"
      using q(4) by auto
    have qFG: "q \<notin> set F" "q \<notin> set G" using item_fresh [OF a] item_fresh [OF x(1)] q1 by auto
    have s1: "same_on (set F) h h1" "same_on (set G) h h1" using q1 q(3) qFG by (auto simp: same_on_def)
    have a1: "item h1 a F t" and x1: "item h1 x G u" using item_frame [OF a s1(1)] item_frame [OF x(1) s1(2)] .
    obtain nx where nx: "nodes h1 x = Some nx" "c_next nx = 0" "c_prev nx = 0" using x(2) q(3) by (auto simp: detached_def)
    have wf1: "heap_wf h1" using q(2) by (simp add: heap_step_def)
    obtain Fs G' where r: "own h1 (c_string nx) Fs (jt_name u)"
        "item ((release Fs h1)\<lparr>nodes := (nodes (release Fs h1))(x \<mapsto> nx\<lparr>c_string := q\<rparr>)\<rparr>) x G' (set_name (Some (cstr b)) u)"
        "mset (G' @ Fs) = mset (q # G)" "x \<notin> set Fs" "\<not> flag (c_type nx) cJSON_StringIsConst"
        "q \<in> set G'"
      by (rule rename_item [OF x1 nx(1) _ wf1 _ cstr_0 False qFG(2)]) (use d q1 in auto)
    let ?h2 = "release Fs h1" and ?h3 = "(release Fs h1)\<lparr>nodes := (nodes (release Fs h1))(x \<mapsto> nx\<lparr>c_string := q\<rparr>)\<rparr>"
    have sets: "set G' \<union> set Fs = insert q (set G)" using r(3) by (metis mset_append set_append set_mset_mset list.simps(15))
    have dG: "distinct (G' @ Fs)" using r(3) d qFG(2) by (metis distinct.simps(2) distinct_append mset_eq_imp_distinct_iff)
    have x2: "nodes ?h2 x = Some nx" using nx(1) r(4) by (simp add: release_def)
    have same: "same_on (- insert q (set G)) h1 ?h3"
      using sets item_in [OF x(1)] by (auto simp: same_on_def release_def restrict_map_def)
    have a3: "item ?h3 a F t"
      by (rule item_frame [OF a1 same_on_subset [OF same]]) (use d qFG in auto)
    have wf3: "heap_wf ?h3" using heap_wf_upd [OF release_wf [OF wf1] x2] by simp
    have dF: "distinct (F @ G')" using dG sets d qFG by auto
    have "detached ?h3 x" using nx by (simp add: detached_def)
    from append_item [OF a3 r(2) this dF] obtain h' where h': "add_item_to_array a x ?h3 = Some (True, h')"
        "edits (set (F @ G')) ?h3 h'" "item h' a (F @ G') (with_kids t (jt_kids t @ [set_name (Some (cstr b)) u]))"
      by blast
    have "add_item_to_object a s x False h = Some (True, h')"
      using q(1) nz False nx(1) x2 r(5) free_str_release [OF wf1 r(1)] h'(1) clear_flag [OF r(5)]
      by (simp add: add_item_to_object_def)
    moreover have "heap_step h h'" using q(2) wf3 h'(2) by (simp add: heap_step_def edits_def)
    moreover have "set (F @ G') \<subseteq> insert q (set (F @ G))" "insert q (set F) \<subseteq> set (F @ G')" using sets r(6) by auto
    moreover have "same_on (- insert q (set (F @ G))) h h'"
    proof -
      have "same_on (- insert q (set (F @ G))) h h1" using q1 q(3) by (auto simp: same_on_def)
      moreover have "same_on (- insert q (set (F @ G))) h1 ?h3" by (rule same_on_subset [OF same]) auto
      moreover have "same_on (- insert q (set (F @ G))) ?h3 h'"
        by (rule same_on_subset [of "- set (F @ G')"]) (use h'(2) sets in \<open>auto simp: edits_def\<close>)
      ultimately show ?thesis by (simp add: same_on_def)
    qed
    moreover have "\<forall>p\<in>set (F @ G) - set (F @ G'). nodes h' p = None \<and> strs h' p = None"
    proof
      fix p assume p: "p \<in> set (F @ G) - set (F @ G')"
      have pF: "p \<in> set Fs" "p \<noteq> x" using p sets item_in [OF r(2)] by auto
      then have "nodes ?h3 p = None \<and> strs ?h3 p = None" using gone [of p Fs h1] by simp
      then show "nodes h' p = None \<and> strs h' p = None" using h'(2) p by (auto simp: edits_def same_on_def)
    qed
    ultimately show ?thesis using h'(3) dF q1(1)
      unfolding added_def by (intro exI [of _ "(True, h')"] conjI) (simp_all, intro exI [of _ "F @ G'"], simp)
  qed
qed

end
