(* ===== verification/Cjson_Create_Refine.thy ===== *)
theory Cjson_Create_Refine
  imports Cjson_Edit_Refine
begin

text \<open>
  Creating items, and adding what was created to an object: the tree of the new item, the memory
  it takes, and what remains when an allocation fails.
\<close>

section \<open>New items\<close>

text \<open>
  The outcome of a function that makes an item with the tree \<open>u\<close>: it owns new addresses only, or
  there was no memory and nothing remains.
\<close>

definition made :: "heap \<Rightarrow> jtree \<Rightarrow> nat \<times> heap \<Rightarrow> bool" where
  "made h u r \<longleftrightarrow>
     (case r of (x, h') \<Rightarrow> heap_step h h' \<and>
        (if x = 0 then nodes h' = nodes h \<and> strs h' = strs h \<and> oom h h'
         else \<exists>G. item h' x G u \<and> detached h' x \<and> distinct G \<and> set G \<subseteq> {brk h<..brk h'} \<and> same_on (- set G) h h'))"

lemma made_none: "heap_step h h' \<Longrightarrow> nodes h' = nodes h \<Longrightarrow> strs h' = strs h \<Longrightarrow> oom h h' \<Longrightarrow> made h u (0, h')"
  by (simp add: made_def)

lemma made_item:
  "heap_step h h' \<Longrightarrow> item h' x G u \<Longrightarrow> detached h' x \<Longrightarrow> distinct G \<Longrightarrow> set G \<subseteq> {brk h<..brk h'} \<Longrightarrow> same_on (- set G) h h' \<Longrightarrow>
   made h u (x, h')"
  using item_in [of h' x G u] by (auto simp: made_def)

lemma create_made:
  assumes wf: "heap_wf h" and g: "g zero_node = zero_node\<lparr>c_type := ty, c_valueint := i, c_valuedouble := d\<rparr>"
    and ty: "\<not> flag ty cJSON_IsReference" "\<not> flag ty cJSON_StringIsConst"
  shows "\<exists>r. create g h = Some r \<and> made h (leaf ty i d None) r"
proof -
  obtain x h1 where x: "cJSON_New_Item h = (x, h1)" by fastforce
  note N = New_Item_step [OF wf x]
  show ?thesis
  proof (cases "x = 0")
    case True
    then show ?thesis using x N by (simp add: create_def made_none)
  next
    case False
    note N3 = N(3) [OF False]
    let ?n = "g zero_node" and ?h = "h1\<lparr>nodes := (nodes h1)(x \<mapsto> g zero_node)\<rparr>"
    have n: "c_next ?n = 0" "c_prev ?n = 0" "c_child ?n = 0" "c_string ?n = 0" "c_valuestring ?n = 0"
        "c_type ?n = ty" "c_valueint ?n = i" "c_valuedouble ?n = d"
      unfolding g by (simp_all add: zero_node_def)
    have c: "create g h = Some (x, ?h)" using x N3 False by (simp add: create_def)
    have "item ?h x [x] (leaf ty i d None)"
      unfolding item_parts leaf_def
      by (intro exI [of _ ?n] exI [of _ "[]"] exI [of _ None])
        (use False ty n in \<open>simp add: own_def linked_def\<close>)
    moreover have "heap_wf ?h" using N(1) N3 heap_wf_upd [of h1 x zero_node] by (simp add: heap_step_def)
    ultimately have "made h (leaf ty i d None) (x, ?h)"
      using N(1) N3 n by (intro made_item [where G = "[x]"])
        (auto simp: heap_step_def detached_def same_on_def)
    then show ?thesis using c by blast
  qed
qed

lemma flags_of_types [simp]:
  "\<not> flag 1 256" "\<not> flag 2 256" "\<not> flag 4 256" "\<not> flag 8 256" "\<not> flag 16 256" "\<not> flag 32 256" "\<not> flag 64 256" "\<not> flag 128 256"
  "\<not> flag 1 512" "\<not> flag 2 512" "\<not> flag 4 512" "\<not> flag 8 512" "\<not> flag 16 512" "\<not> flag 32 512" "\<not> flag 64 512" "\<not> flag 128 512"
  by (simp_all add: flag_def)

lemma created:
  assumes "heap_wf h"
  shows "\<exists>r. cJSON_CreateNull h = Some r \<and> made h (leaf 4 0 zero_double None) r"
    "\<exists>r. cJSON_CreateTrue h = Some r \<and> made h (leaf 2 0 zero_double None) r"
    "\<exists>r. cJSON_CreateFalse h = Some r \<and> made h (leaf 1 0 zero_double None) r"
    "\<exists>r. cJSON_CreateBool b h = Some r \<and> made h (leaf (if b then 2 else 1) 0 zero_double None) r"
    "\<exists>r. cJSON_CreateArray h = Some r \<and> made h (leaf 32 0 zero_double None) r"
    "\<exists>r. cJSON_CreateObject h = Some r \<and> made h (leaf 64 0 zero_double None) r"
  unfolding cJSON_CreateNull_def cJSON_CreateTrue_def cJSON_CreateFalse_def cJSON_CreateBool_def
    cJSON_CreateArray_def cJSON_CreateObject_def
  by (rule create_made [OF assms]; simp add: zero_node_def)+

lemma CreateNumber_made:
  assumes "heap_wf h" "int_of_double d = Some i"
  shows "\<exists>r. cJSON_CreateNumber d h = Some r \<and> made h (leaf 8 i d None) r"
proof -
  have "cJSON_CreateNumber d h = create (\<lambda>n. n\<lparr>c_type := 8, c_valuedouble := d, c_valueint := i\<rparr>) h"
    using assms(2) by (simp add: cJSON_CreateNumber_def create_def cong: if_cong)
  then show ?thesis using create_made [OF assms(1), where ty = 8 and i = i and d = d] by (simp add: zero_node_def)
qed

lemma create_text_made:
  assumes wf: "heap_wf h" and s: "strs h s = Some b" "0 \<in> set b"
    and ty: "\<not> flag ty cJSON_IsReference" "\<not> flag ty cJSON_StringIsConst"
  shows "\<exists>r. create_text ty s h = Some r \<and> made h (leaf ty 0 zero_double (Some (cstr b))) r"
proof -
  obtain x h1 where x: "cJSON_New_Item h = (x, h1)" by fastforce
  note N = New_Item_step [OF wf x]
  show ?thesis
  proof (cases "x = 0")
    case True
    then show ?thesis using x N by (simp add: create_text_def made_none)
  next
    case False
    note N3 = N(3) [OF False]
    let ?n = "zero_node\<lparr>c_type := ty\<rparr>" and ?h2 = "h1\<lparr>nodes := (nodes h1)(x \<mapsto> zero_node\<lparr>c_type := ty\<rparr>)\<rparr>"
    have wf2: "heap_wf ?h2" using N(1) N3 heap_wf_upd [of h1 x zero_node] by (simp add: heap_step_def)
    obtain q h3 where q: "cJSON_strdup s ?h2 = Some (q, h3)" "heap_step ?h2 h3" "nodes h3 = nodes ?h2"
        "if q = 0 then strs h3 = strs ?h2 \<and> oom ?h2 h3
         else q = Suc (brk ?h2) \<and> brk h3 = q \<and> strs h3 = (strs ?h2)(q \<mapsto> cstr b) \<and> strs ?h2 q = None \<and> nodes ?h2 q = None"
      using strdup_run [OF wf2, of s b] s N3 by auto
    let ?m = "?n\<lparr>c_valuestring := q\<rparr>" and ?h4 = "h3\<lparr>nodes := (nodes h3)(x \<mapsto> ?n\<lparr>c_valuestring := q\<rparr>)\<rparr>"
    have wf4: "heap_wf ?h4" using q(2,3) heap_wf_upd [of h3 x ?n] by (simp add: heap_step_def)
    have step: "heap_step h ?h4" using N(1) q(2) wf4 by (simp add: heap_step_def)
    have it: "item ?h4 x (if q = 0 then [x] else [x, q]) (leaf ty 0 zero_double (if q = 0 then None else Some (cstr b)))"
      unfolding item_parts leaf_def
      by (intro exI [of _ ?m] exI [of _ "if q = 0 then [] else [q]"] exI [of _ "if q = 0 then None else Some (cstr b)"]
          exI [of _ "[]"] exI [of _ None])
        (use False ty q(4) in \<open>simp add: own_def zero_node_def linked_def\<close>)
    have det: "detached ?h4 x" by (simp add: detached_def zero_node_def)
    show ?thesis
    proof (cases "q = 0")
      case True
      have D: "cJSON_Delete x ?h4 = Some (release [x] ?h4)"
        by (rule Delete_detached [OF _ det _ wf4]) (use it True in auto)
      then have "create_text ty s h = Some (0, release [x] ?h4)"
        using x N3 False q True by (simp add: create_text_def)
      moreover have "nodes (release [x] ?h4) = nodes h" "strs (release [x] ?h4) = strs h"
        using N3 q(3,4) True by (auto simp: release_def restrict_map_def)
      moreover have "heap_step h (release [x] ?h4)" using step release_wf by (simp add: heap_step_def)
      moreover have "oom ?h2 h3" using q(4) True by simp
      then have "oom h (release [x] ?h4)"
        using N(1) N3 unfolding oom_def heap_step_def by (auto intro: le_trans [OF le_SucI [OF le_refl]] Suc_leD)
      ultimately show ?thesis by (simp add: made_none)
    next
      case q0: False
      have "create_text ty s h = Some (x, ?h4)" using x N3 False q q0 by (simp add: create_text_def)
      moreover have "made h (leaf ty 0 zero_double (Some (cstr b))) (x, ?h4)"
        by (rule made_item [where G = "[x, q]", OF step _ det])
          (use it q0 N3 q(3,4) in \<open>auto simp: same_on_def\<close>)
      ultimately show ?thesis by blast
    qed
  qed
qed

section \<open>Adding new items\<close>

text \<open>The outcome of the functions \<open>cJSON_Add...ToObject\<close>.\<close>

definition grown_by :: "heap \<Rightarrow> nat \<Rightarrow> nat list \<Rightarrow> jtree \<Rightarrow> jtree \<Rightarrow> nat \<times> heap \<Rightarrow> bool" where
  "grown_by h a F t u r \<longleftrightarrow>
     (case r of (x, h') \<Rightarrow> heap_step h h' \<and>
        (if x = 0 then nodes h' = nodes h \<and> strs h' = strs h \<and> oom h h'
         else \<exists>F'. item h' a F' (with_kids t (jt_kids t @ [u])) \<and> distinct F' \<and> set F \<subseteq> set F'
                \<and> set F' - set F \<subseteq> {brk h<..brk h'} \<and> same_on (- set F') h h'))"

lemma add_created_run:
  assumes a: "item h a F t" "distinct F" and wf: "heap_wf h" and s: "strs h s = Some b" "0 \<in> set b" and m: "made h u r"
  shows "\<exists>r'. add_created a s r = Some r' \<and> grown_by h a F t (set_name (Some (cstr b)) u) r'"
proof -
  obtain x h1 where r: "r = (x, h1)" by fastforce
  show ?thesis
  proof (cases "x = 0")
    case True
    have "add_item_to_object a s x False h1 = Some (False, h1)" using True by (simp add: add_item_to_object_def)
    moreover have "cJSON_Delete 0 h1 = Some h1" by (subst cJSON_Delete.simps) simp
    ultimately have "add_created a s r = Some (0, h1)" using r True by (simp add: add_created_def)
    then show ?thesis using m r True by (simp add: made_def grown_by_def)
  next
    case False
    obtain G where G: "item h1 x G u" "detached h1 x" "distinct G" "set G \<subseteq> {brk h<..brk h1}" "same_on (- set G) h h1"
      and st: "heap_step h h1"
      using m r False by (auto simp: made_def)
    have old: "set F \<inter> set G = {}" "s \<notin> set G"
    proof -
      have "q \<notin> set G" if "q \<in> set F" for q
      proof
        assume "q \<in> set G"
        then have "brk h < q" using G(4) by auto
        then show False using item_fresh [OF a(1)] heap_wf_fresh [OF wf] that by blast
      qed
      then show "set F \<inter> set G = {}" by blast
      show "s \<notin> set G" using heap_wf_str [OF wf s(1)] G(4) by auto
    qed
    have a1: "item h1 a F t" by (rule item_frame [OF a(1) same_on_subset [OF G(5)]]) (use old in auto)
    have s1: "strs h1 s = Some b" using same_onD [OF G(5), of s] old s by auto
    have wf1: "heap_wf h1" using st by (simp add: heap_step_def)
    obtain ok h2 where h2: "add_item_to_object a s x False h1 = Some (ok, h2)"
        "added h1 a F G t (set_name (Some (cstr b)) u) (ok, h2)"
      using add_to_object [OF a1 G(1,2) _ wf1 s1 s(2)] a(2) G(3) old by fastforce
    have new: "nodes h q = None \<and> strs h q = None" if "brk h < q" for q using heap_wf_fresh [OF wf that] .
    show ?thesis
    proof (cases ok)
      case True
      then obtain F' where F': "item h2 a F' (with_kids t (jt_kids t @ [set_name (Some (cstr b)) u]))" "distinct F'"
          "insert (Suc (brk h1)) (set F) \<subseteq> set F'" "set F' \<subseteq> insert (Suc (brk h1)) (set F \<union> set G)"
          "same_on (- insert (Suc (brk h1)) (set F \<union> set G)) h1 h2" "\<forall>q\<in>set G - set F'. nodes h2 q = None \<and> strs h2 q = None"
        and st2: "heap_step h1 h2"
        using h2(2) by (auto simp: added_def)
      have "same_on (- set F') h h2"
        unfolding same_on_def
      proof
        fix q assume q: "q \<in> - set F'"
        show "nodes h2 q = nodes h q \<and> strs h2 q = strs h q"
        proof (cases "q \<in> set G")
          case True
          then show ?thesis using F'(6) q new [of q] G(4) by auto
        next
          case False
          then have "q \<in> - insert (Suc (brk h1)) (set F \<union> set G)" "q \<in> - set G" using q F'(3) by auto
          then show ?thesis using same_onD [OF F'(5)] same_onD [OF G(5)] by metis
        qed
      qed
      moreover have "brk h1 < brk h2"
      proof (rule ccontr)
        assume "\<not> brk h1 < brk h2"
        then have "Suc (brk h1) \<notin> set F'"
          using item_fresh [OF F'(1)] heap_wf_fresh [of h2 "Suc (brk h1)"] st2 by (simp add: heap_step_def)
        then show False using F'(3) by blast
      qed
      then have "set F' - set F \<subseteq> {brk h<..brk h2}" using F'(4) G(4) st st2 by (fastforce simp: heap_step_def)
      moreover have "heap_step h h2" using st st2 heap_step_trans by blast
      moreover have "add_created a s r = Some (x, h2)" using r h2(1) True by (simp add: add_created_def)
      ultimately show ?thesis using F' False by (auto simp: grown_by_def)
    next
      case no: False
      then have e: "nodes h2 = nodes h1" "strs h2 = strs h1" "oom h1 h2" "heap_step h1 h2" using h2(2) by (auto simp: added_def)
      have x2: "item h2 x G u" "detached h2 x" using G(1,2) e item_frame [OF G(1), of h2] by (auto simp: same_on_def detached_def)
      have D: "cJSON_Delete x h2 = Some (release G h2)"
        by (rule Delete_detached [OF x2 G(3)]) (use e(4) in \<open>simp add: heap_step_def\<close>)
      then have "add_created a s r = Some (0, release G h2)" using r h2(1) no by (simp add: add_created_def)
      moreover have "nodes (release G h2) q = nodes h q \<and> strs (release G h2) q = strs h q" for q
        using new [of q] G(4) same_onD [OF G(5), of q] e by (cases "q \<in> set G") (auto simp: release_def)
      then have "nodes (release G h2) = nodes h" "strs (release G h2) = strs h" by auto
      moreover have "heap_step h (release G h2)" using heap_step_trans [OF st e(4)] release_wf by (simp add: heap_step_def)
      moreover have "oom h (release G h2)" using oom_step(1) [OF st e(3)] by (simp add: oom_def)
      ultimately show ?thesis by (simp add: grown_by_def)
    qed
  qed
qed

end
