(* ===== verification/Cjson_Copy.thy ===== *)
theory Cjson_Copy
  imports Cjson_Edit
begin

text \<open>
  \<open>cJSON_Duplicate\<close> and \<open>cJSON_Compare\<close>. Both recurse over the tree and loop over lists of
  children; as in \<^verbatim>\<open>Cjson_Heap\<close> the recursion is bounded by a number, \<open>None\<close> when it runs out.
  The number is that of all allocations so far: no list and no path is longer.
\<close>

section \<open>Duplicating\<close>

text \<open>The loop over the children: the last new child and whether no allocation failed.\<close>

primrec dup_loop :: "(nat \<Rightarrow> heap \<Rightarrow> (nat \<times> heap) option) \<Rightarrow> nat \<Rightarrow> nat \<Rightarrow> nat \<Rightarrow> nat \<Rightarrow> heap \<Rightarrow> (bool \<times> nat \<times> heap) option" where
  "dup_loop dup 0 child newitem next h = None"
| "dup_loop dup (Suc f) child newitem next h =
     (if child = 0 then Some (True, next, h)
      else do {
        (newchild, h1) \<leftarrow> dup child h;
        if newchild = 0 then Some (False, next, h1)
        else do {
          h2 \<leftarrow> (if next \<noteq> 0 then suffix_object next newchild h1 else upd_node newitem (\<lambda>n. n\<lparr>c_child := newchild\<rparr>) h1);
          c \<leftarrow> nodes h2 child;
          dup_loop dup f (c_next c) newitem newchild h2
        }
      })"

text \<open>The label \<open>fail\<close>.\<close>

definition dup_fail :: "nat \<Rightarrow> heap \<Rightarrow> (nat \<times> heap) option" where
  "dup_fail newitem h = do { h1 \<leftarrow> (if newitem \<noteq> 0 then cJSON_Delete newitem h else Some h); Some (0, h1) }"

text \<open>The copies of the two strings; false when an allocation failed.\<close>

definition dup_valuestring :: "nat \<Rightarrow> nat \<Rightarrow> heap \<Rightarrow> (bool \<times> heap) option" where
  "dup_valuestring item newitem h =
     do {
       n \<leftarrow> nodes h item;
       if c_valuestring n \<noteq> 0
       then do {
         (v, h1) \<leftarrow> cJSON_strdup (c_valuestring n) h;
         h2 \<leftarrow> upd_node newitem (\<lambda>m. m\<lparr>c_valuestring := v\<rparr>) h1;
         Some (v \<noteq> 0, h2)
       }
       else Some (True, h)
     }"

definition dup_string :: "nat \<Rightarrow> nat \<Rightarrow> heap \<Rightarrow> (bool \<times> heap) option" where
  "dup_string item newitem h =
     do {
       n \<leftarrow> nodes h item;
       if c_string n \<noteq> 0
       then do {
         (s, h1) \<leftarrow> (if flag (c_type n) cJSON_StringIsConst then Some (c_string n, h) else cJSON_strdup (c_string n) h);
         h2 \<leftarrow> upd_node newitem (\<lambda>m. m\<lparr>c_string := s\<rparr>) h1;
         Some (s \<noteq> 0, h2)
       }
       else Some (True, h)
     }"

text \<open>All behind the scalar fields of the new item; \<open>dup\<close> duplicates a child.\<close>

definition dup_body :: "(nat \<Rightarrow> heap \<Rightarrow> (nat \<times> heap) option) \<Rightarrow> nat \<Rightarrow> nat \<Rightarrow> nat \<Rightarrow> bool \<Rightarrow> heap \<Rightarrow> (nat \<times> heap) option" where
  "dup_body dup f item newitem recurse h =
     do {
       (ok, h1) \<leftarrow> dup_valuestring item newitem h;
       if \<not> ok then dup_fail newitem h1
       else do {
         (ok, h2) \<leftarrow> dup_string item newitem h1;
         if \<not> ok then dup_fail newitem h2
         else if \<not> recurse then Some (newitem, h2)
         else do {
           m \<leftarrow> nodes h2 item;
           (ok, newchild, h3) \<leftarrow> dup_loop dup f (c_child m) newitem 0 h2;
           if \<not> ok then dup_fail newitem h3
           else do {
             r \<leftarrow> nodes h3 newitem;
             h4 \<leftarrow> (if c_child r \<noteq> 0 then upd_node (c_child r) (\<lambda>c. c\<lparr>c_prev := newchild\<rparr>) h3 else Some h3);
             Some (newitem, h4)
           }
         }
       }
     }"

primrec duplicate :: "nat \<Rightarrow> nat \<Rightarrow> bool \<Rightarrow> heap \<Rightarrow> (nat \<times> heap) option" where
  "duplicate 0 item recurse h = None"
| "duplicate (Suc f) item recurse h =
     (if item = 0 then dup_fail 0 h
      else let (newitem, h1) = cJSON_New_Item h in
        if newitem = 0 then dup_fail 0 h1
        else do {
          n \<leftarrow> nodes h1 item;
          h2 \<leftarrow> upd_node newitem (\<lambda>m. m\<lparr>c_type := c_type n AND NOT cJSON_IsReference, c_valueint := c_valueint n,
                  c_valuedouble := c_valuedouble n\<rparr>) h1;
          dup_body (\<lambda>child. duplicate f child True) f item newitem recurse h2
        })"

definition cJSON_Duplicate :: "nat \<Rightarrow> bool \<Rightarrow> heap \<Rightarrow> (nat \<times> heap) option" where
  "cJSON_Duplicate item recurse h = duplicate (brk h + 1) item recurse h"

section \<open>Comparing doubles\<close>

fun double_abs :: "double \<Rightarrow> double" where
  "double_abs NaN = NaN"
| "double_abs (Inf neg) = Inf False"
| "double_abs (Fin neg m e) = Fin False m e"

text \<open>The value of a finite double in units of \<open>2 ^ k\<close>, for \<open>k\<close> at most its exponent.\<close>

definition units :: "bool \<Rightarrow> nat \<Rightarrow> int \<Rightarrow> int \<Rightarrow> int" where
  "units neg m e k = (if neg then - 1 else 1) * int m * 2 ^ nat (e - k)"

fun double_less :: "double \<Rightarrow> double \<Rightarrow> bool" where
  "double_less (Fin a m e) (Fin b n f) = (units a m e (min e f) < units b n f (min e f))"
| "double_less (Fin a m e) (Inf b) = (\<not> b)"
| "double_less (Inf a) (Fin b n f) = a"
| "double_less (Inf a) (Inf b) = (a \<and> \<not> b)"
| "double_less _ _ = False"

fun double_le :: "double \<Rightarrow> double \<Rightarrow> bool" where
  "double_le (Fin a m e) (Fin b n f) = (units a m e (min e f) \<le> units b n f (min e f))"
| "double_le (Fin a m e) (Inf b) = (\<not> b)"
| "double_le (Inf a) (Fin b n f) = a"
| "double_le (Inf a) (Inf b) = (a \<or> \<not> b)"
| "double_le _ _ = False"

text \<open>\<open>i * 2 ^ k\<close>, rounded.\<close>

definition rounded :: "int \<Rightarrow> int \<Rightarrow> double" where
  "rounded i k = double_of_frac (i < 0) (nat \<bar>i\<bar> * 2 ^ nat k) (2 ^ nat (- k))"

fun double_minus :: "double \<Rightarrow> double \<Rightarrow> double" where
  "double_minus (Fin a m e) (Fin b n f) = rounded (units a m e (min e f) - units b n f (min e f)) (min e f)"
| "double_minus (Fin a m e) (Inf b) = Inf (\<not> b)"
| "double_minus (Inf a) (Fin b n f) = Inf a"
| "double_minus (Inf a) (Inf b) = (if a = b then NaN else Inf a)"
| "double_minus _ _ = NaN"

text \<open>The product with \<open>DBL_EPSILON\<close>, \<open>2 ^ -52\<close>.\<close>

fun times_epsilon :: "double \<Rightarrow> double" where
  "times_epsilon (Fin a m e) = rounded (units a m e e) (e - 52)"
| "times_epsilon d = d"

definition compare_double :: "double \<Rightarrow> double \<Rightarrow> bool" where
  "compare_double a b =
     (let maxVal = (if double_less (double_abs b) (double_abs a) then double_abs a else double_abs b) in
      double_le (double_abs (double_minus a b)) (times_epsilon maxVal))"

section \<open>Comparing trees\<close>

primrec compare_elements :: "(nat \<Rightarrow> nat \<Rightarrow> bool option) \<Rightarrow> nat \<Rightarrow> heap \<Rightarrow> nat \<Rightarrow> nat \<Rightarrow> bool option" where
  "compare_elements cmp 0 h a_element b_element = None"
| "compare_elements cmp (Suc f) h a_element b_element =
     (if a_element \<noteq> 0 \<and> b_element \<noteq> 0
      then do {
        r \<leftarrow> cmp a_element b_element;
        if \<not> r then Some False
        else do {
          m \<leftarrow> nodes h a_element;
          n \<leftarrow> nodes h b_element;
          compare_elements cmp f h (c_next m) (c_next n)
        }
      }
      else Some (a_element = b_element))"

primrec compare_members :: "(nat \<Rightarrow> nat \<Rightarrow> bool option) \<Rightarrow> nat \<Rightarrow> bool \<Rightarrow> heap \<Rightarrow> nat \<Rightarrow> nat \<Rightarrow> bool option" where
  "compare_members cmp 0 case_sensitive h element other = None"
| "compare_members cmp (Suc f) case_sensitive h element other =
     (if element = 0 then Some True
      else do {
        m \<leftarrow> nodes h element;
        name \<leftarrow> name_arg h (c_string m);
        partner \<leftarrow> get_object_item h other name case_sensitive;
        if partner = 0 then Some False
        else do {
          r \<leftarrow> cmp element partner;
          if \<not> r then Some False else compare_members cmp f case_sensitive h (c_next m) other
        }
      })"

definition valid_type :: "int \<Rightarrow> bool" where
  "valid_type ty \<longleftrightarrow> ty \<in> {cJSON_False, cJSON_True, cJSON_NULL, cJSON_Number, cJSON_String, cJSON_Raw, cJSON_Array, cJSON_Object}"

primrec compare :: "nat \<Rightarrow> bool \<Rightarrow> heap \<Rightarrow> nat \<Rightarrow> nat \<Rightarrow> bool option" where
  "compare 0 case_sensitive h a b = None"
| "compare (Suc f) case_sensitive h a b =
     (if a = 0 \<or> b = 0 then Some False
      else do {
        m \<leftarrow> nodes h a;
        n \<leftarrow> nodes h b;
        let ty = c_type m AND 0xFF;
        if ty \<noteq> c_type n AND 0xFF \<or> ty = cJSON_Invalid then Some False
        else if \<not> valid_type ty then Some False
        else if a = b then Some True
        else if ty = cJSON_False \<or> ty = cJSON_True \<or> ty = cJSON_NULL then Some True
        else if ty = cJSON_Number then Some (compare_double (c_valuedouble m) (c_valuedouble n))
        else if ty = cJSON_String \<or> ty = cJSON_Raw
        then if c_valuestring m = 0 \<or> c_valuestring n = 0 then Some False
          else do {
            s \<leftarrow> strs h (c_valuestring m);
            t \<leftarrow> strs h (c_valuestring n);
            r \<leftarrow> str_cmp s t;
            Some (r = 0)
          }
        else if ty = cJSON_Array
        then compare_elements (compare f case_sensitive h) f h (c_child m) (c_child n)
        else do {
          r \<leftarrow> compare_members (compare f case_sensitive h) f case_sensitive h (c_child m) b;
          if \<not> r then Some False
          else compare_members (compare f case_sensitive h) f case_sensitive h (c_child n) a
        }
      })"

definition cJSON_Compare :: "heap \<Rightarrow> nat \<Rightarrow> nat \<Rightarrow> bool \<Rightarrow> bool option" where
  "cJSON_Compare h a b case_sensitive = compare (brk h + 1) case_sensitive h a b"

end
