(* ===== verification/Cjson_Copy_Refine.thy ===== *)
theory Cjson_Copy_Refine
  imports Cjson_Create_Refine Cjson_Copy
begin

text \<open>
  \<open>cJSON_Duplicate\<close> makes the copy of a tree out of new memory, or leaves nothing behind.
\<close>

section \<open>Copies\<close>

text \<open>The copy of a string ends at its terminator.\<close>

fun copy :: "jtree \<Rightarrow> jtree" where
  "copy (JT ty i d s nm ks) = JT ty i d (map_option cstr s) (map_option cstr nm) (map copy ks)"

definition shallow :: "jtree \<Rightarrow> jtree" where
  "shallow t = JT (jt_type t) (jt_int t) (jt_double t) (map_option cstr (jt_string t)) (map_option cstr (jt_name t)) []"

lemma copy_shallow: "copy t = with_kids (shallow t) (map copy (jt_kids t))"
  by (cases t) (simp add: with_kids_def shallow_def)

section \<open>A node under construction\<close>

text \<open>
  The node \<open>N\<close> made since \<open>h0\<close>: the first of its children has no \<open>prev\<close> yet. All new addresses
  are in \<open>A\<close>.
\<close>

definition growing :: "heap \<Rightarrow> heap \<Rightarrow> nat \<Rightarrow> cJSON \<Rightarrow> nat list \<Rightarrow> nat list \<Rightarrow> bytes option \<Rightarrow> bytes option \<Rightarrow>
    nat list \<Rightarrow> (nat list \<times> jtree) list \<Rightarrow> bool" where
  "growing h0 h N n Fv Fs v nm ps Ks \<longleftrightarrow>
     nodes h N = Some n \<and> N \<noteq> 0 \<and> own h (c_valuestring n) Fv v \<and> own h (c_string n) Fs nm
     \<and> \<not> flag (c_type n) cJSON_IsReference \<and> \<not> flag (c_type n) cJSON_StringIsConst
     \<and> kids_in h ps Ks \<and> seg (nodes h) 0 ps 0 \<and> c_child n = hd (ps @ [0]) \<and> c_next n = 0 \<and> c_prev n = 0
     \<and> distinct (N # Fv @ Fs @ concat (map fst Ks)) \<and> set (N # Fv @ Fs @ concat (map fst Ks)) \<subseteq> {brk h0<..brk h}
     \<and> same_on (- set (N # Fv @ Fs @ concat (map fst Ks))) h0 h \<and> heap_step h0 h"

lemma Delete_growing:
  assumes g: "growing h0 h N n Fv Fs v nm ps Ks"
  shows "cJSON_Delete N h = Some (release (N # Fv @ Fs @ concat (map fst Ks)) h)"
proof -
  let ?Fk = "concat (map fst Ks)"
  have i: "nodes h N = Some n" "N \<noteq> 0" "own h (c_valuestring n) Fv v" "own h (c_string n) Fs nm"
      "\<not> flag (c_type n) 256" "\<not> flag (c_type n) 512" "kids_in h ps Ks" "seg (nodes h) 0 ps 0"
      "c_child n = hd (ps @ [0])" "c_next n = 0" "distinct (N # Fv @ Fs @ ?Fk)" and wf: "heap_wf h"
    using g by (auto simp: growing_def heap_step_def)
  have "chain h ps 0 ?Fk (map snd Ks)" using chain_iff [of h ps 0 ?Fk "map snd Ks" 0] i(7,8) by blast
  from cJSON_Delete_chain [OF this _ wf] have kids: "cJSON_Delete (c_child n) h = Some (release ?Fk h)" using i by simp
  have D0: "cJSON_Delete 0 k = Some k" for k by (subst cJSON_Delete.simps) simp
  have c0: "(if \<not> flag (c_type n) 256 \<and> c_child n \<noteq> 0 then cJSON_Delete (c_child n) h else Some h) = Some (release ?Fk h)"
    using i(5) kids D0 by auto
  have n1: "nodes (release ?Fk h) N = Some n" "nodes (release (?Fk @ Fv) h) N = Some n" "nodes (release ((?Fk @ Fv) @ Fs) h) N = Some n"
    using i(1,11) by (auto simp: release_def)
  have "own (release ?Fk h) (c_valuestring n) Fv v"
    by (rule own_frame [OF i(3) release_same]) (use i(11) in auto)
  then have c1: "(if c_valuestring n \<noteq> 0 then free_str (c_valuestring n) (release ?Fk h) else Some (release ?Fk h))
      = Some (release (?Fk @ Fv) h)"
    using free_str_release [OF release_wf [OF wf, of ?Fk]] by (simp add: release_release)
  have "own (release (?Fk @ Fv) h) (c_string n) Fs nm"
    by (rule own_frame [OF i(4) release_same]) (use i(11) in auto)
  then have c2: "(if c_string n \<noteq> 0 then free_str (c_string n) (release (?Fk @ Fv) h) else Some (release (?Fk @ Fv) h))
      = Some (release ((?Fk @ Fv) @ Fs) h)"
    using free_str_release [OF release_wf [OF wf, of "?Fk @ Fv"]] by (simp add: release_release)
  have c3: "free_node N (release ((?Fk @ Fv) @ Fs) h) = Some (release (((?Fk @ Fv) @ Fs) @ [N]) h)"
    using free_node_release [OF release_wf [OF wf] n1(3)] by (simp add: release_release)
  have "cJSON_Delete N h = Some (release (((?Fk @ Fv) @ Fs) @ [N]) h)"
    using i(1,2,5,6,10) n1 c0 c1 c2 c3 D0 by (subst cJSON_Delete.simps) simp
  moreover have "release (((?Fk @ Fv) @ Fs) @ [N]) h = release (N # Fv @ Fs @ ?Fk) h" by (rule release_perm) auto
  ultimately show ?thesis by simp
qed

text \<open>Failing deletes all that is new.\<close>

lemma growing_fails:
  assumes g: "growing h0 h N n Fv Fs v nm ps Ks" and wf: "heap_wf h0" and o: "oom h0 h"
  shows "\<exists>r. dup_fail N h = Some r \<and> made h0 u r"
proof -
  let ?A = "N # Fv @ Fs @ concat (map fst Ks)"
  have i: "N \<noteq> 0" "set ?A \<subseteq> {brk h0<..brk h}" "same_on (- set ?A) h0 h" "heap_step h0 h" using g by (auto simp: growing_def)
  have "nodes (release ?A h) q = nodes h0 q \<and> strs (release ?A h) q = strs h0 q" for q
    using i(2) same_onD [OF i(3), of q] heap_wf_fresh [OF wf, of q] by (cases "q \<in> set ?A") (auto simp: release_def)
  then have e: "nodes (release ?A h) = nodes h0" "strs (release ?A h) = strs h0" by auto
  have "dup_fail N h = Some (0, release ?A h)" using i(1) Delete_growing [OF g] by (simp add: dup_fail_def)
  moreover have "made h0 u (0, release ?A h)"
    by (rule made_none [OF _ e]) (use i(4) release_wf o in \<open>auto simp: heap_step_def oom_def\<close>)
  ultimately show ?thesis by blast
qed

section \<open>Strings\<close>

lemma dup_text_run:
  assumes wf: "heap_wf h" and s: "own h s Fs v" and n: "nodes h N = Some n" "g 0 n = n"
  shows "\<exists>ok h' q Fq. (if s \<noteq> 0 then do { (v, h1) \<leftarrow> cJSON_strdup s h; h2 \<leftarrow> upd_node N (g v) h1; Some (v \<noteq> 0, h2) }
       else Some (True, h)) = Some (ok, h')
    \<and> heap_step h h' \<and> nodes h' = (nodes h)(N \<mapsto> g q n) \<and> own h' q Fq (if ok then map_option cstr v else None)
    \<and> distinct Fq \<and> set Fq \<subseteq> {brk h<..brk h'} \<and> (\<forall>a. a \<notin> set Fq \<longrightarrow> strs h' a = strs h a) \<and> (\<not> ok \<longrightarrow> oom h h')"
proof (cases "s = 0")
  case True
  then show ?thesis using assms
    by (intro exI [of _ True] exI [of _ h] exI [of _ 0] exI [of _ "[]"]) (auto simp: own_def heap_step_refl)
next
  case False
  then obtain b where b: "v = Some b" "strs h s = Some b" "0 \<in> set b" using s by (auto simp: own_def)
  obtain q h1 where q: "cJSON_strdup s h = Some (q, h1)" "heap_step h h1" "nodes h1 = nodes h"
      "if q = 0 then strs h1 = strs h \<and> oom h h1
       else q = Suc (brk h) \<and> brk h1 = q \<and> strs h1 = (strs h)(q \<mapsto> cstr b) \<and> strs h q = None \<and> nodes h q = None"
    using strdup_run [OF wf b(2,3)] by metis
  let ?h = "h1\<lparr>nodes := (nodes h1)(N \<mapsto> g q n)\<rparr>"
  have "(if s \<noteq> 0 then do { (v, h1) \<leftarrow> cJSON_strdup s h; h2 \<leftarrow> upd_node N (g v) h1; Some (v \<noteq> 0, h2) }
       else Some (True, h)) = Some (q \<noteq> 0, ?h)"
    using False q n by simp
  moreover have "heap_step h ?h" using q(2,3) n(1) heap_wf_upd [of h1 N n] by (simp add: heap_step_def)
  moreover have "oom h1 h' \<Longrightarrow> oom h1 h'" for h' .
  ultimately show ?thesis
    using q b
    by (intro exI [of _ "q \<noteq> 0"] exI [of _ ?h] exI [of _ q] exI [of _ "if q = 0 then [] else [q]"]) (auto simp: own_def oom_def)
qed

lemma item_below: "item h p F t \<Longrightarrow> heap_wf h \<Longrightarrow> set F \<subseteq> {0<..brk h}"
proof
  fix q assume i: "item h p F t" "heap_wf h" "q \<in> set F"
  then consider n where "nodes h q = Some n" | s where "strs h q = Some s" using item_chain_allocated(1) by blast
  then show "q \<in> {0<..brk h}" using heap_wf_node [OF i(2)] heap_wf_str [OF i(2)] by cases force+
qed

text \<open>The item that is copied, while the copy grows.\<close>

lemma original:
  assumes "item h0 p F t" "heap_wf h0" "same_on (- set A) h0 h" "set A \<subseteq> {brk h0<..b}"
  shows "item h p F t" "set F \<inter> set A = {}"
proof -
  show d: "set F \<inter> set A = {}" using item_below [OF assms(1,2)] assms(4) by fastforce
  show "item h p F t" by (rule item_frame [OF assms(1) same_on_subset [OF assms(3)]]) (use d in auto)
qed

lemma item_strings:
  "item h p F t \<Longrightarrow> \<exists>n Fv Fs. nodes h p = Some n \<and> own h (c_valuestring n) Fv (jt_string t) \<and> own h (c_string n) Fs (jt_name t)
    \<and> c_type n = jt_type t \<and> c_valueint n = jt_int t \<and> c_valuedouble n = jt_double t
    \<and> \<not> flag (c_type n) cJSON_IsReference \<and> \<not> flag (c_type n) cJSON_StringIsConst"
  unfolding item_parts by fastforce

text \<open>The scalar fields of a node.\<close>

definition same_scalars :: "cJSON \<Rightarrow> cJSON \<Rightarrow> bool" where
  "same_scalars n n' \<longleftrightarrow> c_type n' = c_type n \<and> c_valueint n' = c_valueint n \<and> c_valuedouble n' = c_valuedouble n"

lemma dup_valuestring_run:
  assumes g: "growing h0 h N n [] [] None None [] []" and p: "item h p F t" and N: "N \<notin> set F"
  shows "\<exists>ok h' n' Fv v. dup_valuestring p N h = Some (ok, h') \<and> growing h0 h' N n' Fv [] v None [] [] \<and> same_scalars n n'
    \<and> (if ok then v = map_option cstr (jt_string t) else oom h0 h')"
proof -
  obtain m Fo where m: "nodes h p = Some m" "own h (c_valuestring m) Fo (jt_string t)" using item_strings [OF p] by blast
  have wf: "heap_wf h" and st: "heap_step h0 h" and n: "nodes h N = Some n" "c_valuestring n = 0" "c_string n = 0" "N \<in> {brk h0<..brk h}"
    using g by (auto simp: growing_def heap_step_def own_def split: if_splits)
  obtain ok h' q Fq where r: "(if c_valuestring m \<noteq> 0 then do { (v, h1) \<leftarrow> cJSON_strdup (c_valuestring m) h;
        h2 \<leftarrow> upd_node N (\<lambda>k. k\<lparr>c_valuestring := v\<rparr>) h1; Some (v \<noteq> 0, h2) } else Some (True, h)) = Some (ok, h')"
      "heap_step h h'" "nodes h' = (nodes h)(N \<mapsto> n\<lparr>c_valuestring := q\<rparr>)" "own h' q Fq (if ok then map_option cstr (jt_string t) else None)"
      "distinct Fq" "set Fq \<subseteq> {brk h<..brk h'}" "\<forall>a. a \<notin> set Fq \<longrightarrow> strs h' a = strs h a" "\<not> ok \<longrightarrow> oom h h'"
    using dup_text_run [OF wf m(2) n(1), of "\<lambda>v k. k\<lparr>c_valuestring := v\<rparr>"] n(2) by auto
  have "dup_valuestring p N h = Some (ok, h')" using m(1) r(1) by (simp add: dup_valuestring_def)
  moreover have "growing h0 h' N (n\<lparr>c_valuestring := q\<rparr>) Fq [] (if ok then map_option cstr (jt_string t) else None) None [] []"
    using g r n unfolding growing_def heap_step_def own_def [of _ _ "[]"] same_on_def by auto
  moreover have "\<not> ok \<Longrightarrow> oom h0 h'" using oom_step(1) [OF st] r(8) by blast
  ultimately show ?thesis
    by (intro exI [of _ ok] exI [of _ h'] exI [of _ "n\<lparr>c_valuestring := q\<rparr>"] exI [of _ Fq]
        exI [of _ "if ok then map_option cstr (jt_string t) else None"]) (simp add: same_scalars_def)
qed

lemma dup_string_run:
  assumes g: "growing h0 h N n Fv [] v None [] []" and p: "item h p F t" and N: "N \<notin> set F"
  shows "\<exists>ok h' n' Fs nm. dup_string p N h = Some (ok, h') \<and> growing h0 h' N n' Fv Fs v nm [] [] \<and> same_scalars n n'
    \<and> (if ok then nm = map_option cstr (jt_name t) else oom h0 h')"
proof -
  obtain m Fo where m: "nodes h p = Some m" "own h (c_string m) Fo (jt_name t)" "\<not> flag (c_type m) 512"
    using item_strings [OF p] by blast
  have wf: "heap_wf h" and st: "heap_step h0 h" and n: "nodes h N = Some n" "c_string n = 0" "set (N # Fv) \<subseteq> {brk h0<..brk h}"
      and fv: "own h (c_valuestring n) Fv v"
    using g by (auto simp: growing_def heap_step_def own_def split: if_splits)
  obtain ok h' q Fq where r: "(if c_string m \<noteq> 0 then do { (v, h1) \<leftarrow> cJSON_strdup (c_string m) h;
        h2 \<leftarrow> upd_node N (\<lambda>k. k\<lparr>c_string := v\<rparr>) h1; Some (v \<noteq> 0, h2) } else Some (True, h)) = Some (ok, h')"
      "heap_step h h'" "nodes h' = (nodes h)(N \<mapsto> n\<lparr>c_string := q\<rparr>)" "own h' q Fq (if ok then map_option cstr (jt_name t) else None)"
      "distinct Fq" "set Fq \<subseteq> {brk h<..brk h'}" "\<forall>a. a \<notin> set Fq \<longrightarrow> strs h' a = strs h a" "\<not> ok \<longrightarrow> oom h h'"
    using dup_text_run [OF wf m(2) n(1), of "\<lambda>v k. k\<lparr>c_string := v\<rparr>"] n(2) by auto
  have run: "dup_string p N h = Some (ok, h')"
    using m(1,3) r(1) by (cases "c_string m = 0") (simp_all add: dup_string_def)
  have "own h' (c_valuestring n) Fv v"
    using fv r(6,7) n(3) by (cases "c_valuestring n = 0") (auto simp: own_def)
  moreover have "set (N # Fv) \<inter> set Fq = {}" using n(3) r(6) by fastforce
  ultimately have "growing h0 h' N (n\<lparr>c_string := q\<rparr>) Fv Fq v (if ok then map_option cstr (jt_name t) else None) [] []"
    using g r(2-7) n unfolding growing_def heap_step_def same_on_def by auto
  moreover have "\<not> ok \<Longrightarrow> oom h0 h'" using oom_step(1) [OF st] r(8) by blast
  ultimately show ?thesis using run
    by (intro exI [of _ ok] exI [of _ h'] exI [of _ "n\<lparr>c_string := q\<rparr>"] exI [of _ Fq]
        exI [of _ "if ok then map_option cstr (jt_name t) else None"]) (simp add: same_scalars_def)
qed

section \<open>Children\<close>

text \<open>Linking the copy \<open>x\<close> of a child behind the others.\<close>

lemma dup_link:
  assumes g: "growing h0 h N n Fv Fs v nm qs Ls" and m: "made h u (x, h1)" "x \<noteq> 0" and wf: "heap_wf h0"
  shows "\<exists>h2 G n'. (if qs \<noteq> [] then suffix_object (last qs) x h1 else upd_node N (\<lambda>n. n\<lparr>c_child := x\<rparr>) h1) = Some h2
    \<and> growing h0 h2 N n' Fv Fs v nm (qs @ [x]) (Ls @ [(G, u)]) \<and> same_scalars n n'"
proof -
  obtain G where G: "item h1 x G u" "detached h1 x" "distinct G" "set G \<subseteq> {brk h<..brk h1}" "same_on (- set G) h h1"
    and st: "heap_step h h1"
    using m by (auto simp: made_def)
  let ?A = "N # Fv @ Fs @ concat (map fst Ls)"
  have i: "nodes h N = Some n" "N \<noteq> 0" "own h (c_valuestring n) Fv v" "own h (c_string n) Fs nm"
      "\<not> flag (c_type n) 256" "\<not> flag (c_type n) 512" "kids_in h qs Ls" "seg (nodes h) 0 qs 0"
      "c_child n = hd (qs @ [0])" "c_next n = 0" "c_prev n = 0" "distinct ?A" "set ?A \<subseteq> {brk h0<..brk h}"
      "same_on (- set ?A) h0 h" "heap_step h0 h"
    using g unfolding growing_def by blast+
  have dis: "set ?A \<inter> set G = {}" using i(13) G(4) by fastforce
  have s: "same_on (set ?A) h h1" by (rule same_on_subset [OF G(5)]) (use dis in auto)
  have N1: "nodes h1 N = Some n" using same_onD [OF s, of N] i(1) by simp
  obtain nx where nx: "nodes h1 x = Some nx" "c_next nx = 0" "c_prev nx = 0" using G(2) by (auto simp: detached_def)
  have roots: "set qs \<subseteq> set (concat (map fst Ls))" "0 \<notin> set qs" using kids_in_roots [OF i(7)] by auto
  have xs: "x \<in> set G" using item_in [OF G(1)] by blast
  have k1: "kids_in h1 qs Ls"
    using i(7) unfolding kids_in_def
  proof (rule list.rel_mono_strong)
    fix p K assume K: "p \<in> set qs" "K \<in> set Ls" "item h p (fst K) (snd K)"
    then show "item h1 p (fst K) (snd K)" by (elim item_frame) (rule same_on_subset [OF s], auto)
  qed
  have seg1: "seg (nodes h1) 0 qs 0"
  proof -
    have "nodes h1 p = nodes h p" if p: "p \<in> set qs" for p using same_onD [OF s, of p] subsetD [OF roots(1) p] by simp
    from seg_cong [of qs "nodes h1" "nodes h", OF this] show ?thesis using i(8) by blast
  qed
  have ne: "x \<notin> set qs" "N \<notin> set qs" "N \<noteq> x" using dis roots xs i(12) by auto
  have dq: "distinct qs" using kids_in_distinct [OF i(7)] i(12) by simp
  have NG: "N \<notin> set G" "set (concat (map fst Ls)) \<inter> set G = {}" using dis by auto
  have dk: "distinct (concat (map fst (Ls @ [(G, u)])))" "N \<notin> set (concat (map fst (Ls @ [(G, u)])))"
    using i(12) NG G(3) by simp_all
  have kx: "kids_in h1 (qs @ [x]) (Ls @ [(G, u)])"
    using k1 G(1) kids_in_length [OF k1] by (simp add: kids_in_append)
  obtain h2 where h2: "(if qs \<noteq> [] then suffix_object (last qs) x h1 else upd_node N (\<lambda>n. n\<lparr>c_child := x\<rparr>) h1) = Some h2"
      "relinked N (set (qs @ [x])) h1 h2" "seg (nodes h2) 0 (qs @ [x]) 0" "nodes h2 N = Some (n\<lparr>c_child := hd (qs @ [x])\<rparr>)"
  proof (cases qs rule: rev_cases)
    case Nil
    show ?thesis
      by (rule that [of "h1\<lparr>nodes := (nodes h1)(N \<mapsto> n\<lparr>c_child := x\<rparr>)\<rparr>"])
        (use Nil N1 nx ne in \<open>auto intro!: link_intros\<close>)
  next
    case (snoc us w)
    obtain nw where nw: "nodes h1 w = Some nw" using seg1 snoc by auto
    have c: "n\<lparr>c_child := hd (us @ [w, x])\<rparr> = n" using i(9) snoc by (simp add: hd_append)
    show ?thesis
      by (rule that [of "h1\<lparr>nodes := (nodes h1)(w \<mapsto> nw\<lparr>c_next := x\<rparr>, x \<mapsto> nx\<lparr>c_prev := w\<rparr>)\<rparr>"])
        (use snoc N1 nx nw ne seg1 dq c in \<open>auto simp: suffix_object_def intro!: link_intros\<close>)
  qed
  have k2: "kids_in h2 (qs @ [x]) (Ls @ [(G, u)])" by (rule kids_relinked [OF kx dk(1) h2(2) dk(2)])
  have wf2: "heap_wf h2" using relinked_wf [OF h2(2)] st by (simp add: heap_step_def)
  have b: "brk h2 = brk h1" "avail h2 = avail h1" "global_error h2 = global_error h1" "strs h2 = strs h1" using h2(2) by (simp_all add: relinked_def)
  have o: "own h2 (c_valuestring n) Fv v" "own h2 (c_string n) Fs nm"
  proof -
    have "own h1 (c_valuestring n) Fv v" by (rule own_frame [OF i(3) same_on_subset [OF s]]) auto
    moreover have "own h1 (c_string n) Fs nm" by (rule own_frame [OF i(4) same_on_subset [OF s]]) auto
    ultimately show "own h2 (c_valuestring n) Fv v" "own h2 (c_string n) Fs nm" using b(4) by (simp_all add: own_def)
  qed
  let ?B = "N # Fv @ Fs @ concat (map fst (Ls @ [(G, u)]))"
  have "same_on (- set ?B) h0 h2"
    unfolding same_on_def
  proof
    fix q assume q: "q \<in> - set ?B"
    then have "q \<notin> set (concat (map fst Ls))" "q \<notin> set G" "q \<noteq> N" by auto
    then have "q \<notin> set (qs @ [x])" "q \<noteq> N" using roots(1) xs by auto
    then have "nodes h2 q = nodes h1 q" "strs h2 q = strs h1 q"
      using h2(2) by (simp_all add: relinked_def links_only_def)
    then show "nodes h2 q = nodes h0 q \<and> strs h2 q = strs h0 q"
      using q same_onD [OF i(14), of q] same_onD [OF G(5), of q] by auto
  qed
  moreover have "set ?B \<subseteq> {brk h0<..brk h2}" using i(13,15) G(4) st b(1) by (fastforce simp: heap_step_def)
  moreover have "heap_step h0 h2" using i(15) st wf2 b by (simp add: heap_step_def)
  moreover have "distinct ?B" using i(12) dis G(3) by auto
  ultimately have "growing h0 h2 N (n\<lparr>c_child := hd (qs @ [x])\<rparr>) Fv Fs v nm (qs @ [x]) (Ls @ [(G, u)])"
    using i(2,5,6,10,11) o k2 h2(3,4) unfolding growing_def by (simp add: hd_append)
  then show ?thesis using h2(1)
    by (intro exI [of _ h2] exI [of _ G] exI [of _ "n\<lparr>c_child := hd (qs @ [x])\<rparr>"]) (simp add: same_scalars_def)
qed

text \<open>A failed allocation leaves the node as it is.\<close>

lemma kids_in_frame: "kids_in h ps Ks \<Longrightarrow> same_on (set (concat (map fst Ks))) h h' \<Longrightarrow> kids_in h' ps Ks"
  unfolding kids_in_def
proof (erule list.rel_mono_strong)
  fix p K assume s: "same_on (set (concat (map fst Ks))) h h'" and K: "p \<in> set ps" "K \<in> set Ks" "item h p (fst K) (snd K)"
  from K(3) show "item h' p (fst K) (snd K)" by (rule item_frame) (rule same_on_subset [OF s], use K(2) in auto)
qed

lemma growing_idle:
  assumes "growing h0 h N n Fv Fs v nm qs Ls" "heap_step h h1" "nodes h1 = nodes h" "strs h1 = strs h"
  shows "growing h0 h1 N n Fv Fs v nm qs Ls"
proof -
  have i: "kids_in h qs Ls" "heap_step h0 h" "own h (c_valuestring n) Fv v" "own h (c_string n) Fs nm"
      "same_on (- set (N # Fv @ Fs @ concat (map fst Ls))) h0 h" "set (N # Fv @ Fs @ concat (map fst Ls)) \<subseteq> {brk h0<..brk h}"
    using assms(1) unfolding growing_def by blast+
  have "kids_in h1 qs Ls" by (rule kids_in_frame [OF i(1)]) (simp add: same_on_def assms(3,4))
  moreover have "heap_step h0 h1" using i(2) assms(2) heap_step_trans by blast
  moreover have "brk h \<le> brk h1" using assms(2) by (simp add: heap_step_def)
  then have "{brk h0<..brk h} \<subseteq> {brk h0<..brk h1}" by auto
  with i(6) have "set (N # Fv @ Fs @ concat (map fst Ls)) \<subseteq> {brk h0<..brk h1}" by (rule order_trans)
  moreover have "same_on (- set (N # Fv @ Fs @ concat (map fst Ls))) h0 h1"
    using i(5) unfolding same_on_def assms(3,4) .
  moreover have "own h1 (c_valuestring n) Fv v" "own h1 (c_string n) Fs nm" using i(3,4) unfolding own_def assms(4) .
  ultimately show ?thesis using assms(1) unfolding growing_def assms(3) by blast
qed

lemma growing_last:
  assumes "growing h0 h N n Fv Fs v nm qs Ls"
  shows "(if qs = [] then 0 else last qs) \<noteq> 0 \<longleftrightarrow> qs \<noteq> []"
proof -
  have "0 \<notin> set qs" using kids_in_roots [of h qs Ls] assms unfolding growing_def by blast
  then show ?thesis using last_in_set [of qs] by (cases "qs = []") (metis, metis)
qed

text \<open>\<open>dup\<close> copies all items with fewer than \<open>f\<close> addresses.\<close>

definition copies :: "(nat \<Rightarrow> heap \<Rightarrow> (nat \<times> heap) option) \<Rightarrow> nat \<Rightarrow> bool" where
  "copies dup f \<longleftrightarrow> (\<forall>p F t h. item h p F t \<and> distinct F \<and> heap_wf h \<and> length F < f \<longrightarrow>
     (\<exists>r. dup p h = Some r \<and> made h (copy t) r))"

lemma copiesD: "copies dup f \<Longrightarrow> item h p F t \<Longrightarrow> distinct F \<Longrightarrow> heap_wf h \<Longrightarrow> length F < f \<Longrightarrow> \<exists>r. dup p h = Some r \<and> made h (copy t) r"
  unfolding copies_def by blast

lemma dup_loop_run:
  assumes dup: "copies dup f" and wf: "heap_wf h0"
  shows "kids_in h0 ps Ks \<Longrightarrow> seg (nodes h0) b ps 0 \<Longrightarrow> distinct (concat (map fst Ks)) \<Longrightarrow> \<forall>K\<in>set Ks. length (fst K) < f \<Longrightarrow>
    length ps < g \<Longrightarrow> growing h0 h N n Fv Fs v nm qs Ls \<Longrightarrow>
    \<exists>ok h' n' qs' Ls'. dup_loop dup g (hd (ps @ [0])) N (if qs = [] then 0 else last qs) h
        = Some (ok, if qs' = [] then 0 else last qs', h')
      \<and> growing h0 h' N n' Fv Fs v nm qs' Ls' \<and> same_scalars n n'
      \<and> (if ok then map snd Ls' = map snd Ls @ map (\<lambda>K. copy (snd K)) Ks else oom h0 h')"
proof (induction ps arbitrary: b Ks g h n qs Ls)
  case Nil
  then obtain g' where g: "g = Suc g'" by (cases g) auto
  show ?case
    by (intro exI [of _ True] exI [of _ h] exI [of _ n] exI [of _ qs] exI [of _ Ls])
      (use Nil g in \<open>simp add: same_scalars_def\<close>)
next
  case (Cons p ps)
  obtain g' where g: "g = Suc g'" "length ps < g'" using Cons.prems(5) by (cases g) auto
  obtain K Ks' where K: "Ks = K # Ks'" "item h0 p (fst K) (snd K)" "kids_in h0 ps Ks'"
    using Cons.prems(1) by (cases Ks) (auto simp: kids_in_def)
  obtain np where np: "nodes h0 p = Some np" "c_next np = hd (ps @ [0])" "seg (nodes h0) p ps 0" using Cons.prems(2) by auto
  have dK: "distinct (fst K)" "distinct (concat (map fst Ks'))" "length (fst K) < f" "\<forall>K\<in>set Ks'. length (fst K) < f"
    using Cons.prems(3,4) K(1) by auto
  note G = Cons.prems(6)
  have st: "heap_step h0 h" and pA: "same_on (- set (N # Fv @ Fs @ concat (map fst Ls))) h0 h"
      "set (N # Fv @ Fs @ concat (map fst Ls)) \<subseteq> {brk h0<..brk h}"
    using G unfolding growing_def by blast+
  have p: "item h p (fst K) (snd K)" "p \<noteq> 0" using original(1) [OF K(2) wf pA] item_in [OF K(2)] by auto
  have wfh: "heap_wf h" using st by (simp add: heap_step_def)
  obtain x h1 where x: "dup p h = Some (x, h1)" "made h (copy (snd K)) (x, h1)" using copiesD [OF dup p(1) dK(1) wfh dK(3)] by fastforce
  show ?case
  proof (cases "x = 0")
    case True
    then have e: "heap_step h h1" "nodes h1 = nodes h" "strs h1 = strs h" "oom h h1" using x(2) by (auto simp: made_def)
    have "dup_loop dup g (hd ((p # ps) @ [0])) N (if qs = [] then 0 else last qs) h = Some (False, if qs = [] then 0 else last qs, h1)"
      using True x(1) g(1) p(2) by simp
    then show ?thesis
      using growing_idle [OF G e(1-3)] oom_step(1) [OF st e(4)]
      by (intro exI [of _ False] exI [of _ h1] exI [of _ n] exI [of _ qs] exI [of _ Ls]) (simp add: same_scalars_def)
  next
    case False
    obtain h2 F' n2 where h2: "(if qs \<noteq> [] then suffix_object (last qs) x h1 else upd_node N (\<lambda>n. n\<lparr>c_child := x\<rparr>) h1) = Some h2"
        "growing h0 h2 N n2 Fv Fs v nm (qs @ [x]) (Ls @ [(F', copy (snd K))])" "same_scalars n n2"
      using dup_link [OF G x(2) False wf] by blast
    have "nodes h2 p = Some np"
    proof -
      let ?A = "N # Fv @ Fs @ concat (map fst (Ls @ [(F', copy (snd K))]))"
      have A: "same_on (- set ?A) h0 h2" "set ?A \<subseteq> {brk h0<..brk h2}" using h2(2) unfolding growing_def by blast+
      have "p \<notin> set ?A" using original(2) [OF K(2) wf A] item_in [OF K(2)] by blast
      then show ?thesis using same_onD [OF A(1), of p] np(1) by simp
    qed
    then have step: "dup_loop dup g (hd ((p # ps) @ [0])) N (if qs = [] then 0 else last qs) h = dup_loop dup g' (hd (ps @ [0])) N x h2"
      using False x(1) g(1) p(2) h2(1) growing_last [OF G] np(2) by (auto simp: if_distrib split: if_splits)
    from Cons.IH [OF K(3) np(3) dK(2,4) g(2) h2(2)] obtain ok h' n' qs' Ls' where
        r: "dup_loop dup g' (hd (ps @ [0])) N x h2 = Some (ok, if qs' = [] then 0 else last qs', h')"
        "growing h0 h' N n' Fv Fs v nm qs' Ls'" "same_scalars n2 n'"
        "if ok then map snd Ls' = map snd (Ls @ [(F', copy (snd K))]) @ map (\<lambda>K. copy (snd K)) Ks' else oom h0 h'"
      by (auto split del: if_split)
    then show ?thesis
      unfolding step using h2(3) K(1)
      by (intro exI [of _ ok] exI [of _ h'] exI [of _ n'] exI [of _ qs'] exI [of _ Ls']) (simp add: same_scalars_def)
  qed
qed

section \<open>The copy\<close>

text \<open>The last step links the first child to the last one.\<close>

lemma growing_done:
  assumes g: "growing h0 h N n Fv Fs v nm qs Ls"
  shows "\<exists>h'. (if c_child n \<noteq> 0 then upd_node (c_child n) (\<lambda>c. c\<lparr>c_prev := last qs\<rparr>) h else Some h) = Some h'
    \<and> made h0 (JT (c_type n) (c_valueint n) (c_valuedouble n) v nm (map snd Ls)) (N, h')"
proof -
  let ?A = "N # Fv @ Fs @ concat (map fst Ls)" and ?t = "JT (c_type n) (c_valueint n) (c_valuedouble n) v nm (map snd Ls)"
  have i: "nodes h N = Some n" "N \<noteq> 0" "own h (c_valuestring n) Fv v" "own h (c_string n) Fs nm"
      "\<not> flag (c_type n) 256" "\<not> flag (c_type n) 512" "kids_in h qs Ls" "seg (nodes h) 0 qs 0"
      "c_child n = hd (qs @ [0])" "c_next n = 0" "c_prev n = 0" "distinct ?A" "set ?A \<subseteq> {brk h0<..brk h}"
      "same_on (- set ?A) h0 h" "heap_step h0 h"
    using g unfolding growing_def by blast+
  have roots: "set qs \<subseteq> set (concat (map fst Ls))" "0 \<notin> set qs" using kids_in_roots [OF i(7)] by auto
  have Nq: "N \<notin> set qs" using roots i(12) by auto
  have NL: "N \<notin> set (concat (map fst Ls))" "distinct (concat (map fst Ls))" using i(12) by auto
  have dq: "distinct qs" using kids_in_distinct [OF i(7) NL(2)] .
  obtain h' where h': "(if c_child n \<noteq> 0 then upd_node (c_child n) (\<lambda>c. c\<lparr>c_prev := last qs\<rparr>) h else Some h) = Some h'"
      "relinked N (set qs) h h'" "linked (nodes h') qs" "nodes h' N = Some n"
  proof (cases qs)
    case Nil
    then show ?thesis using that [of h] i by (simp add: relinked_def linked_def)
  next
    case (Cons q qs')
    obtain nq where nq: "nodes h q = Some nq" using i(8) Cons by auto
    show ?thesis
      by (rule that [of "h\<lparr>nodes := (nodes h)(q \<mapsto> nq\<lparr>c_prev := last qs\<rparr>)\<rparr>"])
        (use Cons nq i(1,8,9) Nq dq roots(2) in \<open>auto simp: linked_def intro!: link_intros\<close>)
  qed
  have k: "kids_in h' qs Ls" by (rule kids_relinked [OF i(7) NL(2) h'(2) NL(1)])
  have e: "strs h' = strs h" "brk h' = brk h" "avail h' = avail h" "global_error h' = global_error h" using h'(2) by (simp_all add: relinked_def)
  have "item h' N ?A ?t"
    unfolding item_parts
    by (intro exI [of _ n] exI [of _ Fv] exI [of _ v] exI [of _ Fs] exI [of _ nm] exI [of _ qs] exI [of _ Ls])
      (use i k h' e in \<open>simp add: own_def\<close>)
  moreover have "heap_step h0 h'" using i(15) relinked_wf [OF h'(2)] e by (simp add: heap_step_def)
  moreover have "same_on (- set ?A) h0 h'"
    unfolding same_on_def
  proof
    fix q assume q: "q \<in> - set ?A"
    then have "q \<notin> set (concat (map fst Ls))" "q \<noteq> N" by auto
    then have "q \<notin> set qs" "q \<noteq> N" using roots(1) by auto
    then have "nodes h' q = nodes h q" using h'(2) by (simp add: relinked_def links_only_def)
    then show "nodes h' q = nodes h0 q \<and> strs h' q = strs h0 q" using e(1) same_onD [OF i(14) q] by simp
  qed
  moreover have "detached h' N" using h'(4) i(10,11) by (simp add: detached_def)
  ultimately have "made h0 ?t (N, h')" using i(12,13) e(2) by (intro made_item [where G = ?A]) simp_all
  then show ?thesis using h'(1) by blast
qed

lemma length_in: "length (concat (map fst Ks)) < k \<Longrightarrow> \<forall>K\<in>set Ks. length (fst K) < k"
  by (induction Ks) auto

lemma kids_count: "kids_in h ps Ks \<Longrightarrow> length ps \<le> length (concat (map fst Ks))"
  unfolding kids_in_def
proof (induction rule: list_all2_induct)
  case (Cons p ps K Ks)
  have "Suc 0 \<le> length (fst K)" using item_in [OF Cons(1)] by (cases "fst K") auto
  then show ?case using Cons.IH by simp
qed simp

lemma dup_body_run:
  assumes it: "item h p F t" "distinct F" "length F \<le> f" and wf: "heap_wf h" and g: "growing h h2 N n2 [] [] None None [] []"
    and pn: "c_type n2 = jt_type t" "c_valueint n2 = jt_int t" "c_valuedouble n2 = jt_double t"
    and dup: "copies dup f"
  shows "\<exists>r. dup_body dup f p N recurse h2 = Some r \<and> made h (if recurse then copy t else shallow t) r"
proof -
  obtain n Fo ps Ks where pt: "parent h p F t n Fo ps Ks" using it(1) unfolding item_parent by blast
  note P = parent_simps [OF pt]
  have A2: "same_on (- set [N]) h h2" "set [N] \<subseteq> {brk h<..brk h2}" using g by (simp_all add: growing_def)
  note o2 = original [OF it(1) wf A2]
  obtain ok h3 n3 Fv v where r3: "dup_valuestring p N h2 = Some (ok, h3)" "growing h h3 N n3 Fv [] v None [] []" "same_scalars n2 n3"
      "if ok then v = map_option cstr (jt_string t) else oom h h3"
    using dup_valuestring_run [OF g o2(1)] o2(2) by auto
  show ?thesis
  proof (cases ok)
    case False
    then show ?thesis using growing_fails [OF r3(2) wf] r3(1,4) by (simp add: dup_body_def)
  next
    case True
    have A3: "same_on (- set (N # Fv)) h h3" "set (N # Fv) \<subseteq> {brk h<..brk h3}" using r3(2) by (simp_all add: growing_def)
    note o3 = original [OF it(1) wf A3]
    obtain ok4 h4 n4 Fs nm where r4: "dup_string p N h3 = Some (ok4, h4)" "growing h h4 N n4 Fv Fs v nm [] []" "same_scalars n3 n4"
        "if ok4 then nm = map_option cstr (jt_name t) else oom h h4"
      using dup_string_run [OF r3(2) o3(1)] o3(2) by auto
    show ?thesis
    proof (cases ok4)
      case False
      then show ?thesis using growing_fails [OF r4(2) wf] r3(1) r4(1,4) True by (simp add: dup_body_def)
    next
      case ok4: True
      have sc: "c_type n4 = jt_type t" "c_valueint n4 = jt_int t" "c_valuedouble n4 = jt_double t"
        using r3(3) r4(3) pn by (simp_all add: same_scalars_def)
      have tx: "v = map_option cstr (jt_string t)" "nm = map_option cstr (jt_name t)" using r3(4) r4(4) True ok4 by simp_all
      show ?thesis
      proof (cases recurse)
        case False
        have "made h (shallow t) (N, h4)"
          using growing_done [OF r4(2)] r4(2) sc tx by (auto simp: growing_def shallow_def)
        then show ?thesis using False r3(1) r4(1) True ok4 by (simp add: dup_body_def)
      next
        case rec: True
        have A4: "same_on (- set (N # Fv @ Fs)) h h4" "set (N # Fv @ Fs) \<subseteq> {brk h<..brk h4}" using r4(2) by (simp_all add: growing_def)
        have p4: "nodes h4 p = Some n"
          using same_onD [OF A4(1), of p] original(2) [OF it(1) wf A4] item_in [OF it(1)] P(1) by auto
        have len: "length (concat (map fst Ks)) < f" "distinct (concat (map fst Ks))" using it(2,3) P(6) by auto
        have seg: "seg (nodes h) (last ps) ps 0" using P(4) by (simp add: linked_def)
        have "length ps < f" using kids_count [OF P(3)] len(1) by simp
        from dup_loop_run [OF dup wf P(3) seg len(2) length_in [OF len(1)] this r4(2)]
        obtain ok5 h5 n5 qs Ls where r5: "dup_loop dup f (hd (ps @ [0])) N 0 h4 = Some (ok5, if qs = [] then 0 else last qs, h5)"
            "growing h h5 N n5 Fv Fs v nm qs Ls" "same_scalars n4 n5"
            "if ok5 then map snd Ls = map (\<lambda>K. copy (snd K)) Ks else oom h h5"
          by auto
        show ?thesis
        proof (cases ok5)
          case False
          then show ?thesis
            using growing_fails [OF r5(2) wf] r3(1) r4(1) r5(1,4) True ok4 rec p4 P(5) by (simp add: dup_body_def)
        next
          case ok5: True
          have "JT (c_type n5) (c_valueint n5) (c_valuedouble n5) v nm (map snd Ls) = copy t"
            using r5(3,4) ok5 sc tx P(7) by (cases t) (simp add: same_scalars_def)
          then obtain h6 where h6: "(if c_child n5 \<noteq> 0 then upd_node (c_child n5) (\<lambda>c. c\<lparr>c_prev := last qs\<rparr>) h5 else Some h5) = Some h6"
              "made h (copy t) (N, h6)"
            using growing_done [OF r5(2)] by auto
          have n5: "nodes h5 N = Some n5" "c_child n5 = hd (qs @ [0])" using r5(2) by (simp_all add: growing_def)
          have "(if c_child n5 \<noteq> 0 then upd_node (c_child n5) (\<lambda>c. c\<lparr>c_prev := (if qs = [] then 0 else last qs)\<rparr>) h5 else Some h5) = Some h6"
            using h6(1) n5(2) by (cases "qs = []"; cases "hd qs = 0") simp_all
          then show ?thesis
            using h6(2) r3(1) r4(1) r5(1) True ok4 ok5 rec p4 P(5) n5(1) by (simp add: dup_body_def)
        qed
      qed
    qed
  qed
qed

theorem duplicate_run:
  "item h p F t \<Longrightarrow> distinct F \<Longrightarrow> heap_wf h \<Longrightarrow> length F < f \<Longrightarrow>
   \<exists>r. duplicate f p recurse h = Some r \<and> made h (if recurse then copy t else shallow t) r"
proof (induction f arbitrary: h p F t recurse)
  case (Suc f)
  note it = Suc.prems(1) and wf = Suc.prems(3)
  have p0: "p \<noteq> 0" using item_in [OF it] by blast
  obtain n where n: "nodes h p = Some n" "c_type n = jt_type t" "c_valueint n = jt_int t" "c_valuedouble n = jt_double t"
      "\<not> flag (c_type n) 256" "\<not> flag (c_type n) 512"
    using item_strings [OF it] by blast
  obtain N h1 where N: "cJSON_New_Item h = (N, h1)" by fastforce
  note S = New_Item_step [OF wf N]
  show ?case
  proof (cases "N = 0")
    case True
    then have "duplicate (Suc f) p recurse h = Some (0, h1)" using p0 N by (simp add: dup_fail_def)
    then show ?thesis using S(1,2) True made_none by simp
  next
    case False
    note S3 = S(3) [OF False]
    let ?n = "zero_node\<lparr>c_type := c_type n, c_valueint := c_valueint n, c_valuedouble := c_valuedouble n\<rparr>"
    let ?h2 = "h1\<lparr>nodes := (nodes h1)(N \<mapsto> ?n)\<rparr>"
    have Np: "nodes h1 p = Some n" "nodes h1 N = Some zero_node" using S3 n(1) by auto
    have "duplicate (Suc f) p recurse h = dup_body (\<lambda>child. duplicate f child True) f p N recurse ?h2"
      using p0 N False Np clear_flag [OF n(5)] by (simp del: bit_simps)
    moreover have "growing h ?h2 N ?n [] [] None None [] []"
      using S(1) S3 False n(5,6) heap_wf_upd [of h1 N zero_node]
      by (auto simp: growing_def heap_step_def own_def zero_node_def same_on_def)
    moreover have "copies (\<lambda>child. duplicate f child True) f"
      unfolding copies_def by (intro allI impI, elim conjE) (use Suc.IH [where recurse = True] in simp)
    ultimately show ?thesis
      using dup_body_run [OF it Suc.prems(2) _ wf, of f ?h2 N ?n "\<lambda>child. duplicate f child True" recurse] Suc.prems(4) n by simp
  qed
qed simp

lemma owned_count: "item h p F t \<Longrightarrow> distinct F \<Longrightarrow> heap_wf h \<Longrightarrow> length F < brk h + 1"
  using card_mono [OF _ item_below, of h p F t] by (simp add: distinct_card less_Suc_eq_le)

lemma cJSON_Duplicate_run:
  assumes "item h p F t" "distinct F" "heap_wf h"
  shows "\<exists>r. cJSON_Duplicate p recurse h = Some r \<and> made h (if recurse then copy t else shallow t) r"
  unfolding cJSON_Duplicate_def by (rule duplicate_run [OF assms owned_count [OF assms]])

end
