(* ===== verification/Cjson_Compare_Refine.thy ===== *)
theory Cjson_Compare_Refine
  imports Cjson_Copy_Refine
begin

text \<open>
  \<open>cJSON_Compare\<close> on the trees: the function without pointers it computes, and when a tree equals
  its copy.
\<close>

section \<open>The comparison of trees\<close>

text \<open>The child of that name, if any.\<close>

definition partner :: "bool \<Rightarrow> jtree list \<Rightarrow> jtree \<Rightarrow> jtree option" where
  "partner cs ks x = (case jt_name x of None \<Rightarrow> None | Some n \<Rightarrow> map_option ((!) ks) (first_named cs n ks))"

definition same_text_as :: "bytes option \<Rightarrow> bytes option \<Rightarrow> bool" where
  "same_text_as s t \<longleftrightarrow> (case (s, t) of (Some a, Some b) \<Rightarrow> str_cmp a b = Some 0 | _ \<Rightarrow> False)"

function compare_ref :: "bool \<Rightarrow> jtree \<Rightarrow> jtree \<Rightarrow> bool" where
  "compare_ref cs (JT ty i d s nm ks) (JT ty' i' d' s' nm' ks') =
     (ty AND 0xFF = ty' AND 0xFF \<and> valid_type (ty AND 0xFF)
      \<and> (if ty AND 0xFF = cJSON_False \<or> ty AND 0xFF = cJSON_True \<or> ty AND 0xFF = cJSON_NULL then True
         else if ty AND 0xFF = cJSON_Number then compare_double d d'
         else if ty AND 0xFF = cJSON_String \<or> ty AND 0xFF = cJSON_Raw then same_text_as s s'
         else if ty AND 0xFF = cJSON_Array then list_all2 (compare_ref cs) ks ks'
         else (\<forall>x\<in>set ks. \<exists>y\<in>set ks'. partner cs ks' x = Some y \<and> compare_ref cs x y)
            \<and> (\<forall>x\<in>set ks'. \<exists>y\<in>set ks. partner cs ks x = Some y \<and> compare_ref cs x y)))"
  by pat_completeness auto
termination
  by (relation "measure (\<lambda>(cs, t, u). size t + size u)")
    (auto dest!: size_list_estimation' [OF _ order_refl, where f = size])

declare compare_ref.simps [simp del]

section \<open>The code computes it\<close>

text \<open>The comparison \<open>cmp\<close> of two nodes is \<open>R\<close> on their trees, for the children of two nodes.\<close>

definition agrees :: "(nat \<Rightarrow> nat \<Rightarrow> bool option) \<Rightarrow> (jtree \<Rightarrow> jtree \<Rightarrow> bool) \<Rightarrow> heap \<Rightarrow>
    nat list \<Rightarrow> (nat list \<times> jtree) list \<Rightarrow> nat list \<Rightarrow> (nat list \<times> jtree) list \<Rightarrow> bool" where
  "agrees cmp R h ps Ks qs Ls \<longleftrightarrow> (\<forall>p\<in>set ps. \<forall>K\<in>set Ks. \<forall>q\<in>set qs. \<forall>L\<in>set Ls.
     item h p (fst K) (snd K) \<and> item h q (fst L) (snd L) \<longrightarrow> cmp p q = Some (R (snd K) (snd L)))"

lemma agreesD:
  "agrees cmp R h ps Ks qs Ls \<Longrightarrow> p \<in> set ps \<Longrightarrow> K \<in> set Ks \<Longrightarrow> item h p (fst K) (snd K) \<Longrightarrow> q \<in> set qs \<Longrightarrow> L \<in> set Ls \<Longrightarrow>
   item h q (fst L) (snd L) \<Longrightarrow> cmp p q = Some (R (snd K) (snd L))"
  unfolding agrees_def by blast

lemma agrees_mono:
  "agrees cmp R h ps Ks qs Ls \<Longrightarrow> set ps' \<subseteq> set ps \<Longrightarrow> set Ks' \<subseteq> set Ks \<Longrightarrow> set qs' \<subseteq> set qs \<Longrightarrow> set Ls' \<subseteq> set Ls \<Longrightarrow>
   agrees cmp R h ps' Ks' qs' Ls'"
  unfolding agrees_def by blast

lemma compare_elements_run:
  assumes cmp: "agrees cmp R h ps Ks qs Ls"
  shows "kids_in h ps Ks \<Longrightarrow> seg (nodes h) b ps 0 \<Longrightarrow> kids_in h qs Ls \<Longrightarrow> seg (nodes h) c qs 0 \<Longrightarrow> length ps < f \<Longrightarrow>
    compare_elements cmp f h (hd (ps @ [0])) (hd (qs @ [0])) = Some (list_all2 R (map snd Ks) (map snd Ls))"
  using cmp
proof (induction ps arbitrary: f b c Ks qs Ls)
  case Nil
  then obtain f' where "f = Suc f'" by (cases f) auto
  then show ?case using Nil kids_in_roots [OF Nil(3)] by (cases qs) (auto simp: kids_in_def list_all2_Cons1)
next
  case (Cons p ps)
  obtain f' where f: "f = Suc f'" "length ps < f'" using Cons.prems(5) by (cases f) auto
  obtain K Ks' where K: "Ks = K # Ks'" "item h p (fst K) (snd K)" "kids_in h ps Ks'"
    using Cons.prems(1) by (cases Ks) (auto simp: kids_in_def)
  obtain n where n: "nodes h p = Some n" "c_next n = hd (ps @ [0])" "seg (nodes h) p ps 0" using Cons.prems(2) by auto
  have p0: "p \<noteq> 0" using item_in [OF K(2)] by blast
  show ?case
  proof (cases qs)
    case Nil
    then show ?thesis using Cons.prems(3) f(1) p0 K(1) by (auto simp: kids_in_def)
  next
    case (Cons q qs')
    note q = this
    obtain L Ls' where L: "Ls = L # Ls'" "item h q (fst L) (snd L)" "kids_in h qs' Ls'"
      using Cons.prems(3) q by (cases Ls) (auto simp: kids_in_def)
    obtain m where m: "nodes h q = Some m" "c_next m = hd (qs' @ [0])" "seg (nodes h) q qs' 0" using Cons.prems(4) q by auto
    have q0: "q \<noteq> 0" using item_in [OF L(2)] by blast
    have c: "cmp p q = Some (R (snd K) (snd L))"
      by (rule agreesD [OF Cons.prems(6)]) (use K L q in simp_all)
    have "compare_elements cmp f' h (hd (ps @ [0])) (hd (qs' @ [0])) = Some (list_all2 R (map snd Ks') (map snd Ls'))"
      by (rule Cons.IH [OF K(3) n(3) L(3) m(3) f(2)]) (rule agrees_mono [OF Cons.prems(6)], use K L q in auto)
    then show ?thesis using p0 q0 c n m f(1) q K(1) L(1) by simp
  qed
qed

lemma first_named_less: "first_named cs name ts = Some i \<Longrightarrow> i < length ts"
  by (induction ts arbitrary: i) (auto split: if_splits)

lemma compare_members_run:
  assumes other: "item h a F t" and G: "jt_kids t = map snd Ls" "kids_in h qs Ls"
    and pt: "parent h a F t n Fo qs Ls"
    and cmp: "agrees cmp R h ps Ks qs Ls"
  shows "kids_in h ps Ks \<Longrightarrow> seg (nodes h) b ps 0 \<Longrightarrow> length ps < f \<Longrightarrow>
    compare_members cmp f cs h (hd (ps @ [0])) a
      = Some (\<forall>x\<in>set (map snd Ks). \<exists>y\<in>set (map snd Ls). partner cs (map snd Ls) x = Some y \<and> R x y)"
  using cmp
proof (induction ps arbitrary: f b Ks)
  case Nil
  then obtain f' where "f = Suc f'" by (cases f) auto
  then show ?case using Nil by (simp add: kids_in_def)
next
  case (Cons p ps)
  note P = parent_simps [OF pt]
  obtain f' where f: "f = Suc f'" "length ps < f'" using Cons.prems(3) by (cases f) auto
  obtain K Ks' where K: "Ks = K # Ks'" "item h p (fst K) (snd K)" "kids_in h ps Ks'"
    using Cons.prems(1) by (cases Ks) (auto simp: kids_in_def)
  obtain m where m: "nodes h p = Some m" "c_next m = hd (ps @ [0])" "seg (nodes h) p ps 0" using Cons.prems(2) by auto
  have p0: "p \<noteq> 0" using item_in [OF K(2)] by blast
  obtain Fs where o: "own h (c_string m) Fs (jt_name (snd K))" using item_strings [OF K(2)] m(1) by auto
  have IH: "compare_members cmp f' cs h (hd (ps @ [0])) a
      = Some (\<forall>x\<in>set (map snd Ks'). \<exists>y\<in>set (map snd Ls). partner cs (map snd Ls) x = Some y \<and> R x y)"
    by (rule Cons.IH [OF K(3) m(3) f(2)]) (rule agrees_mono [OF Cons.prems(4)], use K in auto)
  show ?case
  proof (cases "partner cs (map snd Ls) (snd K)")
    case None
    have "do { name \<leftarrow> name_arg h (c_string m); get_object_item h a name cs } = Some 0"
    proof (cases "jt_name (snd K)")
      case None
      then show ?thesis using o by (auto simp: own_def name_arg_def get_object_item_def split: if_splits)
    next
      case (Some s)
      then have s: "c_string m \<noteq> 0" "strs h (c_string m) = Some s" "0 \<in> set s" using o by (auto simp: own_def split: if_splits)
      then show ?thesis
        using get_object_item_kids [OF P(3,4,1,2,5) s(3), of cs] None Some
        by (auto simp: name_arg_def partner_def split: option.splits)
    qed
    then show ?thesis using p0 m(1) f(1) K(1) None by (auto simp: bind_eq_Some_conv)
  next
    case (Some y)
    then obtain s i where s0: "jt_name (snd K) = Some s" "first_named cs s (map snd Ls) = Some i" "y = map snd Ls ! i"
      by (auto simp: partner_def split: option.splits)
    then have s: "jt_name (snd K) = Some s" "first_named cs s (map snd Ls) = Some i" "y = snd (Ls ! i)" "i < length Ls"
      using first_named_less [OF s0(2)] by simp_all
    have own: "c_string m \<noteq> 0" "strs h (c_string m) = Some s" "0 \<in> set s" using o s(1) by (auto simp: own_def split: if_splits)
    have i: "i < length qs" "qs ! i \<noteq> 0" using s(4) P(8,9) nth_mem [of i qs] by metis+
    have it: "item h (qs ! i) (fst (Ls ! i)) (snd (Ls ! i))" using G(2) i(1) by (simp add: kids_in_def list_all2_conv_all_nth)
    have "get_object_item h a (Some s) cs = Some (qs ! i)"
      using get_object_item_kids [OF P(3,4,1,2,5) own(3), of cs] s(2) by simp
    moreover have "cmp p (qs ! i) = Some (R (snd K) y)"
      unfolding s(3) by (rule agreesD [OF Cons.prems(4) _ _ K(2) _ _ it]) (use K(1) i(1) s(4) in simp_all)
    moreover have "y \<in> set (map snd Ls)" using s(3,4) by simp
    ultimately show ?thesis
      using p0 m f(1) K(1) own i(2) IH Some by (auto simp: name_arg_def)
  qed
qed

lemma valid_type_cases:
  "valid_type k \<Longrightarrow> k = 1 \<or> k = 2 \<or> k = 4 \<or> k = 8 \<or> k = 16 \<or> k = 128 \<or> k = 32 \<or> k = 64"
  by (auto simp: valid_type_def)

theorem compare_run:
  "item h a F t \<Longrightarrow> item h b G u \<Longrightarrow> set F \<inter> set G = {} \<Longrightarrow> length F < f \<Longrightarrow> length G < f \<Longrightarrow>
   compare f cs h a b = Some (compare_ref cs t u)"
proof (induction f arbitrary: a b F G t u)
  case (Suc f)
  note ia = Suc.prems(1) and ib = Suc.prems(2)
  obtain n Fo ps Ks where pa: "parent h a F t n Fo ps Ks" using ia unfolding item_parent by blast
  obtain m Go qs Ls where pb: "parent h b G u m Go qs Ls" using ib unfolding item_parent by blast
  note A = parent_simps [OF pa] and B = parent_simps [OF pb]
  have ab: "a \<noteq> b" using Suc.prems(3) A(6) B(6) by auto
  obtain Fv v nm where fa: "own h (c_valuestring n) Fv v" "t = JT (c_type n) (c_valueint n) (c_valuedouble n) v nm (map snd Ks)"
    using pa unfolding parent_def by blast
  obtain Gv w km where fb: "own h (c_valuestring m) Gv w" "u = JT (c_type m) (c_valueint m) (c_valuedouble m) w km (map snd Ls)"
    using pb unfolding parent_def by blast
  have la: "\<forall>K\<in>set Ks. length (fst K) < f" "length ps < f"
    using length_in [of Ks f] kids_count [OF A(3)] A(6) Suc.prems(4) by simp_all
  have lb: "\<forall>L\<in>set Ls. length (fst L) < f" "length qs < f"
    using length_in [of Ls f] kids_count [OF B(3)] B(6) Suc.prems(5) by simp_all
  have sub: "set (fst K) \<subseteq> set F" if "K \<in> set Ks" for K using that A(6) by auto
  have sub': "set (fst L) \<subseteq> set G" if "L \<in> set Ls" for L using that B(6) by auto
  have cmp: "agrees (compare f cs h) (compare_ref cs) h ps Ks qs Ls" "agrees (compare f cs h) (compare_ref cs) h qs Ls ps Ks"
  proof -
    have "compare f cs h p q = Some (compare_ref cs (snd K) (snd L)) \<and> compare f cs h q p = Some (compare_ref cs (snd L) (snd K))"
      if "K \<in> set Ks" "L \<in> set Ls" "item h p (fst K) (snd K)" "item h q (fst L) (snd L)" for p K q L
    proof -
      have d: "set (fst K) \<inter> set (fst L) = {}" "set (fst L) \<inter> set (fst K) = {}"
        using sub [OF that(1)] sub' [OF that(2)] Suc.prems(3) by blast+
      show ?thesis using Suc.IH [OF that(3,4) d(1)] Suc.IH [OF that(4,3) d(2)] la(1) lb(1) that(1,2) by blast
    qed
    then show "agrees (compare f cs h) (compare_ref cs) h ps Ks qs Ls" "agrees (compare f cs h) (compare_ref cs) h qs Ls ps Ks"
      unfolding agrees_def by blast+
  qed
  have segs: "seg (nodes h) (last ps) ps 0" "seg (nodes h) (last qs) qs 0" using A(4) B(4) by (simp_all add: linked_def)
  have els: "compare_elements (compare f cs h) f h (c_child n) (c_child m) = Some (list_all2 (compare_ref cs) (map snd Ks) (map snd Ls))"
    unfolding A(5) B(5) by (rule compare_elements_run [OF cmp(1) A(3) segs(1) B(3) segs(2) la(2)])
  have mem1: "compare_members (compare f cs h) f cs h (c_child n) b
      = Some (\<forall>x\<in>set (map snd Ks). \<exists>y\<in>set (map snd Ls). partner cs (map snd Ls) x = Some y \<and> compare_ref cs x y)"
    unfolding A(5) by (rule compare_members_run [OF ib B(7,3) pb cmp(1) A(3) segs(1) la(2)])
  have mem2: "compare_members (compare f cs h) f cs h (c_child m) a
      = Some (\<forall>x\<in>set (map snd Ls). \<exists>y\<in>set (map snd Ks). partner cs (map snd Ks) x = Some y \<and> compare_ref cs x y)"
    unfolding B(5) by (rule compare_members_run [OF ia A(7,3) pa cmp(2) B(3) segs(2) lb(2)])
  let ?k = "c_type n AND 255"
  have valid0: "valid_type ?k \<Longrightarrow> ?k \<noteq> 0" by (auto simp: valid_type_def)
  show ?case
  proof (cases "?k = c_type m AND 255 \<and> valid_type ?k")
    case False
    then show ?thesis using A(1,2) B(1,2) by (auto simp: fa(2) fb(2) compare_ref.simps Let_def)
  next
    case True
    have txt_eq: "(if c_valuestring n = 0 \<or> c_valuestring m = 0 then Some False
          else do { s \<leftarrow> strs h (c_valuestring n); t \<leftarrow> strs h (c_valuestring m); r \<leftarrow> str_cmp s t; Some (r = 0) })
        = Some (same_text_as v w)"
    proof (cases "c_valuestring n = 0 \<or> c_valuestring m = 0")
      case True
      then show ?thesis using fa(1) fb(1) by (auto simp: own_def same_text_as_def split: option.splits)
    next
      case False
      then obtain s s' where s: "strs h (c_valuestring n) = Some s" "v = Some s" "0 \<in> set s"
          "strs h (c_valuestring m) = Some s'" "w = Some s'" "0 \<in> set s'"
        using fa(1) fb(1) by (auto simp: own_def)
      then show ?thesis using False str_cmp_total [OF s(3,6)] by (auto simp: same_text_as_def)
    qed
    obtain k where k: "c_type n AND 255 = k" "c_type m AND 255 = k" "valid_type k" "k \<noteq> 0" using True valid0 by metis
    have "compare (Suc f) cs h a b =
       (if k = 1 \<or> k = 2 \<or> k = 4 then Some True
        else if k = 8 then Some (compare_double (c_valuedouble n) (c_valuedouble m))
        else if k = 16 \<or> k = 128 then Some (same_text_as v w)
        else if k = 32 then Some (list_all2 (compare_ref cs) (map snd Ks) (map snd Ls))
        else Some ((\<forall>x\<in>set (map snd Ks). \<exists>y\<in>set (map snd Ls). partner cs (map snd Ls) x = Some y \<and> compare_ref cs x y)
          \<and> (\<forall>x\<in>set (map snd Ls). \<exists>y\<in>set (map snd Ks). partner cs (map snd Ks) x = Some y \<and> compare_ref cs x y)))"
      unfolding compare.simps using A(1,2) B(1,2) ab k els mem1 mem2 txt_eq by (simp add: Let_def)
    then show ?thesis using k by (simp add: fa(2) fb(2) compare_ref.simps)
  qed
qed simp

lemma cJSON_Compare_run:
  assumes "item h a F t" "item h b G u" "set F \<inter> set G = {}" "distinct F" "distinct G" "heap_wf h"
  shows "cJSON_Compare h a b cs = Some (compare_ref cs t u)"
  unfolding cJSON_Compare_def
  by (rule compare_run [OF assms(1-3) owned_count [OF assms(1,4,6)] owned_count [OF assms(2,5,6)]])

section \<open>A tree and its copy\<close>

definition is_finite :: "double \<Rightarrow> bool" where
  "is_finite d \<longleftrightarrow> (case d of Fin _ _ _ \<Rightarrow> True | _ \<Rightarrow> False)"

text \<open>
  Types of \<^verbatim>\<open>cJSON.h\<close>, finite numbers, strings where the type wants one, and objects in which
  looking up the name of a member finds that member.
\<close>

fun proper :: "bool \<Rightarrow> jtree \<Rightarrow> bool" where
  "proper cs (JT ty i d s nm ks) \<longleftrightarrow>
     valid_type (ty AND 0xFF) \<and> (ty AND 0xFF = cJSON_Number \<longrightarrow> is_finite d)
     \<and> (ty AND 0xFF = cJSON_String \<or> ty AND 0xFF = cJSON_Raw \<longrightarrow> (\<exists>a. s = Some a \<and> 0 \<in> set a))
     \<and> (ty AND 0xFF = cJSON_Object \<longrightarrow>
          (\<forall>j<length ks. \<exists>n. jt_name (ks ! j) = Some n \<and> 0 \<in> set n \<and> first_named cs n ks = Some j))
     \<and> (\<forall>k\<in>set ks. proper cs k)"

lemma rounded_sign: "0 \<le> i \<Longrightarrow> (\<exists>m e. rounded i k = Fin False m e) \<or> rounded i k = Inf False"
  by (auto simp: rounded_def double_of_frac_def Let_def)

lemma compare_double_self: "is_finite d \<Longrightarrow> compare_double d d"
proof (cases d)
  case (Fin neg m e)
  have 1: "double_minus d d = Fin False 0 0" by (simp add: Fin rounded_def double_of_frac_def)
  obtain x where x: "times_epsilon (double_abs d) = x" "(\<exists>m e. x = Fin False m e) \<or> x = Inf False"
    using rounded_sign [of "units False m e e"] by (auto simp: Fin units_def)
  have "double_le (Fin False 0 0) x" using x(2) by (auto simp: units_def)
  then show ?thesis using 1 x(1) by (simp add: compare_double_def)
qed (simp_all add: is_finite_def)

lemma to_lower_same: "to_lower x = to_lower 0 \<longleftrightarrow> x = 0"
  using to_lower_0 by (metis (no_types))

lemma cmp_cstr:
  "0 \<in> set b \<Longrightarrow> str_cmp a (cstr b) = str_cmp a b" "0 \<in> set a \<Longrightarrow> str_cmp (cstr a) b = str_cmp a b"
  "0 \<in> set b \<Longrightarrow> lower_cmp a (cstr b) = lower_cmp a b" "0 \<in> set a \<Longrightarrow> lower_cmp (cstr a) b = lower_cmp a b"
proof -
  show "0 \<in> set b \<Longrightarrow> str_cmp a (cstr b) = str_cmp a b" by (induction a b rule: str_cmp.induct) (auto simp: cstr_def)
  show "0 \<in> set a \<Longrightarrow> str_cmp (cstr a) b = str_cmp a b" by (induction a b rule: str_cmp.induct) (auto simp: cstr_def)
  show "0 \<in> set b \<Longrightarrow> lower_cmp a (cstr b) = lower_cmp a b"
  proof (induction b arbitrary: a)
    case (Cons y ys)
    then show ?case by (cases a; cases "y = 0") (simp_all add: cstr_def to_lower_same)
  qed simp
  show "0 \<in> set a \<Longrightarrow> lower_cmp (cstr a) b = lower_cmp a b"
  proof (induction a arbitrary: b)
    case (Cons y ys)
    then show ?case by (cases b; cases "y = 0") (simp_all add: cstr_def)
  qed simp
qed

lemma str_cmp_self: "0 \<in> set a \<Longrightarrow> str_cmp a a = Some 0"
  by (induction a) auto

lemma copy_sel [simp]: "jt_name (copy t) = map_option cstr (jt_name t)"
  by (cases t) simp

text \<open>Looking a name up in the copies.\<close>

lemma first_named_copy:
  assumes "0 \<in> set n" "\<forall>k\<in>set ks. \<forall>s. jt_name k = Some s \<longrightarrow> 0 \<in> set s"
  shows "first_named cs n (map copy ks) = first_named cs n ks" "first_named cs (cstr n) ks = first_named cs n ks"
  using assms(2)
  by (induction ks) (auto simp: named_def cmp_cstr assms(1) split: option.splits)

theorem compare_ref_copy: "proper cs t \<Longrightarrow> compare_ref cs t (copy t) \<and> compare_ref cs (copy t) t"
proof (induction t)
  case (JT ty i d s nm ks)
  have IH: "compare_ref cs k (copy k) \<and> compare_ref cs (copy k) k" if "k \<in> set ks" for k using JT.IH [OF that] JT.prems that by auto
  have v: "valid_type (ty AND 255)" using JT.prems by simp
  consider "ty AND 255 \<in> {1, 2, 4}" | "ty AND 255 = 8" | "ty AND 255 = 16 \<or> ty AND 255 = 128" | "ty AND 255 = 32" | "ty AND 255 = 64"
    using valid_type_cases [OF v] by auto
  then show ?case
  proof cases
    case 3
    then obtain a where "s = Some a" "0 \<in> set a" using JT.prems by auto
    then show ?thesis using 3 v by (auto simp: compare_ref.simps same_text_as_def cmp_cstr str_cmp_self)
  next
    case 4
    have "list_all2 (compare_ref cs) ks (map copy ks)" "list_all2 (compare_ref cs) (map copy ks) ks"
      using IH by (auto simp: list_all2_conv_all_nth)
    then show ?thesis using 4 v by (simp add: compare_ref.simps)
  next
    case 5
    have nm: "\<exists>n. jt_name (ks ! j) = Some n \<and> 0 \<in> set n \<and> first_named cs n ks = Some j" if "j < length ks" for j
      using JT.prems 5 that by simp
    have names: "\<forall>k\<in>set ks. \<forall>s. jt_name k = Some s \<longrightarrow> 0 \<in> set s"
    proof (intro ballI allI impI)
      fix k s assume k: "k \<in> set ks" "jt_name k = Some s"
      then obtain j where "j < length ks" "k = ks ! j" by (auto simp: in_set_conv_nth)
      then show "0 \<in> set s" using nm [of j] k(2) by auto
    qed
    have "\<exists>y\<in>set (map copy ks). partner cs (map copy ks) x = Some y \<and> compare_ref cs x y" if x: "x \<in> set ks" for x
    proof -
      obtain j where j: "j < length ks" "x = ks ! j" using x by (auto simp: in_set_conv_nth)
      obtain n where n: "jt_name x = Some n" "0 \<in> set n" "first_named cs n ks = Some j" using nm [OF j(1)] j(2) by auto
      have "partner cs (map copy ks) x = Some (copy x)"
        using n j first_named_copy(1) [OF n(2) names] by (simp add: partner_def)
      then show ?thesis using IH [OF x] x by auto
    qed
    moreover have "\<exists>y\<in>set ks. partner cs ks x = Some y \<and> compare_ref cs x y" if x: "x \<in> set (map copy ks)" for x
    proof -
      obtain j where j: "j < length ks" "x = copy (ks ! j)" using x by (auto simp: in_set_conv_nth)
      obtain n where n: "jt_name (ks ! j) = Some n" "0 \<in> set n" "first_named cs n ks = Some j" using nm [OF j(1)] by auto
      have "partner cs ks x = Some (ks ! j)"
        using n j first_named_copy(2) [OF n(2) names] by (simp add: partner_def)
      then show ?thesis using IH [of "ks ! j"] j by auto
    qed
    ultimately show ?thesis using 5 v by (simp add: compare_ref.simps)
  qed (use v JT.prems in \<open>auto simp: compare_ref.simps compare_double_self\<close>)
qed

end
