(* ===== verification/Cjson_Edit_Properties.thy ===== *)
theory Cjson_Edit_Properties
  imports Cjson_Compare_Refine Cjson_Properties
begin

text \<open>
  The properties of the functions of \<^verbatim>\<open>cJSON.c\<close> that build, change, copy and compare trees.
\<close>

section \<open>A heap with an array, a number outside of it and a name\<close>

definition heap2 :: heap where
  "heap2 = heap0\<lparr>nodes := [1 \<mapsto> zero_node\<lparr>c_type := 32, c_child := 2\<rparr>,
       2 \<mapsto> zero_node\<lparr>c_prev := 2, c_type := 8\<rparr>, 3 \<mapsto> zero_node\<lparr>c_type := 8\<rparr>],
     strs := [4 \<mapsto> [97, 0]], brk := 4\<rparr>"

abbreviation zero_leaf :: jtree where "zero_leaf \<equiv> leaf 8 0 zero_double None"
abbreviation one_array :: jtree where "one_array \<equiv> JT 32 0 zero_double None None [zero_leaf]"

lemma heap2_wf: "heap_wf heap2"
  by (simp add: heap_wf_def heap2_def heap0_def)

lemma heap2_leaves: "item heap2 2 [2] zero_leaf" "item heap2 3 [3] zero_leaf"
  unfolding item_parts leaf_def
  by (rule exI [of _ "zero_node\<lparr>c_prev := 2, c_type := 8\<rparr>"], simp add: heap2_def zero_node_def own_def linked_def exI [of _ "[]"])
    (rule exI [of _ "zero_node\<lparr>c_type := 8\<rparr>"], simp add: heap2_def zero_node_def own_def linked_def exI [of _ "[]"])

lemma heap2_array: "item heap2 1 [1, 2] one_array"
  unfolding item_parts
  by (intro exI [of _ "zero_node\<lparr>c_type := 32, c_child := 2\<rparr>"] exI [of _ "[]"] exI [of _ None] exI [of _ "[2]"] exI [of _ "[([2], zero_leaf)]"])
    (use heap2_leaves(1) in \<open>simp add: heap2_def zero_node_def own_def linked_def\<close>)

lemma heap2_detached: "detached heap2 3"
  by (simp add: detached_def heap2_def zero_node_def)

section \<open>Arrays\<close>

text \<open>
  \<open>cJSON_InsertItemInArray\<close> puts an item before the one at the given index, or at the end when
  there is none: the children are the list with the item inserted, the array owns what both
  owned, and no other address changes.
\<close>

theorem InsertItemInArray_inserts:
  assumes "item h a F t" and "item h x G u" and "detached h x" and "distinct (F @ G)" and "0 \<le> i"
  shows "\<exists>h' F'. cJSON_InsertItemInArray a i x h = Some (True, h')
    \<and> item h' a F' (with_kids t (take (nat i) (jt_kids t) @ u # drop (nat i) (jt_kids t)))
    \<and> set F' = set (F @ G) \<and> distinct F' \<and> edits (set (F @ G)) h h'"
  using insert_item [OF assms] by blast

theorem InsertItemInArray_inserts_witness:
  "\<exists>h' F'. cJSON_InsertItemInArray 1 0 3 heap2 = Some (True, h')
    \<and> item h' 1 F' (JT 32 0 zero_double None None [zero_leaf, zero_leaf])
    \<and> set F' = {1, 2, 3} \<and> distinct F' \<and> edits {1, 2, 3} heap2 h'"
  using InsertItemInArray_inserts [OF heap2_array heap2_leaves(2) heap2_detached, of 0] by (simp add: with_kids_def)

text \<open>
  \<open>cJSON_DetachItemFromArray\<close> takes the child at the index out of the array: both are
  well-formed trees afterwards, and together they own what the array owned. Without a child at the index
  nothing changes.
\<close>

theorem DetachItemFromArray_detaches:
  assumes "item h a F t" and "distinct F" and "0 \<le> i"
  shows "\<exists>x h'. cJSON_DetachItemFromArray a i h = Some (x, h') \<and> edits (set F) h h'
    \<and> (if nat i < length (jt_kids t)
       then \<exists>F' G. item h' x G (jt_kids t ! nat i) \<and> detached h' x
          \<and> item h' a F' (with_kids t (take (nat i) (jt_kids t) @ drop (Suc (nat i)) (jt_kids t))) \<and> mset (F' @ G) = mset F
       else x = 0 \<and> h' = h)"
proof -
  obtain n Fo ps Ks where pt: "parent h a F t n Fo ps Ks" using assms(1) unfolding item_parent by blast
  note p = parent_simps [OF pt]
  have g: "get_array_item h a (nat i) = Some (if nat i < length ps then ps ! nat i else 0)"
    by (rule get_array_item_kids [OF p(4,8,1,2,5)])
  show ?thesis
  proof (cases "nat i < length ps")
    case True
    then show ?thesis
      using detach_item [OF pt assms(2) True] g assms(3) p(7,9)
      by (auto simp: cJSON_DetachItemFromArray_def)
  next
    case False
    then show ?thesis
      using g assms(3) p(7,9) by (simp add: cJSON_DetachItemFromArray_def cJSON_DetachItemViaPointer_def)
  qed
qed

theorem DetachItemFromArray_detaches_witness:
  "\<exists>x h' F' G. cJSON_DetachItemFromArray 1 0 heap2 = Some (x, h') \<and> edits {1, 2} heap2 h'
    \<and> item h' x G zero_leaf \<and> detached h' x \<and> item h' 1 F' (JT 32 0 zero_double None None [])
    \<and> mset (F' @ G) = mset [1, 2]"
  using DetachItemFromArray_detaches [OF heap2_array, of 0] by (simp add: with_kids_def)

text \<open>
  C30: \<open>cJSON_ReplaceItemInArray\<close> puts the replacement at the index and frees all addresses of the item
  that was there; without such an item it reports failure and changes nothing.
\<close>

theorem ReplaceItemInArray_replaces:
  assumes "item h a F t" and "item h x G u" and "distinct (F @ G)" and "heap_wf h" and "0 \<le> i"
  shows "\<exists>h'. cJSON_ReplaceItemInArray a i x h = Some (nat i < length (jt_kids t), h') \<and> edits (set (F @ G)) h h'
    \<and> (if nat i < length (jt_kids t) then \<exists>F' D. item h' a F' (with_kids t ((jt_kids t)[nat i := u])) \<and> mset (F' @ D) = mset (F @ G)
            \<and> (\<exists>p. item h p D (jt_kids t ! nat i)) \<and> (\<forall>q\<in>set D. nodes h' q = None \<and> strs h' q = None)
       else h' = h)"
proof -
  obtain n Fo ps Ks where pt: "parent h a F t n Fo ps Ks" using assms(1) unfolding item_parent by blast
  note p = parent_simps [OF pt]
  have g: "get_array_item h a (nat i) = Some (if nat i < length ps then ps ! nat i else 0)"
    by (rule get_array_item_kids [OF p(4,8,1,2,5)])
  show ?thesis
  proof (cases "nat i < length ps")
    case True
    have "item h (ps ! nat i) (fst (Ks ! nat i)) (jt_kids t ! nat i)" using kids_split(4) [OF p(3) True] p(7,9) True by simp
    then show ?thesis
      using replace_item [OF pt assms(2,3) True assms(4)] g True assms(5) p(7,9)
      by (simp add: cJSON_ReplaceItemInArray_def) metis
  next
    case False
    then show ?thesis
      using g assms(5) p(7,9) by (simp add: cJSON_ReplaceItemInArray_def cJSON_ReplaceItemViaPointer_def)
  qed
qed

theorem ReplaceItemInArray_replaces_witness:
  "\<exists>h' F' D. cJSON_ReplaceItemInArray 1 0 3 heap2 = Some (True, h')
    \<and> item h' 1 F' one_array \<and> mset (F' @ D) = mset [1, 2, 3] \<and> (\<forall>q\<in>set D. nodes h' q = None \<and> strs h' q = None)"
  using ReplaceItemInArray_replaces [OF heap2_array heap2_leaves(2) _ heap2_wf, of 0]
  by (force simp: with_kids_def)

section \<open>Objects\<close>

text \<open>
  C31: \<open>cJSON_AddStringToObject\<close> makes four allocations. Whichever of them fail, it returns: the new
  item became the last child with copies of name and text, or null came back and the heap is as
  before.
\<close>

theorem AddStringToObject_all_or_nothing:
  assumes "item h obj F t" and "distinct F" and "heap_wf h"
    and "strs h name = Some nm" "0 \<in> set nm" and "strs h string = Some s" "0 \<in> set s"
  shows "\<exists>x h'. cJSON_AddStringToObject obj name string h = Some (x, h')
    \<and> (if x = 0 then nodes h' = nodes h \<and> strs h' = strs h \<and> oom h h'
       else \<exists>F'. item h' obj F' (with_kids t (jt_kids t @ [JT 16 0 zero_double (Some (cstr s)) (Some (cstr nm)) []]))
              \<and> set F \<subseteq> set F' \<and> set F' - set F \<subseteq> {brk h<..brk h'} \<and> same_on (- set F') h h')"
proof -
  obtain r where r: "create_text cJSON_String string h = Some r" "made h (leaf 16 0 zero_double (Some (cstr s))) r"
    using create_text_made [OF assms(3,6,7), of 16] by auto
  obtain r' where r': "add_created obj name r = Some r'"
      "grown_by h obj F t (set_name (Some (cstr nm)) (leaf 16 0 zero_double (Some (cstr s)))) r'"
    using add_created_run [OF assms(1-5) r(2)] by blast
  then show ?thesis
    using r(1) by (cases r') (auto simp: cJSON_AddStringToObject_def cJSON_CreateString_def grown_by_def leaf_def)
qed

theorem AddStringToObject_all_or_nothing_witness:
  "\<exists>x h'. cJSON_AddStringToObject 1 4 4 heap2 = Some (x, h')
    \<and> (if x = 0 then nodes h' = nodes heap2 \<and> strs h' = strs heap2 \<and> oom heap2 h'
       else \<exists>F'. item h' 1 F' (JT 32 0 zero_double None None [zero_leaf, JT 16 0 zero_double (Some [97, 0]) (Some [97, 0]) []])
              \<and> set [1, 2] \<subseteq> set F' \<and> set F' - set [1, 2] \<subseteq> {4<..brk h'} \<and> same_on (- set F') heap2 h')"
proof -
  have s: "strs heap2 4 = Some [97, 0]" "cstr [97, 0] = [97, 0]" "brk heap2 = 4" by (simp_all add: heap2_def cstr_def)
  have w: "with_kids one_array (jt_kids one_array @ [k]) = JT 32 0 zero_double None None [zero_leaf, k]" for k
    by (simp add: with_kids_def)
  show ?thesis
    using AddStringToObject_all_or_nothing [OF heap2_array _ heap2_wf s(1) _ s(1)] unfolding s(2,3) w by simp
qed

section \<open>Copying and comparing\<close>

text \<open>
  C8: \<open>cJSON_Duplicate\<close> returns for every well-formed tree and whatever allocations fail. Its result is
  the tree copied, strings cut at their terminator, at new addresses with the original
  untouched; or it is null and the heap is as before.
\<close>

theorem Duplicate_copies:
  assumes "item h p F t" and "distinct F" and "heap_wf h"
  shows "\<exists>q h'. cJSON_Duplicate p True h = Some (q, h')
    \<and> (if q = 0 then nodes h' = nodes h \<and> strs h' = strs h \<and> oom h h'
       else item h' p F t \<and> (\<exists>G. item h' q G (copy t) \<and> distinct G \<and> set G \<subseteq> {brk h<..brk h'} \<and> same_on (- set G) h h'))"
proof -
  obtain q h' where r: "cJSON_Duplicate p True h = Some (q, h')" "made h (copy t) (q, h')"
    using cJSON_Duplicate_run [OF assms, of True] by auto
  show ?thesis
  proof (cases "q = 0")
    case False
    then obtain G where G: "item h' q G (copy t)" "distinct G" "set G \<subseteq> {brk h<..brk h'}" "same_on (- set G) h h'"
      using r(2) by (auto simp: made_def)
    then show ?thesis using r(1) False original(1) [OF assms(1,3) G(4,3)] by auto
  qed (use r in \<open>auto simp: made_def\<close>)
qed

theorem Duplicate_copies_witness:
  "\<exists>q h'. cJSON_Duplicate 1 True heap2 = Some (q, h')
    \<and> (if q = 0 then nodes h' = nodes heap2 \<and> strs h' = strs heap2 \<and> oom heap2 h'
       else item h' 1 [1, 2] one_array \<and> (\<exists>G. item h' q G one_array \<and> distinct G \<and> set G \<subseteq> {4<..brk h'} \<and> same_on (- set G) heap2 h'))"
proof -
  have e: "copy one_array = one_array" "brk heap2 = 4" by (simp_all add: leaf_def heap2_def)
  show ?thesis using Duplicate_copies [OF heap2_array _ heap2_wf] unfolding e by simp
qed

text \<open>
  C9: \<open>cJSON_Compare\<close> of two trees that share no address returns, and its answer is that of the
  comparison of trees \<open>compare_ref\<close>.
\<close>

theorem Compare_refines:
  assumes "item h a F t" and "item h b G u" and "set F \<inter> set G = {}" and "distinct F" and "distinct G" and "heap_wf h"
  shows "cJSON_Compare h a b case_sensitive = Some (compare_ref case_sensitive t u)"
  by (rule cJSON_Compare_run [OF assms])

theorem Compare_refines_witness: "cJSON_Compare heap2 2 3 True = Some (compare_ref True zero_leaf zero_leaf)"
  using Compare_refines [OF heap2_leaves _ _ _ heap2_wf, of True] by simp

text \<open>
  C33: a tree of the types of \<^verbatim>\<open>cJSON.h\<close> with finite numbers, in whose objects every member is found
  by its name, compares equal to its duplicate.
\<close>

theorem Duplicate_compares_equal:
  assumes "item h p F t" and "distinct F" and "heap_wf h" and "proper case_sensitive t"
    and "cJSON_Duplicate p True h = Some (q, h')" and "q \<noteq> 0"
  shows "cJSON_Compare h' p q case_sensitive = Some True"
proof -
  have "made h (copy t) (q, h')" using cJSON_Duplicate_run [OF assms(1-3), of True] assms(5) by auto
  then obtain G where G: "item h' q G (copy t)" "distinct G" "set G \<subseteq> {brk h<..brk h'}" "same_on (- set G) h h'" "heap_step h h'"
    using assms(6) by (auto simp: made_def)
  note o = original [OF assms(1,3) G(4,3)]
  have "heap_wf h'" using G(5) by (simp add: heap_step_def)
  from cJSON_Compare_run [OF o(1) G(1) o(2) assms(2) G(2) this, of case_sensitive] show ?thesis
    using compare_ref_copy [OF assms(4)] by simp
qed

theorem Duplicate_compares_equal_witness:
  "case cJSON_Duplicate 1 True heap2 of None \<Rightarrow> False | Some (q, h') \<Rightarrow> q = 5 \<and> cJSON_Compare h' 1 q True = Some True"
proof -
  have p: "proper True one_array" by (simp add: leaf_def valid_type_def is_finite_def)
  have "map_option fst (cJSON_Duplicate 1 True heap2) = Some 5" by code_simp
  then obtain h' where d: "cJSON_Duplicate 1 True heap2 = Some (5, h')" by auto
  then show ?thesis using Duplicate_compares_equal [OF heap2_array _ heap2_wf p d] by simp
qed

end
