(* ===== verification/Cjson_Array_Refine.thy ===== *)
theory Cjson_Array_Refine
  imports Cjson_Copy_Refine
begin

text \<open>
  The functions that make an array of numbers or strings from a C array: the tree, and what is left
  when an allocation fails.
\<close>

text \<open>\<open>mk\<close> makes an item with the tree \<open>f x\<close> from each element, as long as the old strings are in place.\<close>

definition makes :: "('a \<Rightarrow> heap \<Rightarrow> (nat \<times> heap) option) \<Rightarrow> ('a \<Rightarrow> jtree) \<Rightarrow> heap \<Rightarrow> 'a list \<Rightarrow> bool" where
  "makes mk f h0 xs \<longleftrightarrow> (\<forall>x\<in>set xs. \<forall>h. heap_wf h \<and> (\<forall>s\<le>brk h0. strs h s = strs h0 s) \<longrightarrow>
     (\<exists>r. mk x h = Some r \<and> made h (f x) r))"

lemma makesD:
  "makes mk f h0 xs \<Longrightarrow> x \<in> set xs \<Longrightarrow> heap_wf h \<Longrightarrow> \<forall>s\<le>brk h0. strs h s = strs h0 s \<Longrightarrow> \<exists>r. mk x h = Some r \<and> made h (f x) r"
  unfolding makes_def by blast

lemma growing_old:
  "growing h0 h N n Fv Fs v nm ps Ks \<Longrightarrow> s \<le> brk h0 \<Longrightarrow> strs h s = strs h0 s"
  unfolding growing_def same_on_def by (metis ComplI greaterThanAtMost_iff leD subsetD)

text \<open>Deleting the array when an element cannot be made.\<close>

lemma growing_deleted:
  assumes g: "growing h0 h N n Fv Fs v nm ps Ks" and wf: "heap_wf h0" and o: "oom h0 h"
  shows "\<exists>h'. cJSON_Delete N h = Some h' \<and> made h0 u (0, h')"
  using growing_fails [OF assms, of u] g by (auto simp: dup_fail_def growing_def bind_eq_Some_conv)

lemma create_loop_run:
  assumes mk: "makes mk f h0 xs" and wf: "heap_wf h0"
  shows "growing h0 h N n [] [] None None qs Ls \<Longrightarrow> i = length qs \<Longrightarrow> i + k \<le> length xs \<Longrightarrow>
    \<exists>r h'. create_loop mk xs N k i (if qs = [] then 0 else last qs) h = Some (r, h')
      \<and> (case r of None \<Rightarrow> made h0 u (0, h')
         | Some l \<Rightarrow> \<exists>n' qs' Ls'. growing h0 h' N n' [] [] None None qs' Ls' \<and> same_scalars n n'
             \<and> l = (if qs' = [] then 0 else last qs') \<and> map snd Ls' = map snd Ls @ map f (take k (drop i xs)))"
proof (induction k arbitrary: h n qs Ls i)
  case 0
  then show ?case
    by (intro exI [of _ "Some (if qs = [] then 0 else last qs)"] exI [of _ h]) (auto simp: same_scalars_def)
next
  case (Suc k)
  note G = Suc.prems(1)
  have i: "i < length xs" "Suc i + k \<le> length xs" using Suc.prems(3) by auto
  have st: "heap_step h0 h" using G unfolding growing_def by blast
  then have wfh: "heap_wf h" by (simp add: heap_step_def)
  obtain x h1 where x: "mk (xs ! i) h = Some (x, h1)" "made h (f (xs ! i)) (x, h1)"
    using makesD [OF mk _ wfh, of "xs ! i"] growing_old [OF G] i(1) by fastforce
  show ?case
  proof (cases "x = 0")
    case True
    then have e: "heap_step h h1" "nodes h1 = nodes h" "strs h1 = strs h" "oom h h1" using x(2) by (auto simp: made_def)
    obtain h' where "cJSON_Delete N h1 = Some h'" "made h0 u (0, h')"
      using growing_deleted [OF growing_idle [OF G e(1-3)] wf oom_step(1) [OF st e(4)]] by blast
    then show ?thesis using True x(1) i(1) by (intro exI [of _ None] exI [of _ h']) simp
  next
    case False
    obtain h2 F' n2 where h2: "(if qs \<noteq> [] then suffix_object (last qs) x h1 else upd_node N (\<lambda>n. n\<lparr>c_child := x\<rparr>) h1) = Some h2"
        "growing h0 h2 N n2 [] [] None None (qs @ [x]) (Ls @ [(F', f (xs ! i))])" "same_scalars n n2"
      using dup_link [OF G x(2) False wf] by blast
    have "create_loop mk xs N (Suc k) i (if qs = [] then 0 else last qs) h = create_loop mk xs N k (Suc i) x h2"
      using x(1) False i(1) h2(1) Suc.prems(2) by (cases "qs = []") simp_all
    moreover have "take (Suc k) (drop i xs) = xs ! i # take k (drop (Suc i) xs)" using i(1) by (simp add: Cons_nth_drop_Suc [symmetric])
    moreover obtain r h' where r: "create_loop mk xs N k (Suc i) (last (qs @ [x])) h2 = Some (r, h')"
        "case r of None \<Rightarrow> made h0 u (0, h')
         | Some l \<Rightarrow> \<exists>n' qs' Ls'. growing h0 h' N n' [] [] None None qs' Ls' \<and> same_scalars n2 n'
             \<and> l = (if qs' = [] then 0 else last qs') \<and> map snd Ls' = map snd (Ls @ [(F', f (xs ! i))]) @ map f (take k (drop (Suc i) xs))"
      using Suc.IH [OF h2(2) _ i(2)] Suc.prems(2) by auto
    moreover have "same_scalars n n'" if "same_scalars n2 n'" for n' using that h2(3) by (simp add: same_scalars_def)
    ultimately show ?thesis
      by (intro exI [of _ r] exI [of _ h']) (simp split: option.splits; metis)
  qed
qed

theorem create_array_run:
  assumes mk: "makes mk f h xs" and wf: "heap_wf h" and c: "0 < cnt" "nat cnt \<le> length xs" and al: "avail h (brk h)"
  shows "\<exists>r. create_array mk (Some xs) cnt h = Some r
    \<and> made h (JT cJSON_Array 0 zero_double None None (map f (take (nat cnt) xs))) r"
proof -
  obtain N h1 where N: "cJSON_New_Item h = (N, h1)" by fastforce
  note S = New_Item_step [OF wf N]
  have N0: "N \<noteq> 0" using N al by (auto simp: cJSON_New_Item_def)
  note S3 = S(3) [OF N0]
  let ?n = "zero_node\<lparr>c_type := cJSON_Array\<rparr>" and ?h = "h1\<lparr>nodes := (nodes h1)(N \<mapsto> zero_node\<lparr>c_type := cJSON_Array\<rparr>)\<rparr>"
  have cr: "cJSON_CreateArray h = Some (N, ?h)" using N N0 S3 by (simp add: cJSON_CreateArray_def create_def)
  have g: "growing h ?h N ?n [] [] None None [] []"
    using S(1) S3 N0 heap_wf_upd [of h1 N zero_node]
    by (auto simp: growing_def heap_step_def own_def zero_node_def same_on_def)
  let ?u = "JT cJSON_Array 0 zero_double None None (map f (take (nat cnt) xs))"
  obtain r h' where r: "create_loop mk xs N (nat cnt) 0 0 ?h = Some (r, h')"
      "case r of None \<Rightarrow> made h ?u (0, h')
       | Some l \<Rightarrow> \<exists>n' qs' Ls'. growing h h' N n' [] [] None None qs' Ls' \<and> same_scalars ?n n'
             \<and> l = (if qs' = [] then 0 else last qs') \<and> map snd Ls' = map f (take (nat cnt) xs)"
    using create_loop_run [OF mk wf g, of 0 "nat cnt" ?u] c(2)
    unfolding if_P [OF refl] drop_0 list.map(1) append_Nil list.size(3) add_0 by blast
  show ?thesis
  proof (cases r)
    case None
    then show ?thesis using r cr N0 c(1) by (simp add: create_array_def)
  next
    case (Some l)
    then obtain n' qs Ls where l: "growing h h' N n' [] [] None None qs Ls" "same_scalars ?n n'"
        "l = (if qs = [] then 0 else last qs)" "map snd Ls = map f (take (nat cnt) xs)"
      using r(2) by auto
    have "length Ls = nat cnt" using arg_cong [OF l(4), of length] c(2) by simp
    moreover have "kids_in h' qs Ls" using l(1) unfolding growing_def by blast
    ultimately have ne: "qs \<noteq> []" using c(1) kids_in_length [of h' qs Ls] by auto
    have g': "nodes h' N = Some n'" "kids_in h' qs Ls" "c_child n' = hd (qs @ [0])" using l(1) unfolding growing_def by blast+
    then have n': "nodes h' N = Some n'" "c_child n' = hd qs" using ne by (simp_all add: hd_append)
    have "0 \<notin> set qs" using kids_in_roots [OF g'(2)] by blast
    then have n0: "hd qs \<noteq> 0" using hd_in_set [OF ne] by metis
    have sc: "c_type n' = cJSON_Array" "c_valueint n' = 0" "c_valuedouble n' = zero_double"
      using l(2) by (simp_all add: same_scalars_def zero_node_def)
    obtain h2 where h2: "(if c_child n' \<noteq> 0 then upd_node (c_child n') (\<lambda>c. c\<lparr>c_prev := last qs\<rparr>) h' else Some h') = Some h2"
        "made h ?u (N, h2)"
      using growing_done [OF l(1)] l(4) sc by auto
    have "create_array mk (Some xs) cnt h = Some (N, h2)"
      using cr r(1) Some N0 c(1) n' n0 h2(1) l(3) ne by (simp add: create_array_def)
    then show ?thesis using h2(2) by blast
  qed
qed

text \<open>Without an array or without elements \<open>a->child->prev\<close> goes through a null pointer.\<close>

lemma create_array_undefined:
  assumes "heap_wf h" "cnt = 0 \<or> 0 < cnt \<and> \<not> avail h (brk h)"
  shows "create_array mk (Some xs) cnt h = None"
proof -
  obtain N h1 where N: "cJSON_New_Item h = (N, h1)" by fastforce
  note S = New_Item_step [OF assms(1) N]
  have z: "nodes h1 0 = None" using heap_wf_zero S(1) by (simp add: heap_step_def)
  show ?thesis
  proof (cases "N = 0")
    case True
    then show ?thesis using N z assms(2) by (auto simp: create_array_def cJSON_CreateArray_def create_def)
  next
    case False
    then have c: "cnt = 0" using N assms(2) by (auto simp: cJSON_New_Item_def split: if_splits)
    show ?thesis
      using N z c False S(3) [OF False]
      by (auto simp: create_array_def cJSON_CreateArray_def create_def zero_node_def upd_node_def)
  qed
qed

end
