(* ===== verification/Cjson_Number.thy ===== *)
theory Cjson_Number
  imports Cjson_Edit
begin

text \<open>Whole numbers below \<open>2 ^ 53\<close> are doubles: the rounding leaves them as they are.\<close>

lemma bits_bounds: "0 < n \<Longrightarrow> 2 ^ (bits n - 1) \<le> n \<and> n < 2 ^ bits n \<and> 0 < bits n"
proof (induction n rule: bits.induct)
  case (1 n)
  show ?case
  proof (cases "n = 1")
    case True
    then show ?thesis by (simp add: bits.simps)
  next
    case False
    then have "0 < n div 2" using 1(2) by auto
    then obtain k where k: "bits (n div 2) = Suc k" "2 ^ k \<le> n div 2" "n div 2 < 2 ^ Suc k"
      using 1 by (auto simp: gr0_conv_Suc)
    moreover have "bits n = Suc (bits (n div 2))" using 1(2) by (simp add: bits.simps [of n])
    moreover have "2 * (n div 2) \<le> n" "n < 2 * (n div 2) + 2" by linarith+
    ultimately show ?thesis by auto
  qed
qed

lemma round_even_whole [simp]: "round_even (n, Suc 0) = n"
  by (simp add: round_even_def)

lemma mag_floor_whole:
  assumes "0 < n" "n < 2 ^ 53"
  shows "mag_floor (n * 2 ^ (53 - bits n)) (int (bits n) - 53) = n"
proof -
  note b = bits_bounds [OF assms(1)]
  have "(2::nat) ^ (bits n - 1) < 2 ^ 53" using b assms(2) by linarith
  then have k: "bits n \<le> 53" using power_strict_increasing_iff [of "2::nat" "bits n - 1" 53] by simp
  then show ?thesis by (cases "bits n = 53") (simp_all add: mag_floor_def nat_diff_distrib)
qed

lemma double_of_whole:
  assumes "0 < n" "n < 2 ^ 53"
  shows "double_of_frac neg n 1 = Fin neg (n * 2 ^ (53 - bits n)) (int (bits n) - 53)"
proof -
  note b = bits_bounds [OF assms(1)]
  have "(2::nat) ^ (bits n - 1) < 2 ^ 53" using b assms(2) by linarith
  then have k: "bits n \<le> 53" using power_strict_increasing_iff [of "2::nat" "bits n - 1" 53] by simp
  have one: "bits 1 = 1" by (simp add: bits.simps)
  have "(2::nat) ^ 53 = 2 ^ (bits n - 1) * 2 ^ (54 - bits n)" using b k by (simp flip: power_add)
  also have "\<dots> \<le> n * 2 ^ (54 - bits n)" using b by simp
  finally have big: "2 ^ 53 \<le> n * 2 ^ (54 - bits n)" .
  have sc: "scale n 1 (int (bits n) - 54) = (n * 2 ^ (54 - bits n), 1)"
    using k by (simp add: scale_def nat_diff_distrib)
  have e: "exponent n 1 = int (bits n) - 53"
    using sc big k one by (simp add: exponent_def)
  have sc2: "scale n 1 (int (bits n) - 53) = (n * 2 ^ (53 - bits n), 1)"
    using k by (cases "bits n = 53") (auto simp: scale_def nat_diff_distrib)
  have "mag_floor (n * 2 ^ (53 - bits n)) (int (bits n) - 53) < 2 ^ 53" using mag_floor_whole [OF assms] assms(2) by simp
  also have "\<dots> \<le> 2 ^ 1024" by (rule power_increasing) simp_all
  finally show ?thesis using assms(1) e sc2 by (simp add: double_of_frac_def Let_def)
qed

lemma int_of_double_of_int:
  assumes "- (2 ^ 31) \<le> i" "i < 2 ^ 31"
  shows "int_of_double (double_of_int i) = Some i"
proof (cases "i = 0")
  case True
  then show ?thesis by (simp add: double_of_int_def double_of_frac_def mag_floor_def)
next
  case False
  then have n: "0 < nat \<bar>i\<bar>" "nat \<bar>i\<bar> < 2 ^ 53" using assms by auto
  show ?thesis using assms False
    unfolding double_of_int_def double_of_whole [OF n] int_of_double.simps mag_floor_whole [OF n] Let_def by auto
qed

end
