(* ===== verification/Cjson_Array_Properties.thy ===== *)
theory Cjson_Array_Properties
  imports Cjson_Array_Refine Cjson_Number Cjson_Edit_Properties
begin

text \<open>
  The properties of the functions of \<^verbatim>\<open>cJSON.c\<close> that make an array from a C array, and of the one
  that adds a reference to an object.
\<close>

abbreviation int_leaf :: "int \<Rightarrow> jtree" where "int_leaf i \<equiv> leaf 8 i (double_of_int i) None"

text \<open>
  C34: \<open>cJSON_CreateIntArray\<close> makes the array of the first \<open>cnt\<close> numbers with the numbers as they were
  given, at new addresses, or returns null with the heap as before when an item could not be
  allocated. It dereferences null exactly when the count is zero or the array itself could not be
  allocated.
\<close>

theorem CreateIntArray_creates:
  assumes "heap_wf h" and "0 \<le> cnt" and "nat cnt \<le> length xs" and "\<forall>x\<in>set xs. - (2 ^ 31) \<le> x \<and> x < 2 ^ 31"
  shows "case cJSON_CreateIntArray (Some xs) cnt h of
      None \<Rightarrow> cnt = 0 \<or> \<not> avail h (brk h)
    | Some (a, h') \<Rightarrow> 0 < cnt \<and> avail h (brk h)
        \<and> (if a = 0 then nodes h' = nodes h \<and> strs h' = strs h \<and> oom h h'
           else \<exists>G. item h' a G (JT 32 0 zero_double None None (map int_leaf (take (nat cnt) xs)))
                  \<and> distinct G \<and> set G \<subseteq> {brk h<..brk h'} \<and> same_on (- set G) h h')"
proof (cases "cnt = 0 \<or> \<not> avail h (brk h)")
  case True
  then have "cJSON_CreateIntArray (Some xs) cnt h = None"
    unfolding cJSON_CreateIntArray_def using assms(1,2) by (intro create_array_undefined) auto
  then show ?thesis using True by simp
next
  case False
  have mk: "makes (\<lambda>i. cJSON_CreateNumber (double_of_int i)) int_leaf h xs"
    unfolding makes_def using CreateNumber_made [OF _ int_of_double_of_int] assms(4) by blast
  obtain r where "cJSON_CreateIntArray (Some xs) cnt h = Some r"
      "made h (JT cJSON_Array 0 zero_double None None (map int_leaf (take (nat cnt) xs))) r"
    using create_array_run [OF mk assms(1) _ assms(3)] False assms(2) unfolding cJSON_CreateIntArray_def by force
  then show ?thesis using False assms(2) by (cases r) (auto simp: made_def)
qed

theorem CreateIntArray_creates_witness:
  "case cJSON_CreateIntArray (Some [7, -1, 5]) 2 heap2 of
      None \<Rightarrow> False
    | Some (a, h') \<Rightarrow> (if a = 0 then nodes h' = nodes heap2 \<and> strs h' = strs heap2 \<and> oom heap2 h'
           else \<exists>G. item h' a G (JT 32 0 zero_double None None [int_leaf 7, int_leaf (-1)])
                  \<and> distinct G \<and> set G \<subseteq> {brk heap2<..brk h'} \<and> same_on (- set G) heap2 h')"
proof -
  have a: "avail heap2 (brk heap2)" by (simp add: heap2_def heap0_def)
  have t: "map int_leaf (take (nat 2) [7, -1, 5]) = [int_leaf 7, int_leaf (-1)]" by (simp add: numeral_2_eq_2)
  show ?thesis using CreateIntArray_creates [OF heap2_wf, of 2 "[7, -1, 5]"] a
    unfolding t by (simp split: option.splits prod.splits)
qed

text \<open>
  when the copy of the name cannot be allocated, \<open>cJSON_AddItemReferenceToObject\<close> reports failure and leaves the
  reference it made: an allocated node that nothing points to.
\<close>

theorem AddItemReferenceToObject_leaks:
  assumes "heap_wf h" and "nodes h obj = Some ob" and "nodes h it = Some n" and "strs h string = Some s" and "0 \<in> set s"
    and "avail h (brk h)" and "\<not> avail h (Suc (brk h))"
  shows "\<exists>r h'. cJSON_AddItemReferenceToObject obj string it h = Some (False, h')
    \<and> nodes h' = (nodes h)(Suc (brk h) \<mapsto> r) \<and> nodes h (Suc (brk h)) = None \<and> strs h' = strs h"
proof -
  let ?a = "Suc (brk h)"
  have nz: "obj \<noteq> 0" "it \<noteq> 0" "string \<noteq> 0" "obj \<noteq> ?a" "it \<noteq> ?a" "nodes h ?a = None"
    using heap_wf_node [OF assms(1,2)] heap_wf_node [OF assms(1,3)] heap_wf_str [OF assms(1,4)] heap_wf_node [OF assms(1), of ?a]
    by (auto intro: ccontr)
  obtain k where k: "c_strlen s = Some k" using assms(5) by (simp add: c_strlen_def)
  show ?thesis
    using nz assms k
    by (intro exI [of _ "n\<lparr>c_string := 0, c_type := c_type n OR cJSON_IsReference, c_next := 0, c_prev := 0\<rparr>"])
      (simp add: cJSON_AddItemReferenceToObject_def create_reference_def cJSON_New_Item_def upd_node_def
        add_item_to_object_def cJSON_strdup_def allocate_def)
qed

theorem AddItemReferenceToObject_leaks_witness:
  "\<exists>r h'. cJSON_AddItemReferenceToObject 1 4 3 (heap2\<lparr>avail := \<lambda>i. i = 4\<rparr>) = Some (False, h')
    \<and> nodes h' = (nodes heap2)(5 \<mapsto> r) \<and> strs h' = strs heap2"
proof -
  let ?h = "heap2\<lparr>avail := \<lambda>i. i = 4\<rparr>"
  have f: "heap_wf ?h" "nodes ?h = nodes heap2" "strs ?h = strs heap2" "brk ?h = 4" "avail ?h = (\<lambda>i. i = 4)"
    using heap2_wf by (simp_all add: heap_wf_def heap2_def)
  have n: "nodes heap2 1 \<noteq> None" "nodes heap2 3 \<noteq> None" "strs heap2 4 = Some [97, 0]" by (simp_all add: heap2_def)
  show ?thesis
    using AddItemReferenceToObject_leaks [OF f(1), of 1 _ 3 _ 4 "[97, 0]"] n unfolding f(2-) by fastforce
qed

end
