(* ===== verification/Cjson_Format.thy ===== *)
theory Cjson_Format
  imports Cjson_Text
begin

text \<open>
  The conversions of \<open>sprintf\<close> and \<open>sscanf\<close> that \<^verbatim>\<open>cJSON.c\<close> uses to print a number: \<open>%1.15g\<close>,
  \<open>%1.17g\<close>, \<open>%lg\<close> and \<open>%04x\<close>, with correct rounding, half to even.
\<close>

section \<open>Decimal digits\<close>

fun decimal :: "nat \<Rightarrow> bytes" where
  "decimal n = (if n < 10 then [48 + of_nat n] else decimal (n div 10) @ [48 + of_nat (n mod 10)])"

declare decimal.simps [simp del]

text \<open>How often a fraction below one is multiplied by ten to reach one.\<close>

function ten_steps :: "nat \<Rightarrow> nat \<Rightarrow> nat" where
  "ten_steps p q = (if p = 0 \<or> q \<le> p then 0 else Suc (ten_steps (10 * p) q))"
  by pat_completeness auto
termination by (relation "measure (\<lambda>(p, q). q - p)") auto

declare ten_steps.simps [simp del]

text \<open>The exponent of the first decimal digit of \<open>p / q\<close>.\<close>

definition first_digit :: "nat \<Rightarrow> nat \<Rightarrow> int" where
  "first_digit p q = (if q \<le> p then int (length (decimal (p div q))) - 1 else - int (ten_steps p q))"

definition scale10 :: "nat \<Rightarrow> nat \<Rightarrow> int \<Rightarrow> nat \<times> nat" where
  "scale10 p q e = (if 0 \<le> e then (p, q * 10 ^ nat e) else (p * 10 ^ nat (- e), q))"

text \<open>\<open>p / q\<close> rounded to \<open>n\<close> significant digits, and the exponent of the first of them.\<close>

definition significant :: "nat \<Rightarrow> nat \<Rightarrow> nat \<Rightarrow> nat \<times> int" where
  "significant n p q =
     (let x = first_digit p q; d = round_even (scale10 p q (x - int n + 1)) in
      if d = 10 ^ n then (10 ^ (n - 1), x + 1) else (d, x))"

section \<open>The conversion g\<close>

definition strip_zeros :: "bytes \<Rightarrow> bytes" where
  "strip_zeros s = rev (dropWhile (\<lambda>c. c = 48) (rev s))"

definition with_point :: "bytes \<Rightarrow> bytes \<Rightarrow> bytes" where
  "with_point ip fp = ip @ (let f = strip_zeros fp in if f = [] then [] else 46 # f)"

definition exponent_text :: "int \<Rightarrow> bytes" where
  "exponent_text x = 101 # (if x < 0 then 45 else 43) #
     (let ds = decimal (nat \<bar>x\<bar>) in if length ds < 2 then 48 # ds else ds)"

definition digits_text :: "nat \<Rightarrow> nat \<Rightarrow> int \<Rightarrow> bytes" where
  "digits_text n d x =
     (let ds = decimal d in
      if - 4 \<le> x \<and> x < int n
      then if 0 \<le> x then with_point (take (nat x + 1) ds) (drop (nat x + 1) ds)
        else with_point [48] (replicate (nat (- x) - 1) 48 @ ds)
      else with_point (take 1 ds) (drop 1 ds) @ exponent_text x)"

fun sprintf_g :: "nat \<Rightarrow> double \<Rightarrow> bytes" where
  "sprintf_g n NaN = ascii ''nan''"
| "sprintf_g n (Inf neg) = (if neg then [45] else []) @ ascii ''inf''"
| "sprintf_g n (Fin neg m e) =
     (if neg then [45] else []) @
     (if m = 0 then [48]
      else let (d, x) = significant n (m * 2 ^ nat e) (2 ^ nat (- e)) in digits_text n d x)"

text \<open>\<open>%lg\<close>: the number read, when there is one.\<close>

definition sscanf_lg :: "bytes \<Rightarrow> double option" where
  "sscanf_lg s = (case strtod s of (d, n) \<Rightarrow> if n = 0 then None else Some d)"

text \<open>\<open>%04x\<close> of a byte.\<close>

definition hex_char :: "nat \<Rightarrow> byte" where
  "hex_char n = (if n < 10 then 48 + of_nat n else 87 + of_nat n)"

definition sprintf_04x :: "byte \<Rightarrow> bytes" where
  "sprintf_04x c = [48, 48, hex_char (unat c div 16), hex_char (unat c mod 16)]"

end
