(* ===== verification/Cjson_Print.thy ===== *)
theory Cjson_Print
  imports Cjson_Copy Cjson_Format
begin

text \<open>
  Printing in \<^verbatim>\<open>cJSON.c\<close>. The buffer is a list of bytes that may be uninitialised (\<open>None\<close>); every
  access to it is checked. The pointer \<open>ensure\<close> returns is always \<open>buffer + offset\<close>, so the model
  returns whether it is null, and output goes to positions behind \<open>offset\<close>. \<open>pb_calls\<close> numbers
  the allocations since the printing began; the one with number \<open>k\<close> succeeds when \<open>avail h (brk h + k)\<close>, and its
  block has the address \<open>brk h + k + 1\<close>. The contents of the buffer's block are in \<open>pb_buffer\<close>; which blocks are
  allocated is in \<open>pb_live\<close>, and what is left there in the end is in the heap.
  \<open>pb_realloc\<close> says whether \<open>hooks.reallocate\<close> is set. A size is a natural number: \<open>ensure\<close> refuses
  those above \<open>INT_MAX\<close> before it computes with them.
\<close>

section \<open>The buffer\<close>

abbreviation (input) INT_MAX :: nat where "INT_MAX \<equiv> 2147483647"

record printbuffer =
  pb_buffer :: "byte option list option"
  pb_block :: nat
  pb_length :: nat
  pb_offset :: nat
  pb_depth :: nat
  pb_noalloc :: bool
  pb_format :: bool
  pb_realloc :: bool
  pb_calls :: nat
  pb_live :: "nat set"

text \<open>
  The hooks. \<open>pb_live\<close> are the numbers of the allocations since the printing began whose blocks are not
  freed yet; the buffer is the block of number \<open>pb_block\<close>. Freeing or reallocating any other block is undefined.
\<close>

definition hooks_allocate :: "heap \<Rightarrow> printbuffer \<Rightarrow> nat option \<times> printbuffer" where
  "hooks_allocate h p =
     (let k = pb_calls p; p1 = p\<lparr>pb_calls := k + 1\<rparr> in
      if avail h (brk h + k) then (Some k, p1\<lparr>pb_live := insert k (pb_live p)\<rparr>) else (None, p1))"

definition hooks_deallocate :: "nat \<Rightarrow> printbuffer \<Rightarrow> printbuffer option" where
  "hooks_deallocate k p = (if k \<in> pb_live p then Some (p\<lparr>pb_live := pb_live p - {k}\<rparr>) else None)"

definition hooks_reallocate :: "heap \<Rightarrow> nat \<Rightarrow> printbuffer \<Rightarrow> (nat option \<times> printbuffer) option" where
  "hooks_reallocate h b p =
     (if b \<notin> pb_live p then None
      else let k = pb_calls p; p1 = p\<lparr>pb_calls := k + 1\<rparr> in
        if avail h (brk h + k) then Some (Some k, p1\<lparr>pb_live := insert k (pb_live p - {b})\<rparr>) else Some (None, p1))"

text \<open>The way out of \<open>ensure\<close> without memory.\<close>

definition no_room :: "printbuffer \<Rightarrow> (bool \<times> printbuffer) option" where
  "no_room p = do { p1 \<leftarrow> hooks_deallocate (pb_block p) p; Some (False, p1\<lparr>pb_buffer := None, pb_length := 0\<rparr>) }"

definition ensure :: "heap \<Rightarrow> nat \<Rightarrow> printbuffer \<Rightarrow> (bool \<times> printbuffer) option" where
  "ensure h needed p =
     (case pb_buffer p of
        None \<Rightarrow> Some (False, p)
      | Some buf \<Rightarrow>
          if 0 < pb_length p \<and> pb_length p \<le> pb_offset p then Some (False, p)
          else if INT_MAX < needed then Some (False, p)
          else let needed = needed + pb_offset p + 1 in
            if needed \<le> pb_length p then Some (True, p)
            else if pb_noalloc p then Some (False, p)
            else if INT_MAX div 2 < needed \<and> INT_MAX < needed then Some (False, p)
            else let newsize = (if INT_MAX div 2 < needed then INT_MAX else needed * 2) in
              if pb_realloc p
              then do {
                (nb, p1) \<leftarrow> hooks_reallocate h (pb_block p) p;
                case nb of
                  None \<Rightarrow> no_room p1
                | Some k \<Rightarrow> let kept = take newsize buf in
                    Some (True, p1\<lparr>pb_buffer := Some (kept @ replicate (newsize - length kept) None), pb_block := k,
                      pb_length := newsize\<rparr>)
              }
              else let (nb, p1) = hooks_allocate h p in
                (case nb of
                  None \<Rightarrow> no_room p1
                | Some k \<Rightarrow> do {
                    kept \<leftarrow> (if pb_offset p + 1 \<le> length buf then Some (take (pb_offset p + 1) buf) else None);
                    p2 \<leftarrow> hooks_deallocate (pb_block p1) p1;
                    Some (True, p2\<lparr>pb_buffer := Some (kept @ replicate (newsize - length kept) None), pb_block := k,
                      pb_length := newsize\<rparr>)
                  }))"

text \<open>\<open>strlen\<close>: an uninitialised byte or the end of the array before the terminator is undefined.\<close>

fun strlen_in :: "byte option list \<Rightarrow> nat option" where
  "strlen_in [] = None"
| "strlen_in (None # s) = None"
| "strlen_in (Some c # s) = (if c = 0 then Some 0 else map_option Suc (strlen_in s))"

definition update_offset :: "printbuffer \<Rightarrow> printbuffer option" where
  "update_offset p =
     (case pb_buffer p of
        None \<Rightarrow> Some p
      | Some buf \<Rightarrow> do { n \<leftarrow> strlen_in (drop (pb_offset p) buf); Some (p\<lparr>pb_offset := pb_offset p + n\<rparr>) })"

text \<open>Bytes written at \<open>output[i]\<close> and behind.\<close>

definition emit_at :: "nat \<Rightarrow> bytes \<Rightarrow> printbuffer \<Rightarrow> printbuffer option" where
  "emit_at i bs p =
     do {
       buf \<leftarrow> pb_buffer p;
       let o' = pb_offset p + i;
       if o' + length bs \<le> length buf
       then Some (p\<lparr>pb_buffer := Some (take o' buf @ map Some bs @ drop (o' + length bs) buf)\<rparr>)
       else None
     }"

text \<open>Room for \<open>n\<close> bytes, then the bytes \<open>bs\<close>, then the offset moves by \<open>k\<close>; false without room.\<close>

definition put :: "heap \<Rightarrow> nat \<Rightarrow> bytes \<Rightarrow> nat \<Rightarrow> printbuffer \<Rightarrow> (bool \<times> printbuffer) option" where
  "put h n bs k p =
     do {
       (ok, p1) \<leftarrow> ensure h n p;
       if \<not> ok then Some (False, p1)
       else do { p2 \<leftarrow> emit_at 0 bs p1; Some (True, p2\<lparr>pb_offset := pb_offset p2 + k\<rparr>) }
     }"

section \<open>Numbers\<close>

definition get_decimal_point :: byte where
  "get_decimal_point = 46"

text \<open>\<open>sprintf\<close> into \<open>number_buffer\<close>, which has 26 bytes.\<close>

definition sprintf_number :: "bytes \<Rightarrow> bytes option" where
  "sprintf_number s = (if length s + 1 \<le> 26 then Some s else None)"

definition number_text :: "double \<Rightarrow> bytes option" where
  "number_text d =
     (case d of
        Fin _ _ _ \<Rightarrow> do {
          s \<leftarrow> sprintf_number (sprintf_g 15 d);
          case sscanf_lg s of
            None \<Rightarrow> sprintf_number (sprintf_g 17 d)
          | Some test \<Rightarrow> if \<not> compare_double test d then sprintf_number (sprintf_g 17 d) else Some s
        }
      | _ \<Rightarrow> sprintf_number (ascii ''null''))"

definition print_number :: "heap \<Rightarrow> nat \<Rightarrow> printbuffer \<Rightarrow> (bool \<times> printbuffer) option" where
  "print_number h item p =
     do {
       n \<leftarrow> nodes h item;
       s \<leftarrow> number_text (c_valuedouble n);
       if 26 - 1 < length s then Some (False, p)
       else put h (length s + 1) (map (\<lambda>c. if c = get_decimal_point then 46 else c) s @ [0]) (length s) p
     }"

section \<open>Strings\<close>

text \<open>The loop that counts the characters and the additional ones for their escapes.\<close>

fun escape_count :: "bytes \<Rightarrow> (nat \<times> nat) option" where
  "escape_count [] = None"
| "escape_count (c # s) =
     (if c = 0 then Some (0, 0)
      else do {
        (n, k) \<leftarrow> escape_count s;
        Some (n + 1, if c = 34 \<or> c = 92 \<or> c = 8 \<or> c = 12 \<or> c = 10 \<or> c = 13 \<or> c = 9 then k + 1
                     else if c < 32 then k + 5 else k)
      })"

definition escape_char :: "byte \<Rightarrow> nat \<Rightarrow> printbuffer \<Rightarrow> (nat \<times> printbuffer) option" where
  "escape_char c i p =
     (if c > 31 \<and> c \<noteq> 34 \<and> c \<noteq> 92 then do { p1 \<leftarrow> emit_at i [c] p; Some (i, p1) }
      else do {
        p1 \<leftarrow> emit_at i [92] p;
        if c = 92 then do { p2 \<leftarrow> emit_at (i + 1) [92] p1; Some (i + 1, p2) }
        else if c = 34 then do { p2 \<leftarrow> emit_at (i + 1) [34] p1; Some (i + 1, p2) }
        else if c = 8 then do { p2 \<leftarrow> emit_at (i + 1) [98] p1; Some (i + 1, p2) }
        else if c = 12 then do { p2 \<leftarrow> emit_at (i + 1) [102] p1; Some (i + 1, p2) }
        else if c = 10 then do { p2 \<leftarrow> emit_at (i + 1) [110] p1; Some (i + 1, p2) }
        else if c = 13 then do { p2 \<leftarrow> emit_at (i + 1) [114] p1; Some (i + 1, p2) }
        else if c = 9 then do { p2 \<leftarrow> emit_at (i + 1) [116] p1; Some (i + 1, p2) }
        else do { p2 \<leftarrow> emit_at (i + 1) (117 # sprintf_04x c @ [0]) p1; Some (i + 5, p2) }
      })"

fun escape_loop :: "bytes \<Rightarrow> nat \<Rightarrow> printbuffer \<Rightarrow> printbuffer option" where
  "escape_loop [] i p = None"
| "escape_loop (c # s) i p =
     (if c = 0 then Some p
      else do { (j, p1) \<leftarrow> escape_char c i p; escape_loop s (j + 1) p1 })"

definition print_string_ptr :: "heap \<Rightarrow> nat \<Rightarrow> printbuffer \<Rightarrow> (bool \<times> printbuffer) option" where
  "print_string_ptr h input p =
     (if input = 0 then put h 3 [34, 34, 0] 0 p
      else do {
        s \<leftarrow> strs h input;
        (n, escape_characters) \<leftarrow> escape_count s;
        let output_length = n + escape_characters;
        (ok, p1) \<leftarrow> ensure h (output_length + 3) p;
        if \<not> ok then Some (False, p1)
        else if escape_characters = 0
        then do {
          p2 \<leftarrow> emit_at 0 [34] p1;
          p3 \<leftarrow> emit_at 1 (take output_length s) p2;
          p4 \<leftarrow> emit_at (output_length + 1) [34] p3;
          p5 \<leftarrow> emit_at (output_length + 2) [0] p4;
          Some (True, p5)
        }
        else do {
          p2 \<leftarrow> emit_at 0 [34] p1;
          p3 \<leftarrow> escape_loop s 1 p2;
          p4 \<leftarrow> emit_at (output_length + 1) [34] p3;
          p5 \<leftarrow> emit_at (output_length + 2) [0] p4;
          Some (True, p5)
        }
      })"

definition print_string :: "heap \<Rightarrow> nat \<Rightarrow> printbuffer \<Rightarrow> (bool \<times> printbuffer) option" where
  "print_string h item p = do { n \<leftarrow> nodes h item; print_string_ptr h (c_valuestring n) p }"

section \<open>Containers\<close>

text \<open>
  \<open>pv\<close> prints a value. A step that reports failure ends the printing with false; \<open>and_then\<close> is the
  early return.
\<close>

definition and_then :: "(bool \<times> printbuffer) option \<Rightarrow> (printbuffer \<Rightarrow> (bool \<times> printbuffer) option) \<Rightarrow> (bool \<times> printbuffer) option" where
  "and_then r k = do { (ok, p) \<leftarrow> r; if ok then k p else Some (False, p) }"

text \<open>A value and the move of the offset behind it.\<close>

definition and_update :: "(bool \<times> printbuffer) option \<Rightarrow> (bool \<times> printbuffer) option" where
  "and_update r = and_then r (\<lambda>p. map_option (\<lambda>p'. (True, p')) (update_offset p))"

primrec print_elements :: "(nat \<Rightarrow> printbuffer \<Rightarrow> (bool \<times> printbuffer) option) \<Rightarrow> heap \<Rightarrow> nat \<Rightarrow> nat \<Rightarrow> printbuffer \<Rightarrow> (bool \<times> printbuffer) option" where
  "print_elements pv h 0 current_element p = None"
| "print_elements pv h (Suc f) current_element p =
     (if current_element = 0 then Some (True, p)
      else and_then (and_update (pv current_element p)) (\<lambda>p1. do {
        n \<leftarrow> nodes h current_element;
        if c_next n \<noteq> 0
        then let len = (if pb_format p1 then 2 else 1) in
          and_then (put h (len + 1) (44 # (if pb_format p1 then [32] else []) @ [0]) len p1)
            (print_elements pv h f (c_next n))
        else print_elements pv h f (c_next n) p1
      }))"

definition print_array :: "(nat \<Rightarrow> printbuffer \<Rightarrow> (bool \<times> printbuffer) option) \<Rightarrow> heap \<Rightarrow> nat \<Rightarrow> nat \<Rightarrow> printbuffer \<Rightarrow> (bool \<times> printbuffer) option" where
  "print_array pv h f item p =
     do {
       n \<leftarrow> nodes h item;
       and_then (put h 1 [91] 1 p) (\<lambda>p1.
         and_then (print_elements pv h f (c_child n) (p1\<lparr>pb_depth := pb_depth p1 + 1\<rparr>)) (\<lambda>p2.
           and_then (put h 2 [93, 0] 0 p2) (\<lambda>p3. Some (True, p3\<lparr>pb_depth := pb_depth p3 - 1\<rparr>))))
     }"

definition print_indent :: "heap \<Rightarrow> printbuffer \<Rightarrow> (bool \<times> printbuffer) option" where
  "print_indent h p =
     (if pb_format p then put h (pb_depth p) (replicate (pb_depth p) 9) (pb_depth p) p else Some (True, p))"

primrec print_members :: "(nat \<Rightarrow> printbuffer \<Rightarrow> (bool \<times> printbuffer) option) \<Rightarrow> heap \<Rightarrow> nat \<Rightarrow> nat \<Rightarrow> printbuffer \<Rightarrow> (bool \<times> printbuffer) option" where
  "print_members pv h 0 current_item p = None"
| "print_members pv h (Suc f) current_item p =
     (if current_item = 0 then Some (True, p)
      else and_then (print_indent h p) (\<lambda>p1. do {
        n \<leftarrow> nodes h current_item;
        and_then (and_update (print_string_ptr h (c_string n) p1)) (\<lambda>p2.
          let len = (if pb_format p2 then 2 else 1) in
          and_then (put h len (58 # (if pb_format p2 then [9] else [])) len p2) (\<lambda>p3.
            and_then (and_update (pv current_item p3)) (\<lambda>p4.
              let len = (if pb_format p4 then 1 else 0) + (if c_next n \<noteq> 0 then 1 else 0) in
              and_then (put h (len + 1) ((if c_next n \<noteq> 0 then [44] else []) @ (if pb_format p4 then [10] else []) @ [0]) len p4)
                (print_members pv h f (c_next n)))))
      }))"

definition print_object :: "(nat \<Rightarrow> printbuffer \<Rightarrow> (bool \<times> printbuffer) option) \<Rightarrow> heap \<Rightarrow> nat \<Rightarrow> nat \<Rightarrow> printbuffer \<Rightarrow> (bool \<times> printbuffer) option" where
  "print_object pv h f item p =
     do {
       n \<leftarrow> nodes h item;
       let len = (if pb_format p then 2 else 1);
       and_then (put h (len + 1) (123 # (if pb_format p then [10] else [])) len p) (\<lambda>p1.
         and_then (print_members pv h f (c_child n) (p1\<lparr>pb_depth := pb_depth p1 + 1\<rparr>)) (\<lambda>p2.
           and_then (put h (if pb_format p2 then pb_depth p2 + 1 else 2)
               ((if pb_format p2 then replicate (pb_depth p2 - 1) 9 else []) @ [125, 0]) 0 p2)
             (\<lambda>p3. Some (True, p3\<lparr>pb_depth := pb_depth p3 - 1\<rparr>))))
     }"

section \<open>Values\<close>

definition print_raw :: "heap \<Rightarrow> nat \<Rightarrow> printbuffer \<Rightarrow> (bool \<times> printbuffer) option" where
  "print_raw h item p =
     do {
       n \<leftarrow> nodes h item;
       if c_valuestring n = 0 then Some (False, p)
       else do {
         s \<leftarrow> strs h (c_valuestring n);
         k \<leftarrow> c_strlen s;
         put h (k + 1) (take (k + 1) s) 0 p
       }
     }"

primrec print_value :: "nat \<Rightarrow> heap \<Rightarrow> nat \<Rightarrow> printbuffer \<Rightarrow> (bool \<times> printbuffer) option" where
  "print_value 0 h item p = None"
| "print_value (Suc f) h item p =
     (if item = 0 then Some (False, p)
      else do {
        n \<leftarrow> nodes h item;
        let ty = c_type n AND 0xFF;
        if ty = cJSON_NULL then put h 5 (ascii ''null'' @ [0]) 0 p
        else if ty = cJSON_False then put h 6 (ascii ''false'' @ [0]) 0 p
        else if ty = cJSON_True then put h 5 (ascii ''true'' @ [0]) 0 p
        else if ty = cJSON_Number then print_number h item p
        else if ty = cJSON_Raw then print_raw h item p
        else if ty = cJSON_String then print_string h item p
        else if ty = cJSON_Array then print_array (print_value f h) h f item p
        else if ty = cJSON_Object then print_object (print_value f h) h f item p
        else Some (False, p)
      })"

section \<open>The interface\<close>

text \<open>
  What the C code knows as a string behind a pointer is the initialised part of the block. \<open>settled\<close> is the heap
  when the printing is over: every block that was not freed is still there.
\<close>

definition initialised :: "byte option list \<Rightarrow> bytes" where
  "initialised buf = map the (takeWhile (\<lambda>c. c \<noteq> None) buf)"

definition settled :: "heap \<Rightarrow> printbuffer \<Rightarrow> heap" where
  "settled h p = h\<lparr>brk := brk h + pb_calls p,
     strs := (\<lambda>a. if brk h < a \<and> a - brk h - 1 \<in> pb_live p then Some [] else strs h a)\<rparr>"

definition hand_over :: "heap \<Rightarrow> nat \<Rightarrow> byte option list \<Rightarrow> printbuffer \<Rightarrow> nat \<times> heap" where
  "hand_over h k buf p =
     (let h1 = settled h p; q = brk h + k + 1 in (q, h1\<lparr>strs := (strs h1)(q \<mapsto> initialised buf)\<rparr>))"

text \<open>Freeing the buffer; its pointer may be null.\<close>

definition drop_buffer :: "heap \<Rightarrow> printbuffer \<Rightarrow> (nat \<times> heap) option" where
  "drop_buffer h p =
     do {
       p1 \<leftarrow> (if pb_buffer p = None then Some p else hooks_deallocate (pb_block p) p);
       Some (0, settled h p1)
     }"

definition print :: "nat \<Rightarrow> bool \<Rightarrow> bool \<Rightarrow> heap \<Rightarrow> (nat \<times> heap) option" where
  "print item fmt has_realloc h =
     (if \<not> avail h (brk h) then Some (0, h\<lparr>brk := brk h + 1\<rparr>)
      else do {
        (ok, p) \<leftarrow> print_value (brk h + 1) h item
          \<lparr>pb_buffer = Some (replicate 256 None), pb_block = 0, pb_length = 256, pb_offset = 0, pb_depth = 0, pb_noalloc = False,
           pb_format = fmt, pb_realloc = has_realloc, pb_calls = 1, pb_live = {0}\<rparr>;
        if \<not> ok then drop_buffer h p
        else do {
          p1 \<leftarrow> update_offset p;
          buf \<leftarrow> pb_buffer p1;
          if has_realloc
          then do {
            (nb, p2) \<leftarrow> hooks_reallocate h (pb_block p1) p1;
            case nb of
              None \<Rightarrow> drop_buffer h p2
            | Some k \<Rightarrow> Some (hand_over h k (take (pb_offset p1 + 1) buf) p2)
          }
          else let (nb, p2) = hooks_allocate h p1 in
            (case nb of
              None \<Rightarrow> drop_buffer h p2
            | Some k \<Rightarrow> do {
                let n = min (pb_length p1) (pb_offset p1 + 1);
                printed \<leftarrow> (if n \<le> length buf
                  then Some ((take n buf @ replicate (pb_offset p1 + 1 - n) None)[pb_offset p1 := Some 0]) else None);
                p3 \<leftarrow> hooks_deallocate (pb_block p2) p2;
                Some (hand_over h k printed p3)
              })
        }
      })"

definition cJSON_Print :: "nat \<Rightarrow> bool \<Rightarrow> heap \<Rightarrow> (nat \<times> heap) option" where
  "cJSON_Print item has_realloc h = print item True has_realloc h"

definition cJSON_PrintUnformatted :: "nat \<Rightarrow> bool \<Rightarrow> heap \<Rightarrow> (nat \<times> heap) option" where
  "cJSON_PrintUnformatted item has_realloc h = print item False has_realloc h"

definition cJSON_PrintBuffered :: "nat \<Rightarrow> int \<Rightarrow> bool \<Rightarrow> bool \<Rightarrow> heap \<Rightarrow> (nat \<times> heap) option" where
  "cJSON_PrintBuffered item prebuffer fmt has_realloc h =
     (if prebuffer < 0 then Some (0, h)
      else if \<not> avail h (brk h) then Some (0, h\<lparr>brk := brk h + 1\<rparr>)
      else do {
        (ok, p) \<leftarrow> print_value (brk h + 1) h item
          \<lparr>pb_buffer = Some (replicate (nat prebuffer) None), pb_block = 0, pb_length = nat prebuffer, pb_offset = 0, pb_depth = 0,
           pb_noalloc = False, pb_format = fmt, pb_realloc = has_realloc, pb_calls = 1, pb_live = {0}\<rparr>;
        if \<not> ok then drop_buffer h p
        else do { buf \<leftarrow> pb_buffer p; Some (hand_over h (pb_block p) buf p) }
      })"

text \<open>The caller's buffer is \<open>buffer\<close>; the result holds what became of it.\<close>

definition cJSON_PrintPreallocated :: "nat \<Rightarrow> byte option list option \<Rightarrow> int \<Rightarrow> bool \<Rightarrow> bool \<Rightarrow> heap \<Rightarrow> (bool \<times> byte option list option) option" where
  "cJSON_PrintPreallocated item buffer len fmt has_realloc h =
     (if len < 0 \<or> buffer = None then Some (False, buffer)
      else do {
        (ok, p) \<leftarrow> print_value (brk h + 1) h item
          \<lparr>pb_buffer = buffer, pb_block = 0, pb_length = nat len, pb_offset = 0, pb_depth = 0,
           pb_noalloc = True, pb_format = fmt, pb_realloc = has_realloc, pb_calls = 0, pb_live = {}\<rparr>;
        Some (ok, pb_buffer p)
      })"

end
