(* ===== verification/Cjson_Print_Buffer.thy ===== *)
theory Cjson_Print_Buffer
  imports Cjson_Print
begin

text \<open>
  The print buffer: what \<open>ensure\<close> promises, what writing into the granted room does, and when
  printing fails.
\<close>

section \<open>Who owns the buffer\<close>

text \<open>The buffer is the only block that printing has allocated and not freed; a caller's buffer is not among them.\<close>

definition pb_owned :: "printbuffer \<Rightarrow> bool" where
  "pb_owned p \<longleftrightarrow> (if pb_noalloc p then pb_live p = {}
     else pb_block p < pb_calls p \<and> pb_live p = (if pb_buffer p = None then {} else {pb_block p}))"

lemma pb_owned_fields [simp]:
  "pb_owned (p\<lparr>pb_offset := k\<rparr>) = pb_owned p" "pb_owned (p\<lparr>pb_depth := d\<rparr>) = pb_owned p"
  "pb_buffer p = Some buf \<Longrightarrow> pb_owned (p\<lparr>pb_buffer := Some buf'\<rparr>) = pb_owned p"
  by (simp_all add: pb_owned_def)

section \<open>What the buffer holds\<close>

text \<open>The text \<open>T\<close> in front of the offset and the bytes \<open>W\<close> behind it.\<close>

definition pb_cont :: "printbuffer \<Rightarrow> bytes \<Rightarrow> bytes \<Rightarrow> bool" where
  "pb_cont p T W \<longleftrightarrow> pb_owned p \<and> (\<exists>buf. pb_buffer p = Some buf \<and> length buf = pb_length p \<and> pb_offset p = length T
     \<and> length T + length W \<le> length buf \<and> take (length T + length W) buf = map Some (T @ W))"

text \<open>Between two outputs: the offset is inside of the buffer, unless both are empty.\<close>

definition pb_has :: "printbuffer \<Rightarrow> bytes \<Rightarrow> bool" where
  "pb_has p T \<longleftrightarrow> pb_cont p T [] \<and> (T = [] \<or> length T < pb_length p) \<and> (0 < pb_length p \<or> pb_realloc p \<or> pb_noalloc p)"

text \<open>After a value \<open>R\<close> was printed behind \<open>T\<close>: the offset may be anywhere in \<open>R\<close>.\<close>

definition pb_wrote :: "printbuffer \<Rightarrow> bytes \<Rightarrow> bytes \<Rightarrow> bool" where
  "pb_wrote p T R \<longleftrightarrow> (\<exists>A B. R = A @ B \<and> pb_cont p (T @ A) (B @ [0]))"

text \<open>Later states of the same buffer; \<open>L\<close> is the room a failed request asked for.\<close>

definition pb_step :: "printbuffer \<Rightarrow> printbuffer \<Rightarrow> bool" where
  "pb_step p p' \<longleftrightarrow> pb_format p' = pb_format p \<and> pb_noalloc p' = pb_noalloc p \<and> pb_realloc p' = pb_realloc p
     \<and> pb_calls p \<le> pb_calls p' \<and> (pb_owned p \<longrightarrow> pb_owned p') \<and> (pb_noalloc p \<longrightarrow> pb_length p' = pb_length p \<and> pb_calls p' = pb_calls p)"

definition pb_fails :: "heap \<Rightarrow> printbuffer \<Rightarrow> printbuffer \<Rightarrow> nat \<Rightarrow> bool" where
  "pb_fails h p p' L \<longleftrightarrow> INT_MAX < L \<or> (pb_noalloc p \<and> pb_length p < L)
     \<or> (\<exists>i. pb_calls p \<le> i \<and> i < pb_calls p' \<and> \<not> avail h (brk h + i))"

lemma pb_step_refl [simp]: "pb_step p p"
  by (simp add: pb_step_def)

lemma pb_step_trans: "pb_step p p1 \<Longrightarrow> pb_step p1 p2 \<Longrightarrow> pb_step p p2"
  by (auto simp: pb_step_def)

lemma pb_fails_after: "pb_step p p1 \<Longrightarrow> pb_fails h p1 p2 L \<Longrightarrow> pb_fails h p p2 L"
  unfolding pb_step_def pb_fails_def by (metis le_trans)

lemma pb_fails_mono: "pb_fails h p p' L \<Longrightarrow> L \<le> M \<Longrightarrow> pb_fails h p p' M"
  unfolding pb_fails_def by auto

section \<open>Room\<close>

lemma ensure_grow:
  assumes "pb_buffer p = Some buf" and "\<not> (0 < pb_length p \<and> pb_length p \<le> pb_offset p)" and "n \<le> INT_MAX"
    and "L = n + pb_offset p + 1" and "\<not> L \<le> pb_length p" and "\<not> pb_noalloc p" and "L \<le> INT_MAX"
    and "k = (if INT_MAX div 2 < L then INT_MAX else L * 2)"
  shows "ensure h n p =
    (if pb_realloc p
     then do {
       (nb, p1) \<leftarrow> hooks_reallocate h (pb_block p) p;
       case nb of None \<Rightarrow> no_room p1
       | Some b \<Rightarrow> Some (True, p1\<lparr>pb_buffer := Some (take k buf @ replicate (k - length (take k buf)) None), pb_block := b, pb_length := k\<rparr>)
     }
     else let (nb, p1) = hooks_allocate h p in
       (case nb of None \<Rightarrow> no_room p1
        | Some b \<Rightarrow> do {
            kept \<leftarrow> (if pb_offset p + 1 \<le> length buf then Some (take (pb_offset p + 1) buf) else None);
            p2 \<leftarrow> hooks_deallocate (pb_block p1) p1;
            Some (True, p2\<lparr>pb_buffer := Some (kept @ replicate (k - length kept) None), pb_block := b, pb_length := k\<rparr>) }))"
  unfolding ensure_def Let_def assms(1) option.case assms(4) [symmetric] assms(8) [symmetric]
  using assms(2,3,5-7) by (simp only: not_le not_less if_False simp_thms split: if_split) auto

lemma ensure_run:
  assumes b: "pb_has p T"
  shows "\<exists>ok p'. ensure h n p = Some (ok, p') \<and> pb_step p p' \<and>
    (if ok then pb_has p' T \<and> pb_depth p' = pb_depth p \<and> length T + n + 1 \<le> pb_length p'
     else pb_fails h p p' (length T + n + 1))"
proof -
  obtain buf where buf: "pb_buffer p = Some buf" "length buf = pb_length p" "pb_offset p = length T" "length T \<le> length buf"
      "take (length T) buf = map Some T" "T = [] \<or> length T < pb_length p" "0 < pb_length p \<or> pb_realloc p \<or> pb_noalloc p"
      and own: "pb_owned p"
    using b by (auto simp: pb_has_def pb_cont_def)
  let ?L = "n + length T + 1"
  have open_end: "\<not> (0 < pb_length p \<and> pb_length p \<le> length T)" using buf(6) by auto
  consider "INT_MAX < n" | "n \<le> INT_MAX" "?L \<le> pb_length p" | "n \<le> INT_MAX" "pb_length p < ?L" "pb_noalloc p"
    | "n \<le> INT_MAX" "pb_length p < ?L" "\<not> pb_noalloc p" "INT_MAX < ?L"
    | "n \<le> INT_MAX" "pb_length p < ?L" "\<not> pb_noalloc p" "?L \<le> INT_MAX" "\<not> avail h (brk h + pb_calls p)"
    | "n \<le> INT_MAX" "pb_length p < ?L" "\<not> pb_noalloc p" "?L \<le> INT_MAX" "avail h (brk h + pb_calls p)"
    by linarith
  then show ?thesis
  proof cases
    case 6
    define k where "k = (if INT_MAX div 2 < ?L then INT_MAX else ?L * 2)"
    define kept where "kept = (if pb_realloc p then take k buf else take (length T + 1) buf)"
    have k: "?L \<le> k" using 6(4) by (auto simp: k_def)
    have room: "length T < length buf \<or> pb_realloc p" using buf 6(3) by auto
    have pre: "take (length T) kept = map Some T" "length T \<le> length kept" "length kept \<le> k"
      using buf(2-5) k 6(2) room by (auto simp: kept_def min_def)
    let ?p = "p\<lparr>pb_calls := pb_calls p + 1, pb_buffer := Some (kept @ replicate (k - length kept) None), pb_length := k,
      pb_block := pb_calls p, pb_live := {pb_calls p}\<rparr>"
    have live: "pb_live p = {pb_block p}" "pb_block p < pb_calls p" using own 6(3) buf(1) by (simp_all add: pb_owned_def)
    have nl: "\<not> ?L \<le> pb_length p" using 6(2) by simp
    note g = ensure_grow [OF buf(1) open_end [folded buf(3)] 6(1) _ nl 6(3,4) k_def, of h, unfolded buf(3), OF refl]
    have "ensure h n p = Some (True, ?p)"
    proof (cases "pb_realloc p")
      case True
      then show ?thesis using g live 6(5) by (simp add: hooks_reallocate_def kept_def Let_def)
    next
      case False
      then have "length T + 1 \<le> length buf" using room by simp
      then show ?thesis using g live 6(5) False buf(3)
        by (simp add: hooks_allocate_def hooks_deallocate_def insert_Diff_if kept_def Let_def)
    qed
    moreover have o: "pb_owned ?p" using 6(3) by (simp add: pb_owned_def)
    moreover have "pb_has ?p T" using pre k buf(3) o by (auto simp: pb_has_def pb_cont_def)
    moreover have "pb_step p ?p" using 6(3) o by (simp add: pb_step_def)
    ultimately show ?thesis using k by (intro exI [of _ True] exI [of _ ?p]) simp
  next
    case 5
    let ?p = "p\<lparr>pb_calls := pb_calls p + 1, pb_buffer := None, pb_length := 0, pb_live := {}\<rparr>"
    have live: "pb_live p = {pb_block p}" "pb_block p < pb_calls p" using own 5(3) buf(1) by (simp_all add: pb_owned_def)
    have "ensure h n p = Some (False, ?p)"
      using 5 buf(1,3,6) live
      by (cases "pb_realloc p") (auto simp: ensure_def hooks_reallocate_def hooks_allocate_def hooks_deallocate_def no_room_def)
    moreover have "pb_step p ?p" using 5(3) live by (simp add: pb_step_def pb_owned_def)
    ultimately show ?thesis using 5(5) by (intro exI [of _ False] exI [of _ ?p]) (auto simp: pb_fails_def)
  next
    case 2
    then show ?thesis using b buf(1,3,6) by (intro exI [of _ True] exI [of _ p]) (auto simp: ensure_def)
  qed (use buf(1,3,6) in \<open>intro exI [of _ False] exI [of _ p], auto simp: ensure_def pb_fails_def\<close>)+
qed

lemma emit_at_run:
  assumes "pb_cont p T W" "i \<le> length W" "length T + i + length bs \<le> pb_length p"
  shows "\<exists>p'. emit_at i bs p = Some p' \<and> pb_cont p' T (take i W @ bs) \<and> pb_step p p' \<and> pb_depth p' = pb_depth p
    \<and> pb_length p' = pb_length p"
proof -
  obtain buf where buf: "pb_buffer p = Some buf" "length buf = pb_length p" "pb_offset p = length T" "length T + length W \<le> length buf"
      "take (length T + length W) buf = map Some (T @ W)"
    using assms(1) by (auto simp: pb_cont_def)
  have "take (length T + i) buf = take (length T + i) (map Some (T @ W))"
    using arg_cong [OF buf(5), of "take (length T + i)"] assms(2) by (simp add: min_def)
  then have t: "take (length T + i) buf = map Some (T @ take i W)" by (simp add: take_map)
  have "pb_owned p" using assms(1) by (simp add: pb_cont_def)
  then show ?thesis using t buf assms(2,3) by (auto simp: emit_at_def pb_cont_def pb_step_def)
qed

text \<open>One request for room and one output.\<close>

lemma put_run:
  assumes b: "pb_has p T" and l: "length bs \<le> n + 1"
  shows "\<exists>ok p'. put h n bs k p = Some (ok, p') \<and> pb_step p p' \<and>
    (if ok then (\<exists>p1. pb_cont p1 T bs \<and> p' = p1\<lparr>pb_offset := length T + k\<rparr>) \<and> pb_depth p' = pb_depth p
        \<and> length T + n + 1 \<le> pb_length p'
     else pb_fails h p p' (length T + n + 1))"
proof -
  obtain ok p1 where e: "ensure h n p = Some (ok, p1)" "pb_step p p1"
      "if ok then pb_has p1 T \<and> pb_depth p1 = pb_depth p \<and> length T + n + 1 \<le> pb_length p1 else pb_fails h p p1 (length T + n + 1)"
    using ensure_run [OF b, of h n] by auto
  show ?thesis
  proof (cases ok)
    case False
    then show ?thesis using e by (intro exI [of _ False] exI [of _ p1]) (simp add: put_def)
  next
    case True
    then have "pb_cont p1 T []" "length T + 0 + length bs \<le> pb_length p1" using e(3) l by (auto simp: pb_has_def)
    then obtain p2 where p2: "emit_at 0 bs p1 = Some p2" "pb_cont p2 T bs" "pb_step p1 p2" "pb_depth p2 = pb_depth p1" "pb_length p2 = pb_length p1"
      using emit_at_run [of p1 T "[]" 0 bs] by auto
    let ?p = "p2\<lparr>pb_offset := pb_offset p2 + k\<rparr>"
    have "put h n bs k p = Some (True, ?p)" using e(1) True p2(1) by (simp add: put_def)
    moreover have "pb_offset p2 = length T" using p2(2) by (auto simp: pb_cont_def)
    moreover have "pb_step p ?p" using pb_step_trans [OF e(2) p2(3)] by (simp add: pb_step_def)
    ultimately show ?thesis using p2 e(3) True
      by (intro exI [of _ True] exI [of _ ?p]) auto
  qed
qed

text \<open>An output the offset moves over, with or without a terminator behind it.\<close>

lemma pb_cont_moved:
  assumes "pb_cont p T (A @ B)"
  shows "pb_cont (p\<lparr>pb_offset := length T + length A\<rparr>) (T @ A) B"
  using assms by (auto simp: pb_cont_def add.assoc)

lemma pb_cont_prefix: "pb_cont p T (A @ B) \<Longrightarrow> pb_cont p T A"
proof -
  assume "pb_cont p T (A @ B)"
  then obtain buf where buf: "pb_buffer p = Some buf" "length buf = pb_length p" "pb_offset p = length T" "length T + length (A @ B) \<le> length buf"
      "take (length T + length (A @ B)) buf = map Some (T @ A @ B)"
    by (auto simp: pb_cont_def)
  have "take (length T + length A) buf = map Some (T @ A)"
    using arg_cong [OF buf(5), of "take (length T + length A)"] by (simp add: min_def)
  moreover have "pb_owned p" using \<open>pb_cont p T (A @ B)\<close> by (simp add: pb_cont_def)
  ultimately show ?thesis using buf by (auto simp: pb_cont_def)
qed

lemma put_text:
  assumes "pb_has p T" "bs = R @ Z" "length bs \<le> n + 1" "length R \<le> n" "length T + n + 1 \<le> L"
  shows "\<exists>ok p'. put h n bs (length R) p = Some (ok, p') \<and> pb_step p p' \<and>
    (if ok then pb_has p' (T @ R) \<and> pb_depth p' = pb_depth p else pb_fails h p p' L)"
proof -
  obtain ok p' where r: "put h n bs (length R) p = Some (ok, p')" "pb_step p p'"
    "if ok then (\<exists>p1. pb_cont p1 T bs \<and> p' = p1\<lparr>pb_offset := length T + length R\<rparr>) \<and> pb_depth p' = pb_depth p
        \<and> length T + n + 1 \<le> pb_length p'
     else pb_fails h p p' (length T + n + 1)"
    using put_run [OF assms(1,3), of h "length R"] by auto
  show ?thesis
  proof (cases ok)
    case True
    then obtain p1 where p1: "pb_cont p1 T (R @ Z)" "p' = p1\<lparr>pb_offset := length T + length R\<rparr>" "pb_depth p' = pb_depth p"
        "length T + n + 1 \<le> pb_length p'"
      using r(3) assms(2) by auto
    have "pb_cont p' (T @ R) Z" using pb_cont_moved [OF p1(1)] p1(2) by simp
    then have "pb_cont p' (T @ R) []" using pb_cont_prefix [of p' "T @ R" "[]" Z] by simp
    then have "pb_has p' (T @ R)" using p1(4) assms(4) by (auto simp: pb_has_def)
    then show ?thesis using r p1 True by (intro exI [of _ True] exI [of _ p']) simp
  next
    case False
    then show ?thesis using r pb_fails_mono [of h p p' _ L] assms(5) by (intro exI [of _ False] exI [of _ p']) auto
  qed
qed

lemma put_value:
  assumes "pb_has p T" "n = length R + 1" "L = length T + length R + 2"
    and "A @ B = R" "k = length A"
  shows "\<exists>ok p'. put h n (R @ [0]) k p = Some (ok, p') \<and> pb_step p p' \<and>
    (if ok then pb_wrote p' T R \<and> pb_depth p' = pb_depth p else pb_fails h p p' L)"
proof -
  obtain ok p' where r: "put h n (R @ [0]) k p = Some (ok, p')" "pb_step p p'"
    "if ok then (\<exists>p1. pb_cont p1 T (R @ [0]) \<and> p' = p1\<lparr>pb_offset := length T + k\<rparr>) \<and> pb_depth p' = pb_depth p
        \<and> length T + n + 1 \<le> pb_length p'
     else pb_fails h p p' (length T + n + 1)"
    using put_run [OF assms(1), of "R @ [0]" n h k] assms(2) by auto
  show ?thesis
  proof (cases ok)
    case True
    then obtain p1 where p1: "pb_cont p1 T (A @ B @ [0])" "p' = p1\<lparr>pb_offset := length T + length A\<rparr>" "pb_depth p' = pb_depth p"
      using r(3) assms(4,5) by auto
    have "pb_cont p' (T @ A) (B @ [0])" using pb_cont_moved [OF p1(1)] p1(2) by simp
    then show ?thesis using r True assms(4) p1(3) by (intro exI [of _ True] exI [of _ p']) (auto simp: pb_wrote_def)
  next
    case False
    then show ?thesis using r assms(2,3) by (intro exI [of _ False] exI [of _ p']) simp
  qed
qed

section \<open>The length of what was written\<close>

lemma strlen_in_run: "0 \<notin> set B \<Longrightarrow> take (Suc (length B)) buf = map Some (B @ [0]) \<Longrightarrow> strlen_in buf = Some (length B)"
proof (induction B arbitrary: buf)
  case Nil
  then show ?case by (cases buf) auto
next
  case (Cons c B)
  then show ?case by (cases buf) auto
qed

lemma update_offset_run:
  assumes "pb_wrote p T R" "0 \<notin> set R"
  shows "\<exists>p'. update_offset p = Some p' \<and> pb_has p' (T @ R) \<and> pb_step p p' \<and> pb_depth p' = pb_depth p"
proof -
  obtain A B where w: "R = A @ B" "pb_cont p (T @ A) (B @ [0])" using assms(1) by (auto simp: pb_wrote_def)
  then obtain buf where buf: "pb_buffer p = Some buf" "length buf = pb_length p" "pb_offset p = length (T @ A)"
      "length (T @ A) + length (B @ [0]) \<le> length buf"
      "take (length (T @ A) + length (B @ [0])) buf = map Some ((T @ A) @ B @ [0])"
    unfolding pb_cont_def by blast
  have "take (Suc (length B)) (drop (pb_offset p) buf) = drop (pb_offset p) (take (length (T @ A) + length (B @ [0])) buf)"
    using buf(3) by (simp add: take_drop ac_simps)
  also have "\<dots> = map Some (B @ [0])" unfolding buf(5) using buf(3) by simp
  finally have "strlen_in (drop (pb_offset p) buf) = Some (length B)" using strlen_in_run assms(2) w(1) by simp
  then have u: "update_offset p = Some (p\<lparr>pb_offset := pb_offset p + length B\<rparr>)" using buf(1) by (simp add: update_offset_def)
  have "pb_cont (p\<lparr>pb_offset := length (T @ A) + length B\<rparr>) ((T @ A) @ B) [0]" by (rule pb_cont_moved [OF w(2)])
  moreover have "length T + length R < pb_length p" using buf w(1) by simp
  ultimately have "pb_has (p\<lparr>pb_offset := pb_offset p + length B\<rparr>) (T @ R)"
    using pb_cont_prefix [of _ "T @ R" "[]" "[0]"] w(1) buf(3) by (auto simp: pb_has_def add.assoc)
  then show ?thesis using u by (auto simp: pb_step_def)
qed


text \<open>At the end the buffer holds the text and its terminator.\<close>

lemma update_offset_end:
  assumes "pb_wrote p [] R" "0 \<notin> set R"
  shows "\<exists>p' buf. update_offset p = Some p' \<and> pb_buffer p' = Some buf \<and> pb_offset p' = length R
    \<and> length R + 1 \<le> length buf \<and> take (length R + 1) buf = map Some (R @ [0]) \<and> pb_length p' = length buf
    \<and> pb_buffer p = Some buf \<and> pb_step p p' \<and> pb_calls p' = pb_calls p"
proof -
  obtain A B where w: "R = A @ B" "pb_cont p ([] @ A) (B @ [0])" using assms(1) by (auto simp: pb_wrote_def)
  then obtain buf where buf: "pb_buffer p = Some buf" "length buf = pb_length p" "pb_offset p = length A"
      "length R + 1 \<le> length buf" "take (length R + 1) buf = map Some (R @ [0])"
    unfolding pb_cont_def by auto
  have "take (Suc (length B)) (drop (pb_offset p) buf) = drop (pb_offset p) (take (length R + 1) buf)"
    using buf(3) w(1) by (simp add: take_drop ac_simps)
  also have "\<dots> = map Some (B @ [0])" unfolding buf(5) using buf(3) w(1) by simp
  finally have "strlen_in (drop (pb_offset p) buf) = Some (length B)" using strlen_in_run assms(2) w(1) by simp
  then have "update_offset p = Some (p\<lparr>pb_offset := pb_offset p + length B\<rparr>)" using buf(1) by (simp add: update_offset_def)
  then show ?thesis using buf w(1) by (auto simp: pb_step_def)
qed

end
