(* ===== verification/Cjson_Render.thy ===== *)
theory Cjson_Render
  imports Cjson_Print_Buffer Cjson_Links
begin

text \<open>
  The text a tree is printed as, a function of the tree, and the printing of strings and numbers
  against it.
\<close>

section \<open>The text of a tree\<close>

definition escape_text :: "byte \<Rightarrow> bytes" where
  "escape_text c =
     (if c > 31 \<and> c \<noteq> 34 \<and> c \<noteq> 92 then [c]
      else if c = 92 then [92, 92] else if c = 34 then [92, 34]
      else if c = 8 then [92, 98] else if c = 12 then [92, 102] else if c = 10 then [92, 110]
      else if c = 13 then [92, 114] else if c = 9 then [92, 116]
      else [92, 117] @ sprintf_04x c)"

definition until_null :: "bytes \<Rightarrow> bytes" where
  "until_null s = takeWhile (\<lambda>c. c \<noteq> 0) s"

definition string_text :: "bytes option \<Rightarrow> bytes" where
  "string_text s = 34 # (case s of None \<Rightarrow> [] | Some s \<Rightarrow> concat (map escape_text (until_null s))) @ [34]"

fun elements_text :: "bool \<Rightarrow> bytes list \<Rightarrow> bytes" where
  "elements_text fmt [] = []"
| "elements_text fmt [r] = r"
| "elements_text fmt (r # rs) = r @ 44 # (if fmt then [32] else []) @ elements_text fmt rs"

definition member_text :: "bool \<Rightarrow> nat \<Rightarrow> bytes option \<times> bytes \<Rightarrow> bytes" where
  "member_text fmt k m = (if fmt then replicate k 9 else []) @ string_text (fst m) @ 58 # (if fmt then [9] else []) @ snd m"

fun members_text :: "bool \<Rightarrow> nat \<Rightarrow> (bytes option \<times> bytes) list \<Rightarrow> bytes" where
  "members_text fmt k [] = []"
| "members_text fmt k (m # ms) =
     member_text fmt k m @ (if ms = [] then [] else [44]) @ (if fmt then [10] else []) @ members_text fmt k ms"

fun all_some :: "'a option list \<Rightarrow> 'a list option" where
  "all_some [] = Some []"
| "all_some (x # xs) = do { a \<leftarrow> x; as \<leftarrow> all_some xs; Some (a # as) }"

text \<open>None for a tree that cannot be printed.\<close>

fun render :: "bool \<Rightarrow> nat \<Rightarrow> jtree \<Rightarrow> bytes option" where
  "render fmt k (JT ty i d v nm ks) =
     (if ty AND 0xFF = cJSON_NULL then Some (ascii ''null'')
      else if ty AND 0xFF = cJSON_False then Some (ascii ''false'')
      else if ty AND 0xFF = cJSON_True then Some (ascii ''true'')
      else if ty AND 0xFF = cJSON_Number then number_text d
      else if ty AND 0xFF = cJSON_Raw then map_option until_null v
      else if ty AND 0xFF = cJSON_String then Some (string_text v)
      else if ty AND 0xFF = cJSON_Array
      then map_option (\<lambda>rs. 91 # elements_text fmt rs @ [93]) (all_some (map (render fmt (k + 1)) ks))
      else if ty AND 0xFF = cJSON_Object
      then map_option (\<lambda>rs. 123 # (if fmt then [10] else []) @ members_text fmt (k + 1) (zip (map jt_name ks) rs)
             @ (if fmt then replicate k 9 else []) @ [125]) (all_some (map (render fmt (k + 1)) ks))
      else None)"

declare render.simps [simp del]

section \<open>The texts have no terminator inside\<close>

lemma hex_char_range: "n < 16 \<Longrightarrow> 48 \<le> hex_char n \<and> hex_char n \<le> 102 \<and> hex_char n \<noteq> 92 \<and> hex_char n \<noteq> 34"
  by (auto simp: hex_char_def word_le_nat_alt unat_word_ariths unat_of_nat word_unat_eq_iff)

lemma escape_text_nonzero: "0 \<notin> set (escape_text c)"
proof -
  have "unat c < 256" using unsigned_less [of c, where 'a = nat] by simp
  then have "unat c div 16 < 16" by (simp add: less_mult_imp_div_less)
  then have "hex_char (unat c div 16) \<noteq> 0" "hex_char (unat c mod 16) \<noteq> 0"
    using hex_char_range [of "unat c div 16"] hex_char_range [of "unat c mod 16"] by auto
  then show ?thesis by (auto simp: escape_text_def sprintf_04x_def)
qed

lemma until_null_nonzero: "0 \<notin> set (until_null s)"
  by (auto simp: until_null_def dest: set_takeWhileD)

lemma string_text_nonzero: "0 \<notin> set (string_text s)"
  using escape_text_nonzero by (auto simp: string_text_def split: option.splits)

section \<open>Printing strings\<close>

lemma escape_text_length: "0 < length (escape_text c)"
  by (simp add: escape_text_def)

lemma escape_count_run:
  "0 \<in> set s \<Longrightarrow> \<exists>k. escape_count s = Some (length (until_null s), k)
     \<and> length (until_null s) + k = length (concat (map escape_text (until_null s)))
     \<and> (k = 0 \<longrightarrow> concat (map escape_text (until_null s)) = until_null s)"
proof (induction s)
  case (Cons c s)
  show ?case
  proof (cases "c = 0")
    case False
    then obtain k where k: "escape_count s = Some (length (until_null s), k)"
        "length (until_null s) + k = length (concat (map escape_text (until_null s)))"
        "k = 0 \<longrightarrow> concat (map escape_text (until_null s)) = until_null s"
      using Cons by auto
    have u: "until_null (c # s) = c # until_null s" using False by (simp add: until_null_def)
    consider "c = 34 \<or> c = 92 \<or> c = 8 \<or> c = 12 \<or> c = 10 \<or> c = 13 \<or> c = 9"
      | "\<not> (c = 34 \<or> c = 92 \<or> c = 8 \<or> c = 12 \<or> c = 10 \<or> c = 13 \<or> c = 9)" "c < 32"
      | "\<not> (c = 34 \<or> c = 92 \<or> c = 8 \<or> c = 12 \<or> c = 10 \<or> c = 13 \<or> c = 9)" "\<not> c < 32" by blast
    then show ?thesis
    proof cases
      case 1
      then have "length (escape_text c) = 2" by (auto simp: escape_text_def)
      then show ?thesis using 1 k False u by auto
    next
      case 2
      then have "length (escape_text c) = 6" by (auto simp: escape_text_def sprintf_04x_def word_less_nat_alt)
      then show ?thesis using 2 k False u by auto
    next
      case 3
      then have "escape_text c = [c]" by (auto simp: escape_text_def word_less_nat_alt)
      then show ?thesis using 3 k False u by auto
    qed
  qed (simp add: until_null_def)
qed simp

lemma emit_text:
  assumes "pb_cont p T W" "length T + length W + length bs \<le> pb_length p"
  obtains p' where "emit_at (length W) bs p = Some p'" "pb_cont p' T (W @ bs)" "pb_step p p'" "pb_depth p' = pb_depth p"
    "pb_length p' = pb_length p"
  using emit_at_run [OF assms(1), of "length W" bs] assms(2) by auto

lemma escape_char_run:
  assumes c: "pb_cont p T W" and l: "length T + length W + length (escape_text c) + 1 \<le> pb_length p"
  shows "\<exists>j p'. escape_char c (length W) p = Some (j, p') \<and> j + 1 = length W + length (escape_text c)
    \<and> pb_cont p' T (W @ escape_text c) \<and> pb_step p p' \<and> pb_depth p' = pb_depth p \<and> pb_length p' = pb_length p"
proof (cases "c > 31 \<and> c \<noteq> 34 \<and> c \<noteq> 92")
  case True
  then have t: "escape_text c = [c]" by (simp add: escape_text_def)
  obtain p' where "emit_at (length W) [c] p = Some p'" "pb_cont p' T (W @ [c])" "pb_step p p'" "pb_depth p' = pb_depth p" "pb_length p' = pb_length p"
    by (rule emit_text [OF c, of "[c]"]) (use l t in auto)
  then show ?thesis using True t by (simp add: escape_char_def)
next
  case esc: False
  have l1: "length T + length W + length [92::byte] \<le> pb_length p" using l by simp
  obtain p1 where p1: "emit_at (length W) [92] p = Some p1" "pb_cont p1 T (W @ [92])" "pb_step p p1" "pb_depth p1 = pb_depth p" "pb_length p1 = pb_length p"
    by (rule emit_text [OF c l1])
  show ?thesis
  proof (cases "c = 34 \<or> c = 92 \<or> c = 8 \<or> c = 12 \<or> c = 10 \<or> c = 13 \<or> c = 9")
    case True
    then obtain x where x: "escape_text c = [92, x]" "escape_char c (length W) p = do { p2 \<leftarrow> emit_at (length W + 1) [x] p1; Some (length W + 1, p2) }"
      using p1(1) esc by (auto simp: escape_text_def escape_char_def)
    have "length T + length (W @ [92]) + length [x] \<le> pb_length p1" using l x(1) p1(5) by simp
    then obtain p2 where "emit_at (length (W @ [92])) [x] p1 = Some p2" "pb_cont p2 T ((W @ [92]) @ [x])" "pb_step p1 p2" "pb_depth p2 = pb_depth p1" "pb_length p2 = pb_length p1"
      by (rule emit_text [OF p1(2)])
    then show ?thesis using x p1 pb_step_trans [of p p1 p2] by auto
  next
    case False
    then have x: "escape_text c = 92 # 117 # sprintf_04x c" "escape_char c (length W) p = do { p2 \<leftarrow> emit_at (length W + 1) (117 # sprintf_04x c @ [0]) p1; Some (length W + 5, p2) }"
      using p1(1) esc by (auto simp: escape_text_def escape_char_def)
    let ?b = "117 # sprintf_04x c @ [0]"
    have "length T + length (W @ [92]) + length ?b \<le> pb_length p1" using l x(1) p1(5) by simp
    then obtain p2 where p2: "emit_at (length (W @ [92])) ?b p1 = Some p2" "pb_cont p2 T ((W @ [92]) @ ?b)" "pb_step p1 p2" "pb_depth p2 = pb_depth p1" "pb_length p2 = pb_length p1"
      by (rule emit_text [OF p1(2)])
    have "pb_cont p2 T ((W @ escape_text c) @ [0])" using p2(2) x(1) by simp
    then have "pb_cont p2 T (W @ escape_text c)" by (rule pb_cont_prefix)
    then show ?thesis using x p1 p2 pb_step_trans [of p p1 p2] by (auto simp: sprintf_04x_def)
  qed
qed

lemma escape_loop_run:
  "0 \<in> set s \<Longrightarrow> pb_cont p T W \<Longrightarrow> length T + length W + length (concat (map escape_text (until_null s))) + 1 \<le> pb_length p \<Longrightarrow>
   \<exists>p'. escape_loop s (length W) p = Some p' \<and> pb_cont p' T (W @ concat (map escape_text (until_null s)))
     \<and> pb_step p p' \<and> pb_depth p' = pb_depth p \<and> pb_length p' = pb_length p"
proof (induction s arbitrary: p W)
  case (Cons c s)
  show ?case
  proof (cases "c = 0")
    case True
    then show ?thesis using Cons.prems by (simp add: until_null_def)
  next
    case False
    let ?E = "concat (map escape_text (until_null s))"
    have u: "until_null (c # s) = c # until_null s" using False by (simp add: until_null_def)
    obtain j p1 where p1: "escape_char c (length W) p = Some (j, p1)" "j + 1 = length W + length (escape_text c)"
        "pb_cont p1 T (W @ escape_text c)" "pb_step p p1" "pb_depth p1 = pb_depth p" "pb_length p1 = pb_length p"
      using escape_char_run [OF Cons.prems(2), of c] Cons.prems(3) u by auto
    obtain p2 where "escape_loop s (length (W @ escape_text c)) p1 = Some p2" "pb_cont p2 T ((W @ escape_text c) @ ?E)"
        "pb_step p1 p2" "pb_depth p2 = pb_depth p1" "pb_length p2 = pb_length p1"
      using Cons.IH [OF _ p1(3)] Cons.prems(1,3) False u p1(6) by auto
    then show ?thesis using p1 False u pb_step_trans [of p p1 p2] by auto
  qed
qed simp

text \<open>What printing a value promises: \<open>R\<close> is its text, none when it has none.\<close>

definition prints :: "heap \<Rightarrow> printbuffer \<Rightarrow> bytes \<Rightarrow> bytes option \<Rightarrow> (bool \<times> printbuffer) option \<Rightarrow> bool" where
  "prints h p T R r \<longleftrightarrow> (\<exists>ok p'. r = Some (ok, p') \<and> pb_step p p' \<and>
     (if ok then \<exists>t. R = Some t \<and> pb_wrote p' T t \<and> pb_depth p' = pb_depth p
      else \<forall>t. R = Some t \<longrightarrow> pb_fails h p p' (length T + length t + 2)))"

lemma prints_put:
  assumes "pb_has p T" "bs = R @ [0]" "n = length R + 1" "A @ B = R" "k = length A"
  shows "prints h p T (Some R) (put h n bs k p)"
proof -
  obtain ok p' where "put h n (R @ [0]) k p = Some (ok, p')" "pb_step p p'"
    "if ok then pb_wrote p' T R \<and> pb_depth p' = pb_depth p else pb_fails h p p' (length T + length R + 2)"
    using put_value [OF assms(1,3) refl assms(4,5), of h] by blast
  then show ?thesis unfolding prints_def assms(2)
    by (intro exI [of _ ok] exI [of _ p']) (cases ok; simp)
qed

lemma print_string_ptr_run:
  assumes b: "pb_has p T" and o: "own h a F v"
  shows "prints h p T (Some (string_text v)) (print_string_ptr h a p)"
proof (cases "a = 0")
  case True
  then have "string_text v = [34, 34]" using o by (simp add: own_def string_text_def)
  then show ?thesis using prints_put [OF b, where R = "[34, 34]" and n = 3 and A = "[]" and B = "[34, 34]" and k = 0 and h = h] True
    by (simp add: print_string_ptr_def)
next
  case False
  then obtain s where s: "v = Some s" "strs h a = Some s" "0 \<in> set s" using o by (auto simp: own_def)
  let ?E = "concat (map escape_text (until_null s))"
  have t: "string_text v = 34 # ?E @ [34]" using s(1) by (simp add: string_text_def)
  obtain k where k: "escape_count s = Some (length (until_null s), k)" "length (until_null s) + k = length ?E" "k = 0 \<longrightarrow> ?E = until_null s"
    using escape_count_run [OF s(3)] by blast
  obtain ok p1 where e: "ensure h (length ?E + 3) p = Some (ok, p1)" "pb_step p p1"
      "if ok then pb_has p1 T \<and> pb_depth p1 = pb_depth p \<and> length T + (length ?E + 3) + 1 \<le> pb_length p1
       else pb_fails h p p1 (length T + (length ?E + 3) + 1)"
    using ensure_run [OF b, of h "length ?E + 3"] by auto
  show ?thesis
  proof (cases ok)
    case no: False
    have "print_string_ptr h a p = Some (False, p1)"
      using e(1) no False s(2) k(1) unfolding k(2) [symmetric] by (simp add: print_string_ptr_def)
    moreover have "pb_fails h p p1 (length T + length (string_text v) + 2)" using e(3) no t pb_fails_mono by fastforce
    ultimately show ?thesis using e(2) unfolding prints_def by (intro exI [of _ False] exI [of _ p1]) simp
  next
    case True
    then have c1: "pb_cont p1 T []" "pb_depth p1 = pb_depth p" "length T + length ?E + 4 \<le> pb_length p1" using e(3) by (auto simp: pb_has_def)
    have "length T + length ([]::bytes) + length [34::byte] \<le> pb_length p1" using c1(3) by simp
    then obtain p2 where p2: "emit_at (length ([]::bytes)) [34] p1 = Some p2" "pb_cont p2 T ([] @ [34])" "pb_step p1 p2" "pb_depth p2 = pb_depth p1" "pb_length p2 = pb_length p1"
      by (rule emit_text [OF c1(1)])
    have "\<exists>p3. (if k = 0 then emit_at 1 (take (length ?E) s) p2 else escape_loop s 1 p2) = Some p3 \<and> pb_cont p3 T (34 # ?E)
        \<and> pb_step p2 p3 \<and> pb_depth p3 = pb_depth p2 \<and> pb_length p3 = pb_length p2"
    proof (cases "k = 0")
      case True
      then have "?E = until_null s" using k by simp
      then have w: "take (length ?E) s = ?E" using takeWhile_eq_take [of "\<lambda>c. c \<noteq> 0" s] by (simp add: until_null_def)
      have "length T + length ([] @ [34::byte]) + length ?E \<le> pb_length p2" using c1(3) p2(5) by simp
      then obtain p3 where "emit_at (length ([] @ [34::byte])) ?E p2 = Some p3" "pb_cont p3 T (([] @ [34]) @ ?E)" "pb_step p2 p3"
          "pb_depth p3 = pb_depth p2" "pb_length p3 = pb_length p2"
        by (rule emit_text [OF p2(2)])
      then show ?thesis using True w by simp
    next
      case False
      then show ?thesis using escape_loop_run [OF s(3) p2(2)] c1(3) p2(5) by simp
    qed
    then obtain p3 where p3: "(if k = 0 then emit_at 1 (take (length ?E) s) p2 else escape_loop s 1 p2) = Some p3" "pb_cont p3 T (34 # ?E)"
        "pb_step p2 p3" "pb_depth p3 = pb_depth p2" "pb_length p3 = pb_length p2" by blast
    have "length T + length (34 # ?E) + length [34::byte] \<le> pb_length p3" using c1(3) p2(5) p3(5) by simp
    then obtain p4 where p4: "emit_at (length (34 # ?E)) [34] p3 = Some p4" "pb_cont p4 T ((34 # ?E) @ [34])" "pb_step p3 p4"
        "pb_depth p4 = pb_depth p3" "pb_length p4 = pb_length p3" by (rule emit_text [OF p3(2)])
    have "length T + length ((34 # ?E) @ [34]) + length [0::byte] \<le> pb_length p4" using c1(3) p2(5) p3(5) p4(5) by simp
    then obtain p5 where p5: "emit_at (length ((34 # ?E) @ [34])) [0] p4 = Some p5" "pb_cont p5 T (((34 # ?E) @ [34]) @ [0])" "pb_step p4 p5"
        "pb_depth p5 = pb_depth p4" "pb_length p5 = pb_length p4" by (rule emit_text [OF p4(2)])
    have "print_string_ptr h a p = Some (True, p5)"
    proof (cases "k = 0")
      case z: True
      then have E: "?E = until_null s" using k(3) by simp
      show ?thesis
        using False s(2) k(1) e(1) True p2(1) p3(1) p4(1) p5(1) z unfolding E by (simp add: print_string_ptr_def Let_def)
    next
      case z: False
      show ?thesis
        using False s(2) k(1,2) e(1) True p2(1) p3(1) p4(1) p5(1) z by (simp add: print_string_ptr_def Let_def)
    qed
    moreover have "pb_wrote p5 T (34 # ?E @ [34])"
      using p5(2) unfolding pb_wrote_def by (intro exI [of _ "[]"] exI [of _ "34 # ?E @ [34]"]) simp
    moreover have "pb_step p p5" using e(2) p2(3) p3(3) p4(3) p5(3) pb_step_trans by blast
    ultimately show ?thesis using t c1(2) p2(4) p3(4) p4(4) p5(4) by (auto simp: prints_def)
  qed
qed

end
