(* ===== verification/Cjson_Number_Text.thy ===== *)
theory Cjson_Number_Text
  imports Cjson_Print Cjson_Number
begin

text \<open>
  The text of a number: its shape, its length, and that \<open>strtod\<close> reads all of it.
\<close>

section \<open>Decimal digits\<close>

lemma digit_byte: "n < 10 \<Longrightarrow> is_digit (48 + of_nat n)"
  by (auto simp: is_digit_def word_le_nat_alt unat_word_ariths unat_of_nat)

lemma decimal_digits: "c \<in> set (decimal n) \<Longrightarrow> is_digit c"
proof (induction n rule: decimal.induct)
  case (1 n)
  show ?case
  proof (cases "n < 10")
    case True
    then show ?thesis using 1(2) digit_byte [of n] by (simp add: decimal.simps [of n])
  next
    case False
    then show ?thesis using 1 digit_byte [of "n mod 10"] by (auto simp: decimal.simps [of n])
  qed
qed

lemma decimal_length_pos: "0 < length (decimal n)"
  by (subst decimal.simps) simp

lemma decimal_bounds: "n < 10 ^ length (decimal n) \<and> (0 < n \<longrightarrow> 10 ^ (length (decimal n) - 1) \<le> n)"
proof (induction n rule: decimal.induct)
  case (1 n)
  show ?case
  proof (cases "n < 10")
    case True
    then show ?thesis by (simp add: decimal.simps [of n])
  next
    case False
    let ?l = "length (decimal (n div 10))"
    have l: "length (decimal n) = Suc ?l" using False by (simp add: decimal.simps [of n])
    have IH: "n div 10 < 10 ^ ?l" "10 ^ (?l - 1) \<le> n div 10" using 1 False by auto
    have "(10::nat) ^ ?l = 10 * 10 ^ (?l - 1)" using decimal_length_pos [of "n div 10"] by (simp flip: power_Suc)
    moreover have "10 * (n div 10) \<le> n" "n < 10 * (n div 10) + 10" by linarith+
    ultimately have "10 ^ ?l \<le> n" "n < 10 * 10 ^ ?l" using IH by linarith+
    then show ?thesis unfolding l by simp
  qed
qed

lemma decimal_length_le: "n < 10 ^ k \<Longrightarrow> 0 < k \<Longrightarrow> length (decimal n) \<le> k"
proof -
  assume n: "n < 10 ^ k" "0 < k"
  show ?thesis
  proof (cases "n = 0")
    case True
    then show ?thesis using n(2) by (simp add: decimal.simps)
  next
    case False
    then have "10 ^ (length (decimal n) - 1) < (10::nat) ^ k" using decimal_bounds [of n] n(1) by linarith
    then show ?thesis using power_strict_increasing_iff [of "10::nat" "length (decimal n) - 1" k] n(2) by simp
  qed
qed

lemma decimal_length_eq: "10 ^ (k - 1) \<le> n \<Longrightarrow> n < 10 ^ k \<Longrightarrow> 0 < k \<Longrightarrow> length (decimal n) = k"
proof -
  assume n: "10 ^ (k - 1) \<le> n" "n < 10 ^ k" "0 < k"
  have "(10::nat) ^ (k - 1) < 10 ^ length (decimal n)" using decimal_bounds [of n] n(1) by linarith
  then have "k - 1 < length (decimal n)" using power_strict_increasing_iff [of "10::nat" "k - 1" "length (decimal n)"] by simp
  then show ?thesis using decimal_length_le [OF n(2,3)] by simp
qed

section \<open>Significant digits\<close>

lemma ten_steps_bounds: "0 < p \<Longrightarrow> p < q \<Longrightarrow> 0 < ten_steps p q \<and> q \<le> p * 10 ^ ten_steps p q \<and> p * 10 ^ ten_steps p q < 10 * q"
proof (induction p q rule: ten_steps.induct)
  case (1 p q)
  have s: "ten_steps p q = Suc (ten_steps (10 * p) q)" using 1(2,3) by (simp add: ten_steps.simps [of p q])
  show ?case
  proof (cases "10 * p < q")
    case True
    then show ?thesis using 1 s by (simp add: ac_simps)
  next
    case False
    then have "ten_steps (10 * p) q = 0" by (simp add: ten_steps.simps [of "10 * p" q])
    then show ?thesis using False 1(3) s by simp
  qed
qed

lemma round_even_bounds:
  assumes "0 < b" "b * l \<le> a" "a < b * u"
  shows "l \<le> round_even (a, b) \<and> round_even (a, b) \<le> u"
proof -
  have "l \<le> a div b" using assms(1,2) by (simp add: less_eq_div_iff_mult_less_eq mult.commute)
  moreover have "a div b < u" using assms(1,3) by (simp add: less_mult_imp_div_less mult.commute)
  ultimately show ?thesis by (auto simp: round_even_def Let_def)
qed

lemma first_digit_bounds:
  assumes "0 < p" "0 < q" "0 < n" and x: "x = first_digit p q" and s: "scale10 p q (x - int n + 1) = (a, b)"
  shows "0 < b" "b * 10 ^ (n - 1) \<le> a" "a < b * 10 ^ n"
proof -
  have n: "(10::nat) ^ n = 10 * 10 ^ (n - 1)" using assms(3) by (simp flip: power_Suc)
  have "0 < b \<and> b * 10 ^ (n - 1) \<le> a \<and> a < b * 10 ^ n"
  proof (cases "q \<le> p")
    case True
    define w where "w = p div q"
    define k where "k = length (decimal w) - 1"
    have xk: "x = int k" using x True decimal_length_pos [of w] by (simp add: first_digit_def w_def k_def of_nat_diff Suc_leI del: length_greater_0_conv)
    have "0 < w" using True assms(2) by (simp add: w_def div_greater_zero_iff)
    moreover have "Suc k = length (decimal w)" using decimal_length_pos [of w] by (simp add: k_def)
    ultimately have w: "10 ^ k \<le> w" "w < 10 ^ Suc k" using decimal_bounds [of w] by (auto simp: k_def)
    have "q * 10 ^ k \<le> q * w" using w by simp
    also have "q * w \<le> p" by (simp add: w_def)
    finally have lo: "q * 10 ^ k \<le> p" .
    have "p < q * (w + 1)" using dividend_less_times_div [OF assms(2), of p] by (simp add: w_def distrib_left)
    also have "\<dots> \<le> q * 10 ^ Suc k" using w(2) by (intro mult_le_mono2) simp
    finally have hi: "p < q * 10 ^ Suc k" .
    show ?thesis
    proof (cases "n \<le> k + 1")
      case True
      then have ab: "a = p" "b = q * 10 ^ (k + 1 - n)" using s xk by (auto simp: scale10_def of_nat_diff nat_diff_distrib)
      have "b * 10 ^ (n - 1) = q * 10 ^ k" using True assms(3) by (simp add: ab(2) flip: power_add)
      moreover have "b * 10 ^ n = q * 10 ^ Suc k" using True by (simp add: ab(2) flip: power_add power_Suc)
      ultimately have "b * 10 ^ (n - 1) \<le> a" "a < b * 10 ^ n" using lo hi ab(1) by (simp_all only:)
      then show ?thesis using ab(2) assms(2) by simp
    next
      case False
      then have ab: "a = p * 10 ^ (n - 1 - k)" "b = q" using s xk by (auto simp: scale10_def nat_diff_distrib)
      have e: "(10::nat) ^ (n - 1) = 10 ^ k * 10 ^ (n - 1 - k)" using False by (simp flip: power_add)
      have "q * 10 ^ k * 10 ^ (n - 1 - k) \<le> p * 10 ^ (n - 1 - k)" using lo by simp
      moreover have "p * 10 ^ (n - 1 - k) < q * 10 ^ Suc k * 10 ^ (n - 1 - k)" using hi by simp
      ultimately show ?thesis using ab assms(2) e n by (simp add: mult.assoc mult.left_commute)
    qed
  next
    case False
    define k where "k = ten_steps p q"
    have t: "0 < k" "q \<le> p * 10 ^ k" "p * 10 ^ k < 10 * q" using ten_steps_bounds [OF assms(1), of q] False by (auto simp: k_def)
    have xk: "x = - int k" using x False by (simp add: first_digit_def k_def)
    have ab: "a = p * 10 ^ (k + (n - 1))" "b = q" using s xk t(1) assms(3) by (auto simp: scale10_def nat_diff_distrib nat_add_distrib of_nat_diff)
    have "q * 10 ^ (n - 1) \<le> p * 10 ^ k * 10 ^ (n - 1)" using t(2) by simp
    moreover have "p * 10 ^ k * 10 ^ (n - 1) < 10 * q * 10 ^ (n - 1)" using t(3) by simp
    ultimately show ?thesis using ab assms(2) n by (simp add: power_add mult.assoc mult.left_commute)
  qed
  then show "0 < b" "b * 10 ^ (n - 1) \<le> a" "a < b * 10 ^ n" by auto
qed

lemma significant_bounds:
  assumes "0 < p" "0 < q" "0 < n" "significant n p q = (d, x)"
  shows "10 ^ (n - 1) \<le> d \<and> d < 10 ^ n \<and> first_digit p q \<le> x \<and> x \<le> first_digit p q + 1"
proof -
  obtain a b where ab: "scale10 p q (first_digit p q - int n + 1) = (a, b)" by fastforce
  note f = first_digit_bounds [OF assms(1-3) refl ab]
  have r: "10 ^ (n - 1) \<le> round_even (a, b)" "round_even (a, b) \<le> 10 ^ n" using round_even_bounds [OF f] by auto
  have "(10::nat) ^ (n - 1) < 10 ^ n" using assms(3) by simp
  then show ?thesis using assms(4) r ab by (auto simp: significant_def Let_def split: if_splits)
qed

section \<open>The doubles of IEEE 754\<close>

text \<open>A mantissa that was rounded up may be \<open>2 ^ 53\<close>, unless the number is then too large.\<close>

definition binary64 :: "double \<Rightarrow> bool" where
  "binary64 d = (case d of Fin neg m e \<Rightarrow> m \<le> 2 ^ 53 \<and> - 1074 \<le> e \<and> e \<le> 971 \<and> \<not> (m = 2 ^ 53 \<and> e = 971) | _ \<Rightarrow> True)"

lemma powers_of_two: "(2::nat) ^ 1024 < 10 ^ 309" "(2::nat) ^ 1074 \<le> 10 ^ 324"
  by simp_all

lemma first_digit_range:
  assumes "0 < m" "m \<le> 2 ^ 53" "- 1074 \<le> e" "e \<le> 971"
  shows "- 324 \<le> first_digit (m * 2 ^ nat e) (2 ^ nat (- e)) \<and> first_digit (m * 2 ^ nat e) (2 ^ nat (- e)) \<le> 308"
proof -
  let ?p = "m * 2 ^ nat e" and ?q = "2 ^ nat (- e) :: nat"
  show ?thesis
  proof (cases "?q \<le> ?p")
    case True
    have "(2::nat) ^ nat e \<le> 2 ^ 971" using assms(4) by (intro power_increasing) auto
    then have "?p \<le> 2 ^ 53 * 2 ^ 971" using assms(2) by (intro mult_le_mono) auto
    also have "\<dots> = 2 ^ 1024" by (simp flip: power_add)
    finally have "?p < 10 ^ 309" using powers_of_two(1) by (rule le_less_trans)
    then have "?p div ?q < 10 ^ 309" using div_le_dividend le_less_trans by blast
    then have "length (decimal (?p div ?q)) \<le> 309" by (rule decimal_length_le) simp
    then show ?thesis using True decimal_length_pos [of "?p div ?q"] by (simp add: first_digit_def)
  next
    case False
    let ?k = "ten_steps ?p ?q"
    have "?k \<le> 324"
    proof (rule ccontr)
      assume "\<not> ?k \<le> 324"
      then obtain j where j: "?k = Suc j" "324 \<le> j" by (cases ?k) auto
      have t: "?p * 10 ^ ?k < 10 * ?q" using ten_steps_bounds [of ?p ?q] False assms(1) by simp
      then have "?p * 10 ^ j < ?q" unfolding j(1) by simp
      moreover have "1 * 10 ^ j \<le> ?p * 10 ^ j" using assms(1) by (intro mult_le_mono1) (simp add: Suc_leI)
      ultimately have "10 ^ j < ?q" by linarith
      moreover have "?q \<le> 2 ^ 1074" using assms(3) by (intro power_increasing) auto
      moreover have "(10::nat) ^ 324 \<le> 10 ^ j" using j(2) by (intro power_increasing) auto
      ultimately show False using powers_of_two(2) by linarith
    qed
    then show ?thesis using False by (simp add: first_digit_def)
  qed
qed

text \<open>Rounding a fraction gives such a double.\<close>

lemma scale_bounds:
  assumes "0 < p" "0 < q" "scale p q e = (a, b)"
  shows "0 < b" "int (bits p) - int (bits q) + 1 - e \<le> int k \<Longrightarrow> a < b * 2 ^ k"
    "int k \<le> int (bits p) - 1 - int (bits q) - e \<Longrightarrow> b * 2 ^ k \<le> a"
proof -
  note bp = bits_bounds [OF assms(1)] and bq = bits_bounds [OF assms(2)]
  show "0 < b" using assms by (auto simp: scale_def split: if_splits)
  assume k: "int (bits p) - int (bits q) + 1 - e \<le> int k"
  show "a < b * 2 ^ k"
  proof (cases "0 \<le> e")
    case True
    then have ab: "a = p" "b = q * 2 ^ nat e" using assms(3) by (auto simp: scale_def)
    have "p < 2 ^ bits p" using bp by simp
    also have "\<dots> \<le> 2 ^ (bits q - 1 + (nat e + k))" using k bq True by (intro power_increasing) auto
    also have "\<dots> = 2 ^ (bits q - 1) * 2 ^ (nat e + k)" by (simp add: power_add)
    also have "\<dots> \<le> q * 2 ^ (nat e + k)" using bq by simp
    finally show ?thesis using ab by (simp add: power_add mult.assoc)
  next
    case False
    then have ab: "a = p * 2 ^ nat (- e)" "b = q" using assms(3) by (auto simp: scale_def)
    have "p * 2 ^ nat (- e) < 2 ^ bits p * 2 ^ nat (- e)" using bp by simp
    also have "\<dots> = 2 ^ (bits p + nat (- e))" by (simp add: power_add)
    also have "\<dots> \<le> 2 ^ (bits q - 1 + k)" using k bq False by (intro power_increasing) auto
    also have "\<dots> = 2 ^ (bits q - 1) * 2 ^ k" by (simp add: power_add)
    also have "\<dots> \<le> q * 2 ^ k" using bq by simp
    finally show ?thesis using ab by simp
  qed
next
  note bp = bits_bounds [OF assms(1)] and bq = bits_bounds [OF assms(2)]
  assume k: "int k \<le> int (bits p) - 1 - int (bits q) - e"
  show "b * 2 ^ k \<le> a"
  proof (cases "0 \<le> e")
    case True
    then have ab: "a = p" "b = q * 2 ^ nat e" using assms(3) by (auto simp: scale_def)
    have "q * 2 ^ (nat e + k) \<le> 2 ^ bits q * 2 ^ (nat e + k)" using bq by simp
    also have "\<dots> = 2 ^ (bits q + (nat e + k))" by (simp add: power_add)
    also have "\<dots> \<le> 2 ^ (bits p - 1)" using k True by (intro power_increasing) auto
    also have "\<dots> \<le> p" using bp by simp
    finally show ?thesis using ab by (simp add: power_add mult.assoc)
  next
    case False
    then have ab: "a = p * 2 ^ nat (- e)" "b = q" using assms(3) by (auto simp: scale_def)
    have "q * 2 ^ k \<le> 2 ^ bits q * 2 ^ k" using bq by simp
    also have "\<dots> = 2 ^ (bits q + k)" by (simp add: power_add)
    also have "\<dots> \<le> 2 ^ (bits p - 1 + nat (- e))" using k bp False by (intro power_increasing) auto
    also have "\<dots> = 2 ^ (bits p - 1) * 2 ^ nat (- e)" by (simp add: power_add)
    also have "\<dots> \<le> p * 2 ^ nat (- e)" using bp by simp
    finally show ?thesis using ab by simp
  qed
qed

lemma scale_half:
  assumes "scale p q e = (a, b)" "scale p q (e + 1) = (a', b')"
  shows "a * b' = 2 * a' * b"
proof -
  consider "0 \<le> e" | "e = -1" | "e < -1" by linarith
  then show ?thesis
  proof cases
    case 3
    then have "nat (- e) = Suc (nat (- (e + 1)))" by simp
    then show ?thesis using 3 assms by (auto simp: scale_def)
  qed (use assms in \<open>auto simp: scale_def nat_add_distrib\<close>)
qed

lemma binary64_of_frac:
  assumes "0 < q"
  shows "binary64 (double_of_frac neg p q)"
proof (cases "p = 0")
  case True
  then show ?thesis by (simp add: double_of_frac_def binary64_def)
next
  case False
  then have p: "0 < p" by simp
  define e0 where "e0 = int (bits p) - int (bits q) - 53"
  obtain a b where ab: "scale p q e0 = (a, b)" by fastforce
  define e1 where "e1 = (if 2 ^ 53 \<le> a div b then e0 + 1 else e0)"
  define e where "e = max (- 1074) e1"
  have ex: "exponent p q = e" using ab by (simp add: exponent_def e_def e1_def e0_def Let_def)
  obtain c d where cd: "scale p q e = (c, d)" by fastforce
  have b0: "0 < b" "0 < d" using scale_bounds(1) [OF p assms ab] scale_bounds(1) [OF p assms cd] by auto
  have up: "c < d * 2 ^ 53"
  proof (cases "e = e0 \<and> \<not> 2 ^ 53 \<le> a div b")
    case True
    then have "a < b * 2 ^ 53" using b0(1) by (simp add: less_eq_div_iff_mult_less_eq not_le mult.commute)
    then show ?thesis using True ab cd by simp
  next
    case False
    then have "e0 + 1 \<le> e" by (auto simp: e_def e1_def split: if_splits)
    then show ?thesis using scale_bounds(2) [OF p assms cd, of 53] by (simp add: e0_def)
  qed
  have lo: "d * 2 ^ 52 \<le> c" if "e \<noteq> - 1074"
  proof (cases "2 ^ 53 \<le> a div b")
    case True
    then have e: "e = e0 + 1" using that by (auto simp: e_def e1_def)
    have "b * 2 ^ 53 \<le> a" using True b0(1) by (simp add: less_eq_div_iff_mult_less_eq mult.commute)
    then have "b * 2 ^ 53 * d \<le> a * d" by (rule mult_le_mono1)
    moreover have "a * d = b * (c * 2)" using scale_half [OF ab, of c d] cd e by (simp add: mult.commute mult.left_commute)
    ultimately have "b * (2 ^ 53 * d) \<le> b * (c * 2)" by (simp only: mult.assoc)
    then have "2 ^ 53 * d \<le> c * 2" using b0(1) by (simp only: nat_mult_le_cancel1)
    then show ?thesis by simp
  next
    case False
    then have "e = e0" using that by (auto simp: e_def e1_def)
    then show ?thesis using scale_bounds(3) [OF p assms cd, of 52] by (simp add: e0_def)
  qed
  define m where "m = round_even (c, d)"
  have m: "m \<le> 2 ^ 53" "e \<noteq> - 1074 \<Longrightarrow> 2 ^ 52 \<le> m"
    using round_even_bounds [OF b0(2) _ up, of 0] round_even_bounds [OF b0(2) _ up, of "2 ^ 52"] lo by (auto simp: m_def)
  show ?thesis
  proof (cases "2 ^ 1024 \<le> mag_floor m e")
    case True
    then show ?thesis using False ex cd by (simp add: double_of_frac_def Let_def m_def binary64_def)
  next
    case fin: False
    have "e \<le> 971"
    proof (rule ccontr)
      assume "\<not> e \<le> 971"
      then have "2 ^ 52 * 2 ^ 972 \<le> m * 2 ^ nat e" using m(2) by (intro mult_le_mono power_increasing) auto
      moreover have "(2::nat) ^ 52 * 2 ^ 972 = 2 ^ 1024" by (simp flip: power_add)
      ultimately show False using fin \<open>\<not> e \<le> 971\<close> by (simp only: mag_floor_def) (auto split: if_splits)
    qed
    moreover have "\<not> (m = 2 ^ 53 \<and> e = 971)"
    proof
      assume "m = 2 ^ 53 \<and> e = 971"
      moreover have "(2::nat) ^ 53 * 2 ^ 971 = 2 ^ 1024" by (simp flip: power_add)
      ultimately show False using fin by (simp only: mag_floor_def) auto
    qed
    moreover have "- 1074 \<le> e" by (simp add: e_def)
    ultimately have "binary64 (Fin neg m e)" using m(1) by (simp add: binary64_def)
    moreover have "double_of_frac neg p q = Fin neg m e" using False fin ex cd by (simp add: double_of_frac_def Let_def m_def)
    ultimately show ?thesis by simp
  qed
qed

lemma binary64_strtod: "binary64 (fst (strtod s))"
  using binary64_of_frac by (auto simp: strtod_def double_of_dec_def binary64_def Let_def split: prod.splits)

section \<open>The shape of a number\<close>

text \<open>Sign, digits, perhaps a point with digits, perhaps an exponent with a sign and digits.\<close>

definition fraction_text :: "bytes \<Rightarrow> bytes" where
  "fraction_text fp = (if fp = [] then [] else 46 # fp)"

definition number_shape :: "bytes \<Rightarrow> bytes \<Rightarrow> bytes \<Rightarrow> bytes \<Rightarrow> bytes \<Rightarrow> bool" where
  "number_shape s sg ip fp ep \<longleftrightarrow> s = sg @ ip @ fraction_text fp @ ep \<and> sg \<in> {[], [45]} \<and> ip \<noteq> [] \<and> (\<forall>c\<in>set ip \<union> set fp. is_digit c)
     \<and> (ep = [] \<or> (\<exists>g ds. ep = 101 # g # ds \<and> g \<in> {43, 45} \<and> ds \<noteq> [] \<and> (\<forall>c\<in>set ds. is_digit c)))"

lemma strip_zeros_length: "length (strip_zeros s) \<le> length s"
  using length_dropWhile_le [of "\<lambda>c. c = 48" "rev s"] by (simp add: strip_zeros_def)

lemma strip_zeros_digits: "\<forall>c\<in>set s. is_digit c \<Longrightarrow> \<forall>c\<in>set (strip_zeros s). is_digit c"
  using set_dropWhileD unfolding strip_zeros_def set_rev by (metis set_rev)

lemma with_point_fraction: "with_point ip fp = ip @ fraction_text (strip_zeros fp)"
  by (simp add: with_point_def fraction_text_def Let_def)

lemma exponent_text_shape:
  "\<exists>g ds. exponent_text x = 101 # g # ds \<and> g \<in> {43, 45} \<and> ds \<noteq> [] \<and> (\<forall>c\<in>set ds. is_digit c)"
proof -
  define ds where "ds = (let ds = decimal (nat \<bar>x\<bar>) in if length ds < 2 then 48 # ds else ds)"
  have "\<forall>c\<in>set (decimal (nat \<bar>x\<bar>)). is_digit c" "is_digit 48" "decimal (nat \<bar>x\<bar>) \<noteq> []"
    using decimal_digits decimal_length_pos [of "nat \<bar>x\<bar>"] by (auto simp: is_digit_def)
  then have "ds \<noteq> []" "\<forall>c\<in>set ds. is_digit c" by (auto simp: ds_def Let_def)
  moreover have "exponent_text x = 101 # (if x < 0 then 45 else 43) # ds" by (simp only: exponent_text_def ds_def)
  ultimately show ?thesis by auto
qed

lemma exponent_text_length: "- 324 \<le> x \<Longrightarrow> x \<le> 309 \<Longrightarrow> length (exponent_text x) \<le> 5"
  using decimal_length_le [of "nat \<bar>x\<bar>" 3] by (auto simp: exponent_text_def Let_def)

lemma digits_text_shape:
  assumes "0 < n" "10 ^ (n - 1) \<le> d" "d < 10 ^ n" "- 324 \<le> x" "x \<le> 309"
  shows "\<exists>ip fp ep. number_shape (digits_text n d x) [] ip fp ep \<and> length (digits_text n d x) \<le> n + 6"
proof -
  let ?ds = "decimal d"
  have l: "length ?ds = n" by (rule decimal_length_eq [OF assms(2,3,1)])
  have dg: "\<forall>c\<in>set ?ds. is_digit c" "is_digit 48" using decimal_digits by (auto simp: is_digit_def)
  have part: "\<forall>c\<in>set (take k ?ds). is_digit c" "\<forall>c\<in>set (strip_zeros (drop k ?ds)). is_digit c" for k
    using dg(1) strip_zeros_digits [of "drop k ?ds"] by (auto dest: in_set_takeD in_set_dropD)
  have fl: "length (fraction_text (strip_zeros s)) \<le> length s + 1" for s
    using strip_zeros_length [of s] by (simp add: fraction_text_def)
  consider "0 \<le> x" "x < int n" | "- 4 \<le> x" "x < 0" | "\<not> (- 4 \<le> x \<and> x < int n)" by linarith
  then show ?thesis
  proof cases
    case 1
    let ?i = "take (nat x + 1) ?ds" and ?f = "strip_zeros (drop (nat x + 1) ?ds)"
    have t: "digits_text n d x = ?i @ fraction_text ?f" using 1 by (simp add: digits_text_def with_point_fraction Let_def)
    have "?i \<noteq> []" using l assms(1) by auto
    moreover have "length (?i @ fraction_text ?f) \<le> n + 6" using fl [of "drop (nat x + 1) ?ds"] l 1 by simp
    ultimately show ?thesis unfolding t using part
      by (intro exI [of _ ?i] exI [of _ ?f] exI [of _ "[]"]) (auto simp: number_shape_def)
  next
    case 2
    let ?r = "replicate (nat (- x) - 1) 48 @ ?ds"
    have t: "digits_text n d x = [48] @ fraction_text (strip_zeros ?r)" using 2 by (simp add: digits_text_def with_point_fraction Let_def)
    have "\<forall>c\<in>set (strip_zeros ?r). is_digit c" using dg by (intro strip_zeros_digits) auto
    moreover have "length ([48] @ fraction_text (strip_zeros ?r)) \<le> n + 6" using fl [of ?r] l 2 by simp
    ultimately show ?thesis unfolding t using dg(2)
      by (intro exI [of _ "[48]"] exI [of _ "strip_zeros ?r"] exI [of _ "[]"]) (auto simp: number_shape_def)
  next
    case 3
    let ?i = "take 1 ?ds" and ?f = "strip_zeros (drop 1 ?ds)"
    have t: "digits_text n d x = ?i @ fraction_text ?f @ exponent_text x"
      using 3 by (auto simp: digits_text_def with_point_fraction Let_def)
    have "?i \<noteq> []" using l assms(1) by auto
    moreover have "length (?i @ fraction_text ?f @ exponent_text x) \<le> n + 6"
      using fl [of "drop 1 ?ds"] l assms(1) exponent_text_length [OF assms(4,5)] by simp
    ultimately show ?thesis unfolding t using part exponent_text_shape [of x]
      by (intro exI [of _ ?i] exI [of _ ?f] exI [of _ "exponent_text x"]) (auto simp: number_shape_def)
  qed
qed

lemma sprintf_g_shape:
  assumes "binary64 (Fin neg m e)" "0 < n"
  shows "\<exists>sg ip fp ep. number_shape (sprintf_g n (Fin neg m e)) sg ip fp ep \<and> length (sprintf_g n (Fin neg m e)) \<le> n + 7"
proof (cases "m = 0")
  case True
  then show ?thesis
    by (intro exI [of _ "if neg then [45] else []"] exI [of _ "[48]"] exI [of _ "[]"] exI [of _ "[]"])
      (auto simp: number_shape_def is_digit_def fraction_text_def)
next
  case False
  let ?p = "m * 2 ^ nat e" and ?q = "2 ^ nat (- e) :: nat"
  obtain d x where s: "significant n ?p ?q = (d, x)" by fastforce
  have pq: "0 < ?p" "0 < ?q" using False by auto
  note b = significant_bounds [OF pq assms(2) s]
  have "- 324 \<le> first_digit ?p ?q \<and> first_digit ?p ?q \<le> 308"
    using first_digit_range [of m e] False assms(1) by (simp add: binary64_def)
  then have x: "- 324 \<le> x" "x \<le> 309" using b by auto
  obtain ip fp ep where t: "number_shape (digits_text n d x) [] ip fp ep" "length (digits_text n d x) \<le> n + 6"
    using digits_text_shape [OF assms(2) _ _ x, of d] b by blast
  have g: "sprintf_g n (Fin neg m e) = (if neg then [45] else []) @ digits_text n d x" using False s by simp
  show ?thesis unfolding g using t
    by (intro exI [of _ "if neg then [45] else []"] exI [of _ ip] exI [of _ fp] exI [of _ ep]) (auto simp: number_shape_def)
qed


text \<open>\<open>strtod\<close> uses all of such a text.\<close>

lemma takeWhile_digits:
  "\<forall>c\<in>set a. is_digit c \<Longrightarrow> b = [] \<or> \<not> is_digit (hd b) \<Longrightarrow> takeWhile is_digit (a @ b) = a"
  by (cases b) (auto simp: takeWhile_append2)

lemma sign_of_digits: "ip \<noteq> [] \<Longrightarrow> \<forall>c\<in>set ip. is_digit c \<Longrightarrow> sign_of (ip @ t) = (False, 0)"
  by (cases ip) (auto simp: sign_of_def is_digit_def)

lemma double_of_dec_value: "(\<exists>m e. double_of_dec neg d x = Fin neg m e) \<or> double_of_dec neg d x = Inf neg"
  by (auto simp: double_of_dec_def double_of_frac_def Let_def)

lemma exponent_part_shape:
  assumes "g \<in> {43, 45}" "ds \<noteq> []" "\<forall>c\<in>set ds. is_digit c"
  shows "\<exists>x. exponent_part (101 # g # ds) = (x, length (101 # g # ds))"
proof -
  have tw: "takeWhile is_digit ds = ds" using assms(3) by simp
  show ?thesis using assms(1,2) by (auto simp: exponent_part_def sign_of_def tw)
qed

lemma strtod_shape:
  assumes "number_shape s sg ip fp ep"
  shows "\<exists>d. strtod s = (d, length s) \<and> ((\<exists>neg m e. d = Fin neg m e) \<or> (\<exists>neg. d = Inf neg))"
proof -
  have sh: "s = sg @ ip @ fraction_text fp @ ep" "sg \<in> {[], [45]}" "ip \<noteq> []" "\<forall>c\<in>set ip. is_digit c" "\<forall>c\<in>set fp. is_digit c"
      "ep = [] \<or> (\<exists>g ds. ep = 101 # g # ds \<and> g \<in> {43, 45} \<and> ds \<noteq> [] \<and> (\<forall>c\<in>set ds. is_digit c))"
    using assms unfolding number_shape_def by auto
  have nd: "\<not> is_digit 46" "\<not> is_digit 101" by (simp_all add: is_digit_def)
  define neg where "neg = (sg = [45])"
  have sg: "sign_of s = (neg, length sg)"
    using sh(1,2) sign_of_digits [OF sh(3,4)] by (auto simp: neg_def sign_of_def)
  have e0: "ep = [] \<or> \<not> is_digit (hd ep)" using sh(6) nd(2) by auto
  have "fraction_text fp @ ep = [] \<or> \<not> is_digit (hd (fraction_text fp @ ep))" using e0 nd(1) by (auto simp: fraction_text_def)
  then have ip: "takeWhile is_digit (drop (length sg) s) = ip" using takeWhile_digits [OF sh(4)] sh(1) by simp
  have t: "drop (length sg + length ip) s = fraction_text fp @ ep" using sh(1) by simp
  have fp: "(case fraction_text fp @ ep of [] \<Rightarrow> [] | c # cs \<Rightarrow> if c = 46 then takeWhile is_digit cs else []) = fp"
    using takeWhile_digits [OF sh(5) e0] sh(6) by (auto simp: fraction_text_def split: list.splits)
  have dot: "(case fraction_text fp @ ep of [] \<Rightarrow> 0 | c # cs \<Rightarrow> if c = 46 then 1 else 0) + length fp = length (fraction_text fp)"
    using sh(6) by (auto simp: fraction_text_def split: list.splits)
  have "drop (length sg + length ip + length (fraction_text fp)) s = ep" using sh(1) by simp
  moreover obtain x where "exponent_part ep = (x, length ep)"
  proof (cases "ep = []")
    case False
    then obtain g ds where e: "ep = 101 # g # ds" "g \<in> {43, 45}" "ds \<noteq> []" "\<forall>c\<in>set ds. is_digit c" using sh(6) by blast
    then show ?thesis using that exponent_part_shape [OF e(2-4)] by blast
  qed (simp add: exponent_part_def)
  ultimately have "strtod s = (double_of_dec neg (nat (digits_val (ip @ fp))) (x - int (length fp)), length s)"
    using sg ip t fp dot sh(1,3) by (simp add: strtod_def Let_def add.assoc)
  then show ?thesis using double_of_dec_value [of neg] by blast
qed

lemma number_shape_chars:
  assumes "number_shape s sg ip fp ep"
  shows "\<forall>c\<in>set s. number_char c \<and> c \<noteq> 0" "s \<noteq> []" "hd s = 45 \<or> 48 \<le> hd s \<and> hd s \<le> 57"
proof -
  have dg: "\<not> is_digit 0" "is_digit c \<Longrightarrow> number_char c" for c by (auto simp: number_char_def is_digit_def)
  have n: "number_char 45" "number_char 46" "number_char 101" "number_char 43" by (simp_all add: number_char_def)
  show "\<forall>c\<in>set s. number_char c \<and> c \<noteq> 0" using assms dg n unfolding number_shape_def fraction_text_def by auto
  show "s \<noteq> []" using assms by (auto simp: number_shape_def)
  show "hd s = 45 \<or> 48 \<le> hd s \<and> hd s \<le> 57"
    using assms by (cases ip) (auto simp: number_shape_def is_digit_def)
qed

section \<open>What \<open>print_number\<close> writes\<close>

lemma number_text_finite:
  assumes "binary64 (Fin neg m e)"
  shows "\<exists>s sg ip fp ep. number_text (Fin neg m e) = Some s \<and> number_shape s sg ip fp ep \<and> length s \<le> 25"
proof -
  obtain sg ip fp ep where a: "number_shape (sprintf_g 15 (Fin neg m e)) sg ip fp ep" "length (sprintf_g 15 (Fin neg m e)) \<le> 22"
    using sprintf_g_shape [OF assms, of 15] by auto
  obtain sg' ip' fp' ep' where b: "number_shape (sprintf_g 17 (Fin neg m e)) sg' ip' fp' ep'" "length (sprintf_g 17 (Fin neg m e)) \<le> 24"
    using sprintf_g_shape [OF assms, of 17] by auto
  have "number_text (Fin neg m e) \<in> {Some (sprintf_g 15 (Fin neg m e)), Some (sprintf_g 17 (Fin neg m e))}"
    using a(2) b(2) by (simp add: number_text_def sprintf_number_def split: option.split del: sprintf_g.simps)
  then consider "number_text (Fin neg m e) = Some (sprintf_g 15 (Fin neg m e))" | "number_text (Fin neg m e) = Some (sprintf_g 17 (Fin neg m e))" by blast
  then show ?thesis
  proof cases
    case 1
    moreover have "length (sprintf_g 15 (Fin neg m e)) \<le> 25" using a(2) by linarith
    ultimately show ?thesis using a(1) by blast
  next
    case 2
    moreover have "length (sprintf_g 17 (Fin neg m e)) \<le> 25" using b(2) by linarith
    ultimately show ?thesis using b(1) by blast
  qed
qed

lemma number_text_null: "\<not> (\<exists>neg m e. d = Fin neg m e) \<Longrightarrow> number_text d = Some (ascii ''null'')"
  by (cases d) (auto simp: number_text_def sprintf_number_def)

lemma number_text_ok:
  assumes "binary64 d"
  shows "\<exists>s. number_text d = Some s \<and> length s \<le> 25 \<and> 0 \<notin> set s"
proof (cases "\<exists>neg m e. d = Fin neg m e")
  case True
  then obtain neg m e where d: "d = Fin neg m e" by blast
  obtain s sg ip fp ep where s: "number_text d = Some s" "number_shape s sg ip fp ep" "length s \<le> 25"
    using number_text_finite assms unfolding d by blast
  then show ?thesis using number_shape_chars(1) [OF s(2)] by auto
next
  case False
  then show ?thesis using number_text_null [OF False] by (simp add: ascii_def)
qed

end
