(* ===== verification/Cjson_Print_Refine.thy ===== *)
theory Cjson_Print_Refine
  imports Cjson_Render Cjson_Number_Text Cjson_Copy_Refine
begin

text \<open>
  Printing a tree writes its text \<open>render\<close>, whatever the buffer is and whichever allocations fail.
\<close>

section \<open>Outputs in a row\<close>

definition extends :: "heap \<Rightarrow> printbuffer \<Rightarrow> bytes \<Rightarrow> bytes option \<Rightarrow> (bool \<times> printbuffer) option \<Rightarrow> bool" where
  "extends h p T R r \<longleftrightarrow> (\<exists>ok p'. r = Some (ok, p') \<and> pb_step p p' \<and>
     (if ok then \<exists>t. R = Some t \<and> pb_has p' (T @ t) \<and> pb_depth p' = pb_depth p
      else \<forall>t. R = Some t \<longrightarrow> pb_fails h p p' (length T + length t + 2)))"

lemma extends_refl: "pb_has p T \<Longrightarrow> extends h p T (Some []) (Some (True, p))"
  unfolding extends_def by (intro exI [of _ True] exI [of _ p]) simp

lemma extends_put:
  assumes "pb_has p T" "bs = R @ Z" "length bs \<le> n + 1" "length R \<le> n" "n \<le> length R + 1" "k = length R"
  shows "extends h p T (Some R) (put h n bs k p)"
proof -
  have l: "length T + n + 1 \<le> length T + length R + 2" using assms(5) by simp
  obtain ok p' where "put h n bs (length R) p = Some (ok, p')" "pb_step p p'"
    "if ok then pb_has p' (T @ R) \<and> pb_depth p' = pb_depth p else pb_fails h p p' (length T + length R + 2)"
    using put_text [OF assms(1-4) l, of h] by blast
  then show ?thesis unfolding extends_def assms(6)
    by (intro exI [of _ ok] exI [of _ p']) (cases ok; simp)
qed

text \<open>The text of two outputs.\<close>

definition both :: "bytes option \<Rightarrow> bytes option \<Rightarrow> bytes option" where
  "both R1 R2 = do { a \<leftarrow> R1; b \<leftarrow> R2; Some (a @ b) }"

lemma extends_and_then:
  assumes e: "extends h p T R1 r"
    and k: "\<And>p1 t. R1 = Some t \<Longrightarrow> pb_has p1 (T @ t) \<Longrightarrow> pb_step p p1 \<Longrightarrow> pb_depth p1 = pb_depth p \<Longrightarrow> extends h p1 (T @ t) R2 (k p1)"
  shows "extends h p T (both R1 R2) (and_then r k)"
proof -
  obtain ok p1 where r: "r = Some (ok, p1)" "pb_step p p1"
      "if ok then \<exists>t. R1 = Some t \<and> pb_has p1 (T @ t) \<and> pb_depth p1 = pb_depth p
       else \<forall>t. R1 = Some t \<longrightarrow> pb_fails h p p1 (length T + length t + 2)"
    using e unfolding extends_def by blast
  show ?thesis
  proof (cases ok)
    case False
    have "pb_fails h p p1 (length T + length t + 2)" if b: "both R1 R2 = Some t" for t
    proof -
      obtain a b where t: "R1 = Some a" "t = a @ b" using b by (auto simp: both_def bind_eq_Some_conv)
      then show ?thesis using r(3) False pb_fails_mono [of h p p1 "length T + length a + 2"] by simp
    qed
    then show ?thesis using r False unfolding extends_def and_then_def by (intro exI [of _ False] exI [of _ p1]) simp
  next
    case True
    then obtain t where t: "R1 = Some t" "pb_has p1 (T @ t)" "pb_depth p1 = pb_depth p" using r(3) by auto
    obtain ok2 p2 where r2: "k p1 = Some (ok2, p2)" "pb_step p1 p2"
      "if ok2 then \<exists>u. R2 = Some u \<and> pb_has p2 ((T @ t) @ u) \<and> pb_depth p2 = pb_depth p1
       else \<forall>u. R2 = Some u \<longrightarrow> pb_fails h p1 p2 (length (T @ t) + length u + 2)"
      using k [OF t(1,2) r(2) t(3)] unfolding extends_def by blast
    have "and_then r k = Some (ok2, p2)" "pb_step p p2"
      using r(1) True r2(1) pb_step_trans [OF r(2) r2(2)] by (simp_all add: and_then_def)
    moreover have "pb_fails h p p2 (length T + length u + 2)" if b: "\<not> ok2" "both R1 R2 = Some u" for u
    proof -
      obtain w where w: "R2 = Some w" "u = t @ w" using b(2) t(1) by (auto simp: both_def bind_eq_Some_conv)
      then show ?thesis using r2(3) b(1) pb_fails_after [OF r(2), of h p2] by (simp add: add.assoc)
    qed
    ultimately show ?thesis using r2(3) t unfolding extends_def both_def
      by (intro exI [of _ ok2] exI [of _ p2]) (cases ok2; auto)
  qed
qed

lemma extends_moved:
  assumes e: "prints h p T R r" and z: "\<And>t. R = Some t \<Longrightarrow> 0 \<notin> set t"
  shows "extends h p T R (and_update r)"
proof -
  obtain ok p1 where r: "r = Some (ok, p1)" "pb_step p p1"
      "if ok then \<exists>t. R = Some t \<and> pb_wrote p1 T t \<and> pb_depth p1 = pb_depth p
       else \<forall>t. R = Some t \<longrightarrow> pb_fails h p p1 (length T + length t + 2)"
    using e unfolding prints_def by blast
  show ?thesis
  proof (cases ok)
    case False
    then show ?thesis using r unfolding extends_def and_update_def and_then_def by (intro exI [of _ False] exI [of _ p1]) simp
  next
    case True
    then obtain t where t: "R = Some t" "pb_wrote p1 T t" "pb_depth p1 = pb_depth p" using r(3) by auto
    obtain p2 where "update_offset p1 = Some p2" "pb_has p2 (T @ t)" "pb_step p1 p2" "pb_depth p2 = pb_depth p1"
      using update_offset_run [OF t(2) z [OF t(1)]] by blast
    then show ?thesis using r(1,2) t True pb_step_trans [of p p1 p2] by (auto simp: extends_def and_update_def and_then_def)
  qed
qed

lemma prints_and_then:
  assumes e: "extends h p T R1 r"
    and k: "\<And>p1 t. R1 = Some t \<Longrightarrow> pb_has p1 (T @ t) \<Longrightarrow> pb_step p p1 \<Longrightarrow> pb_depth p1 = pb_depth p \<Longrightarrow> prints h p1 (T @ t) R2 (k p1)"
  shows "prints h p T (both R1 R2) (and_then r k)"
proof -
  obtain ok p1 where r: "r = Some (ok, p1)" "pb_step p p1"
      "if ok then \<exists>t. R1 = Some t \<and> pb_has p1 (T @ t) \<and> pb_depth p1 = pb_depth p
       else \<forall>t. R1 = Some t \<longrightarrow> pb_fails h p p1 (length T + length t + 2)"
    using e unfolding extends_def by blast
  show ?thesis
  proof (cases ok)
    case False
    have "pb_fails h p p1 (length T + length t + 2)" if b: "both R1 R2 = Some t" for t
    proof -
      obtain a b where t: "R1 = Some a" "t = a @ b" using b by (auto simp: both_def bind_eq_Some_conv)
      then show ?thesis using r(3) False pb_fails_mono [of h p p1 "length T + length a + 2"] by simp
    qed
    then show ?thesis using r False unfolding prints_def and_then_def by (intro exI [of _ False] exI [of _ p1]) simp
  next
    case True
    then obtain t where t: "R1 = Some t" "pb_has p1 (T @ t)" "pb_depth p1 = pb_depth p" using r(3) by auto
    obtain ok2 p2 where r2: "k p1 = Some (ok2, p2)" "pb_step p1 p2"
      "if ok2 then \<exists>u. R2 = Some u \<and> pb_wrote p2 (T @ t) u \<and> pb_depth p2 = pb_depth p1
       else \<forall>u. R2 = Some u \<longrightarrow> pb_fails h p1 p2 (length (T @ t) + length u + 2)"
      using k [OF t(1,2) r(2) t(3)] unfolding prints_def by blast
    have "and_then r k = Some (ok2, p2)" "pb_step p p2"
      using r(1) True r2(1) pb_step_trans [OF r(2) r2(2)] by (simp_all add: and_then_def)
    moreover have "pb_fails h p p2 (length T + length u + 2)" if b: "\<not> ok2" "both R1 R2 = Some u" for u
    proof -
      obtain w where w: "R2 = Some w" "u = t @ w" using b(2) t(1) by (auto simp: both_def bind_eq_Some_conv)
      then show ?thesis using r2(3) b(1) pb_fails_after [OF r(2), of h p2] by (simp add: add.assoc)
    qed
    moreover have "\<exists>u. both R1 R2 = Some u \<and> pb_wrote p2 T u" if b: ok2
    proof -
      obtain u A B where u: "R2 = Some u" "u = A @ B" "pb_cont p2 ((T @ t) @ A) (B @ [0])"
        using b r2(3) by (auto simp: pb_wrote_def)
      then have "pb_wrote p2 T (t @ u)" unfolding pb_wrote_def by (intro exI [of _ "t @ A"] exI [of _ B]) simp
      then show ?thesis using u(1) t(1) by (simp add: both_def)
    qed
    ultimately show ?thesis using r2(3) t unfolding prints_def
      by (intro exI [of _ ok2] exI [of _ p2]) (cases ok2; auto)
  qed
qed

lemma and_then_assoc: "and_then (and_then r k) m = and_then r (\<lambda>p. and_then (k p) m)"
  by (cases r) (auto simp: and_then_def)

text \<open>The nesting depth around the inside of a container.\<close>

lemma pb_depth_irrelevant [simp]:
  "pb_has (p\<lparr>pb_depth := d\<rparr>) T = pb_has p T" "pb_step (p\<lparr>pb_depth := d\<rparr>) p' = pb_step p p'" "pb_step p (p'\<lparr>pb_depth := d\<rparr>) = pb_step p p'"
  "pb_fails h (p\<lparr>pb_depth := d\<rparr>) p' L = pb_fails h p p' L" "pb_fails h p (p'\<lparr>pb_depth := d\<rparr>) L = pb_fails h p p' L"
  "pb_wrote (p\<lparr>pb_depth := d\<rparr>) T R = pb_wrote p T R"
  by (simp_all add: pb_has_def pb_cont_def pb_step_def pb_fails_def pb_wrote_def)

lemma prints_nested:
  assumes "prints h (p\<lparr>pb_depth := pb_depth p + 1\<rparr>) T R r"
  shows "prints h p T R (and_then r (\<lambda>p3. Some (True, p3\<lparr>pb_depth := pb_depth p3 - 1\<rparr>)))"
  using assms by (auto simp: prints_def and_then_def split: if_splits)

section \<open>Numbers\<close>

lemma print_number_run:
  assumes "pb_has p T" "nodes h a = Some n" "binary64 (c_valuedouble n)"
  shows "prints h p T (number_text (c_valuedouble n)) (print_number h a p)"
proof -
  obtain s where s: "number_text (c_valuedouble n) = Some s" "length s \<le> 25" using number_text_ok [OF assms(3)] by blast
  have m: "map (\<lambda>c. if c = get_decimal_point then 46 else c) s = s" by (rule map_idI) (simp add: get_decimal_point_def)
  have "print_number h a p = put h (length s + 1) (s @ [0]) (length s) p"
    using s assms(2) m by (simp add: print_number_def)
  then show ?thesis using prints_put [OF assms(1), of "s @ [0]" s "length s + 1" s "[]" "length s" h] s(1) by simp
qed


section \<open>Containers\<close>

fun numbers_ok :: "jtree \<Rightarrow> bool" where
  "numbers_ok (JT ty i d v nm ks) \<longleftrightarrow> (ty AND 0xFF = cJSON_Number \<longrightarrow> binary64 d) \<and> (\<forall>k\<in>set ks. numbers_ok k)"

lemma all_some_iff: "all_some xs = Some ys \<longleftrightarrow> xs = map Some ys"
  by (induction xs arbitrary: ys) (auto simp: bind_eq_Some_conv Cons_eq_map_conv)

lemma elements_text_nonzero: "\<forall>r\<in>set rs. 0 \<notin> set r \<Longrightarrow> 0 \<notin> set (elements_text fmt rs)"
  by (induction fmt rs rule: elements_text.induct) auto

lemma members_text_nonzero: "\<forall>m\<in>set ms. 0 \<notin> set (snd m) \<Longrightarrow> 0 \<notin> set (members_text fmt k ms)"
  by (induction ms) (auto simp: member_text_def string_text_nonzero)

lemma render_nonzero: "numbers_ok t \<Longrightarrow> render fmt k t = Some r \<Longrightarrow> 0 \<notin> set r"
proof (induction t arbitrary: k r)
  case (JT ty i d v nm ks)
  have kids: "0 \<notin> set x" if "all_some (map (render fmt (k + 1)) ks) = Some rs" "x \<in> set rs" for rs x
  proof -
    have e: "map (render fmt (k + 1)) ks = map Some rs" using that(1) by (simp add: all_some_iff)
    then have "Some x \<in> set (map (render fmt (k + 1)) ks)" using that(2) by simp
    then obtain u where "u \<in> set ks" "render fmt (k + 1) u = Some x" by auto
    then show ?thesis using JT.IH JT.prems(1) by auto
  qed
  have num: "ty AND 0xFF = cJSON_Number \<Longrightarrow> number_text d = Some r \<Longrightarrow> 0 \<notin> set r"
    using number_text_ok [of d] JT.prems(1) by auto
  note R = JT.prems(2)[unfolded render.simps]
  consider "ty AND 0xFF = cJSON_Array" | "ty AND 0xFF = cJSON_Object" | "ty AND 0xFF \<noteq> cJSON_Array" "ty AND 0xFF \<noteq> cJSON_Object" by blast
  then show ?case
  proof cases
    case 1
    then obtain rs where "all_some (map (render fmt (k + 1)) ks) = Some rs" "r = 91 # elements_text fmt rs @ [93]" using R by auto
    then show ?thesis using kids elements_text_nonzero [of rs fmt] by auto
  next
    case 2
    then obtain rs where rs: "all_some (map (render fmt (k + 1)) ks) = Some rs"
        "r = 123 # (if fmt then [10] else []) @ members_text fmt (k + 1) (zip (map jt_name ks) rs) @ (if fmt then replicate k 9 else []) @ [125]"
      using R by auto
    have "0 \<notin> set (members_text fmt (k + 1) (zip (map jt_name ks) rs))"
      by (rule members_text_nonzero) (use kids [OF rs(1)] in \<open>auto dest: set_zip_rightD\<close>)
    then show ?thesis using rs(2) by auto
  next
    case 3
    then show ?thesis using R num string_text_nonzero [of v] until_null_nonzero
      by (auto simp: ascii_def split: if_splits)
  qed
qed

text \<open>What is known of the printing of the children.\<close>

definition prints_kids :: "heap \<Rightarrow> (nat \<Rightarrow> printbuffer \<Rightarrow> (bool \<times> printbuffer) option) \<Rightarrow> (nat list \<times> jtree) list \<Rightarrow> nat list \<Rightarrow> bool" where
  "prints_kids h pv Ks ps \<longleftrightarrow> list_all2 (\<lambda>q K. numbers_ok (snd K)
     \<and> (\<exists>n Fs. nodes h q = Some n \<and> own h (c_string n) Fs (jt_name (snd K))) \<and> (\<forall>p T. pb_has p T \<longrightarrow>
     prints h p T (render (pb_format p) (pb_depth p) (snd K)) (pv q p))) ps Ks"

lemma pb_step_format: "pb_step p p' \<Longrightarrow> pb_format p' = pb_format p"
  by (simp add: pb_step_def)

lemma kid_moved:
  assumes "prints_kids h pv (K # Ks) (q # ps)" "pb_has p T"
  shows "extends h p T (render (pb_format p) (pb_depth p) (snd K)) (and_update (pv q p))" "prints_kids h pv Ks ps"
  using assms render_nonzero by (auto simp: prints_kids_def intro: extends_moved)

lemma and_then_bind: "n = Some x \<Longrightarrow> and_then r (\<lambda>p. do { y \<leftarrow> n; k y p }) = and_then r (k x)"
  by (simp add: and_then_def)

lemma print_elements_run:
  "seg (nodes h) b ps 0 \<Longrightarrow> 0 \<notin> set ps \<Longrightarrow> prints_kids h pv Ks ps \<Longrightarrow> length ps < g \<Longrightarrow> pb_has p T \<Longrightarrow>
   extends h p T (map_option (elements_text (pb_format p)) (all_some (map (render (pb_format p) (pb_depth p)) (map snd Ks))))
     (print_elements pv h g (hd (ps @ [0])) p)"
proof (induction ps arbitrary: b Ks g p T)
  case Nil
  then show ?case using extends_refl by (cases g) (auto simp: prints_kids_def)
next
  case (Cons q ps)
  obtain K Ks' where K: "Ks = K # Ks'" using Cons.prems(3) by (cases Ks) (auto simp: prints_kids_def)
  obtain g' where g: "g = Suc g'" "length ps < g'" using Cons.prems(4) by (cases g) auto
  obtain n where n: "nodes h q = Some n" "c_next n = hd (ps @ [0])" and sg: "seg (nodes h) q ps 0" using Cons.prems(1) by auto
  note m = kid_moved [OF Cons.prems(3)[unfolded K] Cons.prems(5)]
  let ?fmt = "pb_format p" and ?d = "pb_depth p"
  let ?R = "all_some (map (render ?fmt ?d) (map snd Ks'))"
  have run: "print_elements pv h g (hd ((q # ps) @ [0])) p =
      and_then (and_update (pv q p)) (\<lambda>p1.
        if c_next n \<noteq> 0
        then let len = (if pb_format p1 then 2 else 1) in
          and_then (put h (len + 1) (44 # (if pb_format p1 then [32] else []) @ [0]) len p1)
            (print_elements pv h g' (c_next n))
        else print_elements pv h g' (c_next n) p1)"
    using n(1) Cons.prems(2) g(1) by simp
  show ?case
  proof (cases "ps = []")
    case True
    then have Ks: "Ks' = []" using m(2) by (simp add: prints_kids_def)
    have e: "extends h p1 T1 (Some []) (print_elements pv h g' 0 p1)" if "pb_has p1 T1" for p1 T1
      using g(2) extends_refl [OF that] by (cases g') auto
    have "extends h p T (both (render ?fmt ?d (snd K)) (Some [])) (print_elements pv h g (hd ((q # ps) @ [0])) p)"
      unfolding run using n(2) True by (intro extends_and_then [OF m(1)]) (simp add: e)
    then show ?thesis using K Ks by (cases "render ?fmt ?d (snd K)") (simp_all add: both_def)
  next
    case False
    then have ne: "c_next n \<noteq> 0" using n(2) Cons.prems(2) by (cases ps) auto
    let ?sep = "44 # (if ?fmt then [32] else [])"
    have "extends h p T (both (render ?fmt ?d (snd K)) (both (Some ?sep) (map_option (elements_text ?fmt) ?R)))
        (print_elements pv h g (hd ((q # ps) @ [0])) p)"
      unfolding run
    proof (rule extends_and_then [OF m(1)])
      fix p1 t
      assume a: "pb_has p1 (T @ t)" "pb_step p p1" "pb_depth p1 = ?d"
      note f = pb_step_format [OF a(2)]
      have "extends h p1 (T @ t) (both (Some ?sep) (map_option (elements_text ?fmt) ?R))
          (and_then (put h ((if ?fmt then 2 else 1) + 1) (44 # (if ?fmt then [32] else []) @ [0]) (if ?fmt then 2 else 1) p1)
            (print_elements pv h g' (c_next n)))"
      proof (rule extends_and_then)
        show "extends h p1 (T @ t) (Some ?sep) (put h ((if ?fmt then 2 else 1) + 1) (44 # (if ?fmt then [32] else []) @ [0]) (if ?fmt then 2 else 1) p1)"
          by (rule extends_put [OF a(1), where Z = "[0]"]) auto
        fix p2 u
        assume c: "pb_has p2 ((T @ t) @ u)" "pb_step p1 p2" "pb_depth p2 = pb_depth p1"
        show "extends h p2 ((T @ t) @ u) (map_option (elements_text ?fmt) ?R) (print_elements pv h g' (c_next n) p2)"
          using Cons.IH [OF sg _ m(2) g(2) c(1)] Cons.prems(2) pb_step_format [OF c(2)] f c(3) a(3) n(2) by simp
      qed
      then show "extends h p1 (T @ t) (both (Some ?sep) (map_option (elements_text ?fmt) ?R))
          (if c_next n \<noteq> 0
           then let len = (if pb_format p1 then 2 else 1) in
             and_then (put h (len + 1) (44 # (if pb_format p1 then [32] else []) @ [0]) len p1) (print_elements pv h g' (c_next n))
           else print_elements pv h g' (c_next n) p1)"
        using ne f by (simp add: Let_def)
    qed
    moreover have "Ks' \<noteq> []" using m(2) False by (auto simp: prints_kids_def)
    then have "all_some (map (render ?fmt ?d) (map snd Ks')) \<noteq> Some []" by (auto simp: all_some_iff)
    then have "both (render ?fmt ?d (snd K)) (both (Some ?sep) (map_option (elements_text ?fmt) ?R))
        = map_option (elements_text ?fmt) (all_some (map (render ?fmt ?d) (map snd Ks)))"
      unfolding K by (cases "render ?fmt ?d (snd K)"; cases "?R"; cases "the ?R") (auto simp: both_def)
    ultimately show ?thesis by simp
  qed
qed


lemma print_indent_run:
  "pb_has p T \<Longrightarrow> extends h p T (Some (if pb_format p then replicate (pb_depth p) 9 else [])) (print_indent h p)"
  using extends_put [of p T "replicate (pb_depth p) 9" "replicate (pb_depth p) 9" "[]" "pb_depth p" "pb_depth p" h] extends_refl
  by (auto simp: print_indent_def)

text \<open>A member with what separates it from the next one.\<close>

lemma print_member_run:
  assumes k: "prints_kids h pv (K # Ks) (q # ps)" and b: "pb_has p T" and n: "nodes h q = Some n"
    and nx: "c_next n \<noteq> 0 \<longleftrightarrow> mr"
    and rest: "\<And>p' T'. pb_has p' T' \<Longrightarrow> pb_format p' = pb_format p \<Longrightarrow> pb_depth p' = pb_depth p \<Longrightarrow> extends h p' T' R (print_members pv h g (c_next n) p')"
    and q: "q \<noteq> 0"
  shows "extends h p T (both (map_option (\<lambda>r. member_text (pb_format p) (pb_depth p) (jt_name (snd K), r) @ (if mr then [44] else []) @ (if pb_format p then [10] else []))
      (render (pb_format p) (pb_depth p) (snd K))) R) (print_members pv h (Suc g) q p)"
proof -
  let ?fmt = "pb_format p" and ?d = "pb_depth p"
  let ?ind = "if ?fmt then replicate ?d 9 else []" and ?sep = "58 # (if ?fmt then [9] else [])"
    and ?fin = "(if mr then [44] else []) @ (if ?fmt then [10] else [])" and ?nm = "string_text (jt_name (snd K))"
  obtain Fs where nm: "own h (c_string n) Fs (jt_name (snd K))" using k n by (auto simp: prints_kids_def)
  have "extends h p T (both (Some ?ind) (both (Some ?nm) (both (Some ?sep) (both (render ?fmt ?d (snd K)) (both (Some ?fin) R)))))
     (print_members pv h (Suc g) q p)"
    unfolding print_members.simps(2) if_not_P [OF q] n bind.bind_lunit
  proof (rule extends_and_then [OF print_indent_run [OF b]])
    fix p1 t1
    assume a1: "pb_has p1 (T @ t1)" "pb_step p p1" "pb_depth p1 = ?d"
    note f1 = pb_step_format [OF a1(2)]
    show "extends h p1 (T @ t1) (both (Some ?nm) (both (Some ?sep) (both (render ?fmt ?d (snd K)) (both (Some ?fin) R))))
       (and_then (and_update (print_string_ptr h (c_string n) p1)) (\<lambda>p2.
          let len = (if pb_format p2 then 2 else 1) in
          and_then (put h len (58 # (if pb_format p2 then [9] else [])) len p2) (\<lambda>p3.
            and_then (and_update (pv q p3)) (\<lambda>p4.
              let len = (if pb_format p4 then 1 else 0) + (if c_next n \<noteq> 0 then 1 else 0) in
              and_then (put h (len + 1) ((if c_next n \<noteq> 0 then [44] else []) @ (if pb_format p4 then [10] else []) @ [0]) len p4)
                (print_members pv h g (c_next n))))))"
    proof (rule extends_and_then [OF extends_moved [OF print_string_ptr_run [OF a1(1) nm]]])
      show "0 \<notin> set t" if "Some ?nm = Some t" for t using that string_text_nonzero by auto
      fix p2 t2
      assume a2: "pb_has p2 ((T @ t1) @ t2)" "pb_step p1 p2" "pb_depth p2 = pb_depth p1"
      have f2: "pb_format p2 = ?fmt" using pb_step_format [OF a2(2)] f1 by simp
      have "extends h p2 ((T @ t1) @ t2) (both (Some ?sep) (both (render ?fmt ?d (snd K)) (both (Some ?fin) R)))
         (and_then (put h (if ?fmt then 2 else 1) ?sep (if ?fmt then 2 else 1) p2) (\<lambda>p3.
            and_then (and_update (pv q p3)) (\<lambda>p4.
              let len = (if pb_format p4 then 1 else 0) + (if c_next n \<noteq> 0 then 1 else 0) in
              and_then (put h (len + 1) ((if c_next n \<noteq> 0 then [44] else []) @ (if pb_format p4 then [10] else []) @ [0]) len p4)
                (print_members pv h g (c_next n)))))"
      proof (rule extends_and_then [OF extends_put [OF a2(1), where Z = "[]"]])
        fix p3 t3
        assume a3: "pb_has p3 (((T @ t1) @ t2) @ t3)" "pb_step p2 p3" "pb_depth p3 = pb_depth p2"
        have f3: "pb_format p3 = ?fmt" "pb_depth p3 = ?d" using pb_step_format [OF a3(2)] f2 a1(3) a2(3) a3(3) by simp_all
        show "extends h p3 (((T @ t1) @ t2) @ t3) (both (render ?fmt ?d (snd K)) (both (Some ?fin) R))
            (and_then (and_update (pv q p3)) (\<lambda>p4.
              let len = (if pb_format p4 then 1 else 0) + (if c_next n \<noteq> 0 then 1 else 0) in
              and_then (put h (len + 1) ((if c_next n \<noteq> 0 then [44] else []) @ (if pb_format p4 then [10] else []) @ [0]) len p4)
                (print_members pv h g (c_next n))))"
        proof (rule extends_and_then [OF kid_moved(1) [OF k a3(1), unfolded f3]])
          fix p4 t4
          assume a4: "pb_has p4 ((((T @ t1) @ t2) @ t3) @ t4)" "pb_step p3 p4" "pb_depth p4 = pb_depth p3"
          have f4: "pb_format p4 = ?fmt" "pb_depth p4 = ?d" using pb_step_format [OF a4(2)] f3 a4(3) by simp_all
          let ?len = "(if ?fmt then 1 else 0) + (if mr then 1 else 0) :: nat"
          have "extends h p4 ((((T @ t1) @ t2) @ t3) @ t4) (both (Some ?fin) R)
              (and_then (put h (?len + 1) (?fin @ [0]) ?len p4) (print_members pv h g (c_next n)))"
          proof (rule extends_and_then [OF extends_put [OF a4(1), where Z = "[0]"]])
            fix p5 t5
            assume a5: "pb_has p5 (((((T @ t1) @ t2) @ t3) @ t4) @ t5)" "pb_step p4 p5" "pb_depth p5 = pb_depth p4"
            show "extends h p5 (((((T @ t1) @ t2) @ t3) @ t4) @ t5) R (print_members pv h g (c_next n) p5)"
              by (rule rest [OF a5(1)]) (use pb_step_format [OF a5(2)] f4 a5(3) in simp_all)
          qed auto
          then show "extends h p4 ((((T @ t1) @ t2) @ t3) @ t4) (both (Some ?fin) R)
              (let len = (if pb_format p4 then 1 else 0) + (if c_next n \<noteq> 0 then 1 else 0) in
              and_then (put h (len + 1) ((if c_next n \<noteq> 0 then [44] else []) @ (if pb_format p4 then [10] else []) @ [0]) len p4)
                (print_members pv h g (c_next n)))"
            unfolding nx f4 Let_def by simp
        qed
      qed auto
      then show "extends h p2 ((T @ t1) @ t2) (both (Some ?sep) (both (render ?fmt ?d (snd K)) (both (Some ?fin) R)))
         (let len = (if pb_format p2 then 2 else 1) in
          and_then (put h len (58 # (if pb_format p2 then [9] else [])) len p2) (\<lambda>p3.
            and_then (and_update (pv q p3)) (\<lambda>p4.
              let len = (if pb_format p4 then 1 else 0) + (if c_next n \<noteq> 0 then 1 else 0) in
              and_then (put h (len + 1) ((if c_next n \<noteq> 0 then [44] else []) @ (if pb_format p4 then [10] else []) @ [0]) len p4)
                (print_members pv h g (c_next n)))))"
        unfolding f2 by (simp only: Let_def)
    qed
  qed
  moreover have "both (Some ?ind) (both (Some ?nm) (both (Some ?sep) (both (render ?fmt ?d (snd K)) (both (Some ?fin) R))))
      = both (map_option (\<lambda>r. member_text ?fmt ?d (jt_name (snd K), r) @ ?fin) (render ?fmt ?d (snd K))) R"
    by (cases "render ?fmt ?d (snd K)"; cases R) (simp_all add: both_def member_text_def)
  ultimately show ?thesis by simp
qed

lemma print_members_run:
  "seg (nodes h) b ps 0 \<Longrightarrow> 0 \<notin> set ps \<Longrightarrow> prints_kids h pv Ks ps \<Longrightarrow> length ps < g \<Longrightarrow> pb_has p T \<Longrightarrow>
   extends h p T (map_option (\<lambda>rs. members_text (pb_format p) (pb_depth p) (zip (map (jt_name \<circ> snd) Ks) rs))
       (all_some (map (render (pb_format p) (pb_depth p)) (map snd Ks))))
     (print_members pv h g (hd (ps @ [0])) p)"
proof (induction ps arbitrary: b Ks g p T)
  case Nil
  then show ?case using extends_refl by (cases g) (auto simp: prints_kids_def)
next
  case (Cons q ps)
  obtain K Ks' where K: "Ks = K # Ks'" using Cons.prems(3) by (cases Ks) (auto simp: prints_kids_def)
  obtain g' where g: "g = Suc g'" "length ps < g'" using Cons.prems(4) by (cases g) auto
  obtain n where n: "nodes h q = Some n" "c_next n = hd (ps @ [0])" and sg: "seg (nodes h) q ps 0" using Cons.prems(1) by auto
  have k: "prints_kids h pv (K # Ks') (q # ps)" using Cons.prems(3) K by simp
  note k' = kid_moved(2) [OF k Cons.prems(5)]
  let ?fmt = "pb_format p" and ?d = "pb_depth p"
  let ?R = "map_option (\<lambda>rs. members_text ?fmt ?d (zip (map (jt_name \<circ> snd) Ks') rs)) (all_some (map (render ?fmt ?d) (map snd Ks')))"
  have mr: "c_next n \<noteq> 0 \<longleftrightarrow> Ks' \<noteq> []"
    using n(2) Cons.prems(2) k' by (cases ps) (auto simp: prints_kids_def)
  have "extends h p T (both (map_option (\<lambda>r. member_text ?fmt ?d (jt_name (snd K), r) @ (if Ks' \<noteq> [] then [44] else []) @ (if ?fmt then [10] else []))
      (render ?fmt ?d (snd K))) ?R) (print_members pv h (Suc g') q p)"
  proof (rule print_member_run [OF k Cons.prems(5) n(1) mr])
    fix p' T'
    assume a: "pb_has p' T'" "pb_format p' = ?fmt" "pb_depth p' = ?d"
    show "extends h p' T' ?R (print_members pv h g' (c_next n) p')"
      using Cons.IH [OF sg _ k' g(2) a(1)] Cons.prems(2) a(2,3) n(2) by (simp add: comp_def)
  qed (use Cons.prems(2) in auto)
  moreover have "both (map_option (\<lambda>r. member_text ?fmt ?d (jt_name (snd K), r) @ (if Ks' \<noteq> [] then [44] else []) @ (if ?fmt then [10] else []))
      (render ?fmt ?d (snd K))) ?R
    = map_option (\<lambda>rs. members_text ?fmt ?d (zip (map (jt_name \<circ> snd) Ks) rs)) (all_some (map (render ?fmt ?d) (map snd Ks)))"
  proof (cases "all_some (map (render ?fmt ?d) (map snd Ks'))")
    case (Some rs)
    then have "length rs = length Ks'" using all_some_iff [of "map (render ?fmt ?d) (map snd Ks')" rs] by (metis length_map)
    then have "zip (map (jt_name \<circ> snd) Ks') rs = [] \<longleftrightarrow> Ks' = []" by (cases Ks'; cases rs) auto
    then show ?thesis using Some K by (cases "render ?fmt ?d (snd K)") (auto simp: both_def)
  qed (use K in \<open>cases "render ?fmt ?d (snd K)"; simp add: both_def\<close>)
  ultimately show ?case unfolding g(1) by (simp only: append_Cons list.sel)
qed


section \<open>Values\<close>

lemma prints_false: "prints h p T None (Some (False, p))"
  unfolding prints_def by (intro exI [of _ False] exI [of _ p]) simp

lemma print_raw_run:
  assumes "pb_has p T" "nodes h a = Some n" "own h (c_valuestring n) F v"
  shows "prints h p T (map_option until_null v) (print_raw h a p)"
proof (cases "c_valuestring n = 0")
  case True
  then have "v = None" using assms(3) by (simp add: own_def)
  then show ?thesis using True assms(2) prints_false by (simp add: print_raw_def)
next
  case False
  then obtain s where s: "v = Some s" "strs h (c_valuestring n) = Some s" "0 \<in> set s" using assms(3) by (auto simp: own_def)
  have "take (length (until_null s) + 1) s = until_null s @ [0]"
  proof -
    have "s = until_null s @ dropWhile (\<lambda>c. c \<noteq> 0) s" by (simp add: until_null_def)
    moreover obtain r where "dropWhile (\<lambda>c. c \<noteq> 0) s = 0 # r"
      using s(3) hd_dropWhile [of "\<lambda>c. c \<noteq> 0" s] by (cases "dropWhile (\<lambda>c. c \<noteq> 0) s") auto
    ultimately show ?thesis by (metis append_eq_conv_conj length_append_singleton Suc_eq_plus1 append.assoc append_Cons append_Nil)
  qed
  then have "print_raw h a p = put h (length (until_null s) + 1) (until_null s @ [0]) 0 p"
    using False s(2,3) assms(2) by (simp add: print_raw_def c_strlen_def until_null_def)
  then show ?thesis using prints_put [OF assms(1), of _ "until_null s" _ "[]" "until_null s" 0] s(1) by simp
qed

lemma kids_printed:
  assumes IH: "\<And>q F u p T. item h q F u \<Longrightarrow> length F < f \<Longrightarrow> numbers_ok u \<Longrightarrow> pb_has p T \<Longrightarrow>
      prints h p T (render (pb_format p) (pb_depth p) u) (pv q p)"
    and k: "kids_in h ps Ks" and l: "length (concat (map fst Ks)) < f" and o: "\<forall>u\<in>set (map snd Ks). numbers_ok u"
  shows "prints_kids h pv Ks ps" "length ps < f"
proof -
  have item_ne: "item h q G u \<Longrightarrow> 0 < length G" for q G u using item_in [of h q G u] by auto
  show "prints_kids h pv Ks ps" using k l o unfolding kids_in_def prints_kids_def
  proof (induction rule: list_all2_induct)
    case (Cons q ps K Ks)
    have "\<exists>n Fs. nodes h q = Some n \<and> own h (c_string n) Fs (jt_name (snd K))"
      using Cons.hyps(1) unfolding item_parts by auto
    then show ?case using Cons IH [OF Cons.hyps(1)] by simp
  qed simp
  show "length ps < f" using k l unfolding kids_in_def
  proof (induction arbitrary: f rule: list_all2_induct)
    case (Cons q ps K Ks)
    then have "length ps < f - length (fst K)" by simp
    then show ?case using item_ne [OF Cons.hyps(1)] unfolding list.size by linarith
  qed simp
qed

lemma print_value_run:
  "item h q F t \<Longrightarrow> length F < f \<Longrightarrow> numbers_ok t \<Longrightarrow> pb_has p T \<Longrightarrow>
   prints h p T (render (pb_format p) (pb_depth p) t) (print_value f h q p)"
proof (induction f arbitrary: q F t p T)
  case (Suc f)
  obtain n Fv v Fs nm ps Ks where i: "nodes h q = Some n" "q \<noteq> 0" "own h (c_valuestring n) Fv v" "own h (c_string n) Fs nm"
      "kids_in h ps Ks" "linked (nodes h) ps" "c_child n = hd (ps @ [0])" "F = q # Fv @ Fs @ concat (map fst Ks)"
      "t = JT (c_type n) (c_valueint n) (c_valuedouble n) v nm (map snd Ks)"
    using Suc.prems(1) unfolding item_parts by blast
  have ok: "\<forall>u\<in>set (map snd Ks). numbers_ok u" "c_type n AND 0xFF = 8 \<Longrightarrow> binary64 (c_valuedouble n)"
    using Suc.prems(3) i(9) by auto
  have l: "length (concat (map fst Ks)) < f" using Suc.prems(2) i(8) by simp
  note kids = kids_printed [of h f "print_value f h", OF Suc.IH i(5) l ok(1)]
  have z: "0 \<notin> set ps" using kids_in_roots [OF i(5)] by simp
  have sg: "seg (nodes h) (last ps) ps 0" using i(6) by (simp add: linked_def)
  let ?fmt = "pb_format p" and ?d = "pb_depth p" and ?ty = "c_type n AND 0xFF"
  let ?as = "all_some (map (render ?fmt (?d + 1)) (map snd Ks))"
  consider "?ty = cJSON_Array" | "?ty = cJSON_Object" | "?ty \<noteq> cJSON_Array" "?ty \<noteq> cJSON_Object" by blast
  then show ?case
  proof cases
    case 1
    have "prints h p T (both (Some [91]) (both (map_option (elements_text ?fmt) ?as) (Some [93]))) (print_array (print_value f h) h f q p)"
      unfolding print_array_def i(1) bind.bind_lunit
    proof (rule prints_and_then [OF extends_put [OF Suc.prems(4), where Z = "[]"]])
      fix p1 t1
      assume a1: "pb_has p1 (T @ t1)" "pb_step p p1" "pb_depth p1 = ?d"
      have e: "extends h (p1\<lparr>pb_depth := pb_depth p1 + 1\<rparr>) (T @ t1) (map_option (elements_text ?fmt) ?as)
          (print_elements (print_value f h) h f (c_child n) (p1\<lparr>pb_depth := pb_depth p1 + 1\<rparr>))"
        using print_elements_run [OF sg z kids, where p = "p1\<lparr>pb_depth := pb_depth p1 + 1\<rparr>" and T = "T @ t1"] a1 pb_step_format [OF a1(2)] i(7) by simp
      have "prints h (p1\<lparr>pb_depth := pb_depth p1 + 1\<rparr>) (T @ t1) (both (map_option (elements_text ?fmt) ?as) (Some [93]))
        (and_then (print_elements (print_value f h) h f (c_child n) (p1\<lparr>pb_depth := pb_depth p1 + 1\<rparr>)) (put h 2 [93, 0] 0))"
        by (rule prints_and_then [OF e]) (rule prints_put [where A = "[]"]; simp)
      from prints_nested [OF this]
      show "prints h p1 (T @ t1) (both (map_option (elements_text ?fmt) ?as) (Some [93]))
          (and_then (print_elements (print_value f h) h f (c_child n) (p1\<lparr>pb_depth := pb_depth p1 + 1\<rparr>)) (\<lambda>p2.
            and_then (put h 2 [93, 0] 0 p2) (\<lambda>p3. Some (True, p3\<lparr>pb_depth := pb_depth p3 - 1\<rparr>))))"
        unfolding and_then_assoc .
    qed auto
    moreover have "both (Some [91]) (both (map_option (elements_text ?fmt) ?as) (Some [93])) = render ?fmt ?d t"
      using 1 i(9) by (cases ?as) (simp_all add: both_def render.simps)
    ultimately show ?thesis using i(1,2) 1 by simp
  next
    case 2
    let ?nl = "if ?fmt then [10] else []" and ?tb = "(if ?fmt then replicate ?d 9 else []) @ [125]"
      and ?R = "map_option (\<lambda>rs. members_text ?fmt (?d + 1) (zip (map (jt_name \<circ> snd) Ks) rs)) ?as"
    have "prints h p T (both (Some (123 # ?nl)) (both ?R (Some ?tb))) (print_object (print_value f h) h f q p)"
      unfolding print_object_def i(1) bind.bind_lunit Let_def
    proof (rule prints_and_then [OF extends_put [OF Suc.prems(4), where Z = "[]"]])
      fix p1 t1
      assume a1: "pb_has p1 (T @ t1)" "pb_step p p1" "pb_depth p1 = ?d"
      let ?p = "p1\<lparr>pb_depth := pb_depth p1 + 1\<rparr>"
      let ?close = "\<lambda>p2. put h (if pb_format p2 then pb_depth p2 + 1 else 2) ((if pb_format p2 then replicate (pb_depth p2 - 1) 9 else []) @ [125, 0]) 0 p2"
      have e: "extends h ?p (T @ t1) ?R (print_members (print_value f h) h f (c_child n) ?p)"
        using print_members_run [OF sg z kids, where p = ?p and T = "T @ t1"] a1 pb_step_format [OF a1(2)] i(7) by simp
      have "prints h ?p (T @ t1) (both ?R (Some ?tb)) (and_then (print_members (print_value f h) h f (c_child n) ?p) ?close)"
      proof (rule prints_and_then [OF e])
        fix p2 t2
        assume a2: "pb_has p2 ((T @ t1) @ t2)" "pb_step ?p p2" "pb_depth p2 = pb_depth ?p"
        have f: "pb_format p2 = ?fmt" "pb_depth p2 = ?d + 1" using pb_step_format [OF a2(2)] pb_step_format [OF a1(2)] a1(3) a2(3) by simp_all
        show "prints h p2 ((T @ t1) @ t2) (Some ?tb) (?close p2)"
          unfolding f by (rule prints_put [OF a2(1), where A = "[]" and B = ?tb]) auto
      qed
      from prints_nested [OF this]
      show "prints h p1 (T @ t1) (both ?R (Some ?tb))
          (and_then (print_members (print_value f h) h f (c_child n) ?p) (\<lambda>p2.
            and_then (?close p2) (\<lambda>p3. Some (True, p3\<lparr>pb_depth := pb_depth p3 - 1\<rparr>))))"
        unfolding and_then_assoc .
    qed auto
    moreover have "both (Some (123 # ?nl)) (both ?R (Some ?tb)) = render ?fmt ?d t"
      using 2 i(9) by (cases ?as) (simp_all add: both_def render.simps comp_def)
    ultimately show ?thesis using i(1,2) 2 by simp
  next
    case 3
    consider "?ty = cJSON_NULL" | "?ty = cJSON_False" | "?ty = cJSON_True" | "?ty = cJSON_Number" | "?ty = cJSON_Raw" | "?ty = cJSON_String"
      | "\<not> (?ty = cJSON_NULL \<or> ?ty = cJSON_False \<or> ?ty = cJSON_True \<or> ?ty = cJSON_Number \<or> ?ty = cJSON_Raw \<or> ?ty = cJSON_String)" by blast
    then show ?thesis
    proof cases
      case 1
      then show ?thesis using i(1,2,9) prints_put [OF Suc.prems(4), of "ascii ''null'' @ [0]" "ascii ''null''" 5 "[]" "ascii ''null''" 0 h]
        by (simp add: render.simps)
    next
      case 2
      then show ?thesis using i(1,2,9) prints_put [OF Suc.prems(4), of "ascii ''false'' @ [0]" "ascii ''false''" 6 "[]" "ascii ''false''" 0 h]
        by (simp add: render.simps)
    next
      case 3
      then show ?thesis using i(1,2,9) prints_put [OF Suc.prems(4), of "ascii ''true'' @ [0]" "ascii ''true''" 5 "[]" "ascii ''true''" 0 h]
        by (simp add: render.simps)
    next
      case 4
      then show ?thesis using i(1,2,9) print_number_run [OF Suc.prems(4) i(1) ok(2)] by (simp add: render.simps)
    next
      case 5
      then show ?thesis using i(1,2,9) print_raw_run [OF Suc.prems(4) i(1,3)] by (simp add: render.simps)
    next
      case 6
      then show ?thesis using i(1,2,9) print_string_ptr_run [OF Suc.prems(4) i(3)] by (simp add: render.simps print_string_def)
    next
      case 7
      then show ?thesis using i(1,2,9) 3 prints_false by (simp add: render.simps)
    qed
  qed
qed simp


section \<open>The functions of the interface\<close>

lemma takeWhile_initialised: "takeWhile (\<lambda>c. c \<noteq> None) (map Some r @ z) = map Some r @ takeWhile (\<lambda>c. c \<noteq> None) z"
  by (induction r) auto

lemma initialised_prefix: "take (length r) buf = map Some r \<Longrightarrow> \<exists>z. initialised buf = r @ z"
proof -
  assume t: "take (length r) buf = map Some r"
  have "buf = map Some r @ drop (length r) buf" using append_take_drop_id [of "length r" buf] unfolding t by simp
  then have "initialised buf = map the (map Some r @ takeWhile (\<lambda>c. c \<noteq> None) (drop (length r) buf))"
    unfolding initialised_def by (metis (no_types) takeWhile_initialised)
  then show ?thesis by (simp add: comp_def)
qed

lemma initialised_all [simp]: "initialised (map Some r) = r"
  using takeWhile_initialised [of r "[]"] unfolding initialised_def by (simp del: takeWhile_eq_all_conv add: comp_def)

text \<open>The heap after printing: only the result is new; after a failure memory ran out or the text was too long.\<close>

definition printed :: "heap \<Rightarrow> bytes option \<Rightarrow> (bytes \<Rightarrow> bytes \<Rightarrow> bool) \<Rightarrow> nat \<times> heap \<Rightarrow> bool" where
  "printed h R C r \<longleftrightarrow>
     (case r of (q, h') \<Rightarrow> heap_step h h' \<and> nodes h' = nodes h
        \<and> (if q = 0 then strs h' = strs h \<and> (\<forall>t. R = Some t \<longrightarrow> INT_MAX < length t + 2 \<or> oom h h')
           else brk h < q \<and> q \<le> brk h' \<and> (\<exists>t s. R = Some t \<and> C t s \<and> strs h' = (strs h)(q \<mapsto> s))))"

lemma brk_step: "heap_wf h \<Longrightarrow> heap_step h (h\<lparr>brk := brk h + n\<rparr>)"
  unfolding heap_step_def heap_wf_def by (simp, meson trans_le_add1)

lemma print_value_start:
  assumes "item h a F t" "distinct F" "heap_wf h" "numbers_ok t" "pb_has p []" "pb_format p = fmt" "pb_depth p = 0"
  shows "\<exists>ok p1. print_value (brk h + 1) h a p = Some (ok, p1) \<and> pb_step p p1
    \<and> (if ok then \<exists>u. render fmt 0 t = Some u \<and> pb_wrote p1 [] u
       else \<forall>u. render fmt 0 t = Some u \<longrightarrow> pb_fails h p p1 (length u + 2))"
proof -
  obtain ok p1 where r: "print_value (brk h + 1) h a p = Some (ok, p1)" "pb_step p p1"
      "if ok then \<exists>u. render fmt 0 t = Some u \<and> pb_wrote p1 [] u \<and> pb_depth p1 = pb_depth p
       else \<forall>u. render fmt 0 t = Some u \<longrightarrow> pb_fails h p p1 (length ([] :: bytes) + length u + 2)"
    using print_value_run [OF assms(1) owned_count [OF assms(1-3)] assms(4,5)] unfolding prints_def assms(6,7) by blast
  then show ?thesis by (intro exI [of _ ok] exI [of _ p1]) (cases ok; auto)
qed

lemma fails_oom:
  assumes "pb_fails h p p1 L" "\<not> pb_noalloc p" "h' = h\<lparr>brk := brk h + pb_calls p1\<rparr>"
  shows "INT_MAX < L \<or> oom h h'"
  using assms unfolding pb_fails_def oom_def by (auto intro: exI [of _ "brk h + _"])

text \<open>The ways out of printing, for a buffer that is the only block left.\<close>

lemma settled_none: "pb_live p = {} \<Longrightarrow> settled h p = h\<lparr>brk := brk h + pb_calls p\<rparr>"
  by (cases h) (simp add: settled_def)

lemma hand_over_last:
  "pb_live p = {k} \<Longrightarrow> hand_over h k buf p =
     (brk h + k + 1, h\<lparr>brk := brk h + pb_calls p, strs := (strs h)(brk h + k + 1 \<mapsto> initialised buf)\<rparr>)"
  by (cases h) (auto simp: hand_over_def settled_def Let_def fun_eq_iff)

lemma drop_buffer_run:
  assumes "pb_owned p" and "\<not> pb_noalloc p"
  shows "drop_buffer h p = Some (0, h\<lparr>brk := brk h + pb_calls p\<rparr>)"
  using assms by (auto simp: drop_buffer_def pb_owned_def hooks_deallocate_def settled_none)

lemma drop_buffer_printed:
  assumes "heap_wf h" and "pb_owned p" and "\<not> pb_noalloc p" and "0 < pb_calls p"
    and "\<And>t. R = Some t \<Longrightarrow> INT_MAX < length t + 2 \<or> oom h (h\<lparr>brk := brk h + pb_calls p\<rparr>)"
  shows "\<exists>r. drop_buffer h p = Some r \<and> printed h R C r"
  using drop_buffer_run [OF assms(2,3), of h] brk_step [OF assms(1), of "pb_calls p"] assms(5) by (auto simp: printed_def)

lemma hand_over_printed:
  assumes "heap_wf h" and "pb_live p = {k}" and "k < pb_calls p" and "R = Some t" and "C t (initialised buf)"
  shows "printed h R C (hand_over h k buf p)"
proof -
  let ?s = "initialised buf" and ?q = "brk h + k + 1"
  have n: "nodes h ?q = None" using heap_wf_node [OF assms(1), of ?q] by (cases "nodes h ?q") auto
  have "heap_step h (h\<lparr>brk := brk h + pb_calls p, strs := (strs h)(?q \<mapsto> ?s)\<rparr>)"
    using n assms(1,3) unfolding heap_step_def heap_wf_def by (auto intro: le_trans)
  then show ?thesis using assms(3-5) unfolding hand_over_last [OF assms(2)] printed_def by auto
qed

lemma print_run:
  assumes "item h a F t" "distinct F" "heap_wf h" "numbers_ok t"
  shows "\<exists>r. print a fmt has_realloc h = Some r \<and> printed h (render fmt 0 t) (\<lambda>t s. s = t @ [0]) r"
proof (cases "avail h (brk h)")
  case False
  then have "oom h (h\<lparr>brk := brk h + 1\<rparr>)" unfolding oom_def by (intro exI [of _ "brk h"]) simp
  then show ?thesis using False brk_step [OF assms(3), of 1] by (simp add: print_def printed_def)
next
  case True
  let ?p = "\<lparr>pb_buffer = Some (replicate 256 None), pb_block = 0, pb_length = 256, pb_offset = 0, pb_depth = 0, pb_noalloc = False,
           pb_format = fmt, pb_realloc = has_realloc, pb_calls = 1, pb_live = {0}\<rparr>"
  have o: "pb_owned ?p" by (simp add: pb_owned_def)
  have "pb_has ?p []" using o by (simp add: pb_has_def pb_cont_def)
  from print_value_start [OF assms(1-4) this, where fmt = fmt]
  obtain ok p1 where r: "print_value (brk h + 1) h a ?p = Some (ok, p1)" "pb_step ?p p1"
      "if ok then \<exists>u. render fmt 0 t = Some u \<and> pb_wrote p1 [] u
       else \<forall>u. render fmt 0 t = Some u \<longrightarrow> pb_fails h ?p p1 (length u + 2)"
    by auto
  have p1: "pb_owned p1" "\<not> pb_noalloc p1" "0 < pb_calls p1" using r(2) o by (auto simp: pb_step_def)
  show ?thesis
  proof (cases ok)
    case False
    have m: "INT_MAX < length u + 2 \<or> oom h (h\<lparr>brk := brk h + pb_calls p1\<rparr>)" if "render fmt 0 t = Some u" for u
      by (rule fails_oom [of h ?p p1]) (use r(3) False that in simp_all)
    have "\<exists>r. drop_buffer h p1 = Some r \<and> printed h (render fmt 0 t) (\<lambda>t s. s = t @ [0]) r"
      by (rule drop_buffer_printed [OF assms(3) p1]) (rule m)
    then show ?thesis
      using True r(1) False by (simp add: print_def)
  next
    case ok: True
    then obtain u where u: "render fmt 0 t = Some u" "pb_wrote p1 [] u" using r(3) by auto
    obtain p2 buf where p2: "update_offset p1 = Some p2" "pb_buffer p2 = Some buf" "pb_offset p2 = length u" "length u + 1 \<le> length buf"
        "take (length u + 1) buf = map Some (u @ [0])" "pb_length p2 = length buf" "pb_step p1 p2"
      using update_offset_end [OF u(2) render_nonzero [OF assms(4) u(1)]] by blast
    have o2: "pb_owned p2" "\<not> pb_noalloc p2" "pb_live p2 = {pb_block p2}" "pb_block p2 < pb_calls p2"
      using p1 p2(2,7) by (auto simp: pb_step_def pb_owned_def)
    let ?k = "pb_calls p2" and ?p3 = "p2\<lparr>pb_calls := pb_calls p2 + 1\<rparr>"
    have run: "print a fmt has_realloc h = (if has_realloc
        then do { (nb, p3) \<leftarrow> hooks_reallocate h (pb_block p2) p2;
          case nb of None \<Rightarrow> drop_buffer h p3 | Some k \<Rightarrow> Some (hand_over h k (take (length u + 1) buf) p3) }
        else let (nb, p3) = hooks_allocate h p2 in
          (case nb of None \<Rightarrow> drop_buffer h p3
           | Some k \<Rightarrow> do { p4 \<leftarrow> hooks_deallocate (pb_block p3) p3;
               Some (hand_over h k ((take (length u + 1) buf)[length u := Some 0]) p4) }))"
      using True r(1) ok p2 by (simp add: print_def Let_def min_absorb2 cong: option.case_cong prod.case_cong)
    show ?thesis
    proof (cases "avail h (brk h + ?k)")
      case False
      then have m: "oom h (h\<lparr>brk := brk h + pb_calls ?p3\<rparr>)" unfolding oom_def by (intro exI [of _ "brk h + ?k"]) simp
      have "print a fmt has_realloc h = drop_buffer h ?p3"
        unfolding run using False o2(3) by (simp add: hooks_reallocate_def hooks_allocate_def)
      moreover have "pb_owned ?p3" using o2 p2(2) by (simp add: pb_owned_def)
      ultimately show ?thesis using drop_buffer_printed [OF assms(3), of ?p3 "render fmt 0 t" "\<lambda>t s. s = t @ [0]"] o2(2) m by simp
    next
      case av: True
      let ?p4 = "?p3\<lparr>pb_live := {?k}\<rparr>"
      have i: "initialised (take (length u + 1) buf) = u @ [0]" unfolding p2(5) by (rule initialised_all)
      have j: "initialised ((take (length u + 1) buf)[length u := Some 0]) = u @ [0]"
      proof -
        have "(map Some (u @ [0]))[length u := Some 0] = map Some (u @ [0])" by (simp add: list_update_append)
        then show ?thesis unfolding p2(5) by (simp only: initialised_all)
      qed
      have "print a fmt has_realloc h = Some (hand_over h ?k
          (if has_realloc then take (length u + 1) buf else (take (length u + 1) buf)[length u := Some 0]) ?p4)"
        unfolding run using av o2(3,4)
        by (simp add: hooks_reallocate_def hooks_allocate_def hooks_deallocate_def Let_def insert_Diff_if)
      moreover have "printed h (render fmt 0 t) (\<lambda>t s. s = t @ [0]) (hand_over h ?k
          (if has_realloc then take (length u + 1) buf else (take (length u + 1) buf)[length u := Some 0]) ?p4)"
        by (rule hand_over_printed [OF assms(3) _ _ u(1)]) (use i j in simp_all)
      ultimately show ?thesis by simp
    qed
  qed
qed

lemma PrintBuffered_run:
  assumes "item h a F t" "distinct F" "heap_wf h" "numbers_ok t" "0 < prebuffer \<or> prebuffer = 0 \<and> has_realloc"
  shows "\<exists>r. cJSON_PrintBuffered a prebuffer fmt has_realloc h = Some r
    \<and> printed h (render fmt 0 t) (\<lambda>t s. \<exists>z. s = t @ 0 # z) r"
proof (cases "avail h (brk h)")
  case False
  then have "oom h (h\<lparr>brk := brk h + 1\<rparr>)" unfolding oom_def by (intro exI [of _ "brk h"]) simp
  then show ?thesis using False brk_step [OF assms(3), of 1] assms(5) by (auto simp: cJSON_PrintBuffered_def printed_def)
next
  case True
  let ?p = "\<lparr>pb_buffer = Some (replicate (nat prebuffer) None), pb_block = 0, pb_length = nat prebuffer, pb_offset = 0, pb_depth = 0,
           pb_noalloc = False, pb_format = fmt, pb_realloc = has_realloc, pb_calls = 1, pb_live = {0}\<rparr>"
  have nn: "\<not> prebuffer < 0" using assms(5) by auto
  have o: "pb_owned ?p" by (simp add: pb_owned_def)
  have "pb_has ?p []" using assms(5) o by (auto simp: pb_has_def pb_cont_def)
  from print_value_start [OF assms(1-4) this, where fmt = fmt]
  obtain ok p1 where r: "print_value (brk h + 1) h a ?p = Some (ok, p1)" "pb_step ?p p1"
      "if ok then \<exists>u. render fmt 0 t = Some u \<and> pb_wrote p1 [] u
       else \<forall>u. render fmt 0 t = Some u \<longrightarrow> pb_fails h ?p p1 (length u + 2)"
    by auto
  have p1: "pb_owned p1" "\<not> pb_noalloc p1" "0 < pb_calls p1" using r(2) o by (auto simp: pb_step_def)
  show ?thesis
  proof (cases ok)
    case False
    have m: "INT_MAX < length u + 2 \<or> oom h (h\<lparr>brk := brk h + pb_calls p1\<rparr>)" if "render fmt 0 t = Some u" for u
      by (rule fails_oom [of h ?p p1]) (use r(3) False that in simp_all)
    have "\<exists>r. drop_buffer h p1 = Some r \<and> printed h (render fmt 0 t) (\<lambda>t s. \<exists>z. s = t @ 0 # z) r"
      by (rule drop_buffer_printed [OF assms(3) p1]) (rule m)
    then show ?thesis
      using True r(1) False nn by (simp add: cJSON_PrintBuffered_def)
  next
    case ok: True
    then obtain u where u: "render fmt 0 t = Some u" "pb_wrote p1 [] u" using r(3) by auto
    obtain buf where buf: "pb_buffer p1 = Some buf" "take (length (u @ [0])) buf = map Some (u @ [0])"
      using update_offset_end [OF u(2) render_nonzero [OF assms(4) u(1)]] by auto
    obtain z where z: "initialised buf = (u @ [0]) @ z" using initialised_prefix [OF buf(2)] by blast
    have "cJSON_PrintBuffered a prebuffer fmt has_realloc h = Some (hand_over h (pb_block p1) buf p1)"
      using True r(1) ok buf(1) nn by (simp add: cJSON_PrintBuffered_def)
    moreover have "pb_live p1 = {pb_block p1}" "pb_block p1 < pb_calls p1" using p1 buf(1) by (simp_all add: pb_owned_def)
    ultimately show ?thesis using hand_over_printed [OF assms(3) _ _ u(1), of p1 "pb_block p1" "\<lambda>t s. \<exists>z. s = t @ 0 # z" buf] z by simp
  qed
qed

lemma PrintPreallocated_run:
  assumes "item h a F t" "distinct F" "heap_wf h" "numbers_ok t" "0 \<le> len" "length buf = nat len"
  shows "\<exists>ok b. cJSON_PrintPreallocated a (Some buf) len fmt has_realloc h = Some (ok, b) \<and>
    (if ok then \<exists>u buf'. render fmt 0 t = Some u \<and> b = Some buf' \<and> length buf' = length buf \<and> take (length u + 1) buf' = map Some (u @ [0])
     else \<forall>u. render fmt 0 t = Some u \<longrightarrow> length buf < length u + 2 \<or> INT_MAX < length u + 2)"
proof -
  let ?p = "\<lparr>pb_buffer = Some buf, pb_block = 0, pb_length = nat len, pb_offset = 0, pb_depth = 0,
           pb_noalloc = True, pb_format = fmt, pb_realloc = has_realloc, pb_calls = 0, pb_live = {}\<rparr>"
  have "pb_has ?p []" using assms(5,6) by (auto simp: pb_has_def pb_cont_def pb_owned_def)
  from print_value_start [OF assms(1-4) this, where fmt = fmt]
  obtain ok p1 where r: "print_value (brk h + 1) h a ?p = Some (ok, p1)" "pb_step ?p p1"
      "if ok then \<exists>u. render fmt 0 t = Some u \<and> pb_wrote p1 [] u
       else \<forall>u. render fmt 0 t = Some u \<longrightarrow> pb_fails h ?p p1 (length u + 2)"
    by auto
  have e: "cJSON_PrintPreallocated a (Some buf) len fmt has_realloc h = Some (ok, pb_buffer p1)"
    using r(1) assms(5) by (simp add: cJSON_PrintPreallocated_def)
  show ?thesis
  proof (cases ok)
    case False
    have "length buf < length u + 2 \<or> INT_MAX < length u + 2" if "render fmt 0 t = Some u" for u
    proof -
      have "pb_fails h ?p p1 (length u + 2)" using r(3) False that by simp
      moreover have "pb_calls p1 = 0" using r(2) by (simp add: pb_step_def)
      ultimately show ?thesis using assms(6) by (auto simp: pb_fails_def)
    qed
    then show ?thesis using e False by (intro exI [of _ False] exI [of _ "pb_buffer p1"]) auto
  next
    case True
    then obtain u where u: "render fmt 0 t = Some u" "pb_wrote p1 [] u" using r(3) by auto
    obtain buf' p2 where b: "pb_buffer p1 = Some buf'" "take (length u + 1) buf' = map Some (u @ [0])" "pb_step p1 p2" "pb_length p2 = length buf'"
      using update_offset_end [OF u(2) render_nonzero [OF assms(4) u(1)]] by blast
    have "pb_length p2 = nat len" using r(2) b(3) by (auto simp: pb_step_def)
    then show ?thesis using e True u(1) b(1,2,4) assms(6)
      by (intro exI [of _ True] exI [of _ "Some buf'"]) auto
  qed
qed

end
