(* ===== verification/Cjson_Reread.thy ===== *)
theory Cjson_Reread
  imports Cjson_Print_Refine Cjson_Correct
begin

text \<open>
  Parsing what was printed: the reference parser on the text \<open>render\<close> of a tree.
\<close>

section \<open>A buffer at a text\<close>

definition reads :: "parse_buffer \<Rightarrow> bytes \<Rightarrow> bool" where
  "reads b s \<longleftrightarrow> buf_length b = length (content b) \<and> offset b \<le> length (content b) \<and> drop (offset b) (content b) = s"

abbreviation adv :: "parse_buffer \<Rightarrow> nat \<Rightarrow> parse_buffer" where
  "adv b n \<equiv> b\<lparr>offset := offset b + n\<rparr>"

lemma reads_adv: "reads b (a @ s) \<Longrightarrow> reads (adv b (length a)) s"
proof -
  assume r: "reads b (a @ s)"
  have "drop (length a) (drop (offset b) (content b)) = s" using r by (simp add: reads_def del: drop_drop)
  then have "drop (offset b + length a) (content b) = s" by (simp add: add.commute)
  moreover have "offset b + length a \<le> length (content b)"
  proof -
    have "length (content b) - offset b = length a + length s" using r by (metis length_append length_drop reads_def)
    moreover have "offset b \<le> length (content b)" using r by (simp add: reads_def)
    ultimately show ?thesis by linarith
  qed
  ultimately show ?thesis using r by (simp add: reads_def)
qed

lemma reads_depth [simp]: "reads (b\<lparr>depth := d\<rparr>) s = reads b s"
  by (simp add: reads_def)

lemma drop_Cons: "drop p m = c # s \<Longrightarrow> p < length m \<and> m ! p = c \<and> drop (Suc p) m = s"
  by (metis Cons_nth_drop_Suc drop_eq_Nil leI list.distinct(1) list.sel(1,3))

lemma reads_Cons:
  assumes "reads b (c # s)"
  shows "peek b = Some (Some c)" "byte_at (content b) (offset b) = Some c" "reads (adv b 1) s" "can_access_at_index b 0"
    "offset b < length (content b)" "content b ! offset b = c"
  using assms drop_Cons [of "offset b" "content b" c s] reads_adv [of b "[c]" s]
  by (auto simp: reads_def peek_def can_access_at_index_def)

lemma skip_ws_run:
  "drop p m = ws @ c # s \<Longrightarrow> \<forall>w\<in>set ws. w \<le> 32 \<Longrightarrow> \<not> c \<le> 32 \<Longrightarrow> skip_ws m (length m) p = Some (p + length ws)"
proof (induction ws arbitrary: p)
  case Nil
  then show ?case using drop_Cons [of p m c s] by (subst skip_ws.simps) simp
next
  case (Cons w ws)
  then show ?case using drop_Cons [of p m w "ws @ c # s"] by (subst skip_ws.simps) simp
qed

lemma skip_run:
  assumes "reads b (ws @ c # s)" "\<forall>w\<in>set ws. w \<le> 32" "\<not> c \<le> 32"
  shows "buffer_skip_whitespace b = Some (adv b (length ws))" "reads (adv b (length ws)) (c # s)"
proof -
  have r: "reads (adv b (length ws)) (c # s)" by (rule reads_adv [OF assms(1)])
  then show "reads (adv b (length ws)) (c # s)" .
  have "offset b + length ws < length (content b)" using reads_Cons(5) [OF r] by simp
  moreover have "skip_ws (content b) (length (content b)) (offset b) = Some (offset b + length ws)"
    using skip_ws_run [OF _ assms(2,3)] assms(1) by (simp add: reads_def)
  ultimately show "buffer_skip_whitespace b = Some (adv b (length ws))"
    using assms(1) by (simp add: buffer_skip_whitespace_def can_access_at_index_def reads_def)
qed

lemma skip_none: "reads b (c # s) \<Longrightarrow> \<not> c \<le> 32 \<Longrightarrow> buffer_skip_whitespace b = Some b"
  using skip_run(1) [of b "[]" c s] by simp

section \<open>Keywords\<close>

lemma literal_at_run: "drop p m = k @ s \<Longrightarrow> literal_at m p k = Some True"
proof (induction k arbitrary: p)
  case (Cons c k)
  then show ?case using drop_Cons [of p m c "k @ s"] by simp
qed simp

lemma keyword_run: "reads b (k @ s) \<Longrightarrow> keyword b k = Some True"
  using reads_adv [of b k s] literal_at_run [of "offset b" "content b" k s] by (simp add: keyword_def can_read_def reads_def)

lemma keyword_other: "reads b (c # s) \<Longrightarrow> c \<noteq> d \<Longrightarrow> keyword b (d # k) = Some False"
  using reads_Cons(2) [of b c s] by (simp add: keyword_def)

section \<open>Strings\<close>

definition escapes :: "bytes \<Rightarrow> nat" where
  "escapes u = length (filter (\<lambda>c. escape_text c \<noteq> [c]) u)"

lemma escape_text_cases:
  assumes "c \<noteq> 0"
  obtains (plain) "escape_text c = [c]" "c \<noteq> 34" "c \<noteq> 92"
    | (short) x where "escape_text c = [92, x]" "x \<noteq> 117" "escape x = Some c"
    | (long) "escape_text c = [92, 117, 48, 48, hex_char (unat c div 16), hex_char (unat c mod 16)]" "unat c < 32"
proof -
  consider "c > 31 \<and> c \<noteq> 34 \<and> c \<noteq> 92" | "c = 34 \<or> c = 92 \<or> c = 8 \<or> c = 12 \<or> c = 10 \<or> c = 13 \<or> c = 9"
    | "\<not> (c > 31 \<and> c \<noteq> 34 \<and> c \<noteq> 92)" "\<not> (c = 34 \<or> c = 92 \<or> c = 8 \<or> c = 12 \<or> c = 10 \<or> c = 13 \<or> c = 9)" by blast
  then show thesis
  proof cases
    case 1
    then show thesis using plain by (simp add: escape_text_def)
  next
    case 2
    then show thesis using short by (auto simp: escape_text_def escape_def)
  next
    case 3
    then have "unat c < 32" by (auto simp: word_less_nat_alt)
    then show thesis using 3 long by (auto simp: escape_text_def sprintf_04x_def)
  qed
qed

lemma string_end_skip:
  "drop p m = c # s \<Longrightarrow> c \<noteq> 34 \<Longrightarrow> c \<noteq> 92 \<Longrightarrow> q = Suc p \<Longrightarrow> string_end m (length m) p sk = string_end m (length m) q sk"
  using drop_Cons [of p m c s] by (subst string_end.simps) simp

lemma string_end_escape: "drop p m = 92 # c # s \<Longrightarrow> string_end m (length m) p sk = string_end m (length m) (p + 2) (sk + 1)"
  using drop_Cons [of p m 92 "c # s"] drop_Cons [of "Suc p" m c s] by (subst string_end.simps) simp

lemma six_on:
  assumes "drop p m = a # b # c # d # e # f # s"
  shows "drop (p + 2) m = c # d # e # f # s" "drop (p + 3) m = d # e # f # s" "drop (p + 4) m = e # f # s" "drop (p + 5) m = f # s"
    "drop (p + 6) m = s"
proof -
  have "drop (p + k) m = drop k (a # b # c # d # e # f # s)" for k using assms by (metis add.commute drop_drop)
  from this [of 2] this [of 3] this [of 4] this [of 5] this [of 6]
  show "drop (p + 2) m = c # d # e # f # s" "drop (p + 3) m = d # e # f # s" "drop (p + 4) m = e # f # s" "drop (p + 5) m = f # s"
    "drop (p + 6) m = s" by simp_all
qed

lemma string_end_run:
  "drop p m = concat (map escape_text u) @ 34 # R \<Longrightarrow> 0 \<notin> set u \<Longrightarrow>
   string_end m (length m) p sk = Some (Some (p + length (concat (map escape_text u)), sk + escapes u))"
proof (induction u arbitrary: p sk)
  case Nil
  then show ?case using drop_Cons [of p m 34 R] by (subst string_end.simps) (simp add: escapes_def)
next
  case (Cons c u)
  let ?E = "concat (map escape_text u) @ 34 # R"
  have c0: "c \<noteq> 0" using Cons.prems(2) by auto
  note d = Cons.prems(1)
  show ?case
  proof (cases rule: escape_text_cases [OF c0])
    case 1
    have "drop (Suc p) m = ?E" using d 1 drop_Cons [of p m c ?E] by simp
    then show ?thesis using Cons.IH [of "Suc p" sk] Cons.prems(2) string_end_skip [of p m c ?E "Suc p" sk] d 1 by (simp add: escapes_def)
  next
    case (2 x)
    have n: "drop p m = 92 # x # ?E" using d 2 by simp
    then have "drop (p + 2) m = ?E" using drop_Cons [of p m 92 "x # ?E"] drop_Cons [of "Suc p" m x ?E] by simp
    then show ?thesis using Cons.IH [of "p + 2" "sk + 1"] Cons.prems(2) string_end_escape [OF n, of sk] 2 by (simp add: escapes_def)
  next
    case 3
    let ?a = "hex_char (unat c div 16)" and ?b = "hex_char (unat c mod 16)"
    have ab: "?a \<noteq> 34" "?a \<noteq> 92" "?b \<noteq> 34" "?b \<noteq> 92"
      using hex_char_range [of "unat c div 16"] hex_char_range [of "unat c mod 16"] 3(2) by auto
    have n: "drop p m = 92 # 117 # 48 # 48 # ?a # ?b # ?E" using d 3 by simp
    note n2 = six_on [OF n]
    have "string_end m (length m) p sk = string_end m (length m) (p + 2) (sk + 1)" by (rule string_end_escape [OF n])
    also have "\<dots> = string_end m (length m) (p + 3) (sk + 1)" by (rule string_end_skip [OF n2(1)]) simp_all
    also have "\<dots> = string_end m (length m) (p + 4) (sk + 1)" by (rule string_end_skip [OF n2(2)]) simp_all
    also have "\<dots> = string_end m (length m) (p + 5) (sk + 1)" by (rule string_end_skip [OF n2(3) ab(1,2)]) simp_all
    also have "\<dots> = string_end m (length m) (p + 6) (sk + 1)" by (rule string_end_skip [OF n2(4) ab(3,4)]) simp_all
    also have "\<dots> = Some (Some (p + 6 + length (concat (map escape_text u)), sk + 1 + escapes u))"
      by (rule Cons.IH [OF n2(5)]) (use Cons.prems(2) in simp)
    finally show ?thesis using 3 by (simp add: escapes_def ac_simps)
  qed
qed

lemma hex_digit_char: "n < 16 \<Longrightarrow> hex_digit (hex_char n) = Some (of_nat n)"
proof -
  assume "n < 16"
  then have "n \<in> set [0..<16]" by simp
  moreover have "\<forall>n\<in>set [0..<16]. hex_digit (hex_char n) = Some (of_nat n)" by (simp add: hex_digit_def hex_char_def upt_rec)
  ultimately show ?thesis by blast
qed

lemma parse_hex4_run:
  assumes "byte_at m p = Some 48" "byte_at m q1 = Some 48" "byte_at m q2 = Some a" "byte_at m q3 = Some b"
    and "q1 = Suc p" "q2 = Suc q1" "q3 = Suc q2" and h: "hex_digit a = Some x" "hex_digit b = Some y"
  shows "parse_hex4 m p = Some (push_bit 4 x + y)"
proof -
  have z: "hex_digit 48 = Some 0" by (simp add: hex_digit_def)
  have "hex_loop m p (Suc (Suc (Suc (Suc 0)))) 0 = Some (push_bit 4 x + y)"
    using assms(1-4) unfolding assms(5-7) hex_loop.simps by (simp add: z h Option.bind_eq_Some_conv)
  then show ?thesis by (simp add: parse_hex4_def numeral_eq_Suc)
qed

lemma utf16_control:
  assumes d: "drop p m = 92 # 117 # 48 # 48 # hex_char (unat c div 16) # hex_char (unat c mod 16) # s" and c: "unat c < 32" and e: "p + 6 \<le> e"
  shows "utf16_literal_to_utf8 m p e = Some (6, [c])"
proof -
  let ?a = "hex_char (unat c div 16)" and ?b = "hex_char (unat c mod 16)"
  have r: "byte_at m (p + 2) = Some 48" "byte_at m (p + 3) = Some 48" "byte_at m (p + 4) = Some ?a" "byte_at m (p + 5) = Some ?b"
    using drop_Cons [of "p + 2" m 48 "48 # ?a # ?b # s"] drop_Cons [of "p + 3" m 48 "?a # ?b # s"] drop_Cons [of "p + 4" m ?a "?b # s"] drop_Cons [of "p + 5" m ?b s]
      six_on [OF d] by simp_all
  have h: "hex_digit ?a = Some (of_nat (unat c div 16))" "hex_digit ?b = Some (of_nat (unat c mod 16))" "hex_digit 48 = Some 0"
    using hex_digit_char [of "unat c div 16"] hex_digit_char [of "unat c mod 16"] c by (simp_all add: hex_digit_def)
  have "parse_hex4 m (p + 2) = Some (push_bit 4 (of_nat (unat c div 16)) + of_nat (unat c mod 16))"
    by (rule parse_hex4_run [OF r(1-4) _ _ _ h(1,2)]) simp_all
  moreover have "push_bit 4 (of_nat (unat c div 16)) + of_nat (unat c mod 16) = (of_nat (unat c) :: u32)"
  proof -
    have "push_bit 4 (of_nat (unat c div 16)) + of_nat (unat c mod 16) = (of_nat (unat c div 16 * 16 + unat c mod 16) :: u32)"
      unfolding of_nat_add of_nat_mult by (simp add: push_bit_eq_mult)
    then show ?thesis by (simp only: div_mult_mod_eq)
  qed
  ultimately have ph: "parse_hex4 m (p + 2) = Some (of_nat (unat c))" by (simp only:)
  have "unat (of_nat (unat c) :: u32) = unat c" using c by (simp add: unat_of_nat)
  then have lo: "\<not> 0xDC00 \<le> (of_nat (unat c) :: u32)" "\<not> 0xD800 \<le> (of_nat (unat c) :: u32)" using c by (simp_all add: word_le_nat_alt)
  have "unat c \<in> set [0..<32]" using c by simp
  moreover have "\<forall>n\<in>set [0..<32]. utf8_encode (ucast (of_nat n :: u32)) = Some [of_nat n]"
    by (simp add: upt_rec utf8_encode_def)
  ultimately have "utf8_encode (ucast (of_nat (unat c) :: u32)) = Some [of_nat (unat c)]" by blast
  then show ?thesis using ph e lo by (simp add: utf16_literal_to_utf8_def utf16_code_def)
qed

lemma string_decode_run:
  "drop p m = concat (map escape_text u) @ 34 # R \<Longrightarrow> 0 \<notin> set u \<Longrightarrow> e = p + length (concat (map escape_text u)) \<Longrightarrow> length out + length u \<le> cap \<Longrightarrow>
   string_decode m cap e p out = Some (e, Some (out @ u))"
proof (induction u arbitrary: p out)
  case Nil
  then show ?case by (subst string_decode.simps) simp
next
  case (Cons c u)
  let ?E = "concat (map escape_text u) @ 34 # R"
  have c0: "c \<noteq> 0" using Cons.prems(2) by auto
  note d = Cons.prems(1) and e = Cons.prems(3)
  have em: "emit cap out [c] = Some (out @ [c])" using Cons.prems(4) by (simp add: emit_def)
  show ?case
  proof (cases rule: escape_text_cases [OF c0])
    case 1
    have n: "p < length m" "m ! p = c" "drop (Suc p) m = ?E" using d 1 drop_Cons [of p m c ?E] by simp_all
    then have "string_decode m cap e p out = string_decode m cap e (Suc p) (out @ [c])"
      using 1 e em by (subst string_decode.simps) simp
    then show ?thesis using Cons.IH [OF n(3), of "out @ [c]"] Cons.prems(2,4) e 1 by simp
  next
    case (2 x)
    have n: "drop p m = 92 # x # ?E" using d 2 by simp
    then have n2: "p < length m" "m ! p = 92" "Suc p < length m" "m ! Suc p = x" "drop (p + 2) m = ?E"
      using drop_Cons [of p m 92 "x # ?E"] drop_Cons [of "Suc p" m x ?E] by auto
    then have "string_decode m cap e p out = string_decode m cap e (p + 2) (out @ [c])"
      using 2 e em by (subst string_decode.simps) simp
    then show ?thesis using Cons.IH [OF n2(5), of "out @ [c]"] Cons.prems(2,4) e 2 by simp
  next
    case 3
    let ?a = "hex_char (unat c div 16)" and ?b = "hex_char (unat c mod 16)"
    have n: "drop p m = 92 # 117 # 48 # 48 # ?a # ?b # ?E" using d 3 by simp
    then have n2: "p < length m" "m ! p = 92" "Suc p < length m" "m ! Suc p = 117" "drop (p + 6) m = ?E"
      using drop_Cons [of p m 92] drop_Cons [of "Suc p" m 117] six_on(5) [OF n] by auto
    have u: "utf16_literal_to_utf8 m p e = Some (6, [c])" by (rule utf16_control [OF n 3(2)]) (use e 3 in simp)
    have "string_decode m cap e p out = string_decode m cap e (p + 6) (out @ [c])"
      using n2 3 e em u by (subst string_decode.simps) simp
    then show ?thesis using Cons.IH [OF n2(5), of "out @ [c]"] Cons.prems(2,4) e 3 by simp
  qed
qed

lemma escapes_length: "length u + escapes u \<le> length (concat (map escape_text u))"
proof (induction u)
  case (Cons c u)
  have "1 \<le> length (escape_text c)" using escape_text_length [of c] by linarith
  moreover have "escape_text c \<noteq> [c] \<Longrightarrow> 2 \<le> length (escape_text c)" by (auto simp: escape_text_def sprintf_04x_def split: if_splits)
  ultimately show ?case using Cons by (auto simp: escapes_def)
qed (simp add: escapes_def)

lemma ref_string_run:
  assumes r: "reads b (string_text v @ R)" and u: "u = (case v of None \<Rightarrow> [] | Some s \<Rightarrow> until_null s)"
  shows "ref_string b = Some (u @ [0], adv b (length (string_text v)))"
proof -
  let ?E = "concat (map escape_text u)" and ?m = "content b" and ?p = "offset b"
  have t: "string_text v = 34 # ?E @ [34]" using u by (auto simp: string_text_def split: option.splits)
  have z: "0 \<notin> set u" using u until_null_nonzero by (auto split: option.splits)
  note c = reads_Cons [OF r[unfolded t append_Cons]]
  have d: "drop (?p + 1) ?m = ?E @ 34 # R" using c(3) by (simp add: reads_def)
  have l: "buf_length b = length ?m" using r by (simp add: reads_def)
  have se: "string_end ?m (buf_length b) (?p + 1) 0 = Some (Some (?p + 1 + length ?E, escapes u))"
    using string_end_run [OF d z, of 0] l by simp
  have "length u \<le> ?p + 1 + length ?E - ?p - escapes u + 1" using escapes_length [of u] by simp
  then have sd: "string_decode ?m (?p + 1 + length ?E - ?p - escapes u + 1) (?p + 1 + length ?E) (?p + 1) [] = Some (?p + 1 + length ?E, Some u)"
    using string_decode_run [OF d z refl, of "[]"] by simp
  show ?thesis using c(2) se sd t by (simp add: ref_string_def)
qed

end
