(* ===== verification/Cjson_Roundtrip.thy ===== *)
theory Cjson_Roundtrip
  imports Cjson_Reread Cjson_Number Cjson_Compare_Refine
begin

text \<open>
  What the parser makes of a printed tree: \<open>reread\<close>, the tree with its flags and links forgotten,
  its strings cut at the terminator and each number read back from its digits.
\<close>

section \<open>The tree that comes back\<close>

definition reread_number :: "double \<Rightarrow> jtree" where
  "reread_number d =
     (case d of
        Fin _ _ _ \<Rightarrow> let d' = fst (strtod (the (number_text d))) in leaf cJSON_Number (the (int_of_double d')) d' None
      | _ \<Rightarrow> leaf cJSON_NULL 0 zero_double None)"

definition reread_text :: "bytes option \<Rightarrow> bytes" where
  "reread_text v = (case v of None \<Rightarrow> [] | Some s \<Rightarrow> until_null s) @ [0]"

fun reread :: "jtree \<Rightarrow> jtree" where
  "reread (JT ty i d v nm ks) =
     (if ty AND 0xFF = cJSON_NULL then leaf cJSON_NULL 0 zero_double None
      else if ty AND 0xFF = cJSON_False then leaf cJSON_False 0 zero_double None
      else if ty AND 0xFF = cJSON_True then leaf cJSON_True 1 zero_double None
      else if ty AND 0xFF = cJSON_Number then reread_number d
      else if ty AND 0xFF = cJSON_String then leaf cJSON_String 0 zero_double (Some (reread_text v))
      else if ty AND 0xFF = cJSON_Array then JT cJSON_Array 0 zero_double None None (map reread ks)
      else JT cJSON_Object 0 zero_double None None (map (\<lambda>k. set_name (Some (reread_text (jt_name k))) (reread k)) ks))"

text \<open>Trees without raw text; the depth of their containers.\<close>

fun readable :: "jtree \<Rightarrow> bool" where
  "readable (JT ty i d v nm ks) \<longleftrightarrow>
     ty AND 0xFF \<in> {cJSON_False, cJSON_True, cJSON_NULL, cJSON_Number, cJSON_String, cJSON_Array, cJSON_Object}
     \<and> (ty AND 0xFF = cJSON_Number \<longrightarrow> binary64 d) \<and> (\<forall>k\<in>set ks. readable k)"

fun nesting :: "jtree \<Rightarrow> nat" where
  "nesting (JT ty i d v nm ks) =
     (if ty AND 0xFF = cJSON_Array \<or> ty AND 0xFF = cJSON_Object then Suc (Max (insert 0 (set (map nesting ks)))) else 0)"

lemma readable_numbers: "readable t \<Longrightarrow> numbers_ok t"
  by (induction t) auto

lemma nesting_kid: "ty AND 0xFF = cJSON_Array \<or> ty AND 0xFF = cJSON_Object \<Longrightarrow> k \<in> set ks \<Longrightarrow> nesting k < nesting (JT ty i d v nm ks)"
  by (simp add: less_Suc_eq_le Max_ge)

section \<open>Numbers\<close>

lemma number_copy_run:
  "drop p m = s @ x # R \<Longrightarrow> \<forall>c\<in>set s. number_char c \<Longrightarrow> \<not> number_char x \<Longrightarrow> length s < n \<Longrightarrow> number_copy m (length m) p n = Some s"
proof (induction s arbitrary: p n)
  case Nil
  then show ?case using drop_Cons [of p m x R] by (cases n) auto
next
  case (Cons c s)
  then show ?case using drop_Cons [of p m c "s @ x # R"] by (cases n) auto
qed

lemma ref_number_run:
  assumes "reads b (s @ x # R)" "number_shape s sg ip fp ep" "length s \<le> 25" "\<not> number_char x"
  shows "ref_number b = Some (leaf 8 (the (int_of_double (fst (strtod s)))) (fst (strtod s)) None, adv b (length s))"
proof -
  note ch = number_shape_chars [OF assms(2)]
  obtain d where d: "strtod s = (d, length s)" "(\<exists>neg m e. d = Fin neg m e) \<or> (\<exists>neg. d = Inf neg)"
    using strtod_shape [OF assms(2)] by blast
  have "number_copy (content b) (buf_length b) (offset b) 63 = Some s"
    using number_copy_run [of "offset b" "content b" s x R 63] assms ch(1) by (simp add: reads_def)
  moreover have "\<exists>i. int_of_double d = Some i" using d(2) by (auto simp: Let_def)
  ultimately show ?thesis using d(1) ch(2) by (auto simp: ref_number_def)
qed

section \<open>The text of a value starts it\<close>

text \<open>What the first character of a value may be.\<close>

lemma number_text_shape:
  assumes "binary64 d" "number_text d = Some r"
  shows "r = ascii ''null'' \<and> reread_number d = leaf cJSON_NULL 0 zero_double None
    \<or> (\<exists>sg ip fp ep. number_shape r sg ip fp ep \<and> length r \<le> 25
        \<and> reread_number d = leaf cJSON_Number (the (int_of_double (fst (strtod r)))) (fst (strtod r)) None)"
proof (cases d)
  case (Fin neg m e)
  then obtain sg ip fp ep where "number_shape r sg ip fp ep" "length r \<le> 25"
    using number_text_finite [of neg m e] assms by auto
  then show ?thesis using assms(2) Fin by (auto simp: reread_number_def Let_def)
next
  case NaN
  then show ?thesis using number_text_null [of d] assms(2) by (simp add: reread_number_def)
next
  case (Inf neg)
  then show ?thesis using number_text_null [of d] assms(2) by (simp add: reread_number_def)
qed

lemma readable_render: "readable t \<Longrightarrow> \<exists>r. render fmt k t = Some r"
proof (induction t arbitrary: k)
  case (JT ty i d v nm ks)
  have "\<exists>rs. map (render fmt (k + 1)) ks = map Some rs"
    using JT by (intro ex_map_conv [THEN iffD2]) auto
  then obtain rs where rs: "all_some (map (render fmt (k + 1)) ks) = Some rs" by (auto simp: all_some_iff)
  obtain s where "ty AND 0xFF = cJSON_Number \<Longrightarrow> number_text d = Some s" using number_text_ok [of d] JT.prems by fastforce
  then show ?case using JT.prems rs by (auto simp: render.simps)
qed

lemma render_head:
  assumes "readable t" "render fmt k t = Some r"
  obtains c s where "r = c # s" "\<not> c \<le> 32" "c \<noteq> 93" "c \<noteq> 125" "c \<noteq> 0xEF"
proof -
  obtain ty i d v nm ks where t: "t = JT ty i d v nm ks" by (cases t)
  have num: "\<exists>c s. r = c # s \<and> \<not> c \<le> 32 \<and> c \<noteq> 93 \<and> c \<noteq> 125 \<and> c \<noteq> 0xEF" if n: "number_text d = Some r" "binary64 d"
  proof (cases "r = ascii ''null''")
    case False
    then obtain sg ip fp ep where "number_shape r sg ip fp ep" using number_text_shape [OF n(2,1)] by blast
    note ch = number_shape_chars(2,3) [OF this]
    have "\<not> hd r \<le> 32 \<and> hd r \<noteq> 93 \<and> hd r \<noteq> 125 \<and> hd r \<noteq> 0xEF"
      using ch(2) by (auto simp: word_le_nat_alt)
    then show ?thesis using ch(1) by (cases r) auto
  qed (simp add: ascii_def)
  have "\<exists>c s. r = c # s \<and> \<not> c \<le> 32 \<and> c \<noteq> 93 \<and> c \<noteq> 125 \<and> c \<noteq> 0xEF"
    using assms num unfolding t by (auto simp: render.simps ascii_def string_text_def split: if_splits)
  then show thesis using that by blast
qed

section \<open>Elements and members\<close>

text \<open>What is known of a parser of values on the text of a tree.\<close>

definition rereads :: "ref_parser \<Rightarrow> nat \<Rightarrow> bool \<Rightarrow> nat \<Rightarrow> jtree \<Rightarrow> bool" where
  "rereads rv dp fmt k t \<longleftrightarrow> readable t \<and> (\<forall>b r x R. render fmt k t = Some r \<longrightarrow> reads b (r @ x # R) \<longrightarrow> \<not> number_char x \<longrightarrow> depth b = dp \<longrightarrow>
     rv b = Some (reread t, adv b (length r)))"

lemma rereadsD:
  "rereads rv dp fmt k t \<Longrightarrow> render fmt k t = Some r \<Longrightarrow> reads b (r @ x # R) \<Longrightarrow> \<not> number_char x \<Longrightarrow> depth b = dp \<Longrightarrow>
   rv b = Some (reread t, adv b (length r))"
  unfolding rereads_def by blast

lemma stops [simp]: "\<not> number_char 44" "\<not> number_char 93" "\<not> number_char 125" "\<not> number_char 10" "\<not> number_char 9" "\<not> number_char 0"
  by (simp_all add: number_char_def is_digit_def)

lemma ref_elems_run:
  "ts \<noteq> [] \<Longrightarrow> \<forall>t\<in>set ts. rereads rv dp fmt k t \<Longrightarrow> map (render fmt k) ts = map Some rs \<Longrightarrow>
   reads (adv b 1) (ws @ elements_text fmt rs @ 93 # R) \<Longrightarrow> \<forall>w\<in>set ws. w \<le> 32 \<Longrightarrow> depth b = dp \<Longrightarrow> length ts \<le> g \<Longrightarrow>
   ref_elems rv g b = Some (map reread ts, adv b (1 + length ws + length (elements_text fmt rs)))"
proof (induction ts arbitrary: rs b ws g)
  case (Cons t ts)
  obtain r rs' where rs: "rs = r # rs'" "render fmt k t = Some r" "map (render fmt k) ts = map Some rs'"
    using Cons.prems(3) by (cases rs) auto
  obtain g' where g: "g = Suc g'" "length ts \<le> g'" using Cons.prems(7) by (cases g) auto
  have rt: "rereads rv dp fmt k t" "readable t" using Cons.prems(2) by (auto simp: rereads_def)
  obtain c s where h: "r = c # s" "\<not> c \<le> 32" using render_head [OF rt(2) rs(2)] by metis
  let ?b1 = "adv b (1 + length ws)"
  define z where "z = (if rs' = [] then 93 # R else 44 # (if fmt then [32] else []) @ elements_text fmt rs' @ 93 # R)"
  have tx: "elements_text fmt rs @ 93 # R = r @ z" unfolding rs(1) z_def by (cases rs') auto
  have s1: "buffer_skip_whitespace (adv b 1) = Some ?b1" "reads ?b1 (r @ z)"
    using skip_run [of "adv b 1" ws c "s @ z"] Cons.prems(4,5) h unfolding tx by (simp_all add: add.assoc)
  have "\<exists>x R'. z = x # R' \<and> (x = 44 \<or> x = 93)" by (simp add: z_def)
  then obtain x R' where z: "z = x # R'" "x = 44 \<or> x = 93" by blast
  have v: "rv ?b1 = Some (reread t, adv ?b1 (length r))"
    by (rule rereadsD [OF rt(1) rs(2), of _ x R']) (use s1(2) z Cons.prems(6) in auto)
  let ?b2 = "adv ?b1 (length r)"
  have r2: "reads ?b2 z" by (rule reads_adv [OF s1(2)])
  have s2: "buffer_skip_whitespace ?b2 = Some ?b2" "peek ?b2 = Some (Some x)"
    using skip_none [of ?b2 x R'] reads_Cons(1) [of ?b2 x R'] r2 z by auto
  show ?case
  proof (cases "ts = []")
    case True
    then have "rs' = []" using rs(3) by simp
    then have "x = 93" using z(1) by (simp add: z_def)
    then show ?thesis using g(1) s1(1) v s2 True rs(1) \<open>rs' = []\<close> by (simp add: add.assoc)
  next
    case False
    then have ne: "rs' \<noteq> []" using rs(3) by auto
    then have x: "x = 44" "R' = (if fmt then [32] else []) @ elements_text fmt rs' @ 93 # R" using z(1) by (auto simp: z_def)
    have "reads (adv ?b2 1) R'" using reads_Cons(3) [of ?b2 x R'] r2 z(1) by simp
    then have IH: "ref_elems rv g' ?b2 = Some (map reread ts, adv ?b2 (1 + length (if fmt then [32::byte] else []) + length (elements_text fmt rs')))"
      using Cons.IH [OF False _ rs(3), of ?b2 "if fmt then [32] else []" g'] Cons.prems(2,6) g(2) x(2) by auto
    have "length (elements_text fmt rs) = length r + 1 + length (if fmt then [32::byte] else []) + length (elements_text fmt rs')"
      using ne unfolding rs(1) by (cases rs') auto
    then show ?thesis using g(1) s1(1) v s2 x(1) IH by (simp add: add.assoc)
  qed
qed simp

lemma ref_members_run:
  "ts \<noteq> [] \<Longrightarrow> \<forall>t\<in>set ts. rereads rv dp fmt k t \<Longrightarrow> map (render fmt k) ts = map Some rs \<Longrightarrow>
   reads (adv b 1) (ws @ members_text fmt k (zip (map jt_name ts) rs) @ ind @ 125 # R) \<Longrightarrow> \<forall>w\<in>set ws. w \<le> 32 \<Longrightarrow> \<forall>w\<in>set ind. w = 9 \<Longrightarrow>
   depth b = dp \<Longrightarrow> length ts \<le> g \<Longrightarrow>
   ref_members rv g b = Some (map (\<lambda>t. set_name (Some (reread_text (jt_name t))) (reread t)) ts,
     adv b (1 + length ws + length (members_text fmt k (zip (map jt_name ts) rs)) + length ind))"
proof (induction ts arbitrary: rs b ws g)
  case (Cons t ts)
  obtain r rs' where rs: "rs = r # rs'" "render fmt k t = Some r" "map (render fmt k) ts = map Some rs'"
    using Cons.prems(3) by (cases rs) auto
  obtain g' where g: "g = Suc g'" "length ts \<le> g'" using Cons.prems(8) by (cases g) auto
  have rt: "rereads rv dp fmt k t" "readable t" using Cons.prems(2) by (auto simp: rereads_def)
  obtain c s where h: "r = c # s" "\<not> c \<le> 32" using render_head [OF rt(2) rs(2)] by metis
  let ?ms = "zip (map jt_name ts) rs'" and ?nl = "if fmt then [10::byte] else []" and ?tb = "if fmt then [9::byte] else []"
    and ?tabs = "if fmt then replicate k (9::byte) else []" and ?nm = "string_text (jt_name t)"
  have ms: "?ms = [] \<longleftrightarrow> ts = []" using arg_cong [OF rs(3), of length] by (cases ts; cases rs') auto
  define z where "z = (if ts = [] then ?nl @ ind @ 125 # R else 44 # ?nl @ members_text fmt k ?ms @ ind @ 125 # R)"
  have tx: "members_text fmt k (zip (map jt_name (t # ts)) rs) @ ind @ 125 # R = ?tabs @ ?nm @ 58 # ?tb @ r @ z"
    using ms unfolding rs(1) z_def by (simp add: member_text_def)
  have q: "?nm @ u = 34 # tl ?nm @ u" for u by (simp add: string_text_def)
  let ?b1 = "adv b (1 + length ws + length ?tabs)"
  have s1: "buffer_skip_whitespace (adv b 1) = Some ?b1" "reads ?b1 (?nm @ 58 # ?tb @ r @ z)"
  proof -
    have w: "\<forall>w\<in>set (ws @ ?tabs). w \<le> 32" using Cons.prems(5) by auto
    have "reads (adv b 1) ((ws @ ?tabs) @ 34 # tl ?nm @ 58 # ?tb @ r @ z)"
      using Cons.prems(4) unfolding tx q [symmetric] by simp
    from skip_run [OF this w] show "buffer_skip_whitespace (adv b 1) = Some ?b1" "reads ?b1 (?nm @ 58 # ?tb @ r @ z)"
      unfolding q [symmetric] by (simp_all add: add.assoc)
  qed
  have nm: "ref_string ?b1 = Some (reread_text (jt_name t), adv ?b1 (length ?nm))"
    using ref_string_run [OF s1(2) refl] by (simp add: reread_text_def)
  let ?b2 = "adv ?b1 (length ?nm)"
  have r2: "reads ?b2 (58 # ?tb @ r @ z)" by (rule reads_adv [OF s1(2)])
  have s2: "buffer_skip_whitespace ?b2 = Some ?b2" "peek ?b2 = Some (Some 58)" "reads (adv ?b2 1) (?tb @ c # s @ z)"
    using skip_none [OF r2] reads_Cons(1,3) [OF r2] h(1) by auto
  let ?b4 = "adv ?b2 (1 + length ?tb)"
  have s4: "buffer_skip_whitespace (adv ?b2 1) = Some ?b4" "reads ?b4 (r @ z)"
    using skip_run [OF s2(3) _ h(2)] h(1) by (auto simp: add.assoc)
  have "\<exists>x R'. z = x # R' \<and> (x = 44 \<or> x = 10 \<or> x = 9 \<or> x = 125)" using Cons.prems(6) by (cases ind) (auto simp: z_def)
  then obtain x R' where z: "z = x # R'" "x = 44 \<or> x = 10 \<or> x = 9 \<or> x = 125" by blast
  have v: "rv ?b4 = Some (reread t, adv ?b4 (length r))"
    by (rule rereadsD [OF rt(1) rs(2), of _ x R']) (use s4(2) z Cons.prems(7) in auto)
  let ?b5 = "adv ?b4 (length r)"
  have r5: "reads ?b5 z" by (rule reads_adv [OF s4(2)])
  show ?case
  proof (cases "ts = []")
    case True
    have rs': "rs' = []" using rs(3) True by simp
    have zz: "z = (?nl @ ind) @ 125 # R" using True by (simp add: z_def)
    have w: "\<forall>w\<in>set (?nl @ ind). w \<le> 32" using Cons.prems(6) by auto
    let ?b6 = "adv ?b5 (length (?nl @ ind))"
    have s6: "buffer_skip_whitespace ?b5 = Some ?b6" "reads ?b6 (125 # R)" using skip_run [OF r5[unfolded zz] w] by simp_all
    then have "peek ?b6 = Some (Some 125)" using reads_Cons(1) by blast
    then have "ref_members rv g b = Some ([set_name (Some (reread_text (jt_name t))) (reread t)], ?b6)"
      using g(1) s1(1) nm s2(1,2) s4(1) v s6(1) by simp
    moreover have "length (members_text fmt k (zip (map jt_name (t # ts)) rs)) = length ?tabs + length ?nm + 1 + length ?tb + length r + length ?nl"
      using True rs' unfolding rs(1) by (simp add: member_text_def)
    ultimately show ?thesis using True by (simp add: add.assoc)
  next
    case False
    then have x: "x = 44" "R' = ?nl @ members_text fmt k ?ms @ ind @ 125 # R" using z(1) by (auto simp: z_def)
    have s6: "buffer_skip_whitespace ?b5 = Some ?b5" "peek ?b5 = Some (Some 44)" "reads (adv ?b5 1) R'"
      using skip_none [of ?b5 x R'] reads_Cons(1,3) [of ?b5 x R'] r5 z(1) x(1) by auto
    have IH: "ref_members rv g' ?b5 = Some (map (\<lambda>t. set_name (Some (reread_text (jt_name t))) (reread t)) ts,
        adv ?b5 (1 + length ?nl + length (members_text fmt k ?ms) + length ind))"
      using Cons.IH [OF False _ rs(3), of ?b5 ?nl g'] Cons.prems(2,6,7) g(2) s6(3) x(2) by auto
    have "length (members_text fmt k (zip (map jt_name (t # ts)) rs))
        = length ?tabs + length ?nm + 1 + length ?tb + length r + 1 + length ?nl + length (members_text fmt k ?ms)"
      using ms False unfolding rs(1) by (simp add: member_text_def)
    then show ?thesis using g(1) s1(1) nm s2(1,2) s4(1) v s6(1,2) IH by (simp add: add.assoc)
  qed
qed simp


section \<open>Values\<close>

lemma elements_length: "\<forall>r\<in>set rs. r \<noteq> [] \<Longrightarrow> length rs \<le> length (elements_text fmt rs) \<and> (\<forall>r\<in>set rs. length r \<le> length (elements_text fmt rs))"
proof (induction fmt rs rule: elements_text.induct)
  case (3 fmt r r' rs)
  have "0 < length r" using 3(2) by simp
  then show ?case using 3 by fastforce
qed (auto simp: Suc_le_eq)

lemma members_length: "length ms \<le> length (members_text fmt k ms) \<and> (\<forall>m\<in>set ms. length (snd m) \<le> length (members_text fmt k ms))"
  by (induction ms) (auto simp: member_text_def)

lemma ref_value_head:
  assumes "reads b (c # s)" "c \<noteq> 110" "c \<noteq> 102" "c \<noteq> 116"
  shows "ref_value (Suc f) b =
    (if c = 34 then ref_string_value b
     else if c = 45 \<or> (48 \<le> c \<and> c \<le> 57) then ref_number b
     else if c = 91 then ref_container 32 93 (ref_elems (ref_value f) f) b
     else if c = 123 then ref_container 64 125 (ref_members (ref_value f) f) b
     else None)"
proof -
  have "keyword b (ascii ''null'') = Some False" "keyword b (ascii ''false'') = Some False" "keyword b (ascii ''true'') = Some False"
    using keyword_other [OF assms(1)] assms(2-4) by (simp_all add: ascii_def)
  then show ?thesis using reads_Cons(1) [OF assms(1)] by simp
qed

lemma ref_value_keywords:
  "reads b (ascii ''null'' @ s) \<Longrightarrow> ref_value (Suc f) b = Some (leaf 4 0 zero_double None, adv b 4)"
  "reads b (ascii ''false'' @ s) \<Longrightarrow> ref_value (Suc f) b = Some (leaf 1 0 zero_double None, adv b 5)"
  "reads b (ascii ''true'' @ s) \<Longrightarrow> ref_value (Suc f) b = Some (leaf 2 1 zero_double None, adv b 4)"
proof -
  show "reads b (ascii ''null'' @ s) \<Longrightarrow> ref_value (Suc f) b = Some (leaf 4 0 zero_double None, adv b 4)"
    using keyword_run [of b "ascii ''null''" s] by simp
  assume r: "reads b (ascii ''false'' @ s)"
  then have "keyword b (ascii ''null'') = Some False" using keyword_other [of b 102 _ 110 "ascii ''ull''"] by (simp add: ascii_def)
  then show "ref_value (Suc f) b = Some (leaf 1 0 zero_double None, adv b 5)" using keyword_run [OF r] by simp
next
  assume r: "reads b (ascii ''true'' @ s)"
  then have "keyword b (ascii ''null'') = Some False" "keyword b (ascii ''false'') = Some False"
    using keyword_other [of b 116 _ 110 "ascii ''ull''"] keyword_other [of b 116 _ 102 "ascii ''alse''"] by (simp_all add: ascii_def)
  then show "ref_value (Suc f) b = Some (leaf 2 1 zero_double None, adv b 4)" using keyword_run [OF r] by simp
qed

lemma ref_container_empty:
  assumes "reads b (c # ws @ close # s)" "\<forall>w\<in>set ws. w \<le> 32" "\<not> close \<le> 32" "depth b < 1000"
  shows "ref_container ty close parts b = Some (JT ty 0 zero_double None None [], adv b (length ws + 2))"
proof -
  let ?b = "b\<lparr>depth := depth b + 1, offset := offset b + 1\<rparr>"
  have "reads ?b (ws @ close # s)" using reads_Cons(3) [OF assms(1)] by (simp add: reads_def)
  note k = skip_run [OF this assms(2,3)]
  then show ?thesis using reads_Cons(1) [OF k(2)] assms(4) by (simp add: ref_container_def)
qed

lemma ref_container_parts:
  assumes "reads b (c # ws @ e # s)" "\<forall>w\<in>set ws. w \<le> 32" "\<not> e \<le> 32" "e \<noteq> close" "depth b < 1000"
    and p: "\<And>b b'. buffer_skip_whitespace (adv b 1) = buffer_skip_whitespace (adv b' 1) \<Longrightarrow> parts b = parts b'"
  shows "ref_container ty close parts b =
    do { (ts, b3) \<leftarrow> parts (b\<lparr>depth := depth b + 1\<rparr>);
         Some (JT ty 0 zero_double None None ts, b3\<lparr>depth := depth b3 - 1, offset := offset b3 + 1\<rparr>) }"
proof -
  let ?b = "b\<lparr>depth := depth b + 1, offset := offset b + 1\<rparr>"
  have "reads ?b (ws @ e # s)" using reads_Cons(3) [OF assms(1)] by (simp add: reads_def)
  note k = skip_run [OF this assms(2,3)]
  let ?b2 = "adv ?b (length ws)"
  have "parts (?b2\<lparr>offset := offset ?b2 - 1\<rparr>) = parts (b\<lparr>depth := depth b + 1\<rparr>)"
    using p [of "?b2\<lparr>offset := offset ?b2 - 1\<rparr>" "b\<lparr>depth := depth b + 1\<rparr>"] k(1) skip_none [OF k(2) assms(3)] by simp
  then show ?thesis using k(1) reads_Cons(1) [OF k(2)] assms(4,5) by (simp add: ref_container_def)
qed

lemma parts_skip:
  "buffer_skip_whitespace (adv b 1) = buffer_skip_whitespace (adv b' 1) \<Longrightarrow> ref_elems rv g b = ref_elems rv g b'"
  "buffer_skip_whitespace (adv b 1) = buffer_skip_whitespace (adv b' 1) \<Longrightarrow> ref_members rv g b = ref_members rv g b'"
  by (cases g; simp)+

lemma ref_value_render:
  "readable t \<Longrightarrow> render fmt k t = Some r \<Longrightarrow> reads b (r @ x # R) \<Longrightarrow> \<not> number_char x \<Longrightarrow> depth b + nesting t \<le> 1000 \<Longrightarrow> length r < f \<Longrightarrow>
   ref_value f b = Some (reread t, adv b (length r))"
proof (induction f arbitrary: t k r b x R)
  case (Suc f)
  obtain ty i d v nm ks where t: "t = JT ty i d v nm ks" by (cases t)
  note Rd = Suc.prems(1)[unfolded t, simplified] and Rn = Suc.prems(2)[unfolded t render.simps]
  let ?ty = "ty AND 0xFF"
  have kids: "\<forall>u\<in>set ks. rereads (ref_value f) (depth b + 1) fmt (k + 1) u" if c: "?ty = cJSON_Array \<or> ?ty = cJSON_Object"
    and l: "\<And>u s. u \<in> set ks \<Longrightarrow> render fmt (k + 1) u = Some s \<Longrightarrow> length s < f"
  proof
    fix u assume u: "u \<in> set ks"
    have n: "depth b + 1 + nesting u \<le> 1000" using nesting_kid [OF c u, of i d v nm] Suc.prems(5) t by simp
    show "rereads (ref_value f) (depth b + 1) fmt (k + 1) u"
      unfolding rereads_def using Suc.IH [of u "k + 1"] Rd u n l by auto
  qed
  have dp: "depth b < 1000" if "?ty = cJSON_Array \<or> ?ty = cJSON_Object" using Suc.prems(5) that t by auto
  consider "?ty = cJSON_NULL" | "?ty = cJSON_False" | "?ty = cJSON_True" | "?ty = cJSON_Number" | "?ty = cJSON_String" | "?ty = cJSON_Array" | "?ty = cJSON_Object"
    using Rd by auto
  then show ?case
  proof cases
    case 1
    then have "r = ascii ''null''" using Rn by simp
    then show ?thesis using ref_value_keywords(1) [of b "x # R" f] Suc.prems(3) 1 t by simp
  next
    case 2
    then have "r = ascii ''false''" using Rn by simp
    then show ?thesis using ref_value_keywords(2) [of b "x # R" f] Suc.prems(3) 2 t by simp
  next
    case 3
    then have "r = ascii ''true''" using Rn by simp
    then show ?thesis using ref_value_keywords(3) [of b "x # R" f] Suc.prems(3) 3 t by simp
  next
    case 4
    then have n: "number_text d = Some r" "binary64 d" using Rn Rd by auto
    consider "r = ascii ''null''" "reread_number d = leaf cJSON_NULL 0 zero_double None"
      | sg ip fp ep where "number_shape r sg ip fp ep" "length r \<le> 25"
          "reread_number d = leaf cJSON_Number (the (int_of_double (fst (strtod r)))) (fst (strtod r)) None"
      using number_text_shape [OF n(2,1)] by blast
    then show ?thesis
    proof cases
      case a: 1
      then show ?thesis using ref_value_keywords(1) [of b "x # R" f] Suc.prems(3) 4 t by simp
    next
      case a: 2
      note ch = number_shape_chars(2,3) [OF a(1)]
      obtain c s where cs: "r = c # s" "c = 45 \<or> 48 \<le> c \<and> c \<le> 57" using ch by (cases r) auto
      then have "c \<noteq> 34" "c \<noteq> 110" "c \<noteq> 102" "c \<noteq> 116" by (auto simp: word_le_nat_alt)
      then have "ref_value (Suc f) b = ref_number b"
        using ref_value_head [of b c "s @ x # R" f] Suc.prems(3) cs by simp
      then show ?thesis using ref_number_run [OF Suc.prems(3) a(1,2) Suc.prems(4)] a(3) 4 t by simp
    qed
  next
    case 5
    then have s: "r = string_text v" using Rn by simp
    then obtain u where "r = 34 # u" by (simp add: string_text_def)
    then have "ref_value (Suc f) b = ref_string_value b" using ref_value_head [of b 34 "u @ x # R" f] Suc.prems(3) by simp
    moreover have "ref_string b = Some (reread_text v, adv b (length r))"
      using ref_string_run [OF Suc.prems(3)[unfolded s] refl] s by (simp add: reread_text_def)
    ultimately show ?thesis using 5 t by (simp add: ref_string_value_def)
  next
    case 6
    then obtain rs where rs: "map (render fmt (k + 1)) ks = map Some rs" "r = 91 # elements_text fmt rs @ [93]"
      using Rn by (auto simp: all_some_iff)
    have hd: "ref_value (Suc f) b = ref_container 32 93 (ref_elems (ref_value f) f) b"
      using ref_value_head [of b 91 "elements_text fmt rs @ [93] @ x # R" f] Suc.prems(3) rs(2) by simp
    show ?thesis
    proof (cases "ks = []")
      case True
      then show ?thesis using hd ref_container_empty [of b 91 "[]" 93 "x # R"] Suc.prems(3) rs 6 t dp by simp
    next
      case False
      have ne: "\<forall>s\<in>set rs. s \<noteq> []"
      proof
        fix s assume "s \<in> set rs"
        then have "Some s \<in> set (map (render fmt (k + 1)) ks)" using rs(1) by simp
        then obtain u where "u \<in> set ks" "render fmt (k + 1) u = Some s" by auto
        then show "s \<noteq> []" using render_head [of u fmt "k + 1" s] Rd by auto
      qed
      note el = elements_length [OF ne, of fmt]
      have lk: "length ks = length rs" using arg_cong [OF rs(1), of length] by simp
      have kd: "\<forall>u\<in>set ks. rereads (ref_value f) (depth b + 1) fmt (k + 1) u"
      proof (rule kids)
        fix u s assume "u \<in> set ks" "render fmt (k + 1) u = Some s"
        then have "Some s \<in> set (map Some rs)" unfolding rs(1) [symmetric] by force
        then have "s \<in> set rs" by auto
        then show "length s < f" using el Suc.prems(6) rs(2) by fastforce
      qed (use 6 in simp)
      let ?b = "b\<lparr>depth := depth b + 1\<rparr>"
      have "reads (adv ?b 1) ([] @ elements_text fmt rs @ 93 # x # R)"
        using reads_Cons(3) [of b 91 "elements_text fmt rs @ 93 # x # R"] Suc.prems(3) rs(2) by (simp add: reads_def)
      then have e: "ref_elems (ref_value f) f ?b = Some (map reread ks, adv ?b (1 + length (elements_text fmt rs)))"
        using ref_elems_run [OF False kd rs(1), of ?b "[]" "x # R" f] el lk Suc.prems(6) rs(2) by simp
      obtain u ks' r1 rs' where u: "ks = u # ks'" "rs = r1 # rs'" "render fmt (k + 1) u = Some r1" using False rs(1) by (cases ks; cases rs) auto
      have ru: "readable u" using Rd u(1) by auto
      obtain c s where h: "r1 = c # s" "\<not> c \<le> 32" "c \<noteq> 93" "c \<noteq> 125" "c \<noteq> 0xEF" by (rule render_head [OF ru u(3)])
      obtain s' where "elements_text fmt rs = c # s'" using u(2) h(1) by (cases rs') auto
      then have "reads b (91 # [] @ c # s' @ 93 # x # R)" using Suc.prems(3) rs(2) by simp
      from ref_container_parts [OF this _ h(2,3) dp parts_skip(1)] 6
      have "ref_container 32 93 (ref_elems (ref_value f) f) b = Some (JT 32 0 zero_double None None (map reread ks), adv b (1 + length (elements_text fmt rs) + 1))"
        using e by simp
      then show ?thesis using hd 6 t rs(2) by simp
    qed
  next
    case 7
    let ?nl = "if fmt then [10::byte] else []" and ?ind = "if fmt then replicate k (9::byte) else []"
    obtain rs where rs: "map (render fmt (k + 1)) ks = map Some rs"
        "r = 123 # ?nl @ members_text fmt (k + 1) (zip (map jt_name ks) rs) @ ?ind @ [125]"
      using Rn 7 by (auto simp: all_some_iff)
    let ?M = "members_text fmt (k + 1) (zip (map jt_name ks) rs)"
    have hd: "ref_value (Suc f) b = ref_container 64 125 (ref_members (ref_value f) f) b"
      using ref_value_head [of b 123 "?nl @ ?M @ ?ind @ [125] @ x # R" f] Suc.prems(3) rs(2) by simp
    have blank: "\<forall>w\<in>set ?nl. w \<le> 32" "\<forall>w\<in>set ?ind. w = 9" "\<forall>w\<in>set (?nl @ ?ind). w \<le> 32" by auto
    show ?thesis
    proof (cases "ks = []")
      case True
      then have "reads b (123 # (?nl @ ?ind) @ 125 # x # R)" using Suc.prems(3) rs by simp
      then show ?thesis using hd ref_container_empty [OF _ blank(3)] rs 7 t dp True by simp
    next
      case False
      have lk: "length ks = length rs" using arg_cong [OF rs(1), of length] by simp
      note ml = members_length [of "zip (map jt_name ks) rs" fmt "k + 1"]
      have kd: "\<forall>u\<in>set ks. rereads (ref_value f) (depth b + 1) fmt (k + 1) u"
      proof (rule kids)
        fix u s assume "u \<in> set ks" "render fmt (k + 1) u = Some s"
        then have "Some s \<in> set (map Some rs)" unfolding rs(1) [symmetric] by force
        then have "s \<in> set rs" by auto
        then have "s \<in> set (map snd (zip (map jt_name ks) rs))" using lk by simp
        then show "length s < f" using ml Suc.prems(6) rs(2) by fastforce
      qed (use 7 in simp)
      let ?b = "b\<lparr>depth := depth b + 1\<rparr>"
      have "reads (adv ?b 1) (?nl @ ?M @ ?ind @ 125 # x # R)"
        using reads_Cons(3) [of b 123 "?nl @ ?M @ ?ind @ 125 # x # R"] Suc.prems(3) rs(2) by (simp add: reads_def)
      moreover have "length ks \<le> f" using ml lk Suc.prems(6) rs(2) by simp
      ultimately have e: "ref_members (ref_value f) f ?b = Some (map (\<lambda>t. set_name (Some (reread_text (jt_name t))) (reread t)) ks,
          adv ?b (1 + length ?nl + length ?M + length ?ind))"
        using ref_members_run [OF False kd rs(1) _ blank(1,2), of ?b "x # R" f] by simp
      obtain u ks' r1 rs' where u: "ks = u # ks'" "rs = r1 # rs'" using False lk by (cases ks; cases rs) auto
      let ?tabs = "if fmt then replicate (k + 1) (9::byte) else []"
      obtain s' where "?M = ?tabs @ 34 # s'" using u by (simp add: member_text_def string_text_def)
      then have "reads b (123 # (?nl @ ?tabs) @ 34 # s' @ ?ind @ 125 # x # R)" using Suc.prems(3) rs(2) by simp
      from ref_container_parts [OF this _ _ _ dp parts_skip(2)] 7
      have "ref_container 64 125 (ref_members (ref_value f) f) b
          = Some (JT 64 0 zero_double None None (map (\<lambda>t. set_name (Some (reread_text (jt_name t))) (reread t)) ks), adv b (1 + length ?nl + length ?M + length ?ind + 1))"
        using e by simp
      then show ?thesis using hd 7 t rs(2) by simp
    qed
  qed
qed simp


section \<open>A whole text\<close>

lemma skip_bom: "reads b (c # s) \<Longrightarrow> c \<noteq> 0xEF \<Longrightarrow> offset b = 0 \<Longrightarrow> skip_utf8_bom b = Some (Some b)"
  using reads_Cons(2) [of b c s] by (simp add: skip_utf8_bom_def)

lemma skip_end: "reads b [0] \<Longrightarrow> buffer_skip_whitespace b = Some b"
proof -
  assume r: "reads b [0]"
  note c = reads_Cons [OF r]
  have l: "length (content b) = Suc (offset b)" using c(3,5) by (simp add: reads_def)
  have "skip_ws (content b) (buf_length b) (offset b) = Some (Suc (offset b))"
    using c(2) l r by (subst skip_ws.simps, subst skip_ws.simps) (simp add: reads_def)
  then show ?thesis using c(4) l r by (simp add: buffer_skip_whitespace_def reads_def)
qed

lemma ref_text_render:
  assumes "readable t" "nesting t \<le> 1000" "render fmt 0 t = Some r"
  shows "ref_text (r @ [0]) (length r + 1) req = Some (reread t, length r)"
proof -
  let ?b = "\<lparr>content = r @ [0], buf_length = length r + 1, offset = 0, depth = 0\<rparr>"
  obtain c s where h: "r = c # s" "\<not> c \<le> 32" "c \<noteq> 93" "c \<noteq> 125" "c \<noteq> 0xEF" by (rule render_head [OF assms(1,3)])
  have b: "reads ?b (r @ 0 # [])" by (simp add: reads_def)
  have bh: "reads ?b (c # s @ [0])" using b h(1) by simp
  have v: "ref_value (parse_fuel (length r + 1)) ?b = Some (reread t, adv ?b (length r))"
    by (rule ref_value_render [OF assms(1,3) b]) (use assms(2) in \<open>simp_all add: parse_fuel_def\<close>)
  have e: "reads (adv ?b (length r)) [0]" by (rule reads_adv [OF b])
  show ?thesis
    using skip_bom [OF bh h(5)] skip_none [OF bh h(2)] v skip_end [OF e] reads_Cons(1) [OF e] by (simp add: ref_text_def)
qed

section \<open>Whole numbers come back as they were\<close>

lemma digits_val_snoc: "digits_val (s @ [c]) = 10 * digits_val s + (uint c - 48)"
  by (simp add: digits_val_def)

lemma digits_val_decimal: "digits_val (decimal n) = int n"
proof (induction n rule: decimal.induct)
  case (1 n)
  have u: "uint (48 + of_nat k :: byte) - 48 = int k" if "k < 10" for k :: nat
  proof -
    have "unat (48 + of_nat k :: byte) = 48 + k" using that by (simp add: unat_word_ariths unat_of_nat)
    then show ?thesis by (simp add: uint_nat)
  qed
  show ?case
  proof (cases "n < 10")
    case True
    then show ?thesis using u [of n] by (simp add: decimal.simps [of n] digits_val_def)
  next
    case False
    then have "digits_val (decimal n) = 10 * int (n div 10) + int (n mod 10)"
      using 1 u [of "n mod 10"] by (simp add: decimal.simps [of n] digits_val_snoc)
    then show ?thesis by (metis div_mult_mod_eq mult.commute of_nat_add of_nat_mult of_nat_numeral)
  qed
qed

lemma strtod_decimal:
  assumes "sg \<in> {[], [45]}"
  shows "strtod (sg @ decimal n) = (double_of_frac (sg = [45]) n 1, length (sg @ decimal n))"
proof -
  have dg: "\<forall>c\<in>set (decimal n). is_digit c" "decimal n \<noteq> []" using decimal_digits decimal_length_pos [of n] by auto
  have so: "sign_of (sg @ decimal n) = (sg = [45], length sg)"
    using assms sign_of_digits [OF dg(2,1), of "[]"] by (auto simp: sign_of_def)
  have tw: "takeWhile is_digit (decimal n) = decimal n" using dg(1) by simp
  show ?thesis using so dg(2) by (simp add: strtod_def tw exponent_part_def double_of_dec_def digits_val_decimal Let_def)
qed

lemma decimal_shift: "0 < n \<Longrightarrow> decimal (n * 10 ^ k) = decimal n @ replicate k 48"
proof (induction k)
  case (Suc k)
  have "n * 10 ^ Suc k = 10 * (n * 10 ^ k)" by simp
  moreover have "\<not> 10 * (n * 10 ^ k) < 10" using Suc.prems by simp
  moreover have "(10 * (n * 10 ^ k)) div 10 = n * 10 ^ k" "(10 * (n * 10 ^ k)) mod 10 = 0" by simp_all
  ultimately have "decimal (n * 10 ^ Suc k) = decimal (n * 10 ^ k) @ [48]" by (simp only: decimal.simps [of "10 * (n * 10 ^ k)"] if_False) simp
  then show ?case using Suc by (simp add: replicate_append_same)
qed simp

lemma strip_replicate: "strip_zeros (replicate k 48) = []"
proof -
  have "dropWhile (\<lambda>c. c = 48) (replicate k (48::byte)) = []" by (induction k) auto
  then show ?thesis by (simp add: strip_zeros_def)
qed

lemma sprintf_g_whole:
  assumes "0 < n" "n < 10 ^ 15"
  shows "sprintf_g 15 (double_of_frac neg n 1) = (if neg then [45] else []) @ decimal n"
proof -
  have n53: "n < 2 ^ 53" using assms(2) by simp
  define b where "b = 53 - bits n"
  have bl: "bits n \<le> 53"
  proof -
    have "(2::nat) ^ (bits n - 1) < 2 ^ 53" using bits_bounds [OF assms(1)] n53 by linarith
    then show ?thesis using power_strict_increasing_iff [of "2::nat" "bits n - 1" 53] by simp
  qed
  have d: "double_of_frac neg n 1 = Fin neg (n * 2 ^ b) (- int b)"
    unfolding b_def using double_of_whole [OF assms(1) n53] bl by (simp add: of_nat_diff)
  let ?p = "n * 2 ^ b" and ?q = "2 ^ b :: nat"
  define l where "l = length (decimal n)"
  have l: "0 < l" "l \<le> 15" using decimal_length_pos [of n] decimal_length_le [OF assms(2)] by (auto simp: l_def)
  have fd: "first_digit ?p ?q = int l - 1" using assms(1) by (simp add: first_digit_def l_def)
  have sc: "scale10 ?p ?q (int l - 1 - int 15 + 1) = (n * 2 ^ b * 10 ^ (15 - l), 2 ^ b)"
    using l(2) by (cases "l = 15") (auto simp: scale10_def nat_diff_distrib)
  have re: "round_even (n * 2 ^ b * 10 ^ (15 - l), 2 ^ b) = n * 10 ^ (15 - l)"
  proof -
    have "n * 2 ^ b * 10 ^ (15 - l) = (n * 10 ^ (15 - l)) * 2 ^ b" by simp
    then show ?thesis by (simp only: round_even_def Let_def prod.case nonzero_mult_div_cancel_right mod_mult_self2_is_0) simp
  qed
  have "n < 10 ^ l" using decimal_bounds [of n] by (simp add: l_def)
  then have "n * 10 ^ (15 - l) < 10 ^ l * 10 ^ (15 - l)" by simp
  also have "\<dots> = 10 ^ 15" using l(2) by (simp flip: power_add)
  finally have lt: "n * 10 ^ (15 - l) \<noteq> 10 ^ 15" by simp
  have sg: "significant 15 ?p ?q = (n * 10 ^ (15 - l), int l - 1)"
    using fd sc re lt by (simp add: significant_def Let_def)
  have dc: "decimal (n * 10 ^ (15 - l)) = decimal n @ replicate (15 - l) 48" by (rule decimal_shift [OF assms(1)])
  have "digits_text 15 (n * 10 ^ (15 - l)) (int l - 1) = decimal n"
  proof -
    have "nat (int l - 1) + 1 = l" using l(1) by simp
    then have "with_point (take (nat (int l - 1) + 1) (decimal (n * 10 ^ (15 - l)))) (drop (nat (int l - 1) + 1) (decimal (n * 10 ^ (15 - l)))) = decimal n"
      unfolding dc by (simp add: l_def with_point_def strip_replicate)
    then show ?thesis using l by (simp add: digits_text_def Let_def)
  qed
  then show ?thesis using d sg assms(1) by simp
qed

lemma number_text_int:
  assumes "\<bar>i\<bar> < 10 ^ 15"
  shows "number_text (double_of_int i) = Some ((if i < 0 then [45] else []) @ decimal (nat \<bar>i\<bar>))"
proof (cases "i = 0")
  case True
  then have d: "double_of_int i = Fin False 0 0" by (simp add: double_of_int_def double_of_frac_def)
  have "decimal 0 = [48]" by (simp add: decimal.simps)
  moreover have "compare_double (Fin False 0 0) (Fin False 0 0)" by (rule compare_double_self) (simp add: is_finite_def)
  moreover have "strtod [48] = (Fin False 0 0, 1)" using strtod_decimal [of "[]" 0] \<open>decimal 0 = [48]\<close> by (simp add: double_of_frac_def)
  ultimately show ?thesis unfolding d using True by (simp add: number_text_def sprintf_number_def sscanf_lg_def)
next
  case False
  let ?n = "nat \<bar>i\<bar>" and ?sg = "if i < 0 then [45] else [] :: bytes"
  have n: "0 < ?n" "?n < 10 ^ 15" using False assms by auto
  have g: "sprintf_g 15 (double_of_int i) = ?sg @ decimal ?n" using sprintf_g_whole [OF n] by (simp add: double_of_int_def)
  have st: "strtod (?sg @ decimal ?n) = (double_of_int i, length (?sg @ decimal ?n))"
    using strtod_decimal [of ?sg ?n] by (simp add: double_of_int_def)
  have "?n < 2 ^ 53" using n(2) by simp
  then obtain m e where d: "double_of_int i = Fin (i < 0) m e"
    using double_of_whole [OF n(1), of "i < 0"] unfolding double_of_int_def by blast
  have "length ?sg \<le> 1" by simp
  then have "length (?sg @ decimal ?n) \<le> 16" using decimal_length_le [OF n(2)] unfolding length_append by linarith
  moreover have "compare_double (double_of_int i) (double_of_int i)" unfolding d by (rule compare_double_self) (simp add: is_finite_def)
  moreover have "decimal ?n \<noteq> []" using decimal_length_pos [of ?n] by simp
  ultimately show ?thesis
    using g st unfolding d by (simp add: number_text_def sprintf_number_def sscanf_lg_def del: sprintf_g.simps)
qed

lemma reread_int:
  assumes "\<bar>i\<bar> < 2 ^ 31"
  shows "reread_number (double_of_int i) = leaf cJSON_Number i (double_of_int i) None"
proof -
  let ?sg = "if i < 0 then [45] else [] :: bytes"
  have t: "number_text (double_of_int i) = Some (?sg @ decimal (nat \<bar>i\<bar>))" by (rule number_text_int) (use assms in simp)
  have st: "fst (strtod (?sg @ decimal (nat \<bar>i\<bar>))) = double_of_int i"
    using strtod_decimal [of ?sg "nat \<bar>i\<bar>"] by (simp add: double_of_int_def)
  have "int_of_double (double_of_int i) = Some i" by (rule int_of_double_of_int) (use assms in auto)
  moreover obtain m e where "double_of_int i = Fin (i < 0) m e"
  proof (cases "i = 0")
    case True
    then show thesis using that [of 0 0] by (simp add: double_of_int_def double_of_frac_def)
  next
    case False
    then have "0 < nat \<bar>i\<bar>" "nat \<bar>i\<bar> < 2 ^ 53" using assms by auto
    then show thesis using that double_of_whole [of "nat \<bar>i\<bar>" "i < 0"] unfolding double_of_int_def by blast
  qed
  ultimately show ?thesis using t st by (simp add: reread_number_def Let_def)
qed

end
