(* ===== verification/Cjson_Minify.thy ===== *)
theory Cjson_Minify
  imports Cjson_Text
begin

text \<open>
  \<open>cJSON_Minify\<close>: it removes blanks and comments from a text in place. The array is read at one
  index and written at another; both are checked.
\<close>

section \<open>The code\<close>

definition put_at :: "nat \<Rightarrow> byte \<Rightarrow> bytes \<Rightarrow> bytes option" where
  "put_at q c m = (if q < length m then Some (m[q := c]) else None)"

lemma put_at_length: "put_at q c m = Some m' \<Longrightarrow> length m' = length m"
  by (auto simp: put_at_def split: if_splits)

lemma byte_at_less: "byte_at m p = Some c \<Longrightarrow> p < length m"
  by (auto simp: byte_at_def split: if_splits)

function oneline_loop :: "bytes \<Rightarrow> nat \<Rightarrow> nat option" where
  "oneline_loop m p =
     do {
       c \<leftarrow> byte_at m p;
       if c = 0 then Some p
       else if c = 10 then Some (p + 1)
       else oneline_loop m (p + 1)
     }"
  by pat_completeness auto
termination by (relation "measure (\<lambda>(m, p). length m - p)") (auto dest: byte_at_less)

declare oneline_loop.simps [simp del]

definition skip_oneline_comment :: "bytes \<Rightarrow> nat \<Rightarrow> nat option" where
  "skip_oneline_comment m p = oneline_loop m (p + 2)"

function multiline_loop :: "bytes \<Rightarrow> nat \<Rightarrow> nat option" where
  "multiline_loop m p =
     do {
       c \<leftarrow> byte_at m p;
       if c = 0 then Some p
       else if c = 42
       then do {
         d \<leftarrow> byte_at m (p + 1);
         if d = 47 then Some (p + 2) else multiline_loop m (p + 1)
       }
       else multiline_loop m (p + 1)
     }"
  by pat_completeness auto
termination by (relation "measure (\<lambda>(m, p). length m - p)") (auto dest: byte_at_less)

declare multiline_loop.simps [simp del]

definition skip_multiline_comment :: "bytes \<Rightarrow> nat \<Rightarrow> nat option" where
  "skip_multiline_comment m p = multiline_loop m (p + 2)"

text \<open>The loop over a string: \<open>p\<close> is \<open>*input\<close>, \<open>q\<close> is \<open>*output\<close>.\<close>

function minify_string_loop :: "bytes \<Rightarrow> nat \<Rightarrow> nat \<Rightarrow> (bytes \<times> nat \<times> nat) option" where
  "minify_string_loop m p q =
     do {
       c \<leftarrow> byte_at m p;
       if c = 0 then Some (m, p, q)
       else do {
         m1 \<leftarrow> put_at q c m;
         c1 \<leftarrow> byte_at m1 p;
         if c1 = 34
         then do { m2 \<leftarrow> put_at q 34 m1; Some (m2, p + 1, q + 1) }
         else do {
           d \<leftarrow> (if c1 = 92 then byte_at m1 (p + 1) else Some 0);
           if c1 = 92 \<and> d = 34
           then do { m2 \<leftarrow> put_at (q + 1) d m1; minify_string_loop m2 (p + 2) (q + 2) }
           else minify_string_loop m1 (p + 1) (q + 1)
         }
       }
     }"
  by pat_completeness auto
termination by (relation "measure (\<lambda>(m, p, q). length m - p)") (auto dest!: byte_at_less put_at_length)

declare minify_string_loop.simps [simp del]

definition minify_string :: "bytes \<Rightarrow> nat \<Rightarrow> nat \<Rightarrow> (bytes \<times> nat \<times> nat) option" where
  "minify_string m p q =
     do { c \<leftarrow> byte_at m p; m1 \<leftarrow> put_at q c m; minify_string_loop m1 (p + 1) (q + 1) }"

lemma oneline_loop_mono: "oneline_loop m p = Some r \<Longrightarrow> p \<le> r"
proof (induction m p rule: oneline_loop.induct)
  case (1 m p)
  show ?case using 1(2) unfolding oneline_loop.simps [of m p]
    by (auto simp: bind_eq_Some_conv split: if_splits dest: 1(1))
qed

lemma multiline_loop_mono: "multiline_loop m p = Some r \<Longrightarrow> p \<le> r"
proof (induction m p rule: multiline_loop.induct)
  case (1 m p)
  show ?case using 1(3) unfolding multiline_loop.simps [of m p]
    by (auto simp: bind_eq_Some_conv split: if_splits dest: 1(1,2))
qed

lemma minify_string_loop_mono: "minify_string_loop m p q = Some (m', p', q') \<Longrightarrow> p \<le> p' \<and> length m' = length m"
proof (induction m p q rule: minify_string_loop.induct)
  case (1 m p q)
  obtain c where c: "byte_at m p = Some c" using 1(3) unfolding minify_string_loop.simps [of m p q] by (cases "byte_at m p") auto
  show ?case
  proof (cases "c = 0")
    case True
    then show ?thesis using 1(3) c unfolding minify_string_loop.simps [of m p q] by simp
  next
    case False
    then obtain m1 c1 where m1: "put_at q c m = Some m1" "byte_at m1 p = Some c1"
      using 1(3) c unfolding minify_string_loop.simps [of m p q] by (auto simp: bind_eq_Some_conv)
    note l = put_at_length [OF m1(1)]
    consider "c1 = 34" | "c1 = 92" "c1 \<noteq> 34" "byte_at m1 (p + 1) = Some 34"
      | d where "c1 \<noteq> 34" "(if c1 = 92 then byte_at m1 (p + 1) else Some 0) = Some d" "\<not> (c1 = 92 \<and> d = 34)"
      using 1(3) c False m1 unfolding minify_string_loop.simps [of m p q] by (auto simp: bind_eq_Some_conv simp del: byte_at_Some split: if_splits)
    then show ?thesis
    proof cases
      case 1
      then show ?thesis using \<open>minify_string_loop m p q = _\<close> c False m1 l unfolding minify_string_loop.simps [of m p q]
        by (auto simp: bind_eq_Some_conv dest: put_at_length)
    next
      case 2
      then obtain m2 where m2: "put_at (q + 1) 34 m1 = Some m2" "minify_string_loop m2 (p + 2) (q + 2) = Some (m', p', q')"
        using \<open>minify_string_loop m p q = _\<close> c False m1 unfolding minify_string_loop.simps [of m p q] by (auto simp: bind_eq_Some_conv)
      then show ?thesis using "1.IH"(1) [OF c False m1(1) m1(2) 2(2) _ _ m2(1,2)] 2 l put_at_length [OF m2(1)] by simp
    next
      case 3
      then have "minify_string_loop m1 (p + 1) (q + 1) = Some (m', p', q')"
        using \<open>minify_string_loop m p q = _\<close> c False m1 unfolding minify_string_loop.simps [of m p q] by (auto split: if_splits)
      then show ?thesis using "1.IH"(2) [OF c False m1(1) m1(2) 3(1) 3(2) 3(3)] l by simp
    qed
  qed
qed

text \<open>Each turn of the loop leaves less of the text.\<close>

lemma minify_turn:
  assumes "byte_at m p = Some c"
  shows "length m - Suc p < length m - p"
    and "put_at q d m = Some m1 \<Longrightarrow> length m1 - Suc p < length m - p"
    and "skip_oneline_comment m p = Some p' \<Longrightarrow> length m - p' < length m - p"
    and "skip_multiline_comment m p = Some p' \<Longrightarrow> length m - p' < length m - p"
    and "minify_string m p q = Some (m1, p1, q1) \<Longrightarrow> length m1 - p1 < length m - p"
proof -
  note p = byte_at_less [OF assms]
  show "length m - Suc p < length m - p" using p by simp
  show "put_at q d m = Some m1 \<Longrightarrow> length m1 - Suc p < length m - p" using p put_at_length by fastforce
  show "skip_oneline_comment m p = Some p' \<Longrightarrow> length m - p' < length m - p"
    using p oneline_loop_mono [of m "p + 2" p'] by (auto simp: skip_oneline_comment_def)
  show "skip_multiline_comment m p = Some p' \<Longrightarrow> length m - p' < length m - p"
    using p multiline_loop_mono [of m "p + 2" p'] by (auto simp: skip_multiline_comment_def)
  assume "minify_string m p q = Some (m1, p1, q1)"
  then obtain c m2 where "put_at q c m = Some m2" "minify_string_loop m2 (p + 1) (q + 1) = Some (m1, p1, q1)"
    by (auto simp: minify_string_def bind_eq_Some_conv)
  then show "length m1 - p1 < length m - p"
    using p put_at_length [of q c m m2] minify_string_loop_mono [of m2 "p + 1" "q + 1" m1 p1 q1] by auto
qed

function minify_loop :: "bytes \<Rightarrow> nat \<Rightarrow> nat \<Rightarrow> bytes option" where
  "minify_loop m p q =
     do {
       c \<leftarrow> byte_at m p;
       if c = 0 then put_at q 0 m
       else if c = 32 \<or> c = 9 \<or> c = 13 \<or> c = 10 then minify_loop m (p + 1) q
       else if c = 47
       then do {
         d \<leftarrow> byte_at m (p + 1);
         if d = 47 then do { p' \<leftarrow> skip_oneline_comment m p; minify_loop m p' q }
         else if d = 42 then do { p' \<leftarrow> skip_multiline_comment m p; minify_loop m p' q }
         else minify_loop m (p + 1) q
       }
       else if c = 34
       then do { (m1, p1, q1) \<leftarrow> minify_string m p q; minify_loop m1 p1 q1 }
       else do { m1 \<leftarrow> put_at q c m; minify_loop m1 (p + 1) (q + 1) }
     }"
  by pat_completeness auto
termination by (relation "measure (\<lambda>(m, p, q). length m - p)") (auto simp del: byte_at_Some intro: minify_turn)

declare minify_loop.simps [simp del]

definition cJSON_Minify :: "bytes option \<Rightarrow> bytes option option" where
  "cJSON_Minify json = (case json of None \<Rightarrow> Some None | Some m \<Rightarrow> map_option Some (minify_loop m 0 0))"

section \<open>What it does to the text\<close>

fun line_rest :: "bytes \<Rightarrow> bytes" where
  "line_rest [] = []"
| "line_rest (c # s) = (if c = 10 then s else line_rest s)"

fun comment_rest :: "bytes \<Rightarrow> bytes" where
  "comment_rest [] = []"
| "comment_rest (c # s) = (if c = 42 \<and> s \<noteq> [] \<and> hd s = 47 then tl s else comment_rest s)"

text \<open>The rest of a string with its closing quote, and what follows.\<close>

fun string_rest :: "bytes \<Rightarrow> bytes \<times> bytes" where
  "string_rest [] = ([], [])"
| "string_rest [c] = ([c], [])"
| "string_rest (c # d # s) =
     (if c = 34 then ([34], d # s)
      else if c = 92 \<and> d = 34 then (let (a, b) = string_rest s in (c # d # a, b))
      else let (a, b) = string_rest (d # s) in (c # a, b))"

lemma line_rest_set: "set (line_rest s) \<subseteq> set s"
  by (induction s) auto

lemma comment_rest_set: "set (comment_rest s) \<subseteq> set s"
  by (induction s) (auto dest: list.set_sel(2))

lemma line_rest_length: "length (line_rest s) \<le> length s"
  by (induction s) auto

lemma comment_rest_length: "length (comment_rest s) \<le> length s"
  by (induction s) auto

lemma string_rest_length: "length (fst (string_rest s)) + length (snd (string_rest s)) = length s"
  by (induction s rule: string_rest.induct) (auto split: prod.splits)

definition json_blank :: "byte \<Rightarrow> bool" where
  "json_blank c \<longleftrightarrow> c = 32 \<or> c = 9 \<or> c = 13 \<or> c = 10"

function minified :: "bytes \<Rightarrow> bytes" where
  "minified [] = []"
| "minified (c # s) =
     (if json_blank c then minified s
      else if c = 47
      then if s \<noteq> [] \<and> hd s = 47 then minified (line_rest (tl s))
        else if s \<noteq> [] \<and> hd s = 42 then minified (comment_rest (tl s))
        else minified s
      else if c = 34 then 34 # fst (string_rest s) @ minified (snd (string_rest s))
      else c # minified s)"
  by pat_completeness auto
termination
proof (relation "measure length", goal_cases)
  case (4 c s)
  then show ?case using comment_rest_length [of "tl s"] by (cases s) auto
next
  case (3 c s)
  then show ?case using line_rest_length [of "tl s"] by (cases s) auto
next
  case (6 c s)
  then show ?case using string_rest_length [of s] by auto
qed auto

section \<open>The code does that\<close>

lemma drop_head: "drop p m = c # s \<Longrightarrow> p < length m \<and> m ! p = c \<and> byte_at m p = Some c \<and> drop (Suc p) m = s"
  by (metis Cons_nth_drop_Suc byte_at_in drop_eq_Nil leI list.distinct(1) list.sel(1,3))

lemma oneline_loop_run:
  "drop p m = s @ 0 # R \<Longrightarrow> 0 \<notin> set s \<Longrightarrow> \<exists>p'\<ge>p. oneline_loop m p = Some p' \<and> drop p' m = line_rest s @ 0 # R"
proof (induction s arbitrary: p)
  case Nil
  then show ?case using drop_head [of p m 0 R] by (intro exI [of _ p]) (subst oneline_loop.simps, simp)
next
  case (Cons c s)
  note h = drop_head [of p m c "s @ 0 # R"]
  show ?case
  proof (cases "c = 10")
    case True
    then show ?thesis using h Cons.prems by (intro exI [of _ "p + 1"]) (subst oneline_loop.simps, simp)
  next
    case False
    obtain p' where "p' \<ge> Suc p" "oneline_loop m (Suc p) = Some p'" "drop p' m = line_rest s @ 0 # R"
      using Cons.IH [of "Suc p"] h Cons.prems by auto
    then show ?thesis using False h Cons.prems by (intro exI [of _ p']) (subst oneline_loop.simps, simp)
  qed
qed

lemma multiline_loop_run:
  "drop p m = s @ 0 # R \<Longrightarrow> 0 \<notin> set s \<Longrightarrow> \<exists>p'\<ge>p. multiline_loop m p = Some p' \<and> drop p' m = comment_rest s @ 0 # R"
proof (induction s arbitrary: p)
  case Nil
  then show ?case using drop_head [of p m 0 R] by (intro exI [of _ p]) (subst multiline_loop.simps, simp)
next
  case (Cons c s)
  note h = drop_head [of p m c "s @ 0 # R"]
  obtain p' where IH: "p' \<ge> Suc p" "multiline_loop m (Suc p) = Some p'" "drop p' m = comment_rest s @ 0 # R"
    using Cons.IH [of "Suc p"] h Cons.prems by auto
  show ?case
  proof (cases s)
    case Nil
    then show ?thesis
      using IH h Cons.prems drop_head [of "Suc p" m 0 R] by (intro exI [of _ p']) (subst multiline_loop.simps, simp)
  next
    case (Cons d t)
    have n: "byte_at m (Suc p) = Some d" "drop (Suc (Suc p)) m = t @ 0 # R"
      using h Cons.prems Cons drop_head [of "Suc p" m d "t @ 0 # R"] by auto
    show ?thesis
    proof (cases "c = 42 \<and> d = 47")
      case True
      then show ?thesis using h n Cons.prems Cons
        by (intro exI [of _ "Suc (Suc p)"]) (subst multiline_loop.simps, simp)
    next
      case False
      then show ?thesis using IH h n Cons.prems Cons
        by (intro exI [of _ p']) (subst multiline_loop.simps, auto)
    qed
  qed
qed

text \<open>Writes behind the index that is read; successive writes are one.\<close>

lemma put_at_memcpy: "put_at q c m = memcpy_at q [c] m"
  by (auto simp: put_at_def memcpy_at_def upd_conv_take_nth_drop)

lemma memcpy_at_drop: "memcpy_at q a m = Some m' \<Longrightarrow> q + length a \<le> p \<Longrightarrow> drop p m' = drop p m"
  by (auto simp: memcpy_at_def split: if_splits)

lemma memcpy_at_append: "memcpy_at q a m = Some m1 \<Longrightarrow> memcpy_at (q + length a) b m1 = memcpy_at q (a @ b) m"
  by (auto simp: memcpy_at_def ac_simps split: if_splits)

lemma memcpy_at_same: "p < length m \<Longrightarrow> q \<le> p \<Longrightarrow> \<exists>m'. put_at q (m ! p) m = Some m' \<and> length m' = length m \<and> drop p m' = drop p m"
  by (cases "q = p") (auto simp: put_at_def drop_update_cancel)

lemma string_rest_append: "fst (string_rest s) @ snd (string_rest s) = s"
  by (induction s rule: string_rest.induct) (auto split: prod.splits)

text \<open>One turn of the loop over a string that does not end it.\<close>

lemma minify_string_turn:
  assumes "drop p m = c # s" "c \<noteq> 0" "c \<noteq> 34" "q \<le> p" "s \<noteq> []"
  obtains m1 where "put_at q c m = Some m1" "length m1 = length m" "drop p m1 = drop p m"
    "minify_string_loop m p q =
       (if c = 92 \<and> hd s = 34 then do { m2 \<leftarrow> put_at (q + 1) 34 m1; minify_string_loop m2 (p + 2) (q + 2) }
        else minify_string_loop m1 (p + 1) (q + 1))"
proof -
  note h = drop_head [OF assms(1)]
  obtain m1 where m1: "put_at q c m = Some m1" "length m1 = length m" "drop p m1 = drop p m"
    using memcpy_at_same [of p m q] h assms(4) by auto
  have b: "byte_at m1 p = Some c" "byte_at m1 (Suc p) = Some (hd s)"
    using drop_head [of p m1 c s] drop_head [of "Suc p" m1 "hd s" "tl s"] m1(3) assms(1,5) by auto
  have "minify_string_loop m p q =
       (if c = 92 \<and> hd s = 34 then do { m2 \<leftarrow> put_at (q + 1) 34 m1; minify_string_loop m2 (p + 2) (q + 2) }
        else minify_string_loop m1 (p + 1) (q + 1))"
    using h m1(1) b assms(2,3) by (subst minify_string_loop.simps) (auto simp del: byte_at_Some)
  then show ?thesis using that m1 by blast
qed

lemma minify_string_stop: "drop p m = 0 # R \<Longrightarrow> minify_string_loop m p q = Some (m, p, q)"
  using drop_head [of p m 0 R] by (subst minify_string_loop.simps) simp

lemma minify_string_quote:
  assumes "drop p m = 34 # s" "q \<le> p"
  shows "minify_string_loop m p q = map_option (\<lambda>m'. (m', p + 1, q + 1)) (memcpy_at q [34] m)"
proof -
  note h = drop_head [OF assms(1)]
  have "drop p (m[q := 34]) = 34 # s" using memcpy_at_same [of p m q] h assms by (auto simp: put_at_def)
  then show ?thesis
    using h assms(2) drop_head [of p "m[q := 34]" 34 s] unfolding put_at_memcpy [symmetric]
    by (subst minify_string_loop.simps) (simp add: put_at_def)
qed

lemma minify_string_loop_run:
  "drop p m = s @ 0 # R \<Longrightarrow> 0 \<notin> set s \<Longrightarrow> q \<le> p \<Longrightarrow>
   minify_string_loop m p q =
     map_option (\<lambda>m'. (m', p + length (fst (string_rest s)), q + length (fst (string_rest s)))) (memcpy_at q (fst (string_rest s)) m)"
proof (induction s arbitrary: m p q rule: string_rest.induct)
  case 1
  then show ?case using drop_head [of p m 0 R] by (simp add: minify_string_stop memcpy_at_def)
next
  case (2 c)
  show ?case
  proof (cases "c = 34")
    case True
    then show ?thesis using minify_string_quote [of p m] 2 by simp
  next
    case False
    obtain m1 where m1: "put_at q c m = Some m1" "length m1 = length m" "drop p m1 = drop p m"
      "minify_string_loop m p q = minify_string_loop m1 (p + 1) (q + 1)"
      by (rule minify_string_turn [of p m c "0 # R" q]) (use 2 False in auto)
    have "drop (Suc p) m1 = 0 # R" using m1(3) 2(1) drop_head [of p m1 c "0 # R"] by simp
    then show ?thesis using m1 by (simp add: minify_string_stop put_at_memcpy)
  qed
next
  case (3 c d s)
  show ?case
  proof (cases "c = 34")
    case True
    then show ?thesis using minify_string_quote [of p m] 3 by simp
  next
    case False
    obtain m1 where m1: "put_at q c m = Some m1" "length m1 = length m" "drop p m1 = drop p m"
      "minify_string_loop m p q = (if c = 92 \<and> d = 34 then do { m2 \<leftarrow> put_at (q + 1) 34 m1; minify_string_loop m2 (p + 2) (q + 2) }
        else minify_string_loop m1 (p + 1) (q + 1))"
      by (rule minify_string_turn [of p m c "d # s @ 0 # R" q]) (use 3 False in auto)
    have d1: "drop (Suc p) m1 = d # s @ 0 # R" using m1(3) 3(3) drop_head [of p m1 c "d # s @ 0 # R"] by simp
    have c1: "memcpy_at q [c] m = Some m1" using m1(1) by (simp add: put_at_memcpy)
    show ?thesis
    proof (cases "c = 92 \<and> d = 34")
      case True
      have "Suc q < length m1" using d1 3(5) by (metis drop_head le_less_trans not_less_eq_eq le_antisym linorder_not_less)
      then obtain m2 where m2: "put_at (q + 1) 34 m1 = Some m2" by (simp add: put_at_def)
      have c2: "memcpy_at q [c, d] m = Some m2"
        using m2 True memcpy_at_append [OF c1, of "[34]"] by (simp add: put_at_memcpy)
      have "drop (p + 2) m2 = s @ 0 # R"
        using memcpy_at_drop [OF c2, of "p + 2"] 3(3,5) drop_head [of p m c "d # s @ 0 # R"] drop_head [of "Suc p" m d "s @ 0 # R"]
        by simp
      then show ?thesis
        using "3.IH"(1) [OF False True, of "p + 2" m2 "q + 2"] 3(4,5) False True m1(4) m2 memcpy_at_append [OF c2]
        by (simp add: case_prod_unfold Let_def numeral_2_eq_2)
    next
      case no: False
      show ?thesis
        using "3.IH"(2) [OF False no, of "Suc p" m1 "Suc q"] d1 3(4,5) False no m1(4) memcpy_at_append [OF c1]
        by (auto simp: case_prod_unfold Let_def)
    qed
  qed
qed


section \<open>The whole function\<close>

lemma minify_loop_run:
  "drop p m = s @ 0 # R \<Longrightarrow> 0 \<notin> set s \<Longrightarrow> q \<le> p \<Longrightarrow> minify_loop m p q = memcpy_at q (minified s @ [0]) m"
proof (induction s arbitrary: m p q rule: minified.induct)
  case 1
  then show ?case using drop_head [of p m 0 R] by (subst minify_loop.simps) (simp add: put_at_memcpy)
next
  case (2 c s)
  note h = drop_head [of p m c "s @ 0 # R"]
  have p: "p < length m" "byte_at m p = Some c" "drop (Suc p) m = s @ 0 # R" "c \<noteq> 0" "0 \<notin> set s" "q \<le> Suc p" and qp: "q \<le> p"
    using h "2.prems" by auto
  have n: "byte_at m (Suc p) = Some (hd (s @ [0]))"
    using p(3) drop_head [of "Suc p" m] by (cases s) auto
  consider "json_blank c" | "c = 47" "s \<noteq> []" "hd s = 47" | "c = 47" "s \<noteq> []" "hd s = 42"
    | "c = 47" "s = [] \<or> hd s \<noteq> 47 \<and> hd s \<noteq> 42" | "c = 34" | "\<not> json_blank c" "c \<noteq> 47" "c \<noteq> 34" by blast
  then show ?case
  proof cases
    case 1
    then show ?thesis using "2.IH"(1) [OF 1 p(3,5,6)] p
      by (subst minify_loop.simps) (auto simp: json_blank_def simp del: byte_at_Some)
  next
    case c: 2
    obtain t where t: "s = 47 # t" using c by (cases s) auto
    then have "drop (p + 2) m = t @ 0 # R" using p(3) drop_head [of "Suc p" m 47 "t @ 0 # R"] by simp
    then obtain p' where p': "p' \<ge> p + 2" "oneline_loop m (p + 2) = Some p'" "drop p' m = line_rest t @ 0 # R"
      using oneline_loop_run [of "p + 2" m t R] p(5) t by auto
    have z: "0 \<notin> set (line_rest t)"
      using p(5) t line_rest_set [of t] by auto
    show ?thesis using "2.IH"(2) [of p' m q] c t p' p n z
      by (subst minify_loop.simps) (auto simp: json_blank_def skip_oneline_comment_def simp del: byte_at_Some)
  next
    case c: 3
    obtain t where t: "s = 42 # t" using c by (cases s) auto
    then have "drop (p + 2) m = t @ 0 # R" using p(3) drop_head [of "Suc p" m 42 "t @ 0 # R"] by simp
    then obtain p' where p': "p' \<ge> p + 2" "multiline_loop m (p + 2) = Some p'" "drop p' m = comment_rest t @ 0 # R"
      using multiline_loop_run [of "p + 2" m t R] p(5) t by auto
    have z: "0 \<notin> set (comment_rest t)"
      using p(5) t comment_rest_set [of t] by auto
    show ?thesis using "2.IH"(3) [of p' m q] c t p' p n z
      by (subst minify_loop.simps) (auto simp: json_blank_def skip_multiline_comment_def simp del: byte_at_Some)
  next
    case c: 4
    have "hd (s @ [0]) \<noteq> 47" "hd (s @ [0]) \<noteq> 42" using c(2) by (cases s; auto)+
    then show ?thesis using c "2.IH"(4) [of "Suc p" m q] p n
      by (subst minify_loop.simps) (auto simp: json_blank_def simp del: byte_at_Some)
  next
    case c: 5
    let ?a = "fst (string_rest s)" and ?b = "snd (string_rest s)"
    obtain m1 where m1: "put_at q 34 m = Some m1" "length m1 = length m" "drop p m1 = drop p m"
      using memcpy_at_same [of p m q] p h "2.prems" c by auto
    have d1: "drop (Suc p) m1 = s @ 0 # R" using m1(3) "2.prems"(1) drop_head [of p m1 c "s @ 0 # R"] by simp
    have c1: "memcpy_at q [34] m = Some m1" using m1(1) by (simp add: put_at_memcpy)
    have l: "length s < length m - p" using "2.prems"(1) by (metis add_Suc_right length_Cons length_append length_drop less_add_Suc1 append_Cons)
    have "length ?a \<le> length s" using string_rest_length [of s] by linarith
    then have "Suc (q + length ?a) \<le> length m1" using l m1(2) qp by linarith
    then obtain m2 where m2: "memcpy_at (Suc q) ?a m1 = Some m2" by (simp add: memcpy_at_def)
    have ab: "?a @ ?b = s" by (rule string_rest_append)
    have "drop (Suc p + length ?a) m1 = drop (length ?a) ((?a @ ?b) @ 0 # R)"
      using arg_cong [OF d1, of "drop (length ?a)"] unfolding ab drop_drop by (simp only: add.commute)
    then have "drop (Suc p + length ?a) m1 = ?b @ 0 # R" by simp
    then have d2: "drop (Suc p + length ?a) m2 = ?b @ 0 # R" using memcpy_at_drop [OF m2, of "Suc p + length ?a"] qp by simp
    have z: "0 \<notin> set ?b" using p(5) ab by (metis Un_iff set_append)
    have ms: "minify_string m p q = Some (m2, Suc p + length ?a, Suc q + length ?a)"
      using p c m1(1) minify_string_loop_run [OF d1 p(5), of "Suc q"] m2 qp by (simp add: minify_string_def)
    have c2: "memcpy_at q (34 # ?a) m = Some m2" using memcpy_at_append [OF c1, of ?a] m2 by simp
    show ?thesis
      using "2.IH"(5) [of "Suc p + length ?a" m2 "Suc q + length ?a"] c p ms d2 z qp memcpy_at_append [OF c2, of "minified ?b @ [0]"]
      by (subst minify_loop.simps) (auto simp: json_blank_def simp del: byte_at_Some)
  next
    case c: 6
    obtain m1 where m1: "put_at q c m = Some m1" "length m1 = length m" "drop p m1 = drop p m"
      using memcpy_at_same [of p m q] p h "2.prems" by auto
    have d1: "drop (Suc p) m1 = s @ 0 # R" using m1(3) "2.prems"(1) drop_head [of p m1 c "s @ 0 # R"] by simp
    have c1: "memcpy_at q [c] m = Some m1" using m1(1) by (simp add: put_at_memcpy)
    show ?thesis
      using "2.IH"(6) [of "Suc p" m1 "Suc q"] c p m1(1) d1 qp memcpy_at_append [OF c1, of "minified s @ [0]"]
      by (subst minify_loop.simps) (auto simp: json_blank_def simp del: byte_at_Some)
  qed
qed

lemma minified_length: "length (minified s) \<le> length s"
proof (induction s rule: minified.induct)
  case (2 c s)
  show ?case
    using 2 line_rest_length [of "tl s"] comment_rest_length [of "tl s"] string_rest_length [of s]
    by (auto intro: le_trans le_SucI)
qed simp

end
