(* ===== verification/Cjson_Minify_Print.thy ===== *)
theory Cjson_Minify_Print
  imports Cjson_Roundtrip Cjson_Minify
begin

text \<open>
  Minifying a printed text. The formatted text of a tree becomes its unformatted text, as long as
  no string of the tree ends in a backslash: \<open>minify_string\<close> takes a backslash before a quote for an
  escape, even when the backslash is itself escaped.
\<close>

section \<open>Texts the minifier does not change\<close>

definition plain_char :: "byte \<Rightarrow> bool" where
  "plain_char c \<longleftrightarrow> \<not> json_blank c \<and> c \<noteq> 47 \<and> c \<noteq> 34"

lemma minified_plain: "\<forall>c\<in>set s. plain_char c \<Longrightarrow> minified (s @ R) = s @ minified R"
  by (induction s) (auto simp: plain_char_def)

lemma minified_blank: "\<forall>c\<in>set s. json_blank c \<Longrightarrow> minified (s @ R) = minified R"
  by (induction s) auto

lemma plain_chars [simp]:
  "plain_char 91" "plain_char 93" "plain_char 123" "plain_char 125" "plain_char 44" "plain_char 58"
  "json_blank 9" "json_blank 10" "json_blank 32"
  by (simp_all add: plain_char_def json_blank_def)

lemma minified_Cons [simp]: "plain_char c \<Longrightarrow> minified (c # R) = c # minified R"
  using minified_plain [of "[c]" R] by simp

lemma minified_blank_Cons [simp]: "json_blank c \<Longrightarrow> minified (c # R) = minified R"
  by simp

lemma minified_quote: "minified (34 # s) = 34 # fst (string_rest s) @ minified (snd (string_rest s))"
  by (simp add: json_blank_def)

declare minified.simps(2) [simp del]

lemma number_char_plain: "number_char c \<Longrightarrow> plain_char c"
  by (auto simp: number_char_def plain_char_def json_blank_def is_digit_def)

lemma number_text_plain:
  assumes "binary64 d" "number_text d = Some s"
  shows "\<forall>c\<in>set s. plain_char c"
proof (cases "s = ascii ''null''")
  case True
  then show ?thesis by (simp add: ascii_def plain_char_def json_blank_def)
next
  case False
  then obtain sg ip fp ep where "number_shape s sg ip fp ep" using number_text_shape [OF assms] by blast
  then show ?thesis using number_shape_chars(1) number_char_plain by blast
qed

section \<open>Strings\<close>

lemma string_rest_step:
  assumes "X \<noteq> []" "c \<noteq> 34" "c \<noteq> 92 \<or> hd X \<noteq> 34"
  shows "string_rest (c # X) = (c # fst (string_rest X), snd (string_rest X))"
  using assms by (cases X) (auto simp: case_prod_unfold Let_def)

lemma string_rest_pair: "string_rest (92 # 34 # X) = (92 # 34 # fst (string_rest X), snd (string_rest X))"
  by (simp add: case_prod_unfold Let_def)

lemma hex_char_plain: "hex_char (unat (c::byte) div 16) \<notin> {34, 92}" "hex_char (unat (c::byte) mod 16) \<notin> {34, 92}"
proof -
  have "unat c < 256" using unsigned_less [of c, where 'a = nat] by simp
  then have "unat c div 16 < 16" "unat c mod 16 < 16" by (auto simp: less_mult_imp_div_less)
  then show "hex_char (unat c div 16) \<notin> {34, 92}" "hex_char (unat c mod 16) \<notin> {34, 92}"
    using hex_char_range by auto
qed

lemma escape_text_hd: "hd (escape_text c @ X) \<noteq> 34"
  by (auto simp: escape_text_def)

lemma string_rest_escape:
  assumes X: "X \<noteq> []" and c: "c = 92 \<Longrightarrow> hd X \<noteq> 34"
  shows "string_rest (escape_text c @ X) = (escape_text c @ fst (string_rest X), snd (string_rest X))"
proof -
  note step = string_rest_step string_rest_pair
  consider "c > 31 \<and> c \<noteq> 34 \<and> c \<noteq> 92" | "c = 92" | "c = 34" | y where "escape_text c = [92, y]" "y \<noteq> 34" "y \<noteq> 92"
    | "escape_text c = [92, 117] @ sprintf_04x c"
  proof (cases "c \<in> {8, 9, 10, 12, 13}")
    case True
    then have "\<exists>y. escape_text c = [92, y] \<and> y \<noteq> 34 \<and> y \<noteq> 92" by (auto simp: escape_text_def)
    then show thesis using that(4) by blast
  next
    case False
    then have "(c > 31 \<and> c \<noteq> 34 \<and> c \<noteq> 92) \<or> c = 92 \<or> c = 34 \<or> escape_text c = [92, 117] @ sprintf_04x c"
      by (simp add: escape_text_def)
    then show thesis using that(1,2,3,5) by blast
  qed
  then show ?thesis
  proof cases
    case 1
    then show ?thesis using X by (simp add: escape_text_def step)
  next
    case 2
    then show ?thesis using X c by (simp add: escape_text_def step)
  next
    case 3
    then show ?thesis by (simp add: escape_text_def string_rest_pair del: string_rest.simps)
  next
    case 4
    then show ?thesis using X by (simp add: step)
  next
    case 5
    then show ?thesis using X hex_char_plain [of c] by (simp add: sprintf_04x_def step)
  qed
qed

definition clean_text :: "bytes option \<Rightarrow> bool" where
  "clean_text v \<longleftrightarrow> (case v of None \<Rightarrow> True | Some s \<Rightarrow> until_null s = [] \<or> last (until_null s) \<noteq> 92)"

lemma string_rest_escapes:
  "s = [] \<or> last s \<noteq> 92 \<Longrightarrow> string_rest (concat (map escape_text s) @ 34 # R) = (concat (map escape_text s) @ [34], R)"
proof (induction s)
  case (Cons c s)
  have "hd (concat (map escape_text s) @ 34 # R) \<noteq> 34" if "c = 92"
  proof -
    have "s \<noteq> []" using Cons.prems that by auto
    then obtain d s' where "s = d # s'" by (cases s) auto
    then show ?thesis using escape_text_hd by simp
  qed
  then show ?case using Cons string_rest_escape [of "concat (map escape_text s) @ 34 # R" c] by (auto split: if_splits)
qed (cases R; simp)

lemma minified_string: "clean_text v \<Longrightarrow> minified (string_text v @ R) = string_text v @ minified R"
proof (cases v)
  case None
  then show ?thesis using string_rest_escapes [of "[]" R] by (simp add: string_text_def minified_quote)
next
  case (Some s)
  moreover assume "clean_text v"
  ultimately show ?thesis using string_rest_escapes [of "until_null s" R] by (simp add: string_text_def clean_text_def minified_quote)
qed

section \<open>Trees\<close>

fun clean :: "jtree \<Rightarrow> bool" where
  "clean (JT ty i d v nm ks) \<longleftrightarrow>
     ty AND 0xFF \<noteq> cJSON_Raw \<and> (ty AND 0xFF = cJSON_Number \<longrightarrow> binary64 d) \<and> (ty AND 0xFF = cJSON_String \<longrightarrow> clean_text v)
     \<and> (\<forall>k\<in>set ks. clean k \<and> clean_text (jt_name k))"

lemma clean_numbers: "clean t \<Longrightarrow> numbers_ok t"
  by (induction t) auto

definition minifies :: "bytes \<Rightarrow> bytes \<Rightarrow> bool" where
  "minifies r u \<longleftrightarrow> (\<forall>R. minified (r @ R) = u @ minified R)"

lemma minifiesD: "minifies r u \<Longrightarrow> minified (r @ R) = u @ minified R"
  by (simp add: minifies_def)

lemma minifies_plain: "\<forall>c\<in>set s. plain_char c \<Longrightarrow> minifies s s"
  by (simp add: minifies_def minified_plain)

lemma minified_elements:
  "list_all2 minifies rs us \<Longrightarrow> minified (elements_text True rs @ R) = elements_text False us @ minified R"
proof (induction "True" rs arbitrary: us rule: elements_text.induct)
  case (3 r r' rs)
  obtain u u' us' where us: "us = u # u' # us'" "minifies r u" "list_all2 minifies (r' # rs) (u' # us')"
    using "3.prems" by (auto simp: list_all2_Cons1)
  then show ?case using "3.hyps" [OF us(3)] by (simp add: minifiesD)
qed (auto simp: minifiesD list_all2_Cons1)

lemma minified_tabs: "minified (replicate k 9 @ R) = minified R"
  by (rule minified_blank) simp

lemma minified_members:
  "list_all2 minifies rs us \<Longrightarrow> length nms = length rs \<Longrightarrow> \<forall>nm\<in>set nms. clean_text nm \<Longrightarrow>
   minified (members_text True k (zip nms rs) @ R) = members_text False k' (zip nms us) @ minified R"
proof (induction rs us arbitrary: nms rule: list_all2_induct)
  case (Cons r rs u us)
  obtain nm nms' where nms: "nms = nm # nms'" using Cons.prems(1) by (cases nms) auto
  have "zip nms' rs = [] \<longleftrightarrow> zip nms' us = []" using list_all2_lengthD [OF Cons.hyps(2)] Cons.prems(1) nms by auto
  then show ?case using Cons nms
    by (simp add: member_text_def minified_tabs minified_string minifiesD)
qed simp

lemma minified_render:
  "clean t \<Longrightarrow> render True k t = Some r \<Longrightarrow> \<exists>u. render False k' t = Some u \<and> minifies r u"
proof (induction t arbitrary: k k' r)
  case (JT ty i d v nm ks)
  let ?ty = "ty AND 0xFF"
  have kids: "\<exists>us. all_some (map (render False (k' + 1)) ks) = Some us \<and> list_all2 minifies rs us \<and> length rs = length ks"
    if a: "all_some (map (render True (k + 1)) ks) = Some rs" for rs
  proof -
    have m: "map (render True (k + 1)) ks = map Some rs" using a by (simp add: all_some_iff)
    then have l: "length rs = length ks" by (metis length_map)
    have "\<exists>u. render False (k' + 1) (ks ! j) = Some u \<and> minifies (rs ! j) u" if j: "j < length ks" for j
    proof -
      have "map (render True (k + 1)) ks ! j = map Some rs ! j" by (simp only: m)
      then have "render True (k + 1) (ks ! j) = Some (rs ! j)" using j l by simp
      then show ?thesis using JT.IH [of "ks ! j"] JT.prems(1) j by (meson clean.simps nth_mem)
    qed
    then obtain u where u: "\<And>j. j < length ks \<Longrightarrow> render False (k' + 1) (ks ! j) = Some (u j) \<and> minifies (rs ! j) (u j)" by metis
    have "map (render False (k' + 1)) ks = map Some (map u [0..<length ks])" using u by (auto intro!: nth_equalityI)
    moreover have "list_all2 minifies rs (map u [0..<length ks])" using u l by (auto simp: list_all2_conv_all_nth)
    ultimately show ?thesis using l unfolding all_some_iff by blast
  qed
  consider "?ty = cJSON_Number" | "?ty = cJSON_String" | "?ty = cJSON_Array" | "?ty = cJSON_Object"
    | "?ty = cJSON_NULL" | "?ty = cJSON_False" | "?ty = cJSON_True"
    using JT.prems by (auto simp: render.simps split: if_splits)
  then show ?case
  proof cases
    case 1
    then show ?thesis using JT.prems number_text_plain [of d r] by (auto simp: render.simps intro: minifies_plain)
  next
    case 2
    then show ?thesis using JT.prems by (auto simp: render.simps minifies_def minified_string)
  next
    case 3
    then obtain rs where rs: "all_some (map (render True (k + 1)) ks) = Some rs" "r = 91 # elements_text True rs @ [93]"
      using JT.prems(2) by (auto simp: render.simps)
    obtain us where "all_some (map (render False (k' + 1)) ks) = Some us" "list_all2 minifies rs us" using kids [OF rs(1)] by auto
    then show ?thesis using 3 rs(2) by (auto simp: render.simps minifies_def minified_elements)
  next
    case 4
    then obtain rs where rs: "all_some (map (render True (k + 1)) ks) = Some rs"
        "r = 123 # 10 # members_text True (k + 1) (zip (map jt_name ks) rs) @ replicate k 9 @ [125]"
      using JT.prems(2) by (auto simp: render.simps)
    obtain us where us: "all_some (map (render False (k' + 1)) ks) = Some us" "list_all2 minifies rs us" "length rs = length ks"
      using kids [OF rs(1)] by auto
    have "minified (members_text True (k + 1) (zip (map jt_name ks) rs) @ R) = members_text False (k' + 1) (zip (map jt_name ks) us) @ minified R" for R
      by (rule minified_members [OF us(2)]) (use JT.prems(1) us(3) in auto)
    then show ?thesis using 4 rs(2) us(1) by (simp add: render.simps minifies_def minified_tabs)
  qed (use JT.prems(2) in \<open>auto simp: render.simps ascii_def plain_char_def json_blank_def intro!: minifies_plain\<close>)
qed

end
