(* ===== verification/Cjson_Parsed.thy ===== *)
theory Cjson_Parsed
  imports Cjson_Roundtrip
begin

text \<open>
  What kind of trees the parser builds: items of one of the seven JSON types without a flag, a value
  string only in a string, children only in an array or an object, names only on members of objects,
  numbers that are doubles with their saturated integer, and a depth within the limit.
\<close>

section \<open>Typed trees\<close>

definition typed_scalar :: "int \<Rightarrow> int \<Rightarrow> double \<Rightarrow> bytes option \<Rightarrow> bool" where
  "typed_scalar ty i d v \<longleftrightarrow>
     ty \<in> {cJSON_False, cJSON_True, cJSON_NULL, cJSON_Number, cJSON_String, cJSON_Array, cJSON_Object}
     \<and> (if ty = cJSON_Number then binary64 d \<and> int_of_double d = Some i
        else d = zero_double \<and> i = (if ty = cJSON_True then 1 else 0))
     \<and> (if ty = cJSON_String then \<exists>s. v = Some (s @ [0]) else v = None)"

fun well_typed :: "jtree \<Rightarrow> bool" where
  "well_typed (JT ty i d v nm ks) \<longleftrightarrow>
     typed_scalar ty i d v \<and> (ks \<noteq> [] \<longrightarrow> ty = cJSON_Array \<or> ty = cJSON_Object)
     \<and> (\<forall>k\<in>set ks. well_typed k \<and> (if ty = cJSON_Object then \<exists>s. jt_name k = Some (s @ [0]) else jt_name k = None))"

lemma well_typed_readable: "well_typed t \<Longrightarrow> readable t"
  by (induction t) (auto simp: typed_scalar_def split: if_splits)

lemma well_typed_name [simp]: "well_typed (set_name nm t) = well_typed t"
  by (cases t) simp

lemma nesting_name [simp]: "nesting (set_name nm t) = nesting t"
  by (cases t) simp

lemma name_set_name [simp]: "jt_name (set_name nm t) = nm"
  by (cases t) simp

lemma nesting_kids: "\<forall>k\<in>set ks. nesting k \<le> n \<Longrightarrow> nesting (JT ty i d v nm ks) \<le> Suc n"
  by (auto simp: image_image)

section \<open>The reference parser builds typed trees\<close>

lemma skip_depth: "buffer_skip_whitespace b = Some b' \<Longrightarrow> depth b' = depth b"
  by (auto simp: buffer_skip_whitespace_def bind_eq_Some_conv split: if_splits)

definition typed_result :: "parse_buffer \<Rightarrow> jtree \<Rightarrow> parse_buffer \<Rightarrow> bool" where
  "typed_result b t b' \<longleftrightarrow> well_typed t \<and> depth b' = depth b \<and> nesting t + depth b \<le> CJSON_NESTING_LIMIT"

definition typed_parser :: "nat \<Rightarrow> ref_parser \<Rightarrow> bool" where
  "typed_parser dp rv \<longleftrightarrow> (\<forall>b t b'. depth b = dp \<longrightarrow> rv b = Some (t, b') \<longrightarrow> typed_result b t b' \<and> jt_name t = None)"

lemma typed_parserD: "typed_parser dp rv \<Longrightarrow> rv b = Some (t, b') \<Longrightarrow> depth b = dp \<Longrightarrow> typed_result b t b' \<and> jt_name t = None"
  unfolding typed_parser_def by blast

definition typed_kids :: "parse_buffer \<Rightarrow> jtree list \<Rightarrow> parse_buffer \<Rightarrow> bool" where
  "typed_kids b ts b' \<longleftrightarrow> depth b' = depth b \<and> (\<forall>t\<in>set ts. well_typed t \<and> nesting t + depth b \<le> CJSON_NESTING_LIMIT)"

lemma ref_string_well_typed: "ref_string b = Some (s, b') \<Longrightarrow> (\<exists>u. s = u @ [0]) \<and> depth b' = depth b"
  by (auto simp: ref_string_def bind_eq_Some_conv split: if_splits)

lemma ref_elems_well_typed:
  assumes rv: "typed_parser dp rv"
  shows "ref_elems rv f b = Some (ts, b') \<Longrightarrow> depth b = dp \<Longrightarrow> typed_kids b ts b' \<and> (\<forall>t\<in>set ts. jt_name t = None)"
proof (induction f arbitrary: b ts)
  case (Suc f)
  from Suc.prems(1) obtain b1 t b2 b3 and c :: "byte option" where s: "buffer_skip_whitespace (b\<lparr>offset := offset b + 1\<rparr>) = Some b1"
      "rv b1 = Some (t, b2)" "buffer_skip_whitespace b2 = Some b3"
      "(if c = Some 44 then do { (ts, b4) \<leftarrow> ref_elems rv f b3; Some (t # ts, b4) }
       else if c = Some 93 then Some ([t], b3) else None) = Some (ts, b')"
    by (auto simp: bind_eq_Some_conv)
  have d: "depth b1 = dp" using skip_depth [OF s(1)] Suc.prems(2) by simp
  note t = typed_parserD [OF rv s(2) d]
  have d3: "depth b3 = dp" using skip_depth [OF s(3)] t d by (simp add: typed_result_def)
  show ?case
  proof (cases "c = Some 44")
    case True
    then obtain ts' where r: "ref_elems rv f b3 = Some (ts', b')" "ts = t # ts'" using s(4) by (auto simp: bind_eq_Some_conv)
    show ?thesis using Suc.IH [OF r(1) d3] r(2) t d d3 Suc.prems(2) by (simp add: typed_kids_def typed_result_def)
  next
    case False
    then have "ts = [t]" "b' = b3" using s(4) by (auto split: if_splits)
    then show ?thesis using t d d3 Suc.prems(2) by (simp add: typed_kids_def typed_result_def)
  qed
qed simp

lemma ref_members_well_typed:
  assumes rv: "typed_parser dp rv"
  shows "ref_members rv f b = Some (ts, b') \<Longrightarrow> depth b = dp \<Longrightarrow>
    typed_kids b ts b' \<and> (\<forall>t\<in>set ts. \<exists>s. jt_name t = Some (s @ [0]))"
proof (induction f arbitrary: b ts)
  case (Suc f)
  from Suc.prems(1) obtain b1 nm b2 b3 b4 t b5 b6 where s: "buffer_skip_whitespace (b\<lparr>offset := offset b + 1\<rparr>) = Some b1"
      "ref_string b1 = Some (nm, b2)" "buffer_skip_whitespace b2 = Some b3"
      "buffer_skip_whitespace (b3\<lparr>offset := offset b3 + 1\<rparr>) = Some b4" "rv b4 = Some (t, b5)" "buffer_skip_whitespace b5 = Some b6"
      "ts = [set_name (Some nm) t] \<and> b' = b6 \<or> (\<exists>ts'. ref_members rv f b6 = Some (ts', b') \<and> ts = set_name (Some nm) t # ts')"
    by (auto simp: bind_eq_Some_conv split: if_split_asm)
  note nm = ref_string_well_typed [OF s(2)]
  have d: "depth b4 = dp" using skip_depth [OF s(1)] skip_depth [OF s(3)] skip_depth [OF s(4)] nm Suc.prems(2) by simp
  note t = typed_parserD [OF rv s(5) d]
  have d6: "depth b6 = dp" using skip_depth [OF s(6)] t d by (simp add: typed_result_def)
  from s(7) show ?case
  proof (elim disjE exE conjE)
    fix ts'
    assume r: "ref_members rv f b6 = Some (ts', b')" "ts = set_name (Some nm) t # ts'"
    show ?thesis using Suc.IH [OF r(1) d6] r(2) t d d6 nm Suc.prems(2) by (simp add: typed_kids_def typed_result_def)
  next
    assume "ts = [set_name (Some nm) t]" "b' = b6"
    then show ?thesis using t d d6 nm Suc.prems(2) by (simp add: typed_kids_def typed_result_def)
  qed
qed simp

lemma ref_container_well_typed:
  assumes ty: "ty = cJSON_Array \<or> ty = cJSON_Object"
    and p: "\<And>b ts b'. parts b = Some (ts, b') \<Longrightarrow> depth b = Suc dp \<Longrightarrow> typed_kids b ts b' \<and>
      (\<forall>t\<in>set ts. if ty = cJSON_Object then \<exists>s. jt_name t = Some (s @ [0]) else jt_name t = None)"
  shows "typed_parser dp (ref_container ty close parts)"
  unfolding typed_parser_def
proof (intro allI impI)
  fix b t b'
  assume d: "depth b = dp" and r: "ref_container ty close parts b = Some (t, b')"
  have lim: "depth b < CJSON_NESTING_LIMIT" using r by (auto simp: ref_container_def split: if_splits)
  then obtain b2 c ts b3 where s: "buffer_skip_whitespace (b\<lparr>depth := depth b + 1, offset := offset b + 1\<rparr>) = Some b2"
      "(if c = Some close then Some ([], b2) else if c = None then None else parts (b2\<lparr>offset := offset b2 - 1\<rparr>)) = Some (ts, b3)"
      "t = JT ty 0 zero_double None None ts" "b' = b3\<lparr>depth := depth b3 - 1, offset := offset b3 + 1\<rparr>"
    using r by (auto simp: ref_container_def bind_eq_Some_conv)
  have d2: "depth b2 = Suc dp" using skip_depth [OF s(1)] d by simp
  have k: "typed_kids b2 ts b3 \<and> (\<forall>t\<in>set ts. if ty = cJSON_Object then \<exists>s. jt_name t = Some (s @ [0]) else jt_name t = None)"
  proof (cases "c = Some close")
    case True
    then show ?thesis using s(2) by (auto simp: typed_kids_def)
  next
    case False
    then have "parts (b2\<lparr>offset := offset b2 - 1\<rparr>) = Some (ts, b3)" using s(2) by (auto split: if_splits)
    then show ?thesis using p [of "b2\<lparr>offset := offset b2 - 1\<rparr>"] d2 by (simp add: typed_kids_def)
  qed
  have "\<forall>k\<in>set ts. nesting k \<le> CJSON_NESTING_LIMIT - Suc dp" using k d2 by (auto simp: typed_kids_def)
  then have "nesting t \<le> Suc (CJSON_NESTING_LIMIT - Suc dp)" unfolding s(3) by (rule nesting_kids)
  then have "nesting t + depth b \<le> CJSON_NESTING_LIMIT" using lim d by linarith
  moreover have "well_typed t" using k ty s(3) by (auto simp: typed_kids_def typed_scalar_def)
  ultimately show "typed_result b t b' \<and> jt_name t = None" using s k d d2 by (simp add: typed_result_def typed_kids_def)
qed

lemma ref_number_well_typed: "ref_number b = Some (t, b') \<Longrightarrow> well_typed t \<and> depth b' = depth b \<and> nesting t = 0"
proof -
  assume r: "ref_number b = Some (t, b')"
  then obtain s where s: "number_copy (content b) (buf_length b) (offset b) 63 = Some s" by (auto simp: ref_number_def bind_eq_Some_conv)
  obtain d used where d: "strtod s = (d, used)" by fastforce
  have "binary64 d" using binary64_strtod [of s] d by simp
  moreover obtain i where "int_of_double d = Some i" "t = leaf 8 i d None" "b' = b\<lparr>offset := offset b + used\<rparr>"
    using r s d by (auto simp: ref_number_def bind_eq_Some_conv split: if_splits)
  ultimately show ?thesis by (simp add: leaf_def typed_scalar_def)
qed

lemma ref_string_value_well_typed: "ref_string_value b = Some (t, b') \<Longrightarrow> well_typed t \<and> depth b' = depth b \<and> nesting t = 0"
  using ref_string_well_typed by (fastforce simp: ref_string_value_def leaf_def typed_scalar_def)

lemma ref_value_well_typed: "dp \<le> CJSON_NESTING_LIMIT \<Longrightarrow> typed_parser dp (ref_value f)"
proof (induction f arbitrary: dp)
  case (Suc f)
  show ?case unfolding typed_parser_def
  proof (intro allI impI)
    fix b t b'
    assume d: "depth b = dp" and r: "ref_value (Suc f) b = Some (t, b')"
    have leaves: "typed_result b (leaf ty i zero_double None) (b\<lparr>offset := q\<rparr>)" if "(ty, i) \<in> {(4, 0), (1, 0), (2, 1)}" for ty i q
      using that Suc.prems d by (auto simp: typed_result_def leaf_def typed_scalar_def)
    have con: "typed_result b t b'" if c: "ref_container ty close parts b = Some (t, b')" and ty: "ty = cJSON_Array \<or> ty = cJSON_Object"
      and p: "\<And>b ts b'. typed_parser (Suc dp) (ref_value f) \<Longrightarrow> parts b = Some (ts, b') \<Longrightarrow> depth b = Suc dp \<Longrightarrow> typed_kids b ts b' \<and>
        (\<forall>t\<in>set ts. if ty = cJSON_Object then \<exists>s. jt_name t = Some (s @ [0]) else jt_name t = None)" for ty close parts
    proof -
      have "Suc dp \<le> CJSON_NESTING_LIMIT" using c d by (auto simp: ref_container_def split: if_splits)
      from p [OF Suc.IH [OF this]] have "typed_parser dp (ref_container ty close parts)" by (intro ref_container_well_typed [OF ty]) auto
      then show ?thesis using c d unfolding typed_parser_def by blast
    qed
    consider ty i q where "t = leaf ty i zero_double None" "b' = b\<lparr>offset := q\<rparr>" "(ty, i) \<in> {(4, 0), (1, 0), (2, 1)}"
      | "ref_string_value b = Some (t, b')" | "ref_number b = Some (t, b')"
      | "ref_container 32 93 (ref_elems (ref_value f) f) b = Some (t, b')" | "ref_container 64 125 (ref_members (ref_value f) f) b = Some (t, b')"
      using r unfolding ref_value.simps bind_eq_Some_conv
      by (elim exE conjE) (simp split: if_split_asm option.split_asm add: bind_eq_Some_conv; blast)
    then have "typed_result b t b'"
    proof cases
      case 1
      then show ?thesis using leaves by simp
    next
      case 2
      then show ?thesis using ref_string_value_well_typed [OF 2] d Suc.prems by (simp add: typed_result_def)
    next
      case 3
      then show ?thesis using ref_number_well_typed [OF 3] d Suc.prems by (simp add: typed_result_def)
    next
      case 4
      then show ?thesis by (rule con) (use ref_elems_well_typed in auto)
    next
      case 5
      then show ?thesis by (rule con) (use ref_members_well_typed in auto)
    qed
    then show "typed_result b t b' \<and> jt_name t = None" using ref_value_name [OF r] by simp
  qed
qed (simp add: typed_parser_def)

lemma ref_text_well_typed:
  assumes "ref_text m len req = Some (t, q)"
  shows "well_typed t" "nesting t \<le> CJSON_NESTING_LIMIT" "jt_name t = None"
proof -
  obtain b0 b1 b2 where s: "skip_utf8_bom \<lparr>content = m, buf_length = len, offset = 0, depth = 0\<rparr> = Some (Some b0)"
      "buffer_skip_whitespace b0 = Some b1" "ref_value (parse_fuel len) b1 = Some (t, b2)"
    using assms unfolding ref_text_def bind_eq_Some_conv by (auto simp: bind_eq_Some_conv split: if_splits)
  have "depth b0 = 0" using s(1) by (auto simp: skip_utf8_bom_def bind_eq_Some_conv split: if_splits)
  then have d: "depth b1 = 0" using skip_depth [OF s(2)] by simp
  have "typed_result b1 t b2 \<and> jt_name t = None" by (rule typed_parserD [OF ref_value_well_typed s(3) d]) simp
  then show "well_typed t" "nesting t \<le> CJSON_NESTING_LIMIT" "jt_name t = None" by (auto simp: typed_result_def)
qed

end
