(* ===== verification/Cjson_Print_Properties.thy ===== *)
theory Cjson_Print_Properties
  imports Cjson_Minify_Print Cjson_Parsed Cjson_Edit_Properties
begin

text \<open>
  The properties of printing, minifying and reading back, and what the parser's trees look like.
\<close>

section \<open>Trees that come back as they were\<close>

text \<open>
  The trees the parser builds whose numbers are whole and whose strings have no null character.
\<close>

definition null_free :: "bytes option \<Rightarrow> bool" where
  "null_free v \<longleftrightarrow> (case v of None \<Rightarrow> True | Some s \<Rightarrow> s = until_null s @ [0])"

fun plain :: "jtree \<Rightarrow> bool" where
  "plain (JT ty i d v nm ks) \<longleftrightarrow>
     typed_scalar ty i d v \<and> (ks \<noteq> [] \<longrightarrow> ty = cJSON_Array \<or> ty = cJSON_Object) \<and> null_free v
     \<and> (ty = cJSON_Number \<longrightarrow> \<bar>i\<bar> < 2 ^ 31 \<and> d = double_of_int i)
     \<and> (\<forall>k\<in>set ks. plain k \<and> null_free (jt_name k) \<and> (jt_name k \<noteq> None) = (ty = cJSON_Object))"

lemma null_free_reread: "null_free (Some s) \<Longrightarrow> reread_text (Some s) = s"
  by (simp add: null_free_def reread_text_def)

lemma set_name_same: "nm = jt_name t \<Longrightarrow> set_name nm (set_name nm' t) = t"
  by (cases t) simp

lemma plain_reread: "plain t \<Longrightarrow> reread t = set_name None t"
proof (induction t)
  case (JT ty i d v nm ks)
  have k: "reread k = set_name None k" "null_free (jt_name k)" "(jt_name k \<noteq> None) = (ty = cJSON_Object)" if "k \<in> set ks" for k
    using JT that by auto
  have arr: "map reread ks = ks" if "ty = cJSON_Array"
  proof (rule map_idI)
    fix x
    assume x: "x \<in> set ks"
    have "jt_name x = None" using k(3) [OF x] by (cases "jt_name x") (simp_all add: that)
    then show "reread x = x" using k(1) [OF x] by (cases x) simp
  qed
  have obj: "map (\<lambda>k. set_name (Some (reread_text (jt_name k))) (reread k)) ks = ks" if o: "ty = cJSON_Object"
  proof (rule map_idI)
    fix x
    assume x: "x \<in> set ks"
    then obtain s where "jt_name x = Some s" using k(3) [OF x] by (cases "jt_name x") (simp_all add: o)
    then show "set_name (Some (reread_text (jt_name x))) (reread x) = x"
      using k(1,2) [OF x] by (simp add: null_free_reread set_name_same)
  qed
  have t: "typed_scalar ty i d v" "ks \<noteq> [] \<Longrightarrow> ty = cJSON_Array \<or> ty = cJSON_Object" "null_free v"
      "ty = cJSON_Number \<Longrightarrow> \<bar>i\<bar> < 2 ^ 31 \<and> d = double_of_int i"
    using JT.prems by auto
  have ks: "ty \<noteq> cJSON_Array \<Longrightarrow> ty \<noteq> cJSON_Object \<Longrightarrow> ks = []" using t(2) by blast
  consider "ty = cJSON_Number" | "ty = cJSON_String" | "ty = cJSON_Array" | "ty = cJSON_Object"
    | "ty = cJSON_False" | "ty = cJSON_True" | "ty = cJSON_NULL"
    using t(1) unfolding typed_scalar_def by blast
  then show ?case
  proof cases
    case 1
    then show ?thesis using t ks reread_int [of i] by (simp add: typed_scalar_def leaf_def)
  next
    case 2
    then show ?thesis using t ks by (auto simp: typed_scalar_def leaf_def null_free_reread)
  qed (use t(1,3) ks arr obj in \<open>simp_all add: typed_scalar_def leaf_def\<close>)
qed

section \<open>Printing\<close>

text \<open>
  C11: \<open>cJSON_Print\<close> and \<open>cJSON_PrintUnformatted\<close> implement \<open>render\<close>: they always return, they change nothing
  but the heap's strings, and the block they hand out holds the text of the tree with its terminator.
  They return NULL only for a tree without a text, for a text beyond \<open>INT_MAX\<close> or after a failed
  allocation, and then they have freed everything.
\<close>

theorem Print_refines_render:
  assumes "item h a F t" and "distinct F" and "heap_wf h" and "numbers_ok t"
  shows "\<exists>q h'. print a fmt has_realloc h = Some (q, h') \<and> heap_step h h' \<and> nodes h' = nodes h
    \<and> (if q = 0 then strs h' = strs h \<and> (case render fmt 0 t of None \<Rightarrow> True | Some r \<Rightarrow> INT_MAX < length r + 2 \<or> oom h h')
       else brk h < q \<and> q \<le> brk h' \<and> (case render fmt 0 t of None \<Rightarrow> False | Some r \<Rightarrow> strs h' = (strs h)(q \<mapsto> r @ [0])))"
proof -
  obtain q h' where r: "print a fmt has_realloc h = Some (q, h')" "printed h (render fmt 0 t) (\<lambda>t s. s = t @ [0]) (q, h')"
    using print_run [OF assms, of fmt has_realloc] by (metis surj_pair)
  then show ?thesis by (cases "render fmt 0 t"; cases "q = 0") (simp_all add: printed_def)
qed

lemma render_zero_array: "render fmt 0 one_array = Some [91, 48, 93]"
proof -
  have "number_text (double_of_int 0) = Some [48]" using number_text_int [of 0] by (simp add: decimal.simps)
  then have "number_text zero_double = Some [48]" by (simp add: double_of_int_def double_of_frac_def)
  then show ?thesis by (simp add: render.simps leaf_def)
qed

theorem Print_refines_render_witness:
  "\<exists>q h'. print 1 True False heap2 = Some (q, h') \<and> heap_step heap2 h' \<and> nodes h' = nodes heap2
    \<and> (if q = 0 then strs h' = strs heap2 \<and> (INT_MAX < 5 \<or> oom heap2 h')
       else 4 < q \<and> q \<le> brk h' \<and> strs h' = (strs heap2)(q \<mapsto> [91, 48, 93, 0]))"
proof -
  have "brk heap2 = 4" "numbers_ok one_array" by (simp_all add: heap2_def leaf_def binary64_def)
  then show ?thesis using Print_refines_render [OF heap2_array _ heap2_wf, of True False]
    by (simp add: render_zero_array cong: if_cong)
qed

text \<open>
  C12: what \<open>cJSON_Print\<close> wrote \<open>cJSON_Parse\<close> reads: the parser builds the tree \<open>reread t\<close> on its own addresses, and
  for whole numbers and strings without null characters that is the tree that was printed.
\<close>

theorem Print_Parse_roundtrip:
  assumes "item h a F t" and "distinct F" and "heap_wf h" and "readable t" and "nesting t \<le> CJSON_NESTING_LIMIT"
  shows "\<exists>q h1. print a fmt has_realloc h = Some (q, h1)
    \<and> (if q = 0 then strs h1 = strs h \<and> (oom h h1 \<or> INT_MAX < length (the (render fmt 0 t)) + 2)
       else \<exists>root h2. cJSON_Parse (strs h1 q) h1 = Some (root, h2) \<and> heap_wf h2
         \<and> (if root = 0 then oom h1 h2 \<and> nodes h2 = nodes h1 \<and> strs h2 = strs h1
            else \<exists>G. item h2 root G (if plain t then set_name None t else reread t) \<and> distinct G \<and> set G \<inter> set F = {}
              \<and> same_on (- set G) h1 h2))"
proof -
  obtain r where r: "render fmt 0 t = Some r" using readable_render [OF assms(4)] by blast
  obtain q h1 where p: "print a fmt has_realloc h = Some (q, h1)" "printed h (render fmt 0 t) (\<lambda>t s. s = t @ [0]) (q, h1)"
    using print_run [OF assms(1-3) readable_numbers [OF assms(4)], of fmt has_realloc] by (metis surj_pair)
  show ?thesis
  proof (cases "q = 0")
    case True
    then show ?thesis using p r by (auto simp: printed_def)
  next
    case False
    have h1: "strs h1 q = Some (r @ [0])" "heap_wf h1" "brk h \<le> brk h1" using p(2) r False by (auto simp: printed_def heap_step_def)
    have "0 \<notin> set r" by (rule render_nonzero [OF readable_numbers [OF assms(4)] r])
    then have tw: "takeWhile (\<lambda>c. c \<noteq> 0) (r @ [0]) = r" by (induction r) auto
    have cs: "c_strlen (r @ [0]) = Some (length r)" unfolding c_strlen_def tw by simp
    have ref: "ref_text (r @ [0]) (length r + 1) False = Some (reread t, length r)" by (rule ref_text_render [OF assms(4,5) r])
    obtain root e h2 where ps: "cJSON_ParseWithLengthOpts (Some (r @ [0])) (length r + 1) False h1 = Some (root, e, h2)"
        "parse_outcome (ref_text (r @ [0]) (length r + 1) False) (r @ [0]) (length r + 1) h1 (root, e, h2)"
      using cJSON_ParseWithLengthOpts_correct [OF h1(2), of "length r + 1" "r @ [0]" False] by (auto simp del: One_nat_def)
    have run: "cJSON_Parse (strs h1 q) h1 = Some (root, h2)"
      using ps(1) h1(1) cs by (simp add: cJSON_Parse_def cJSON_ParseWithOpts_def)
    have out: "heap_wf h2 \<and> (if root = 0 then oom h1 h2 \<and> nodes h2 = nodes h1 \<and> strs h2 = strs h1
        else \<exists>G. item h2 root G (if plain t then set_name None t else reread t) \<and> distinct G \<and> set G \<inter> set F = {} \<and> same_on (- set G) h1 h2)"
    proof (cases "root = 0")
      case True
      then show ?thesis using ps(2) ref by (auto simp: parse_outcome_def)
    next
      case root: False
      then obtain G where G: "item h2 root G (reread t)" "distinct G" "set G \<subseteq> {brk h1<..brk h2}" "same_on (- set G) h1 h2" "heap_wf h2"
        using ps(2) ref by (auto simp: parse_outcome_def same_on_def)
      have "set F \<subseteq> {0<..brk h}" using item_below [OF assms(1,3)] .
      then have "set G \<inter> set F = {}" using G(3) h1(3) by fastforce
      then show ?thesis using G root plain_reread [of t] by auto
    qed
    show ?thesis using p(1) False run out by simp
  qed
qed

theorem Print_Parse_roundtrip_witness:
  "\<exists>q h1. print 1 False True heap2 = Some (q, h1)
    \<and> (if q = 0 then strs h1 = strs heap2 \<and> (oom heap2 h1 \<or> INT_MAX < 5)
       else \<exists>root h2. cJSON_Parse (strs h1 q) h1 = Some (root, h2) \<and> heap_wf h2
         \<and> (if root = 0 then oom h1 h2 \<and> nodes h2 = nodes h1 \<and> strs h2 = strs h1
            else \<exists>G. item h2 root G one_array \<and> distinct G \<and> set G \<inter> {1, 2} = {} \<and> same_on (- set G) h1 h2))"
proof -
  have "plain one_array" "readable one_array" "nesting one_array = 1"
    by (simp_all add: typed_scalar_def leaf_def null_free_def binary64_def double_of_int_def double_of_frac_def mag_floor_def)
  then show ?thesis using Print_Parse_roundtrip [OF heap2_array _ heap2_wf, of False True]
    by (simp add: render_zero_array cong: if_cong)
qed

text \<open>
  C14: \<open>cJSON_PrintPreallocated\<close> never writes past the caller's buffer: on success the buffer holds the text
  and its terminator, and whenever the text and two more bytes fit it succeeds.
\<close>

theorem PrintPreallocated_in_bounds:
  assumes "item h a F t" and "distinct F" and "heap_wf h" and "numbers_ok t" and "0 \<le> len" and "length buf = nat len"
  shows "\<exists>ok b. cJSON_PrintPreallocated a (Some buf) len fmt has_realloc h = Some (ok, b)
    \<and> (case render fmt 0 t of
         None \<Rightarrow> \<not> ok
       | Some r \<Rightarrow> if ok then \<exists>b'. b = Some b' \<and> length b' = length buf \<and> take (length r + 1) b' = map Some (r @ [0])
                   else length buf < length r + 2 \<or> INT_MAX < length r + 2)"
proof -
  obtain ok b where r: "cJSON_PrintPreallocated a (Some buf) len fmt has_realloc h = Some (ok, b)"
      "if ok then \<exists>u buf'. render fmt 0 t = Some u \<and> b = Some buf' \<and> length buf' = length buf \<and> take (length u + 1) buf' = map Some (u @ [0])
       else \<forall>u. render fmt 0 t = Some u \<longrightarrow> length buf < length u + 2 \<or> INT_MAX < length u + 2"
    using PrintPreallocated_run [OF assms, of fmt has_realloc] by blast
  then show ?thesis by (cases ok; cases "render fmt 0 t") auto
qed

theorem PrintPreallocated_in_bounds_witness:
  "\<exists>b. cJSON_PrintPreallocated 1 (Some (replicate 5 None)) 5 False True heap2 = Some (True, Some b)
    \<and> length b = 5 \<and> take 4 b = [Some 91, Some 48, Some 93, Some 0]"
proof -
  let ?buf = "replicate 5 None :: byte option list"
  have n: "numbers_ok one_array" "length [91, 48, 93 :: byte] + 1 = 4" "length ?buf = nat 5" "length [91, 48, 93 :: byte] + 2 = 5"
    by (simp_all add: leaf_def binary64_def)
  show ?thesis
    using PrintPreallocated_in_bounds [OF heap2_array _ heap2_wf n(1) _ n(3), of False True]
    unfolding render_zero_array option.case n(2,4) by (auto split: if_splits)
qed

text \<open>
  With an empty buffer and without a reallocation function \<open>cJSON_PrintBuffered\<close> copies a byte out of a block
  of no bytes.
\<close>

lemma PrintBuffered_empty_undefined:
  assumes "nodes h a = Some n" and "a \<noteq> 0" and "c_type n AND 0xFF = cJSON_NULL" and "avail h (brk h)" and "avail h (Suc (brk h))"
  shows "cJSON_PrintBuffered a 0 fmt False h = None"
  using assms by (simp add: cJSON_PrintBuffered_def put_def ensure_def hooks_allocate_def Let_def ascii_def)

section \<open>Minifying\<close>

lemma until_null_split: "0 \<in> set m \<Longrightarrow> \<exists>R. m = until_null m @ 0 # R"
  unfolding until_null_def by (induction m) auto

lemma minify_text:
  assumes "0 \<in> set m"
  shows "cJSON_Minify (Some m) = Some (Some (minified (until_null m) @ 0 # drop (length (minified (until_null m)) + 1) m))"
proof -
  let ?s = "until_null m"
  obtain R where m: "m = ?s @ 0 # R" using until_null_split [OF assms] by blast
  have "minify_loop m 0 0 = memcpy_at 0 (minified ?s @ [0]) m"
    by (rule minify_loop_run [of 0 m ?s R]) (use m until_null_nonzero in auto)
  moreover have "length (minified ?s @ [0]) \<le> length m"
  proof -
    have "length m = length ?s + 1 + length R" by (subst m) simp
    then show ?thesis using minified_length [of ?s] by simp
  qed
  ultimately show ?thesis by (simp add: cJSON_Minify_def memcpy_at_def)
qed

text \<open>
  C15: \<open>cJSON_Minify\<close> works in place: the text is replaced by its minified form with a terminator, the bytes behind it stay as they
  were, and no byte outside of the array is read or written.
\<close>

theorem Minify_in_place:
  assumes "0 \<in> set m"
  shows "cJSON_Minify (Some m) = Some (Some (minified (until_null m) @ 0 # drop (length (minified (until_null m)) + 1) m))"
  by (rule minify_text [OF assms])

theorem Minify_in_place_witness:
  "cJSON_Minify (Some (quoted ''[1, @ @ //x'' @ [10, 93, 0])) = Some (Some (quoted ''[1,@ @]'' @ 0 # quoted ''//x'' @ [10, 93, 0]))"
  using Minify_in_place [of "quoted ''[1, @ @ //x'' @ [10, 93, 0]"]
  by (simp add: quoted_def ascii_def until_null_def json_blank_def minified.simps)

text \<open>
  C16: minifying what \<open>cJSON_Print\<close> wrote gives what \<open>cJSON_PrintUnformatted\<close> writes, for trees without raw text and
  without a string that ends in a backslash.
\<close>

theorem Minify_of_print:
  assumes "item h a F t" and "distinct F" and "heap_wf h" and "clean t"
  shows "\<exists>q h1. cJSON_Print a has_realloc h = Some (q, h1)
    \<and> (if q = 0 then strs h1 = strs h
       else \<exists>m. strs h1 q = Some m \<and> (case render False 0 t of
              None \<Rightarrow> False
            | Some u \<Rightarrow> \<exists>rest. cJSON_Minify (Some m) = Some (Some (u @ 0 # rest))))"
proof -
  obtain q h1 where p: "print a True has_realloc h = Some (q, h1)" "printed h (render True 0 t) (\<lambda>t s. s = t @ [0]) (q, h1)"
    using print_run [OF assms(1-3) clean_numbers [OF assms(4)], of True has_realloc] by (metis surj_pair)
  show ?thesis
  proof (cases "q = 0")
    case True
    then show ?thesis using p by (auto simp: printed_def cJSON_Print_def)
  next
    case False
    then obtain r where r: "render True 0 t = Some r" "strs h1 q = Some (r @ [0])" using p(2) by (auto simp: printed_def)
    obtain u where u: "render False 0 t = Some u" "minifies r u" using minified_render [OF assms(4) r(1)] by blast
    have "minified (r @ []) = u @ minified []" by (rule minifiesD [OF u(2)])
    then have "minified r = u" by simp
    moreover have "0 \<notin> set r" by (rule render_nonzero [OF clean_numbers [OF assms(4)] r(1)])
    then have "until_null (r @ [0]) = r" unfolding until_null_def by (induction r) auto
    ultimately have "\<exists>rest. cJSON_Minify (Some (r @ [0])) = Some (Some (u @ 0 # rest))"
      using minify_text [of "r @ [0]"] by auto
    then show ?thesis using p(1) r u False by (simp add: cJSON_Print_def)
  qed
qed

theorem Minify_of_print_witness:
  "\<exists>q h1. cJSON_Print 1 True heap2 = Some (q, h1)
    \<and> (if q = 0 then strs h1 = strs heap2
       else \<exists>m. strs h1 q = Some m \<and> (\<exists>rest. cJSON_Minify (Some m) = Some (Some ([91, 48, 93] @ 0 # rest))))"
proof -
  have "clean one_array" by (simp add: leaf_def binary64_def clean_text_def)
  then show ?thesis using Minify_of_print [OF heap2_array _ heap2_wf, of True]
    by (simp add: render_zero_array cong: if_cong)
qed

text \<open>
  A string that ends in a backslash: the printed text has two backslashes before the closing quote, \<open>cJSON_Minify\<close>
  takes the second one and the quote for an escape and treats what follows as part of the string,
  so it keeps a blank outside of the string and removes one inside of the next.
\<close>

lemma Minify_damages_backslash:
  "cJSON_Minify (Some (quoted ''[@'' @ [92, 92] @ quoted ''@, @ @]'' @ [0]))
     = Some (Some (quoted ''[@'' @ [92, 92] @ quoted ''@, @@]'' @ [0, 0]))"
  using minify_text [of "quoted ''[@'' @ [92, 92] @ quoted ''@, @ @]'' @ [0]"]
  by (simp add: quoted_def ascii_def until_null_def json_blank_def minified.simps)

section \<open>The trees of the parser\<close>

text \<open>
  C10: every tree the parser hands out is well typed: one of the seven types without a flag, a value string
  exactly in a string, children only in arrays and objects, names exactly on members of objects,
  finite or infinite doubles with their saturated integer, and at most \<open>CJSON_NESTING_LIMIT\<close> containers deep.
\<close>

theorem parsed_tree_well_typed:
  assumes "heap_wf h" and "0 < len" "len \<le> length m" and "m ! (len - 1) = 0"
  shows "\<exists>root e h'. cJSON_ParseWithLengthOpts (Some m) len req h = Some (root, e, h')
    \<and> (if root = 0 then nodes h' = nodes h \<and> strs h' = strs h
       else \<exists>F t. item h' root F t \<and> distinct F \<and> well_typed t \<and> nesting t \<le> CJSON_NESTING_LIMIT \<and> jt_name t = None)"
proof -
  obtain root e h' where r: "cJSON_ParseWithLengthOpts (Some m) len req h = Some (root, e, h')"
      "parse_outcome (ref_text m len req) m len h (root, e, h')"
    using cJSON_ParseWithLengthOpts_correct [OF assms, of req] by (metis surj_pair)
  show ?thesis
  proof (cases "root = 0")
    case True
    then show ?thesis using r by (simp add: parse_outcome_def)
  next
    case False
    then obtain t q F where t: "ref_text m len req = Some (t, q)" "item h' root F t" "distinct F"
      using r(2) by (auto simp: parse_outcome_def)
    then show ?thesis using r(1) False ref_text_well_typed [OF t(1)] by auto
  qed
qed

theorem parsed_tree_well_typed_witness:
  "\<exists>root e h'. cJSON_ParseWithLengthOpts (Some (quoted ''{@a@:[1]}'' @ [0])) 10 True heap0 = Some (root, e, h')
    \<and> (if root = 0 then nodes h' = nodes heap0 \<and> strs h' = strs heap0
       else \<exists>F t. item h' root F t \<and> distinct F \<and> well_typed t \<and> nesting t \<le> CJSON_NESTING_LIMIT \<and> jt_name t = None)"
  by (rule parsed_tree_well_typed) (simp_all add: heap0_wf quoted_def ascii_def)

end
