(* ===== verification/Cjson_Utf8.thy ===== *)
theory Cjson_Utf8
  imports Cjson_Text_Safety
begin

unbundle bit_operations_syntax

text \<open>
  The escapes \<^verbatim>\<open>\uXXXX\<close> of JSON strings: what \<open>utf16_literal_to_utf8\<close> makes of a code point that is
  written as one UTF-16 unit or as a surrogate pair, against arithmetic definitions of both codings.
\<close>

section \<open>The two codings\<close>

definition hex_nat :: "byte \<Rightarrow> nat option" where
  "hex_nat c =
     (if unat c \<in> {48..57} then Some (unat c - 48)
      else if unat c \<in> {65..70} then Some (unat c - 55)
      else if unat c \<in> {97..102} then Some (unat c - 87) else None)"

text \<open>One unit: backslash, \<open>u\<close> and four digits of either case.\<close>

fun unit_escape :: "bytes \<Rightarrow> nat option" where
  "unit_escape [b, u, x3, x2, x1, x0] =
     (if b = 92 \<and> u = 117
      then do {
        d3 \<leftarrow> hex_nat x3; d2 \<leftarrow> hex_nat x2; d1 \<leftarrow> hex_nat x1; d0 \<leftarrow> hex_nat x0;
        Some (((d3 * 16 + d2) * 16 + d1) * 16 + d0)
      }
      else None)"
| "unit_escape _ = None"

text \<open>Code points from \<open>0x10000\<close> on take two units of ten bits each.\<close>

definition utf16_escape :: "bytes \<Rightarrow> nat option" where
  "utf16_escape s =
     (if length s = 6
      then do { n \<leftarrow> unit_escape s; if n \<in> {0xD800..0xDFFF} then None else Some n }
      else do {
        h \<leftarrow> unit_escape (take 6 s);
        l \<leftarrow> unit_escape (drop 6 s);
        if h \<in> {0xD800..0xDBFF} \<and> l \<in> {0xDC00..0xDFFF}
        then Some (0x10000 + (h - 0xD800) * 0x400 + (l - 0xDC00)) else None
      })"

definition utf8_text :: "nat \<Rightarrow> bytes" where
  "utf8_text n = map of_nat
     (if n < 0x80 then [n]
      else if n < 0x800 then [0xC0 + n div 64, 0x80 + n mod 64]
      else if n < 0x10000 then [0xE0 + n div 4096, 0x80 + n div 64 mod 64, 0x80 + n mod 64]
      else [0xF0 + n div 262144, 0x80 + n div 4096 mod 64, 0x80 + n div 64 mod 64, 0x80 + n mod 64])"

section \<open>Bits and numbers\<close>

lemma bit_of_small: "n < 2 ^ k \<Longrightarrow> bit (of_nat n :: 'a::len word) i \<Longrightarrow> i < k"
proof -
  assume n: "n < 2 ^ k" and "bit (of_nat n :: 'a word) i"
  then have "bit (take_bit k n) i" by (simp add: bit_of_nat_iff take_bit_nat_eq_self)
  then show ?thesis by (simp add: bit_take_bit_iff)
qed

lemma or_low: "n < 2 ^ k \<Longrightarrow> push_bit k a OR of_nat n = push_bit k a + (of_nat n :: 'a::len word)"
  by (rule disjunctive_add_eq_or [symmetric])
    (auto simp: bit_eq_iff bit_simps dest: bit_of_small)

lemma low_bits: "(of_nat n :: 'a::len word) AND mask k = of_nat (n mod 2 ^ k)"
  by (simp only: take_bit_eq_mask [symmetric] take_bit_of_nat) (simp add: take_bit_eq_mod)

lemma fill_byte: "((of_nat n :: u64) OR 0x80) AND 0xBF = of_nat (0x80 + n mod 64)"
proof -
  have "((of_nat n :: u64) OR 0x80) AND 0xBF = (of_nat n AND 0xBF) OR (0x80 AND 0xBF)"
    by (rule bit.conj_disj_distrib2)
  also have "\<dots> = (of_nat n AND (mask 6 OR 0x80)) OR 0x80" by (simp add: mask_eq_exp_minus_1)
  also have "\<dots> = 0x80 OR (of_nat n AND mask 6)"
    by (rule bit_eqI) (auto simp: bit_simps)
  also have "(of_nat n :: u64) AND mask 6 = of_nat (n mod 64)" using low_bits [of n 6] by simp
  also have "0x80 OR of_nat (n mod 64) = (0x80 + of_nat (n mod 64) :: u64)"
    using or_low [of "n mod 64" 6 "2 :: u64"] by simp
  finally show ?thesis by simp
qed

lemma unat_point: "n \<le> 0x10FFFF \<Longrightarrow> unat (of_nat n :: u64) = n"
  by (simp add: unat_of_nat)

lemma drop_point: "n \<le> 0x10FFFF \<Longrightarrow> drop_bit 6 (of_nat n :: u64) = of_nat (n div 64)"
  by (simp add: word_unat_eq_iff unat_of_nat drop_bit_eq_div unat_div)

lemma byte_point: "n \<le> 0x10FFFF \<Longrightarrow> ucast (of_nat n :: u64) = (of_nat n :: byte)"
  by (simp add: word_unat_eq_iff unsigned_ucast_eq unat_point unat_of_nat take_bit_eq_mod)

lemma head_byte:
  assumes "h < 2 ^ k" and "j * 2 ^ k + h < 256"
  shows "ucast (((of_nat h :: u64) OR push_bit k (of_nat j)) AND 0xFF) = (of_nat (j * 2 ^ k + h) :: byte)"
proof -
  have "(of_nat h :: u64) OR push_bit k (of_nat j) = of_nat (j * 2 ^ k + h)"
    using or_low [OF assms(1), of "of_nat j"] by (simp add: or.commute push_bit_eq_mult)
  moreover have "(of_nat (j * 2 ^ k + h) :: u64) AND 0xFF = of_nat (j * 2 ^ k + h)"
    using low_bits [of "j * 2 ^ k + h" 8] assms(2) by (simp add: mask_eq_exp_minus_1)
  ultimately show ?thesis using assms(2) byte_point [of "j * 2 ^ k + h"] by simp
qed

lemma fill_step: "n \<le> 0x10FFFF \<Longrightarrow> utf8_fill (Suc m) (of_nat n) bs = utf8_fill m (of_nat (n div 64)) (of_nat (0x80 + n mod 64) # bs)"
  by (simp only: utf8_fill.simps drop_point fill_byte byte_point)

lemma less_point: "n \<le> 0x10FFFF \<Longrightarrow> (of_nat n :: u64) < numeral m \<longleftrightarrow> n < unat (numeral m :: u64)"
  by (simp only: word_less_nat_alt unat_point)

lemma utf8_encode_text:
  assumes n: "n \<le> 0x10FFFF"
  shows "utf8_encode (of_nat n) = Some (utf8_text n)"
proof -
  have d: "n div 64 \<le> 0x10FFFF" "n div 64 div 64 \<le> 0x10FFFF" using n by (meson div_le_dividend le_trans)+
  have q: "n div 64 div 64 = n div 4096" "n div 64 div 64 div 64 = n div 262144" "n div 4096 div 64 = n div 262144"
    by (simp_all flip: div_mult2_eq)
  note fill = fill_step [OF n] fill_step [OF d(1)] fill_step [OF d(2)] fill_step [OF d(2), unfolded q] utf8_fill.simps(1)
  have c: "n < 0x80 \<or> 0x80 \<le> n \<and> n < 0x800 \<or> 0x800 \<le> n \<and> n < 0x10000 \<or> 0x10000 \<le> n" by linarith
  have l: "(of_nat n :: u64) < 0x80 \<longleftrightarrow> n < 0x80" "(of_nat n :: u64) < 0x800 \<longleftrightarrow> n < 0x800"
      "(of_nat n :: u64) < 0x10000 \<longleftrightarrow> n < 0x10000" "(of_nat n :: u64) \<le> 0x10FFFF"
    using n by (simp_all add: less_point word_le_nat_alt unat_point)
  from c show ?thesis
  proof (elim disjE conjE)
    assume a: "n < 0x80"
    then have "(of_nat n :: u64) AND 0x7F = of_nat n" using low_bits [of n 7] by (simp add: mask_eq_exp_minus_1)
    then show ?thesis using a l byte_point [OF n] by (simp add: utf8_encode_def utf8_text_def)
  next
    assume a: "0x80 \<le> n" "n < 0x800"
    then have "n div 64 < 32" by (simp add: less_mult_imp_div_less)
    then have "ucast (((of_nat (n div 64) :: u64) OR 0xC0) AND 0xFF) = (of_nat (0xC0 + n div 64) :: byte)"
      using head_byte [of "n div 64" 5 6] by simp
    moreover have "utf8_fill 1 (of_nat n) [] = (of_nat (n div 64), [of_nat (0x80 + n mod 64)])"
      by (simp only: One_nat_def fill)
    ultimately show ?thesis using a l by (simp add: utf8_encode_def utf8_text_def)
  next
    assume a: "0x800 \<le> n" "n < 0x10000"
    then have "n div 4096 < 16" by (simp add: less_mult_imp_div_less)
    then have "ucast (((of_nat (n div 4096) :: u64) OR 0xE0) AND 0xFF) = (of_nat (0xE0 + n div 4096) :: byte)"
      using head_byte [of "n div 4096" 4 14] by simp
    moreover have "utf8_fill (Suc (Suc 0)) (of_nat n) [] = (of_nat (n div 4096), [of_nat (0x80 + n div 64 mod 64), of_nat (0x80 + n mod 64)])"
      by (simp only: fill q)
    ultimately show ?thesis using a l by (simp add: utf8_encode_def utf8_text_def numeral_2_eq_2)
  next
    assume a: "0x10000 \<le> n"
    then have "n div 262144 < 8" using n by (simp add: less_mult_imp_div_less)
    then have "ucast (((of_nat (n div 262144) :: u64) OR 0xF0) AND 0xFF) = (of_nat (0xF0 + n div 262144) :: byte)"
      using head_byte [of "n div 262144" 3 30] by simp
    moreover have "utf8_fill (Suc (Suc (Suc 0))) (of_nat n) [] = (of_nat (n div 262144),
        [of_nat (0x80 + n div 4096 mod 64), of_nat (0x80 + n div 64 mod 64), of_nat (0x80 + n mod 64)])"
      by (simp only: fill q)
    ultimately show ?thesis using a l by (simp add: utf8_encode_def utf8_text_def numeral_3_eq_3)
  qed
qed

section \<open>Units and pairs\<close>

lemma hex_digit_nat: "hex_nat c = Some d \<Longrightarrow> hex_digit c = Some (of_nat d) \<and> d < 16"
proof -
  assume h: "hex_nat c = Some d"
  have u: "ucast c = (of_nat (unat c) :: u32)" by simp
  show ?thesis using h unfolding hex_nat_def hex_digit_def u word_le_nat_alt
    by (auto split: if_splits simp: of_nat_diff)
qed

lemma unit_escapeE:
  assumes "unit_escape s = Some n"
  obtains x3 x2 x1 x0 d3 d2 d1 d0 where "s = [92, 117, x3, x2, x1, x0]" "n = ((d3 * 16 + d2) * 16 + d1) * 16 + d0"
    "hex_nat x3 = Some d3" "hex_nat x2 = Some d2" "hex_nat x1 = Some d1" "hex_nat x0 = Some d0"
  using assms by (cases s rule: unit_escape.cases) (auto split: if_splits simp: bind_eq_Some_conv)

lemma unit_parse:
  assumes s: "unit_escape s = Some n" and m: "drop p m = s @ t"
  shows "length s = 6 \<and> n < 65536 \<and> byte_at m p = Some 92 \<and> byte_at m (p + 1) = Some 117
    \<and> parse_hex4 m (p + 2) = Some (of_nat n) \<and> drop (p + 6) m = t"
proof -
  from s show ?thesis
  proof (rule unit_escapeE)
    fix x3 x2 x1 x0 d3 d2 d1 d0
    assume x: "s = [92, 117, x3, x2, x1, x0]" and n: "n = ((d3 * 16 + d2) * 16 + d1) * 16 + d0"
      and "hex_nat x3 = Some d3" "hex_nat x2 = Some d2" "hex_nat x1 = Some d1" "hex_nat x0 = Some d0"
    then have h: "hex_digit x3 = Some (of_nat d3)" "hex_digit x2 = Some (of_nat d2)" "hex_digit x1 = Some (of_nat d1)"
        "hex_digit x0 = Some (of_nat d0)" and l: "d3 < 16" "d2 < 16" "d1 < 16" "d0 < 16"
      by (simp_all add: hex_digit_nat)
    have at: "byte_at m (p + i) = Some ((s @ t) ! i)" if "i < 6" for i
    proof -
      have "p + i < length m" using arg_cong [OF m, of length] that x by simp
      then show ?thesis using arg_cong [OF m, of "\<lambda>l. l ! i"] by (simp add: byte_at_def)
    qed
    have b: "byte_at m p = Some 92" "byte_at m (Suc p) = Some 117" "byte_at m (Suc (Suc p)) = Some x3" "byte_at m (Suc (Suc (Suc p))) = Some x2"
        "byte_at m (Suc (Suc (Suc (Suc p)))) = Some x1" "byte_at m (Suc (Suc (Suc (Suc (Suc p))))) = Some x0"
      using at [of 0] at [of "Suc 0"] at [of "Suc (Suc 0)"] at [of "Suc (Suc (Suc 0))"] at [of "Suc (Suc (Suc (Suc 0)))"]
        at [of "Suc (Suc (Suc (Suc (Suc 0))))"] x by simp_all
    have "hex_loop m (Suc (Suc p)) (Suc (Suc (Suc (Suc 0)))) 0 = Some (push_bit 4 (push_bit 4 (push_bit 4 (of_nat d3) + of_nat d2) + of_nat d1) + of_nat d0)"
      using b h by simp
    also have "push_bit 4 (push_bit 4 (push_bit 4 (of_nat d3) + of_nat d2) + of_nat d1) + of_nat d0 = (of_nat n :: u32)"
      unfolding n by (simp add: push_bit_eq_mult)
    moreover have "n < 65536" using l n by (simp add: algebra_simps)
    moreover have "drop 6 (drop p m) = t" using x unfolding m by simp
    moreover have "p + 1 = Suc p" "p + 2 = Suc (Suc p)" "(4::nat) = Suc (Suc (Suc (Suc 0)))" by simp_all
    ultimately show ?thesis using x b(1,2) unfolding parse_hex4_def by (simp only:) (simp add: ac_simps)
  qed
qed

lemma unit_code:
  assumes "n < 65536"
  shows "(numeral m \<le> (of_nat n :: u32)) = (unat (numeral m :: u32) \<le> n)" and "((of_nat n :: u32) \<le> numeral m) = (n \<le> unat (numeral m :: u32))"
    and "((of_nat n :: u32) < numeral m) = (n < unat (numeral m :: u32))" and "(numeral m < (of_nat n :: u32)) = (unat (numeral m :: u32) < n)"
  using assms by (simp_all add: word_le_nat_alt word_less_nat_alt unat_of_nat)

lemma pair_point:
  assumes "h \<in> {0xD800..0xDBFF}" and "l \<in> {0xDC00..0xDFFF}"
  shows "0x10000 + (push_bit 10 ((of_nat h :: u32) AND 0x3FF) OR (of_nat l AND 0x3FF)) = of_nat (0x10000 + (h - 0xD800) * 0x400 + (l - 0xDC00))"
proof -
  obtain a b where a: "h = 54 * 1024 + a" "l = 55 * 1024 + b" "a < 1024" "b < 1024"
  proof (rule that)
    show "h = 54 * 1024 + (h - 0xD800)" "l = 55 * 1024 + (l - 0xDC00)" "h - 0xD800 < 1024" "l - 0xDC00 < 1024" using assms by (simp_all, linarith+)
  qed
  have m: "(0x3FF :: u32) = mask 10" by (simp add: mask_eq_exp_minus_1)
  have "h mod 1024 = a mod 1024" "l mod 1024 = b mod 1024" unfolding a(1,2) by (rule mod_mult_self3)+
  then have "h mod 2 ^ 10 = a" "l mod 2 ^ 10 = b" using a(3,4) by simp_all
  then have "(of_nat h :: u32) AND 0x3FF = of_nat a" "(of_nat l :: u32) AND 0x3FF = of_nat b"
    unfolding m by (simp_all only: low_bits)
  moreover have "push_bit 10 (of_nat a) OR of_nat b = (push_bit 10 (of_nat a) + of_nat b :: u32)"
    using or_low [of b 10] a(4) by simp
  ultimately show ?thesis using a(1,2) by (simp add: push_bit_eq_mult)
qed

section \<open>The property\<close>

text \<open>
  C13: an escape of a code point, one unit or a surrogate pair with digits of either case, becomes the
  UTF-8 form of that code point, and exactly the bytes of the escape are consumed.
\<close>

theorem escape_becomes_utf8:
  assumes "utf16_escape s = Some n" and "drop p m = s @ t" and "p + length s \<le> e"
  shows "utf16_literal_to_utf8 m p e = Some (length s, utf8_text n)"
proof -
  have "utf16_code m p e = Some (length s, of_nat n) \<and> length s \<noteq> 0 \<and> n \<le> 0x10FFFF"
  proof (cases "length s = 6")
    case True
    then have u: "unit_escape s = Some n" "n \<notin> {0xD800..0xDFFF}"
      using assms(1) by (auto simp: utf16_escape_def bind_eq_Some_conv split: if_splits)
    note r = unit_parse [OF u(1) assms(2)]
    have "ucast (of_nat n :: u32) = (of_nat n :: u64)"
      using r by (simp add: word_unat_eq_iff unsigned_ucast_eq unat_of_nat take_bit_eq_mod)
    then show ?thesis using r u(2) True assms(3) by (auto simp: utf16_code_def unit_code)
  next
    case False
    then obtain h l where u: "unit_escape (take 6 s) = Some h" "unit_escape (drop 6 s) = Some l" "h \<in> {0xD800..0xDBFF}" "l \<in> {0xDC00..0xDFFF}"
        "n = 0x10000 + (h - 0xD800) * 0x400 + (l - 0xDC00)"
      using assms(1) by (auto simp: utf16_escape_def bind_eq_Some_conv split: if_splits)
    have "drop p m = take 6 s @ drop 6 s @ t" using assms(2) by simp
    note r1 = unit_parse [OF u(1) this]
    note r2 = unit_parse [OF u(2) r1 [THEN conjunct2, THEN conjunct2, THEN conjunct2, THEN conjunct2, THEN conjunct2]]
    have "p + 6 + 1 = p + 7" "p + 6 + 2 = p + 8" "p + 6 + 6 = p + 12" by simp_all
    note r2 = r2 [unfolded this]
    have l: "length s = 12" using r1 r2 by (simp, linarith)
    have n: "n \<le> 0x10FFFF" using u(3-5) by auto
    have "ucast (of_nat n :: u32) = (of_nat n :: u64)"
      using n by (simp add: word_unat_eq_iff unsigned_ucast_eq unat_of_nat take_bit_eq_mod)
    then show ?thesis using r1 r2 u(3,4) l n assms(3) pair_point [OF u(3,4)] unfolding u(5) [symmetric]
      by (auto simp: utf16_code_def unit_code)
  qed
  then show ?thesis using utf8_encode_text [of n] by (simp add: utf16_literal_to_utf8_def)
qed

text \<open>A pair for the code point \<open>0x1F600\<close>, in a string.\<close>

theorem escape_becomes_utf8_witness:
  "utf16_literal_to_utf8 [34, 92, 117, 100, 56, 51, 100, 92, 117, 68, 69, 48, 48, 34] 1 14 = Some (12, [0xF0, 0x9F, 0x98, 0x80])"
proof -
  let ?s = "[92, 117, 100, 56, 51, 100, 92, 117, 68, 69, 48, 48] :: bytes"
  have "utf16_escape ?s = Some 0x1F600" by (simp add: utf16_escape_def hex_nat_def)
  from escape_becomes_utf8 [OF this, of 1 "34 # ?s @ [34]" "[34]" 14] show ?thesis
    by (simp add: utf8_text_def)
qed

end
