(* ===== verification/Cjson_Global.thy ===== *)
theory Cjson_Global
  imports Cjson_Print Cjson_Tree
begin

text \<open>
  The small functions of \<^verbatim>\<open>cJSON.c\<close> over its global state and over the type of an item: the hooks,
  the error position, the version and the type predicates.
\<close>

section \<open>Hooks\<close>

text \<open>
  A function behind a hook is the one of the C library or one of the application, known by a number.
\<close>

datatype hook_fn = Libc | Application nat

record internal_hooks =
  allocate_fn :: hook_fn
  deallocate_fn :: hook_fn
  reallocate_fn :: "hook_fn option"

record cJSON_Hooks =
  malloc_fn :: "hook_fn option"
  free_fn :: "hook_fn option"

definition global_hooks_start :: internal_hooks where
  "global_hooks_start = \<lparr>allocate_fn = Libc, deallocate_fn = Libc, reallocate_fn = Some Libc\<rparr>"

definition cJSON_InitHooks :: "cJSON_Hooks option \<Rightarrow> internal_hooks \<Rightarrow> internal_hooks" where
  "cJSON_InitHooks hooks g =
     (case hooks of
        None \<Rightarrow> g\<lparr>allocate_fn := Libc, deallocate_fn := Libc, reallocate_fn := Some Libc\<rparr>
      | Some hk \<Rightarrow>
          let g1 = g\<lparr>allocate_fn := (case malloc_fn hk of None \<Rightarrow> Libc | Some f \<Rightarrow> f)\<rparr>;
              g2 = g1\<lparr>deallocate_fn := (case free_fn hk of None \<Rightarrow> Libc | Some f \<Rightarrow> f)\<rparr>;
              g3 = g2\<lparr>reallocate_fn := None\<rparr>
          in if allocate_fn g3 = Libc \<and> deallocate_fn g3 = Libc then g3\<lparr>reallocate_fn := Some Libc\<rparr> else g3)"

text \<open>A block is only ever given to \<open>realloc\<close> when the C library allocated it and will free it.\<close>

definition hooks_ok :: "internal_hooks \<Rightarrow> bool" where
  "hooks_ok g \<longleftrightarrow> reallocate_fn g = (if allocate_fn g = Libc \<and> deallocate_fn g = Libc then Some Libc else None)"

lemma hooks_ok_start: "hooks_ok global_hooks_start"
  by (simp add: hooks_ok_def global_hooks_start_def)

lemma InitHooks_ok: "hooks_ok (cJSON_InitHooks hooks g)"
  by (auto simp: hooks_ok_def cJSON_InitHooks_def Let_def split: option.splits)

section \<open>Error position and version\<close>

text \<open>The pointer is the text it points into and the index; \<open>None\<close> is the null pointer.\<close>

definition cJSON_GetErrorPtr :: "heap \<Rightarrow> (bytes \<times> nat) option" where
  "cJSON_GetErrorPtr h = (case global_error h of None \<Rightarrow> None | Some (json, position) \<Rightarrow> Some (json, position))"

definition cJSON_Version :: "bytes option" where
  "cJSON_Version =
     (let s = decimal 1 @ 46 # decimal 7 @ 46 # decimal 14
      in if length s + 1 \<le> 15 then Some (s @ [0]) else None)"

lemma Version_text: "cJSON_Version = Some (ascii ''1.7.14'' @ [0])"
  by (simp add: cJSON_Version_def decimal.simps ascii_def)

section \<open>Types\<close>

definition cJSON_IsInvalid :: "heap \<Rightarrow> nat \<Rightarrow> bool option" where
  "cJSON_IsInvalid h it = (if it = 0 then Some False else do { n \<leftarrow> nodes h it; Some (c_type n AND 0xFF = 0) })"

definition cJSON_IsFalse :: "heap \<Rightarrow> nat \<Rightarrow> bool option" where
  "cJSON_IsFalse h it = (if it = 0 then Some False else do { n \<leftarrow> nodes h it; Some (c_type n AND 0xFF = cJSON_False) })"

definition cJSON_IsTrue :: "heap \<Rightarrow> nat \<Rightarrow> bool option" where
  "cJSON_IsTrue h it = (if it = 0 then Some False else do { n \<leftarrow> nodes h it; Some (c_type n AND 0xFF = cJSON_True) })"

definition cJSON_IsBool :: "heap \<Rightarrow> nat \<Rightarrow> bool option" where
  "cJSON_IsBool h it = (if it = 0 then Some False else do { n \<leftarrow> nodes h it; Some (c_type n AND (cJSON_True OR cJSON_False) \<noteq> 0) })"

definition cJSON_IsNull :: "heap \<Rightarrow> nat \<Rightarrow> bool option" where
  "cJSON_IsNull h it = (if it = 0 then Some False else do { n \<leftarrow> nodes h it; Some (c_type n AND 0xFF = cJSON_NULL) })"

definition cJSON_IsArray :: "heap \<Rightarrow> nat \<Rightarrow> bool option" where
  "cJSON_IsArray h it = (if it = 0 then Some False else do { n \<leftarrow> nodes h it; Some (c_type n AND 0xFF = cJSON_Array) })"

definition cJSON_IsObject :: "heap \<Rightarrow> nat \<Rightarrow> bool option" where
  "cJSON_IsObject h it = (if it = 0 then Some False else do { n \<leftarrow> nodes h it; Some (c_type n AND 0xFF = cJSON_Object) })"

definition cJSON_IsRaw :: "heap \<Rightarrow> nat \<Rightarrow> bool option" where
  "cJSON_IsRaw h it = (if it = 0 then Some False else do { n \<leftarrow> nodes h it; Some (c_type n AND 0xFF = cJSON_Raw) })"

lemmas type_predicates = cJSON_IsInvalid_def cJSON_IsFalse_def cJSON_IsTrue_def cJSON_IsBool_def cJSON_IsNull_def cJSON_IsArray_def
  cJSON_IsObject_def cJSON_IsRaw_def cJSON_IsType_def

lemma item_type: "item h a F t \<Longrightarrow> a \<noteq> 0 \<and> (\<exists>n. nodes h a = Some n \<and> c_type n = jt_type t)"
  by (auto elim!: item_elim)

text \<open>On a tree each predicate says what the type of its root is.\<close>

lemma type_predicates_tree:
  assumes "item h a F t"
  shows "cJSON_IsInvalid h a = Some (jt_type t AND 0xFF = 0)" "cJSON_IsFalse h a = Some (jt_type t AND 0xFF = cJSON_False)" "cJSON_IsTrue h a = Some (jt_type t AND 0xFF = cJSON_True)"
    "cJSON_IsNull h a = Some (jt_type t AND 0xFF = cJSON_NULL)" "cJSON_IsArray h a = Some (jt_type t AND 0xFF = cJSON_Array)"
    "cJSON_IsObject h a = Some (jt_type t AND 0xFF = cJSON_Object)" "cJSON_IsRaw h a = Some (jt_type t AND 0xFF = cJSON_Raw)"
  using item_type [OF assms] by (auto simp: type_predicates)

text \<open>\<open>cJSON_IsBool\<close> tests bits and not the type; for the eight types of a tree that is the same.\<close>

lemma IsBool_tree:
  assumes "item h a F t"
    and "jt_type t \<in> {cJSON_False, cJSON_True, cJSON_NULL, cJSON_Number, cJSON_String, cJSON_Array, cJSON_Object, cJSON_Raw}"
  shows "cJSON_IsBool h a = Some (jt_type t \<in> {cJSON_False, cJSON_True})"
  using item_type [OF assms(1)] assms(2) by (auto simp: type_predicates)

end
