(* ===== verification/Transport_Safety.thy ===== *)
theory Transport_Safety
  imports Transport
begin

text \<open>
  The invariant the operations of a client keep: the rings are well formed and the payloads of the
  queued events lie in the arena, in queue order and without overlap, so no event ever reads bytes
  that a later packet overwrote. The transition relation \<open>safe_step\<close> is reflexive and transitive,
  so each operation is a chain of the primitive steps below.
\<close>

section \<open>The invariant\<close>

definition ev_block :: "RuruEvent \<Rightarrow> (nat \<times> nat) option" where
  "ev_block e = map_option (\<lambda>off. (off, unat (ev_length e))) (ev_data e)"

definition blocks :: "RuruEvent list \<Rightarrow> (nat \<times> nat) list" where
  "blocks q = List.map_filter ev_block q"

definition block_before :: "nat \<times> nat \<Rightarrow> nat \<times> nat \<Rightarrow> bool" where
  "block_before b c \<longleftrightarrow> fst b + snd b \<le> fst c"

definition events_ok :: "'w server \<Rightarrow> bool" where
  "events_ok s \<longleftrightarrow>
     sorted_wrt block_before (blocks (que s))
     \<and> (\<forall>b\<in>set (blocks (que s)). fst b + snd b \<le> nat (pos (arena s)))
     \<and> (\<forall>e\<in>set (que s). \<exists>i. ev_client e = Some i \<and> i < length (clientMgr s))"

definition client_ok :: "client \<Rightarrow> bool" where
  "client_ok c \<longleftrightarrow> ring_wf (heartBeatRing c) \<and> cap (heartBeatRing c) = 100
     \<and> (\<forall>b\<in>set (ring_items (heartBeatRing c)). unat (beat_length b) \<le> length (beat_data b))"

definition server_ok :: "'w server \<Rightarrow> bool" where
  "server_ok s \<longleftrightarrow> arena_wf (arena s) \<and> events_ok s \<and> (\<forall>c\<in>set (clientMgr s). client_ok c)"

text \<open>The queue only grows at its end and the bytes allocated so far stay as they are.\<close>

definition grows :: "'w server \<Rightarrow> 'w server \<Rightarrow> bool" where
  "grows s s' \<longleftrightarrow>
     (\<exists>new. que s' = que s @ new) \<and> pos (arena s) \<le> pos (arena s')
     \<and> (\<forall>off n. off + n \<le> nat (pos (arena s)) \<longrightarrow>
          chunk (arena.memory (arena s')) off n = chunk (arena.memory (arena s)) off n)
     \<and> length (clientMgr s') = length (clientMgr s) \<and> conns s' = conns s
     \<and> next_conn s' = next_conn s \<and> udp_fd s' = udp_fd s \<and> tcp_fd s' = tcp_fd s
     \<and> ep_fd s' = ep_fd s \<and> map address (clientMgr s') = map address (clientMgr s)"

definition safe_step :: "'w server \<Rightarrow> 'w server \<Rightarrow> bool" where
  "safe_step s s' \<longleftrightarrow> (server_ok s \<longrightarrow> server_ok s' \<and> grows s s')"

lemma grows_refl [simp]: "grows s s"
  by (simp add: grows_def)

lemma grows_trans: "grows s s1 \<Longrightarrow> grows s1 s2 \<Longrightarrow> grows s s2"
  by (auto simp: grows_def)

lemma safe_refl [simp]: "safe_step s s"
  by (simp add: safe_step_def)

lemma safe_trans: "safe_step s s1 \<Longrightarrow> safe_step s1 s2 \<Longrightarrow> safe_step s s2"
  by (auto simp: safe_step_def intro: grows_trans)

section \<open>Primitive steps\<close>

lemma blocks_append: "blocks (q @ r) = blocks q @ blocks r"
  by (simp add: blocks_def map_filter_def)

lemma blocks_simps [simp]:
  "blocks [] = []" "blocks (e # q) = (case ev_block e of None \<Rightarrow> blocks q | Some b \<Rightarrow> b # blocks q)"
  by (auto simp: blocks_def map_filter_def split: option.split)

lemma safe_world: "safe_step s (s\<lparr>world := w\<rparr>)"
  by (simp add: safe_step_def server_ok_def events_ok_def grows_def)

lemma safe_init: "safe_step s (s\<lparr>usrsctpInit := b\<rparr>)"
  by (simp add: safe_step_def server_ok_def events_ok_def grows_def)

lemma safe_world_of: "safe_step (s\<lparr>world := w\<rparr>) t \<Longrightarrow> safe_step s t"
  by (rule safe_trans [OF safe_world])

lemma safe_put:
  assumes "get_client i s = Some c" and "server_ok s \<Longrightarrow> client_ok c \<Longrightarrow> client_ok c'"
    and "address c' = address c"
  shows "safe_step s (put_client i c' s)"
proof -
  have i: "i < length (clientMgr s)" "c = clientMgr s ! i"
    using assms(1) by (auto simp: get_client_def split: if_splits)
  have "map address (clientMgr (put_client i c' s)) = map address (clientMgr s)"
    using i assms(3) by (simp add: put_client_def map_update list_update_same_conv)
  then show ?thesis
    using i assms(2)
    by (auto simp: safe_step_def server_ok_def events_ok_def grows_def put_client_def
        dest!: subsetD [OF set_update_subset_insert])
qed

lemma safe_upd:
  assumes "upd_client i f s = Some s'" and "\<And>c. heartBeatRing (f c) = heartBeatRing c"
    and "\<And>c. address (f c) = address c"
  shows "safe_step s s'"
  using assms by (auto simp: upd_client_def client_ok_def intro!: safe_put)

lemma safe_push_plain:
  "ev_data e = None \<Longrightarrow> ev_client e = Some i \<Longrightarrow> i < length (clientMgr s) \<Longrightarrow>
   safe_step s (s\<lparr>que := que s @ [e]\<rparr>)"
  by (auto simp: safe_step_def server_ok_def events_ok_def grows_def blocks_append ev_block_def)

section \<open>Callbacks\<close>

lemma pending_step: "ClientSendPendingDtls k i s = Some s' \<Longrightarrow> safe_step s s'"
  by (auto simp: ClientSendPendingDtls_def run_simps intro: safe_world)

lemma ClientSendData_step: "ClientSendData k i d s = Some s' \<Longrightarrow> safe_step s s'"
  by (auto simp: ClientSendData_def run_simps split: if_splits
      intro: safe_world_of pending_step)

lemma beat_client_ok:
  assumes c: "client_ok c" and w: "RingBufWrite beat (heartBeatRing c) = Some (b, r)"
    and beat: "unat (beat_length beat) \<le> length (beat_data beat)"
  shows "client_ok (c\<lparr>heartBeatRing := r\<rparr>)"
proof -
  obtain b' r' where r': "RingBufWrite beat (heartBeatRing c) = Some (b', r')" "ring_wf r'"
      "set (ring_items r') \<subseteq> insert beat (set (ring_items (heartBeatRing c)))"
  proof -
    have "ring_wf (heartBeatRing c)" using c by (simp add: client_ok_def)
    then obtain q where q: "RingBufWrite beat (heartBeatRing c) =
          Some (length (ring_items (heartBeatRing c)) < unat (cap (heartBeatRing c)) - 1, q)" "ring_wf q"
        "ring_items q = (if length (ring_items (heartBeatRing c)) < unat (cap (heartBeatRing c)) - 1
          then ring_items (heartBeatRing c) @ [beat] else ring_items (heartBeatRing c))"
      using ring.write_total [of "heartBeatRing c" beat] by blast
    show thesis by (rule that [OF q(1,2)]) (use q(3) in auto)
  qed
  have "cap r = cap (heartBeatRing c)"
    using w by (auto simp: RingBufWrite_def split: if_splits)
  then show ?thesis
    using c w r' beat by (auto simp: client_ok_def)
qed

lemma Outbound_step: "OnSctpOutboundPacket k t d s = Some s' \<Longrightarrow> safe_step s s'"
proof -
  assume r: "OnSctpOutboundPacket k t d s = Some s'"
  show ?thesis
  proof (cases d)
    case None
    with r show ?thesis by (simp add: OnSctpOutboundPacket_def)
  next
    case (Some x)
    consider (short) "length x < 16" | (data) "\<not> length x < 16" "\<not> (x ! 12 = 4 \<or> x ! 12 = 5)"
      | (beat) "\<not> length x < 16" "x ! 12 = 4 \<or> x ! 12 = 5" by blast
    then show ?thesis
    proof cases
      case short
      with r Some show ?thesis by (simp add: OnSctpOutboundPacket_def)
    next
      case data
      with r Some show ?thesis
        by (auto simp: OnSctpOutboundPacket_def run_simps intro: ClientSendData_step)
    next
      case beat
      with r Some obtain c bd b q where
        c: "get_client t s = Some c" and
        bd: "memcpy_at 0 x (beat_data HeartBeatData_new) = Some bd" and
        w: "RingBufWrite \<lparr>beat_data = bd, beat_length = word_of_nat (length x)\<rparr> (heartBeatRing c) = Some (b, q)" and
        s': "s' = (put_client t (c\<lparr>heartBeatRing := q\<rparr>) s)
               \<lparr>que := que s @ [RuruEvent_new\<lparr>ev_type := EVT_HeartBeat, ev_client := Some t\<rparr>]\<rparr>"
        by (auto simp: OnSctpOutboundPacket_def Let_def run_simps split: if_splits)
      have len: "length bd = 1024" "length x \<le> 1024"
        using bd by (auto simp: memcpy_at_def HeartBeatData_new_def split: if_splits)
      have "unat (word_of_nat (length x) :: u16) \<le> length bd"
        using len by (simp add: unsigned_of_nat take_bit_nat_eq_self)
      then have put: "safe_step s (put_client t (c\<lparr>heartBeatRing := q\<rparr>) s)"
        using w by (intro safe_put [OF c] beat_client_ok) auto
      have "t < length (clientMgr s)" using c by (rule get_client_length)
      then show ?thesis
        unfolding s' using safe_trans [OF put safe_push_plain [of _ t]]
        by (simp add: put_client_fields RuruEvent_new_def)
    qed
  qed
qed

lemma PushClientRecvData_step:
  assumes r: "PushClientRecvData i d rcv s = Some s'"
  shows "safe_step s s'"
  unfolding safe_step_def
proof
  assume ok: "server_ok s"
  then have wf: "arena_wf (arena s)" by (simp add: server_ok_def)
  let ?n = "int_cast (length d)"
  from r obtain c where c: "get_client i s = Some c" "attached c"
    by (auto simp: PushClientRecvData_def run_simps split: if_splits)
  show "server_ok s' \<and> grows s s'"
  proof (cases "0 < ?n \<and> ?n \<le> capacity (arena s) - pos (arena s)")
    case False
    with r c wf show ?thesis
      using ok by (auto simp: PushClientRecvData_def run_simps ArenaAlloc_cases)
  next
    case True
    define off where "off = nat (pos (arena s))"
    define a where "a = (arena s)\<lparr>pos := pos (arena s) + ?n\<rparr>"
    define ev where "ev = \<lparr>ev_type = EVT_RecvClientData, ev_client = Some i, ev_data = Some off,
      ev_length = word_of_nat (length d), ev_param = \<lparr>par_sid = uint (rcv_sid rcv),
      par_ssn = uint (rcv_ssn rcv), par_tsn = sint (rcv_tsn rcv)\<rparr>\<rparr>"
    from r c wf True obtain a' where a': "arena_fill off d a = Some a'"
      and s': "s' = s\<lparr>arena := a', que := que s @ [ev]\<rparr>"
      by (auto simp: PushClientRecvData_def run_simps ArenaAlloc_cases off_def a_def ev_def)
    have posa: "pos a = pos (arena s) + ?n" "capacity a = capacity (arena s)"
      "arena.memory a = arena.memory (arena s)" by (simp_all add: a_def)
    have wfa: "arena_wf a" using wf True by (simp add: arena_wf_def a_def)
    note fill = arena_fill_wf [OF wfa a'] arena_fill_pos [OF a']
    have mem: "memcpy_at off d (arena.memory a) = Some (arena.memory a')"
      using a' by (auto simp: arena_fill_def)
    have fits: "off + length d \<le> length (arena.memory a)"
      using mem by (auto simp: memcpy_at_def split: if_splits)
    then have "length d \<le> 1073741824"
      using wfa by (auto simp: arena_wf_def)
    then have n: "?n = int (length d)" by (simp add: int_cast_small)
    have "unat (word_of_nat (length d) :: u16) \<le> length d"
      by (simp add: unsigned_of_nat take_bit_nat_less_eq_self)
    then have within: "off + unat (ev_length ev) \<le> nat (pos a')"
      using fill posa n wf by (simp add: ev_def off_def arena_wf_def nat_add_distrib)
    have events: "events_ok s'"
      using ok within c fill posa True get_client_length [OF c(1)]
      by (fastforce simp: server_ok_def events_ok_def s' blocks_append sorted_wrt_append ev_def
          ev_block_def block_before_def off_def)
    have "chunk (arena.memory a') o' m = chunk (arena.memory (arena s)) o' m"
      if "o' + m \<le> nat (pos (arena s))" for o' m
      using memcpy_at_other [OF mem, of o' m] that posa by (simp add: off_def)
    then have "grows s s'"
      using fill posa True by (auto simp: grows_def s')
    then show ?thesis
      using events ok fill by (simp add: server_ok_def s')
  qed
qed

lemma Inbound_step: "OnSctpInboundPacket u d r s = Some s' \<Longrightarrow> safe_step s s'"
  by (auto simp: OnSctpInboundPacket_def split: option.splits intro: PushClientRecvData_step)

lemma run_upcalls_step: "run_upcalls k us s = Some s' \<Longrightarrow> safe_step s s'"
proof (induction us arbitrary: s)
  case Nil
  then show ?case by simp
next
  case (Cons u us)
  then obtain s1 where s1: "run_upcall k u s = Some s1" "run_upcalls k us s1 = Some s'"
    by (auto simp: run_simps)
  have "safe_step s s1"
    using s1(1) by (cases u) (auto intro: Outbound_step Inbound_step)
  with Cons.IH [OF s1(2)] show ?case by (rule safe_trans [rotated])
qed

section \<open>Sending, receiving, set-up\<close>

text \<open>A library call with its upcalls is one safe step.\<close>

lemma upcalls_from: "run_upcalls k us (s\<lparr>world := w\<rparr>) = Some s' \<Longrightarrow> safe_step s s'"
  by (blast intro: safe_world_of run_upcalls_step)

lemma send_failed_step: "send_failed k i s = Some s' \<Longrightarrow> safe_step s s'"
  by (auto simp: send_failed_def Let_def run_simps
      intro: safe_trans [OF upcalls_from safe_upd])

lemma PushMsg_step: "PushMsg2ClientCache i m s = Some s' \<Longrightarrow> safe_step s s'"
  by (auto simp: PushMsg2ClientCache_def split: option.splits elim: safe_upd)

lemma SendCache_loop_step: "SendCache_loop k i s = Some r \<Longrightarrow> safe_step s (snd r)"
proof (rule SendCache_loop.raw_induct [where P = "\<lambda>k i s r. safe_step s (snd r)", rotated])
  fix f :: "('a, 'b) usrsctp_scheme \<Rightarrow> nat \<Rightarrow> 'a server \<Rightarrow> (bool \<times> 'a server) option"
  fix k i s r
  assume IH: "\<And>k i s r. f k i s = Some r \<Longrightarrow> safe_step s (snd r)"
  assume run: "get_client i s \<bind> (\<lambda>c. case cache c of [] \<Rightarrow> Some (True, s)
      | m # ms \<Rightarrow> let (r, ups, w) = us_sendv k (sock c) (cache_data m) (sndinfo_of (cache_param m)) (world s)
          in run_upcalls k ups (s\<lparr>world := w\<rparr>) \<bind> (\<lambda>s1.
            if r < 0 then if sys_errno k w \<noteq> EAGAIN then send_failed k i s1 \<bind> (\<lambda>s2. Some (False, s2))
              else Some (False, s1)
            else upd_client i (\<lambda>c. c\<lparr>cache := tl (cache c)\<rparr>) s1 \<bind> f k i)) = Some r"
  from run obtain c where c: "get_client i s = Some c" by (auto simp: run_simps)
  show "safe_step s (snd r)"
  proof (cases "cache c")
    case Nil
    with run c show ?thesis by auto
  next
    case (Cons m ms)
    with run c show ?thesis
      by (auto simp: run_simps Let_def split: if_splits
          intro: upcalls_from safe_trans [OF upcalls_from send_failed_step]
            safe_trans [OF upcalls_from safe_trans [OF safe_upd IH]])
  qed
qed

lemma SendSctpCacheData_step: "SendSctpCacheData k i s = Some (b, s') \<Longrightarrow> safe_step s s'"
  by (auto simp: SendSctpCacheData_def run_simps split: if_splits dest: SendCache_loop_step)

lemma SendUsrSctpData_step:
  assumes run: "SendUsrSctpData k i msg s = Some (b, s')"
  shows "safe_step s s'"
proof -
  from run obtain ok s1 where s1: "SendSctpCacheData k i s = Some (ok, s1)"
    by (auto simp: SendUsrSctpData_def run_simps)
  have "safe_step s1 s'"
  proof (cases "ok \<and> msg \<noteq> None")
    case False
    with run s1 show ?thesis
      by (cases msg) (auto simp: SendUsrSctpData_def run_simps split: if_splits intro: PushMsg_step)
  next
    case True
    then obtain m where "ok" "msg = Some m" by auto
    with run s1 show ?thesis
      by (auto simp: SendUsrSctpData_def run_simps Let_def split: if_splits
        intro: upcalls_from safe_trans [OF upcalls_from PushMsg_step]
          safe_trans [OF upcalls_from send_failed_step])
  qed
  with SendSctpCacheData_step [OF s1] show ?thesis by (rule safe_trans)
qed

lemma RecvUsrSctpData_step:
  assumes run: "RecvUsrSctpData k i data s = Some s'"
  shows "safe_step s s'"
proof (cases data)
  case None
  with run show ?thesis by (simp add: RecvUsrSctpData_def)
next
  case (Some d)
  with run obtain c hs where c: "get_client i s = Some c" "sctp_done c = Some hs"
    by (auto simp: RecvUsrSctpData_def run_simps)
  show ?thesis
  proof (cases hs)
    case True
    with run Some c show ?thesis
      by (auto simp: RecvUsrSctpData_def run_simps Let_def intro: upcalls_from)
  next
    case False
    obtain n w1 where acc: "us_accept k (sock c) (world s) = (n, w1)" by fastforce
    show ?thesis
    proof (cases n)
      case None
      with run Some c False acc show ?thesis
        by (auto simp: RecvUsrSctpData_def run_simps Let_def intro: upcalls_from)
    next
      case (Some sk)
      with run \<open>data = Some d\<close> c False acc show ?thesis
        by (auto simp: RecvUsrSctpData_def run_simps Let_def
          intro: safe_trans [OF upcalls_from safe_trans [OF safe_upd upcalls_from]])
    qed
  qed
qed

lemma ssl_read_loop_step: "ssl_read_loop k i h s = Some s' \<Longrightarrow> safe_step s s'"
proof (rule ssl_read_loop.raw_induct [where P = "\<lambda>k i h s s'. safe_step s s'", rotated])
  fix f :: "('a, 'b) usrsctp_scheme \<Rightarrow> nat \<Rightarrow> nat \<Rightarrow> 'a server \<Rightarrow> 'a server option"
  fix k i h and s s' :: "'a server"
  assume IH: "\<And>k i h s s'. f k i h s = Some s' \<Longrightarrow> safe_step s s'"
  assume "(if BIO_pending_in k h (world s) > 0
      then let (bytes, buffer, w1) = SSL_read k h 4096 (world s) in
        if bytes > 0 then RecvUsrSctpData k i (Some (take (nat bytes) buffer)) (s\<lparr>world := w1\<rparr>) \<bind> f k i h
        else f k i h (s\<lparr>world := w1\<rparr>)
      else Some s) = Some s'"
  then show "safe_step s s'"
    by (auto simp: run_simps Let_def split: if_splits
        intro: safe_world_of [OF IH] safe_world_of [OF safe_trans [OF RecvUsrSctpData_step IH]])
qed

lemma HandleDtlsPacket_step:
  assumes "HandleDtlsPacket k i data s = Some s'"
  shows "safe_step s s'"
proof -
  from assms obtain c where c: "get_client i s = Some c"
    by (auto simp: HandleDtlsPacket_def run_simps)
  let ?w = "BIO_write k (ssl c) data (world s)"
  show ?thesis
  proof (cases "SSL_is_init_finished k (ssl c) ?w")
    case False
    with assms c show ?thesis
      by (auto simp: HandleDtlsPacket_def run_simps Let_def split: if_splits
          intro: safe_world safe_world_of [OF pending_step])
  next
    case True
    with assms c show ?thesis
      by (auto simp: HandleDtlsPacket_def run_simps Let_def
        intro: safe_world_of [OF safe_trans [OF safe_upd safe_trans [OF pending_step ssl_read_loop_step]]])
  qed
qed

lemma heartbeat_loop_step: "heartbeat_loop k n i s = Some s' \<Longrightarrow> safe_step s s'"
proof (induction n arbitrary: s)
  case 0
  then show ?case by simp
next
  case (Suc n)
  from Suc.prems obtain c where c: "get_client i s = Some c" by (auto simp: run_simps)
  show ?case
  proof (cases "RingBufEmpty (heartBeatRing c)")
    case True
    with Suc.prems c show ?thesis by simp
  next
    case False
    with Suc.prems c obtain out r s1 where
      rd: "RingBufRead (heartBeatRing c) = Some (out, r)" and
      snd: "\<exists>d. ClientSendData k i d (put_client i (c\<lparr>heartBeatRing := r\<rparr>) s) = Some s1" and
      rest: "heartbeat_loop k n i s1 = Some s'"
      by (auto simp: run_simps Let_def)
    have "client_ok (c\<lparr>heartBeatRing := r\<rparr>)" if ok: "client_ok c"
    proof -
      have wf: "ring_wf (heartBeatRing c)" using ok by (simp add: client_ok_def)
      obtain b bs where items: "ring_items (heartBeatRing c) = b # bs"
        using RingBufEmpty_iff [OF wf] False by (cases "ring_items (heartBeatRing c)") auto
      obtain r' where "RingBufRead (heartBeatRing c) = Some (Some b, r')" "ring_wf r'"
          "ring_items r' = bs" "cap r' = cap (heartBeatRing c)"
        using RingBufRead_cons [OF wf items] by blast
      with ok rd items show ?thesis by (auto simp: client_ok_def)
    qed
    then have "safe_step s (put_client i (c\<lparr>heartBeatRing := r\<rparr>) s)"
      by (intro safe_put [OF c]) auto
    with snd Suc.IH [OF rest] show ?thesis
      by (blast intro: safe_trans ClientSendData_step)
  qed
qed

lemma ClientSendHeartBeatData_step: "ClientSendHeartBeatData k i s = Some s' \<Longrightarrow> safe_step s s'"
  by (auto simp: ClientSendHeartBeatData_def run_simps simp del: heartbeat_loop.simps
      intro: heartbeat_loop_step)

lemma CloseSctpSocket_step: "CloseSctpSocket k i s = Some s' \<Longrightarrow> safe_step s s'"
  by (auto simp: CloseSctpSocket_def run_simps Let_def split: if_splits
      intro: safe_trans [OF upcalls_from safe_trans [OF safe_upd safe_world]])

lemma RuruSctp_new_step:
  assumes "RuruSctp_new k i s = Some s'"
  shows "safe_step s s'"
proof -
  have init: "safe_step s (UsrsctpStartInit k s)"
    by (auto simp: UsrsctpStartInit_def intro: safe_world_of safe_init)
  obtain sk w1 where sk: "us_socket k i (world (UsrsctpStartInit k s)) = (sk, w1)" by fastforce
  with assms obtain s1 where
    s1: "upd_client i (\<lambda>c. c\<lparr>sock := sk\<rparr>) ((UsrsctpStartInit k s)\<lparr>world := w1\<rparr>) = Some s1"
    and rest: "(if sk = None then Some s1
       else let w2 = us_register k i (world s1); (ok, w3) = ConfigureSctpSocket k sk i w2 in
         if \<not> ok then CloseSctpSocket k i (s1\<lparr>world := w3\<rparr>)
         else let (r, w4) = us_listen k sk w3 in
           if r < 0 then CloseSctpSocket k i (s1\<lparr>world := w4\<rparr>)
           else upd_client i (\<lambda>c. c\<lparr>sctp_done := Some False\<rparr>) (s1\<lparr>world := w4\<rparr>)) = Some s'"
    by (simp add: RuruSctp_new_def run_simps) blast
  have "safe_step (UsrsctpStartInit k s) s1"
    by (rule safe_world_of [OF safe_upd [OF s1]]) auto
  moreover have "safe_step s1 s'"
    using rest
    by (auto simp: Let_def run_simps split: if_splits
        intro: safe_world_of [OF CloseSctpSocket_step] safe_world_of [OF safe_upd])
  ultimately show ?thesis using init by (blast intro: safe_trans)
qed

end
