(* ===== verification/Transport_Order.thy ===== *)
theory Transport_Order
  imports Transport_Safety
begin

text \<open>
  What the transport does with the data handed to it: messages reach usrsctp in the order they were
  submitted and none is lost while the association lives, pending DTLS output is flushed completely
  and to the client's own address, deferred heart beats are sent in order. OpenSSL, usrsctp and the
  kernel enter through contracts on observations of the world.
\<close>

section \<open>Callbacks leave everything but the ring of a client alone\<close>

definition core :: "client \<Rightarrow> client" where
  "core c = c\<lparr>heartBeatRing := RuruRingBuf HeartBeatData_new 0\<rparr>"

lemma core_fields: "core c = core c' \<Longrightarrow> cache c = cache c' \<and> sock c = sock c' \<and> sctp_done c = sctp_done c'
    \<and> dtls_done c = dtls_done c' \<and> ssl c = ssl c' \<and> address c = address c' \<and> udpfd c = udpfd c'"
  by (cases c; cases c') (simp add: core_def)

definition same_core :: "'w server \<Rightarrow> 'w server \<Rightarrow> bool" where
  "same_core s s' \<longleftrightarrow> map core (clientMgr s') = map core (clientMgr s)"

lemma same_core_refl [simp]: "same_core s s"
  by (simp add: same_core_def)

lemma same_core_trans: "same_core s s1 \<Longrightarrow> same_core s1 s2 \<Longrightarrow> same_core s s2"
  by (simp add: same_core_def)

lemma same_core_get:
  assumes "same_core s s'" and "get_client i s = Some c"
  shows "\<exists>c'. get_client i s' = Some c' \<and> core c' = core c"
proof -
  have len: "length (clientMgr s') = length (clientMgr s)"
    using assms(1) unfolding same_core_def by (metis length_map)
  have i: "i < length (clientMgr s)" "c = clientMgr s ! i"
    using assms(2) by (auto simp: get_client_def split: if_splits)
  have "map core (clientMgr s') ! i = map core (clientMgr s) ! i"
    using assms(1) by (simp add: same_core_def)
  with i len show ?thesis by (simp add: get_client_def)
qed

lemma same_core_put_ring:
  "get_client i s = Some c \<Longrightarrow> same_core s (put_client i (c\<lparr>heartBeatRing := r\<rparr>) s)"
  by (auto simp: same_core_def put_client_def get_client_def core_def map_update list_update_same_conv
      split: if_splits)

lemma ClientSendPendingDtls_core: "ClientSendPendingDtls k i s = Some s' \<Longrightarrow> same_core s s' \<and> que s' = que s"
  by (auto simp: ClientSendPendingDtls_def run_simps same_core_def)

lemma ClientSendData_core: "ClientSendData k i d s = Some s' \<Longrightarrow> same_core s s' \<and> que s' = que s"
  by (auto simp: ClientSendData_def run_simps split: if_splits dest!: ClientSendPendingDtls_core)
     (simp_all add: same_core_def)

lemma Outbound_core: "OnSctpOutboundPacket k t d s = Some s' \<Longrightarrow> same_core s s'"
  by (auto simp: OnSctpOutboundPacket_def run_simps Let_def split: option.splits if_splits
      dest: ClientSendData_core same_core_put_ring)
     (auto simp: same_core_def put_client_def dest: same_core_put_ring)

lemma Inbound_core: "OnSctpInboundPacket u d r s = Some s' \<Longrightarrow> same_core s s'"
  by (auto simp: OnSctpInboundPacket_def PushClientRecvData_def run_simps Let_def same_core_def
      split: option.splits if_splits)

lemma run_upcalls_core: "run_upcalls k us s = Some s' \<Longrightarrow> same_core s s'"
proof (induction us arbitrary: s)
  case Nil
  then show ?case by simp
next
  case (Cons u us)
  then obtain s1 where s1: "run_upcall k u s = Some s1" "run_upcalls k us s1 = Some s'"
    by (auto simp: run_simps)
  have "same_core s s1"
    using s1(1) by (cases u) (auto intro: Outbound_core Inbound_core)
  with Cons.IH [OF s1(2)] show ?case by (rule same_core_trans [rotated])
qed

section \<open>The order of messages\<close>

type_synonym sent = "nat option \<times> bytes \<times> sctp_sndinfo"

text \<open>
  \<open>log w\<close> is the list of what usrsctp has accepted: the result of \<open>usrsctp_sendv\<close> is negative, or it is the
  number of bytes of the message that were taken, from its beginning; a non-blocking socket with
  \<open>SCTP_EXPLICIT_EOR\<close>, as \<open>ConfigureSctpSocket\<close> makes it, may take less than all. No other call
  changes the list.
\<close>

definition sendv_contract :: "('w, 'z) usrsctp_scheme \<Rightarrow> ('w \<Rightarrow> sent list) \<Rightarrow> bool" where
  "sendv_contract k log \<longleftrightarrow>
     (\<forall>sk d info w. case us_sendv k sk d info w of (r, ups, w') \<Rightarrow>
        r \<le> int (length d) \<and> log w' = (if r < 0 then log w else log w @ [(sk, take (nat r) d, info)]))
     \<and> (\<forall>sk w. log (snd (us_close k sk w)) = log w)
     \<and> (\<forall>h d w. log (SSL_write k h d w) = log w)
     \<and> (\<forall>h n w. log (snd (snd (BIO_read_out k h n w))) = log w)
     \<and> (\<forall>fd d a w. log (sys_sendto k fd d a w) = log w)"

lemma sendv_contract_sendv:
  "sendv_contract k log \<Longrightarrow> us_sendv k sk d info w = (r, ups, w') \<Longrightarrow>
     r \<le> int (length d) \<and> log w' = (if r < 0 then log w else log w @ [(sk, take (nat r) d, info)])"
  unfolding sendv_contract_def by (metis (mono_tags, lifting) case_prod_conv)

lemma sendv_contract_close: "sendv_contract k log \<Longrightarrow> us_close k sk w = (ups, w') \<Longrightarrow> log w' = log w"
  unfolding sendv_contract_def by (metis snd_conv)

lemma sendv_contract_SSL_write: "sendv_contract k log \<Longrightarrow> log (SSL_write k h d w) = log w"
  unfolding sendv_contract_def by blast

lemma sendv_contract_BIO: "sendv_contract k log \<Longrightarrow> BIO_read_out k h n w = (r, b, w') \<Longrightarrow> log w' = log w"
  unfolding sendv_contract_def by (metis snd_conv)

lemma sendv_contract_sendto: "sendv_contract k log \<Longrightarrow> log (sys_sendto k fd d a w) = log w"
  unfolding sendv_contract_def by blast

lemmas sendv_contract_simps =
  sendv_contract_sendv sendv_contract_close sendv_contract_SSL_write sendv_contract_BIO
  sendv_contract_sendto

lemma pending_loop_log:
  fixes k :: "('w, 'z) usrsctp_scheme" and log :: "'w \<Rightarrow> sent list"
  shows "sendv_contract k log \<Longrightarrow> pending_loop k h fd a w = Some w' \<Longrightarrow> log w' = log w"
proof -
  have "sendv_contract k log \<longrightarrow> log w' = log w" if "pending_loop k h fd a w = Some w'"
  proof (rule pending_loop.raw_induct
      [where P = "\<lambda>k h fd a w w'. sendv_contract k log \<longrightarrow> log w' = log w", rotated, OF that])
    fix f :: "('w, 'z) usrsctp_scheme \<Rightarrow> nat \<Rightarrow> int \<Rightarrow> sockaddr_in \<Rightarrow> 'w \<Rightarrow> 'w option"
    fix k h fd a w w'
    assume IH: "\<And>k h fd a w w'. f k h fd a w = Some w' \<Longrightarrow> sendv_contract k log \<longrightarrow> log w' = log w"
    assume body: "(if BIO_pending_out k h w > 0
      then let (bytes, buffer, w1) = BIO_read_out k h 4096 w in
        f k h fd a (if bytes > 0 then sys_sendto k fd (take (nat bytes) buffer) a w1 else w1)
      else Some w) = Some w'"
    show "sendv_contract k log \<longrightarrow> log w' = log w"
    proof
      assume k: "sendv_contract k log"
      obtain n b w1 where r: "BIO_read_out k h 4096 w = (n, b, w1)" using prod_cases3 by blast
      show "log w' = log w"
        using body r IH k sendv_contract_BIO [OF k r] sendv_contract_sendto [OF k]
        by (auto split: if_splits)
    qed
  qed
  then show "sendv_contract k log \<Longrightarrow> pending_loop k h fd a w = Some w' \<Longrightarrow> log w' = log w" by blast
qed

lemma ClientSendData_log:
  assumes "sendv_contract k log" and "ClientSendData k i d s = Some s'"
  shows "log (world s') = log (world s)"
  using assms pending_loop_log [OF assms(1)] sendv_contract_SSL_write [OF assms(1)]
  by (auto simp: ClientSendData_def ClientSendPendingDtls_def run_simps split: if_splits)

lemma run_upcall_log:
  assumes k: "sendv_contract k log" and r: "run_upcall k u s = Some s'"
  shows "log (world s') = log (world s)"
  using r ClientSendData_log [OF k]
  by (cases u)
     (auto simp: OnSctpOutboundPacket_def OnSctpInboundPacket_def PushClientRecvData_def run_simps Let_def
      split: option.splits if_splits)

lemma run_upcalls_log:
  "sendv_contract k log \<Longrightarrow> run_upcalls k us s = Some s' \<Longrightarrow> log (world s') = log (world s)"
  by (induction us arbitrary: s) (auto simp: run_simps dest: run_upcall_log)

lemma get_client_world [simp]: "get_client i (s\<lparr>world := w\<rparr>) = get_client i s"
  by (simp add: get_client_def cong: if_cong)

text \<open>One call into usrsctp together with its callbacks.\<close>

lemma upcalls_keep:
  assumes "run_upcalls k us (s\<lparr>world := w\<rparr>) = Some s'" and "get_client i s = Some c"
  shows "\<exists>c'. get_client i s' = Some c' \<and> core c' = core c"
  using same_core_get [OF run_upcalls_core [OF assms(1)], of i c] assms(2)
  by simp

lemma upd_client_get:
  "get_client i s = Some c \<Longrightarrow> upd_client i f s = Some s' \<Longrightarrow>
     get_client i s' = Some (f c) \<and> world s' = world s"
  by (auto simp: upd_client_def run_simps dest: get_client_length)

lemma send_failed_keep:
  assumes k: "sendv_contract k log" and c: "get_client i s = Some c"
    and r: "send_failed k i s = Some s'"
  shows "\<exists>c'. get_client i s' = Some c' \<and> cache c' = cache c \<and> sock c' = sock c
    \<and> sctp_done c' = Some False \<and> log (world s') = log (world s)"
proof -
  obtain ups w where w: "us_close k (sock c) (world s) = (ups, w)" by fastforce
  with r c obtain s1 where s1: "run_upcalls k ups (s\<lparr>world := w\<rparr>) = Some s1"
      "upd_client i (\<lambda>c. c\<lparr>sctp_done := Some False\<rparr>) s1 = Some s'"
    by (auto simp: send_failed_def run_simps)
  obtain c1 where c1: "get_client i s1 = Some c1" "core c1 = core c"
    using upcalls_keep [OF s1(1) c] by blast
  have "log (world s1) = log (world s)"
    using run_upcalls_log [OF k s1(1)] sendv_contract_close [OF k w] by simp
  then show ?thesis
    using upd_client_get [OF c1(1) s1(2)] core_fields [OF c1(2)] by simp
qed

section \<open>The cache of deferred messages\<close>

definition entry :: "nat option \<Rightarrow> RuruCacheData \<Rightarrow> sent" where
  "entry sk m = (sk, cache_data m, sndinfo_of (cache_param m))"

text \<open>What usrsctp took of the message \<open>m\<close>: as many bytes as one of its calls with \<open>m\<close> answered.\<close>

definition taken :: "('w, 'z) usrsctp_scheme \<Rightarrow> nat option \<Rightarrow> RuruCacheData \<Rightarrow> sent \<Rightarrow> bool" where
  "taken k sk m e \<longleftrightarrow>
     (\<exists>w n. fst (us_sendv k sk (cache_data m) (sndinfo_of (cache_param m)) w) = int n \<and> n \<le> length (cache_data m)
        \<and> e = (sk, take n (cache_data m), sndinfo_of (cache_param m)))"

text \<open>A usrsctp that takes messages whole or not at all.\<close>

definition takes_whole :: "('w, 'z) usrsctp_scheme \<Rightarrow> bool" where
  "takes_whole k \<longleftrightarrow> (\<forall>sk d info w. fst (us_sendv k sk d info w) < 0 \<or> fst (us_sendv k sk d info w) = int (length d))"

lemma taken_sendv:
  "sendv_contract k log \<Longrightarrow> us_sendv k sk (cache_data m) (sndinfo_of (cache_param m)) w = (r, ups, w') \<Longrightarrow> \<not> r < 0 \<Longrightarrow>
     \<exists>e. log w' = log w @ [e] \<and> taken k sk m e"
  using sendv_contract_sendv [of k log sk "cache_data m" "sndinfo_of (cache_param m)" w r ups w']
  unfolding taken_def by (auto intro!: exI [of _ w] exI [of _ "nat r"])

lemma taken_whole:
  assumes "takes_whole k" and "taken k sk m e"
  shows "e = entry sk m"
proof -
  obtain w n where n: "fst (us_sendv k sk (cache_data m) (sndinfo_of (cache_param m)) w) = int n"
      "e = (sk, take n (cache_data m), sndinfo_of (cache_param m))"
    using assms(2) unfolding taken_def by blast
  then have "n = length (cache_data m)" using assms(1) unfolding takes_whole_def by (metis of_nat_less_0_iff of_nat_eq_iff)
  then show ?thesis using n by (simp add: entry_def)
qed

text \<open>
  What a run of the sending functions did to a client: the messages \<open>sent\<close> were handed over in this
  order and taken, whole or in part; the cache has become \<open>rest\<close>.
\<close>

definition sent_rest ::
  "('w, 'z) usrsctp_scheme \<Rightarrow> ('w \<Rightarrow> sent list) \<Rightarrow> nat \<Rightarrow> client \<Rightarrow> 'w server \<Rightarrow> 'w server \<Rightarrow> RuruCacheData list \<Rightarrow> RuruCacheData list \<Rightarrow> bool"
where
  "sent_rest k log i c s s' sent rest \<longleftrightarrow>
     (\<exists>c'. get_client i s' = Some c' \<and> sock c' = sock c \<and> cache c' = rest
        \<and> (sctp_done c' = sctp_done c \<or> sctp_done c' = Some False))
     \<and> (\<exists>es. log (world s') = log (world s) @ es \<and> list_all2 (taken k (sock c)) sent es)"

lemma sent_rest_whole:
  assumes "sent_rest k log i c s s' sent rest" and "takes_whole k"
  shows "log (world s') = log (world s) @ map (entry (sock c)) sent"
proof -
  obtain es where es: "log (world s') = log (world s) @ es" "list_all2 (taken k (sock c)) sent es"
    using assms(1) unfolding sent_rest_def by blast
  have "es = map (entry (sock c)) sent"
    using es(2) by (induction rule: list_all2_induct) (simp_all add: taken_whole [OF assms(2)])
  then show ?thesis using es(1) by simp
qed

lemma SendCache_loop_order:
  fixes k :: "('w, 'z) usrsctp_scheme" and log :: "'w \<Rightarrow> sent list"
  assumes "sendv_contract k log" and "get_client i s = Some c"
    and "SendCache_loop k i s = Some (b, s')"
  shows "\<exists>sent rest. cache c = sent @ rest \<and> sent_rest k log i c s s' sent rest
    \<and> (b \<longrightarrow> rest = [] \<and> (\<exists>c'. get_client i s' = Some c' \<and> sctp_done c' = sctp_done c))"
proof -
  let ?goal = "\<lambda>k i s c b s'. \<exists>sent rest. cache c = sent @ rest \<and> sent_rest k log i c s s' sent rest
    \<and> (b \<longrightarrow> rest = [] \<and> (\<exists>c'. get_client i s' = Some c' \<and> sctp_done c' = sctp_done c))"
  let ?P = "\<lambda>k i s r. sendv_contract k log \<longrightarrow>
    (\<forall>c. get_client i s = Some c \<longrightarrow> ?goal k i s c (fst r) (snd r))"
  have "?P k i s (b, s')"
  proof (rule SendCache_loop.raw_induct [where P = ?P, rotated, OF assms(3)])
    fix f :: "('w, 'z) usrsctp_scheme \<Rightarrow> nat \<Rightarrow> 'w server \<Rightarrow> (bool \<times> 'w server) option"
    fix k i s r
    assume IH: "\<And>k i s r. f k i s = Some r \<Longrightarrow> ?P k i s r"
    assume run: "get_client i s \<bind> (\<lambda>c. case cache c of [] \<Rightarrow> Some (True, s)
      | m # ms \<Rightarrow> let (r, ups, w) = us_sendv k (sock c) (cache_data m) (sndinfo_of (cache_param m)) (world s)
          in run_upcalls k ups (s\<lparr>world := w\<rparr>) \<bind> (\<lambda>s1.
            if r < 0 then if sys_errno k w \<noteq> EAGAIN then send_failed k i s1 \<bind> (\<lambda>s2. Some (False, s2))
              else Some (False, s1)
            else upd_client i (\<lambda>c. c\<lparr>cache := tl (cache c)\<rparr>) s1 \<bind> f k i)) = Some r"
    show "?P k i s r"
    proof (intro impI allI)
      fix c
      assume k: "sendv_contract k log" and c: "get_client i s = Some c"
      show "?goal k i s c (fst r) (snd r)"
      proof (cases "cache c")
        case Nil
        with run c show ?thesis by (auto simp: sent_rest_def)
      next
        case (Cons m ms)
        obtain n ups w where w:
            "us_sendv k (sock c) (cache_data m) (sndinfo_of (cache_param m)) (world s) = (n, ups, w)"
          using prod_cases3 by blast
        with run c Cons obtain s1 where s1: "run_upcalls k ups (s\<lparr>world := w\<rparr>) = Some s1"
            and tail: "(if n < 0 then if sys_errno k w \<noteq> EAGAIN then send_failed k i s1 \<bind> (\<lambda>s2. Some (False, s2))
              else Some (False, s1)
            else upd_client i (\<lambda>c. c\<lparr>cache := tl (cache c)\<rparr>) s1 \<bind> f k i) = Some r"
          by (auto simp: run_simps)
        obtain c1 where c1: "get_client i s1 = Some c1" "core c1 = core c"
          using upcalls_keep [OF s1 c] by blast
        note cf = core_fields [OF c1(2)]
        have l: "n < 0 \<Longrightarrow> log (world s1) = log (world s)"
            "\<not> n < 0 \<Longrightarrow> \<exists>e. log (world s1) = log (world s) @ [e] \<and> taken k (sock c) m e"
          using run_upcalls_log [OF k s1] sendv_contract_sendv [OF k w] taken_sendv [OF k w] by simp_all
        consider (fatal) "n < 0" "sys_errno k w \<noteq> EAGAIN" | (full) "n < 0" "sys_errno k w = EAGAIN"
          | (ok) "\<not> n < 0" by blast
        then show ?thesis
        proof cases
          case fatal
          then obtain s2 where s2: "send_failed k i s1 = Some s2" "r = (False, s2)"
            using tail by (auto simp: run_simps)
          show ?thesis
            using send_failed_keep [OF k c1(1) s2(1)] s2(2) l fatal(1) cf
            by (intro exI [of _ "[]"] exI [of _ "cache c"]) (auto simp: sent_rest_def)
        next
          case full
          then show ?thesis
            using tail c1(1) cf l
            by (intro exI [of _ "[]"] exI [of _ "cache c"]) (auto simp: sent_rest_def)
        next
          case ok
          then obtain s2 where s2: "upd_client i (\<lambda>c. c\<lparr>cache := tl (cache c)\<rparr>) s1 = Some s2"
              "f k i s2 = Some r"
            using tail by (auto simp: run_simps)
          note u = upd_client_get [OF c1(1) s2(1)]
          have tl: "tl (cache c1) = ms" using cf Cons by simp
          have "?goal k i s2 (c1\<lparr>cache := ms\<rparr>) (fst r) (snd r)"
            using IH [OF s2(2), THEN mp, OF k, THEN spec, THEN mp, OF u [THEN conjunct1]]
            unfolding tl .
          then obtain sent rest where g: "ms = sent @ rest"
              "sent_rest k log i (c1\<lparr>cache := ms\<rparr>) s2 (snd r) sent rest"
              "fst r \<longrightarrow> rest = [] \<and> (\<exists>c'. get_client i (snd r) = Some c' \<and> sctp_done c' = sctp_done c1)"
            by (elim exE conjE) simp
          obtain e where e: "log (world s1) = log (world s) @ [e]" "taken k (sock c) m e" using l(2) [OF ok] by blast
          have "sent_rest k log i c s (snd r) (m # sent) rest"
            using g(2) u e cf by (auto simp: sent_rest_def)
          then show ?thesis
            using g(1,3) Cons cf by (intro exI [of _ "m # sent"] exI [of _ rest]) auto
        qed
      qed
    qed
  qed
  with assms(1,2) show ?thesis by simp
qed

section \<open>Submitting a message\<close>

definition cached :: "RuruSctpMessage \<Rightarrow> RuruCacheData" where
  "cached m = \<lparr>cache_data = msg_data m, cache_param = msg_param m\<rparr>"

lemma PushMsg2ClientCache_keep:
  assumes "get_client i s = Some c" and "PushMsg2ClientCache i (Some m) s = Some s'"
  shows "get_client i s' = Some (c\<lparr>cache := cache c @ [cached m]\<rparr>) \<and> world s' = world s"
  using assms by (auto simp: PushMsg2ClientCache_def cached_def dest: upd_client_get)

lemma SendSctpCacheData_order:
  assumes "sendv_contract k log" and c: "get_client i s = Some c"
    and run: "SendSctpCacheData k i s = Some (b, s')"
  shows "\<exists>sent rest. cache c = sent @ rest \<and> sent_rest k log i c s s' sent rest
    \<and> (b \<longrightarrow> rest = [] \<and> (\<exists>c'. get_client i s' = Some c' \<and> sctp_done c' = Some True))"
proof -
  from run c obtain d where d: "sctp_done c = Some d"
      "(if \<not> d then Some (False, s) else SendCache_loop k i s) = Some (b, s')"
    by (auto simp: SendSctpCacheData_def run_simps)
  show ?thesis
  proof (cases d)
    case True
    then show ?thesis using SendCache_loop_order [OF assms(1) c] d by auto
  next
    case False
    then show ?thesis
      using d c by (intro exI [of _ "[]"] exI [of _ "cache c"]) (auto simp: sent_rest_def)
  qed
qed

lemma sent_rest_step:
  assumes "sent_rest k log i c s s1 sent rest" and "get_client i s1 = Some c1"
    and "sent_rest k log i c1 s1 s2 sent' rest'"
  shows "sent_rest k log i c s s2 (sent @ sent') rest'"
  using assms by (auto simp: sent_rest_def intro: list_all2_appendI)

lemma SendUsrSctpData_order:
  assumes k: "sendv_contract k log" and c: "get_client i s = Some c"
    and run: "SendUsrSctpData k i (Some m) s = Some (b, s')"
  shows "\<exists>sent rest. sent_rest k log i c s s' sent rest
    \<and> (sent @ rest = cache c @ [cached m]
       \<or> sent = cache c \<and> rest = [] \<and> (\<exists>c'. get_client i s' = Some c' \<and> sctp_done c' = Some False))
    \<and> (b \<longleftrightarrow> sent = cache c @ [cached m])"
proof -
  from run obtain ok s1 where s1: "SendSctpCacheData k i s = Some (ok, s1)"
    by (auto simp: SendUsrSctpData_def run_simps)
  obtain sent rest where a: "cache c = sent @ rest" "sent_rest k log i c s s1 sent rest"
      "ok \<longrightarrow> rest = [] \<and> (\<exists>c'. get_client i s1 = Some c' \<and> sctp_done c' = Some True)"
    using SendSctpCacheData_order [OF k c s1] by blast
  then obtain c1 where c1: "get_client i s1 = Some c1" "sock c1 = sock c" "cache c1 = rest"
      "ok \<longrightarrow> sctp_done c1 = Some True"
    by (auto simp: sent_rest_def)
  show ?thesis
  proof (cases ok)
    case False
    with run s1 have p: "PushMsg2ClientCache i (Some m) s1 = Some s'" and b: "\<not> b"
      by (auto simp: SendUsrSctpData_def run_simps)
    have "sent_rest k log i c s s' sent (rest @ [cached m])"
      using PushMsg2ClientCache_keep [OF c1(1) p] a(2) c1 by (auto simp: sent_rest_def)
    then show ?thesis
      using a(1) b by (intro exI [of _ sent] exI [of _ "rest @ [cached m]"]) auto
  next
    case True
    obtain n ups w where w:
        "us_sendv k (sock c1) (msg_data m) (sndinfo_of (msg_param m)) (world s1) = (n, ups, w)"
      using prod_cases3 by blast
    from run s1 True c1 w obtain s2 where s2: "run_upcalls k ups (s1\<lparr>world := w\<rparr>) = Some s2"
        and tail: "(if n < 0 then
            (if sys_errno k w = EAGAIN then PushMsg2ClientCache i (Some m) s2 else send_failed k i s2)
              \<bind> (\<lambda>s3. Some (False, s3))
          else Some (True, s2)) = Some (b, s')"
      by (auto simp: SendUsrSctpData_def run_simps)
    obtain c2 where c2: "get_client i s2 = Some c2" "core c2 = core c1"
      using upcalls_keep [OF s2 c1(1)] by blast
    note cf = core_fields [OF c2(2)]
    have l: "n < 0 \<Longrightarrow> log (world s2) = log (world s1)"
        "\<not> n < 0 \<Longrightarrow> \<exists>e. log (world s2) = log (world s1) @ [e] \<and> taken k (sock c1) (cached m) e"
      using run_upcalls_log [OF k s2] sendv_contract_sendv [OF k w] taken_sendv [OF k, of "sock c1" "cached m" "world s1" n ups w] w
      by (simp_all add: cached_def)
    have rest: "rest = []" "sent = cache c" using a True by auto
    consider (fatal) "n < 0" "sys_errno k w \<noteq> EAGAIN" | (full) "n < 0" "sys_errno k w = EAGAIN"
      | (ok) "\<not> n < 0" by blast
    then show ?thesis
    proof cases
      case fatal
      then have f: "send_failed k i s2 = Some s'" and b: "\<not> b" using tail by (auto simp: run_simps)
      then show ?thesis
        using send_failed_keep [OF k c2(1) f] a(2) l fatal(1) cf c1 rest
        by (intro exI [of _ "cache c"] exI [of _ "[]"]) (auto simp: sent_rest_def)
    next
      case full
      then have p: "PushMsg2ClientCache i (Some m) s2 = Some s'" and b: "\<not> b"
        using tail by (auto simp: run_simps)
      then show ?thesis
        using PushMsg2ClientCache_keep [OF c2(1) p] a(2) l full(1) cf c1 rest
        by (intro exI [of _ "cache c"] exI [of _ "[cached m]"]) (auto simp: sent_rest_def)
    next
      case ok
      then obtain e where e: "log (world s2) = log (world s1) @ [e]" "taken k (sock c1) (cached m) e" using l(2) by blast
      obtain es where es: "log (world s1) = log (world s) @ es" "list_all2 (taken k (sock c)) sent es"
        using a(2) unfolding sent_rest_def by blast
      have "log (world s2) = log (world s) @ es @ [e] \<and> list_all2 (taken k (sock c)) (cache c @ [cached m]) (es @ [e])"
        using e es c1(2) rest(2) by (simp add: list_all2_appendI)
      then show ?thesis
        using ok tail a(2) cf c1 c2(1) rest
        by (intro exI [of _ "cache c @ [cached m]"] exI [of _ "[]"]) (auto simp: sent_rest_def)
    qed
  qed
qed

section \<open>Flushing pending DTLS output\<close>

text \<open>
  The outgoing memory BIO of OpenSSL and the datagrams handed to the kernel, as observations of the
  world: \<open>outq w h\<close> are the bytes pending for the handle \<open>h\<close>, \<open>net w\<close> the datagrams sent.
\<close>

type_synonym datagram = "int \<times> sockaddr_in \<times> bytes"

definition bio_contract ::
  "('w, 'z) usrsctp_scheme \<Rightarrow> ('w \<Rightarrow> nat \<Rightarrow> bytes) \<Rightarrow> ('w \<Rightarrow> datagram list) \<Rightarrow> bool"
where
  "bio_contract k outq net \<longleftrightarrow>
     (\<forall>h w. BIO_pending_out k h w = length (outq w h))
     \<and> (\<forall>h n w. n > 0 \<and> outq w h \<noteq> [] \<longrightarrow> (case BIO_read_out k h n w of (r, b, w') \<Rightarrow>
          r = int (length b) \<and> b = take n (outq w h)
          \<and> outq w' = (outq w)(h := drop n (outq w h)) \<and> net w' = net w))
     \<and> (\<forall>fd d a w. outq (sys_sendto k fd d a w) = outq w
          \<and> net (sys_sendto k fd d a w) = net w @ [(fd, a, d)])"

lemma bio_contract_read:
  assumes "bio_contract k outq net" and "outq w h \<noteq> []"
  shows "\<exists>w'. BIO_read_out k h 4096 w = (int (length (take 4096 (outq w h))), take 4096 (outq w h), w')
    \<and> outq w' = (outq w)(h := drop 4096 (outq w h)) \<and> net w' = net w"
proof -
  obtain r b w' where r: "BIO_read_out k h 4096 w = (r, b, w')" using prod_cases3 by blast
  have "r = int (length b) \<and> b = take 4096 (outq w h)
      \<and> outq w' = (outq w)(h := drop 4096 (outq w h)) \<and> net w' = net w"
    using assms r unfolding bio_contract_def
    by (metis (mono_tags, lifting) case_prod_conv zero_less_numeral)
  with r show ?thesis by blast
qed

text \<open>The pieces of a byte string, 4096 bytes at a time.\<close>

function pieces :: "bytes \<Rightarrow> bytes list" where
  "pieces bs = (if bs = [] then [] else take 4096 bs # pieces (drop 4096 bs))"
  by pat_completeness auto
termination by (relation "measure length") auto

declare pieces.simps [simp del]

lemma concat_pieces: "concat (pieces bs) = bs"
  by (induction bs rule: pieces.induct) (subst pieces.simps, auto)

lemma pieces_bound: "p \<in> set (pieces bs) \<Longrightarrow> 0 < length p \<and> length p \<le> 4096"
  by (induction bs rule: pieces.induct) (subst (asm) (2) pieces.simps, auto split: if_splits)

lemma pending_loop_flush:
  assumes k: "bio_contract k outq net"
  shows "\<exists>w'. pending_loop k h fd a w = Some w' \<and> outq w' = (outq w)(h := [])
    \<and> net w' = net w @ map (\<lambda>p. (fd, a, p)) (pieces (outq w h))"
proof (induction "length (outq w h)" arbitrary: w rule: less_induct)
  case less
  have pend: "BIO_pending_out k h w = length (outq w h)" using k by (simp add: bio_contract_def)
  show ?case
  proof (cases "outq w h = []")
    case True
    then have "pending_loop k h fd a w = Some w"
      by (subst pending_loop.simps) (simp add: pend)
    with True show ?thesis by (auto simp: pieces.simps [of "[]"])
  next
    case False
    obtain w1 where w1: "BIO_read_out k h 4096 w
          = (int (length (take 4096 (outq w h))), take 4096 (outq w h), w1)"
        "outq w1 = (outq w)(h := drop 4096 (outq w h))" "net w1 = net w"
      using bio_contract_read [OF k False] by blast
    let ?w2 = "sys_sendto k fd (take 4096 (outq w h)) a w1"
    have w2: "outq ?w2 = (outq w)(h := drop 4096 (outq w h))"
        "net ?w2 = net w @ [(fd, a, take 4096 (outq w h))]"
      using k w1 by (simp_all add: bio_contract_def)
    have step: "pending_loop k h fd a w = pending_loop k h fd a ?w2"
      using False by (subst pending_loop.simps) (simp add: pend w1(1) min_def)
    have "length (outq ?w2 h) < length (outq w h)" using False w2 by simp
    from less.hyps [OF this] obtain w' where "pending_loop k h fd a ?w2 = Some w'"
        "outq w' = (outq ?w2)(h := [])"
        "net w' = net ?w2 @ map (\<lambda>p. (fd, a, p)) (pieces (outq ?w2 h))"
      by blast
    then show ?thesis
      using step w2 False by (simp add: pieces.simps [of "outq w h"])
  qed
qed

lemma ClientSendPendingDtls_flush:
  assumes k: "bio_contract k outq net" and c: "get_client i s = Some c"
  shows "\<exists>w'. ClientSendPendingDtls k i s = Some (s\<lparr>world := w'\<rparr>)
    \<and> outq w' = (outq (world s))(ssl c := [])
    \<and> net w' = net (world s) @ map (\<lambda>p. (udpfd c, client_sockaddr c, p)) (pieces (outq (world s) (ssl c)))"
  using pending_loop_flush [OF k, of "ssl c" "udpfd c" "client_sockaddr c" "world s"] c
  by (auto simp: ClientSendPendingDtls_def)

section \<open>Sending deferred heart beats\<close>

text \<open>\<open>plain w\<close> is the list of plain texts given to \<open>SSL_write\<close>, with their handles.\<close>

definition ssl_contract ::
  "('w, 'z) usrsctp_scheme \<Rightarrow> ('w \<Rightarrow> (nat \<times> bytes) list) \<Rightarrow> bool"
where
  "ssl_contract k plain \<longleftrightarrow>
     (\<forall>h d w. plain (SSL_write k h d w) = plain w @ [(h, d)])
     \<and> (\<forall>h n w. plain (snd (snd (BIO_read_out k h n w))) = plain w)
     \<and> (\<forall>fd d a w. plain (sys_sendto k fd d a w) = plain w)"

lemma ssl_contract_BIO: "ssl_contract k plain \<Longrightarrow> BIO_read_out k h n w = (r, b, w') \<Longrightarrow> plain w' = plain w"
  unfolding ssl_contract_def by (metis snd_conv)

lemma pending_loop_plain:
  fixes k :: "('w, 'z) usrsctp_scheme" and plain :: "'w \<Rightarrow> (nat \<times> bytes) list"
  shows "ssl_contract k plain \<Longrightarrow> pending_loop k h fd a w = Some w' \<Longrightarrow> plain w' = plain w"
proof -
  have "ssl_contract k plain \<longrightarrow> plain w' = plain w" if "pending_loop k h fd a w = Some w'"
  proof (rule pending_loop.raw_induct
      [where P = "\<lambda>k h fd a w w'. ssl_contract k plain \<longrightarrow> plain w' = plain w", rotated, OF that])
    fix f :: "('w, 'z) usrsctp_scheme \<Rightarrow> nat \<Rightarrow> int \<Rightarrow> sockaddr_in \<Rightarrow> 'w \<Rightarrow> 'w option"
    fix k h fd a w w'
    assume IH: "\<And>k h fd a w w'. f k h fd a w = Some w' \<Longrightarrow> ssl_contract k plain \<longrightarrow> plain w' = plain w"
    assume body: "(if BIO_pending_out k h w > 0
      then let (bytes, buffer, w1) = BIO_read_out k h 4096 w in
        f k h fd a (if bytes > 0 then sys_sendto k fd (take (nat bytes) buffer) a w1 else w1)
      else Some w) = Some w'"
    show "ssl_contract k plain \<longrightarrow> plain w' = plain w"
    proof
      assume k: "ssl_contract k plain"
      obtain n b w1 where r: "BIO_read_out k h 4096 w = (n, b, w1)" using prod_cases3 by blast
      have "plain (sys_sendto k fd d a w1) = plain w1" for d
        using k by (simp add: ssl_contract_def)
      then show "plain w' = plain w"
        using body r IH k ssl_contract_BIO [OF k r] by (auto split: if_splits)
    qed
  qed
  then show "ssl_contract k plain \<Longrightarrow> pending_loop k h fd a w = Some w' \<Longrightarrow> plain w' = plain w" by blast
qed

definition beat_bytes :: "HeartBeatData \<Rightarrow> bytes" where
  "beat_bytes b = take (unat (beat_length b)) (beat_data b)"

lemma ClientSendData_plain:
  assumes k: "bio_contract k outq net" "ssl_contract k plain" and c: "get_client i s = Some c"
  shows "\<exists>w'. ClientSendData k i d s = Some (s\<lparr>world := w'\<rparr>)
    \<and> plain w' = plain (world s) @ (if dtls_done c then [(ssl c, d)] else [])"
proof (cases "dtls_done c")
  case True
  let ?s = "s\<lparr>world := SSL_write k (ssl c) d (world s)\<rparr>"
  obtain w' where w': "pending_loop k (ssl c) (udpfd c) (client_sockaddr c) (world ?s) = Some w'"
    using pending_loop_flush [OF k(1)] by blast
  then show ?thesis
    using True c k(2) pending_loop_plain [OF k(2) w']
    by (auto simp: ClientSendData_def ClientSendPendingDtls_def ssl_contract_def)
next
  case False
  with c show ?thesis by (auto simp: ClientSendData_def intro: exI [of _ "world s"])
qed

lemma heartbeat_loop_order:
  assumes k: "bio_contract k outq net" "ssl_contract k plain"
  shows "get_client i s = Some c \<Longrightarrow> ring_wf (heartBeatRing c) \<Longrightarrow>
    length (ring_items (heartBeatRing c)) < n \<Longrightarrow>
    \<exists>s' c'. heartbeat_loop k n i s = Some s' \<and> get_client i s' = Some c'
      \<and> ring_items (heartBeatRing c') = [] \<and> core c' = core c
      \<and> plain (world s') = plain (world s)
          @ (if dtls_done c then map (\<lambda>b. (ssl c, beat_bytes b)) (ring_items (heartBeatRing c)) else [])"
proof (induction n arbitrary: s c)
  case 0
  then show ?case by simp
next
  case (Suc n)
  note c = Suc.prems(1) and wf = Suc.prems(2)
  show ?case
  proof (cases "ring_items (heartBeatRing c)")
    case Nil
    then show ?thesis using RingBufEmpty_iff [OF wf] c by auto
  next
    case (Cons b bs)
    obtain r where r: "RingBufRead (heartBeatRing c) = Some (Some b, r)" "ring_wf r" "ring_items r = bs"
      using RingBufRead_cons [OF wf Cons] by blast
    let ?s = "put_client i (c\<lparr>heartBeatRing := r\<rparr>) s"
    have c1: "get_client i ?s = Some (c\<lparr>heartBeatRing := r\<rparr>)"
      using get_client_length [OF c] by (simp add: run_simps)
    obtain w' where w': "ClientSendData k i (beat_bytes b) ?s = Some (?s\<lparr>world := w'\<rparr>)"
        "plain w' = plain (world s) @ (if dtls_done c then [(ssl c, beat_bytes b)] else [])"
      using ClientSendData_plain [OF k c1, of "beat_bytes b"] by (auto simp: run_simps)
    have c2: "get_client i (?s\<lparr>world := w'\<rparr>) = Some (c\<lparr>heartBeatRing := r\<rparr>)" using c1 by simp
    have step: "heartbeat_loop k (Suc n) i s = heartbeat_loop k n i (?s\<lparr>world := w'\<rparr>)"
      using c r w' Cons RingBufEmpty_iff [OF wf] by (simp add: beat_bytes_def)
    have "length (ring_items (heartBeatRing (c\<lparr>heartBeatRing := r\<rparr>))) < n"
      using Suc.prems(3) Cons r(3) by simp
    moreover have "ring_wf (heartBeatRing (c\<lparr>heartBeatRing := r\<rparr>))" using r(2) by simp
    ultimately obtain s' c' where
        "heartbeat_loop k n i (?s\<lparr>world := w'\<rparr>) = Some s'" "get_client i s' = Some c'"
        "ring_items (heartBeatRing c') = []" "core c' = core c"
        "plain (world s') = plain w'
          @ (if dtls_done c then map (\<lambda>b. (ssl c, beat_bytes b)) bs else [])"
      using Suc.IH [OF c2] r(3) by (auto simp: core_def)
    then show ?thesis using step w'(2) Cons by (cases "dtls_done c") auto
  qed
qed

lemma ClientSendHeartBeatData_order:
  assumes "bio_contract k outq net" "ssl_contract k plain"
    and c: "get_client i s = Some c" and wf: "ring_wf (heartBeatRing c)"
  shows "\<exists>s' c'. ClientSendHeartBeatData k i s = Some s' \<and> get_client i s' = Some c'
    \<and> ring_items (heartBeatRing c') = [] \<and> core c' = core c
    \<and> plain (world s') = plain (world s)
        @ (if dtls_done c then map (\<lambda>b. (ssl c, beat_bytes b)) (ring_items (heartBeatRing c)) else [])"
proof -
  have "length (ring_items (heartBeatRing c)) < Suc (unat (cap (heartBeatRing c)))"
    using ring.items_le [OF wf] by simp
  from heartbeat_loop_order [OF assms(1,2) c wf this] show ?thesis
    using c by (simp add: ClientSendHeartBeatData_def del: heartbeat_loop.simps)
qed

text \<open>
  A heart beat longer than the 1024 bytes of its slot makes the copy of the callback leave the
  array.
\<close>

lemma Outbound_beat_overflow:
  assumes "get_client t s = Some c" and "d ! 12 = 4 \<or> d ! 12 = 5" and "1024 < length d"
  shows "OnSctpOutboundPacket k t (Some d) s = None"
  using assms by (auto simp: OnSctpOutboundPacket_def memcpy_at_def HeartBeatData_new_def)

end
