(* ===== verification/Example_Host.thy ===== *)
theory Example_Host
  imports Transport_Order
begin

text \<open>
  A small concrete host: a kernel, a DTLS library and an SCTP library on an explicit world. It
  meets the contracts the properties of the transport ask for, so each of them can be applied.
\<close>

record host =
  h_written :: bytes
  h_flags :: "int \<Rightarrow> u32"
  h_out :: "nat \<Rightarrow> bytes"
  h_net :: "datagram list"
  h_plain :: "(nat \<times> bytes) list"
  h_log :: "sent list"
  h_read :: "(int \<times> bytes) list"
  h_fail :: int

text \<open>
  The calls: \<open>write\<close> takes at most four bytes at a time, \<open>read\<close> serves the recorded answers and then
  reports \<open>EAGAIN\<close>, \<open>SSL_write\<close> queues its text unchanged, \<open>usrsctp_sendv\<close> accepts everything. The
  call of \<open>fcntl\<close> or \<open>listen\<close> fails when \<open>h_fail\<close> is the descriptor.
\<close>

definition demo :: "host usrsctp" where
  "demo =
     \<lparr>sys_socket = \<lambda>d t p w. (if t = 1 then 4 else 3, w),
      sys_setsockopt = \<lambda>fd l o' v w. w,
      sys_bind = \<lambda>fd a w. (0, w),
      sys_getfl = \<lambda>fd w. (h_flags w fd, w),
      sys_setfl = \<lambda>fd v w. if h_fail w = fd then (-1, w) else (0, w\<lparr>h_flags := (h_flags w)(fd := v)\<rparr>),
      sys_listen = \<lambda>fd n w. (if h_fail w = - fd then -1 else 0, w),
      sys_accept = \<lambda>fd w. (-1, w),
      sys_close = \<lambda>fd w. w,
      sys_read = \<lambda>fd n w. (case h_read w of [] \<Rightarrow> (-1, [], w) | (r, bs) # q \<Rightarrow> (r, bs, w\<lparr>h_read := q\<rparr>)),
      sys_write = \<lambda>fd bs w. (int (length (take 4 bs)), w\<lparr>h_written := h_written w @ take 4 bs\<rparr>),
      sys_recvfrom = \<lambda>fd n w. (-1, [], \<lparr>sin_family = 0, sin_port = 0, sin_addr = 0\<rparr>, w),
      sys_sendto = \<lambda>fd d a w. w\<lparr>h_net := h_net w @ [(fd, a, d)]\<rparr>,
      sys_epoll_create = \<lambda>w. (5, w),
      sys_epoll_add = \<lambda>ep fd p w. (0, w),
      sys_epoll_wait = \<lambda>ep n w. ([], w),
      sys_errno = \<lambda>w. 11,
      libc_inet_addr = \<lambda>s. 0x0100007F,
      libc_inet_ntoa = \<lambda>a. ascii ''127.0.0.1'' @ [0],
      SSL_new = \<lambda>w. (1, w),
      BIO_write = \<lambda>h d w. w,
      BIO_pending_in = \<lambda>h w. 0,
      BIO_pending_out = \<lambda>h w. length (h_out w h),
      BIO_read_out = \<lambda>h n w.
        (int (length (take n (h_out w h))), take n (h_out w h), w\<lparr>h_out := (h_out w)(h := drop n (h_out w h))\<rparr>),
      SSL_is_init_finished = \<lambda>h w. True,
      SSL_do_handshake = \<lambda>h w. (1, w),
      SSL_get_error = \<lambda>h r w. 2,
      SSL_read = \<lambda>h n w. (0, [], w),
      SSL_write = \<lambda>h d w.
        w\<lparr>h_plain := h_plain w @ [(h, d)], h_out := (h_out w)(h := h_out w h @ d)\<rparr>,
      us_init = \<lambda>w. w,
      us_ecn_disable = \<lambda>w. w,
      us_socket = \<lambda>i w. (Some 7, w),
      us_register = \<lambda>i w. w,
      us_deregister_client = \<lambda>i w. w,
      us_set_non_blocking = \<lambda>s w. (0, w),
      us_setsockopt = \<lambda>s o' w. w,
      us_bind = \<lambda>s p i w. (0, w),
      us_listen = \<lambda>s w. (0, w),
      us_accept = \<lambda>s w. (Some 8, w),
      us_close = \<lambda>s w. ([], w),
      us_sendv = \<lambda>s d i w. (int (length d), [], w\<lparr>h_log := h_log w @ [(s, d, i)]\<rparr>),
      us_conninput = \<lambda>i d w. ([], w)\<rparr>"

definition host0 :: host where
  "host0 = \<lparr>h_written = [], h_flags = (\<lambda>fd. 2), h_out = (\<lambda>h. []), h_net = [], h_plain = [], h_log = [],
     h_read = [], h_fail = 0\<rparr>"

section \<open>The contracts hold of it\<close>

lemma demo_write: "write_contract demo h_written"
  by (auto simp: write_contract_def demo_def min_def)

lemma demo_fcntl: "fcntl_contract demo h_flags"
  by (simp add: fcntl_contract_def demo_def)

lemma demo_bio: "bio_contract demo h_out h_net"
  by (simp add: bio_contract_def demo_def)

lemma demo_ssl: "ssl_contract demo h_plain"
  by (simp add: ssl_contract_def demo_def)

lemma demo_sendv: "sendv_contract demo h_log"
  by (simp add: sendv_contract_def demo_def)

section \<open>A server with one client\<close>

definition client0 :: client where
  "client0 = \<lparr>ssl = 1, dtls_done = True, sock = Some 7, sctp_done = Some True,
     heartBeatRing = RuruRingBuf HeartBeatData_new 100, address = \<lparr>host = 0x7F000001, port = 9000\<rparr>,
     cache = [], attached = True, udpfd = 3\<rparr>"

definition server0 :: "host server" where
  "server0 = \<lparr>udp_fd = Some 3, tcp_fd = Some 4, ep_fd = Some 5, ev_array = Some True,
     clientMgr = [client0], que = [], arena = \<lparr>arena.memory = replicate 8 0, pos = 0, capacity = 8\<rparr>,
     conns = [1 \<mapsto> conn_new\<lparr>con_fd := 6\<rparr>], next_conn = 2, usrsctpInit = True, scan_count = 1,
     world = host0\<rparr>"

lemma server0_client: "get_client 0 server0 = Some client0"
  by (simp add: get_client_def server0_def)

lemma server0_fields [simp]:
  "world server0 = host0" "clientMgr server0 = [client0]" "que server0 = []"
  "conns server0 1 = Some (conn_new\<lparr>con_fd := 6\<rparr>)"
  by (simp_all add: server0_def)

end
