(* ===== verification/Transport_Properties.thy ===== *)
theory Transport_Properties
  imports Example_Host Transport_Safety
begin

text \<open>
  The properties of the memory pools, the sockets and the transport of one client: \<^verbatim>\<open>RuruArena.cpp\<close>,
  \<^verbatim>\<open>RuruRingBuf.h\<close>, \<^verbatim>\<open>RuruNetwork.cpp\<close>, \<^verbatim>\<open>RuruDtls.cpp\<close>, \<^verbatim>\<open>RuruSctp.cpp\<close>, \<^verbatim>\<open>RuruClient.cpp\<close>.
\<close>

section \<open>Sending\<close>








text \<open>
  C22: \<open>ClientSendPendingDtls\<close> returns, empties the outgoing BIO of the client's own connection, and
  what it sends, datagram after datagram to the client's address, is exactly the pending bytes in
  order, at most 4096 of them in a datagram and no datagram empty.
\<close>
theorem pending_output_flushed:
  assumes "bio_contract k outq net" and "get_client i s = Some c"
  shows "\<exists>w' ds. ClientSendPendingDtls k i s = Some (s\<lparr>world := w'\<rparr>) \<and> outq w' = (outq (world s))(ssl c := [])
    \<and> net w' = net (world s) @ map (\<lambda>d. (udpfd c, client_sockaddr c, d)) ds
    \<and> concat ds = outq (world s) (ssl c) \<and> (\<forall>d\<in>set ds. 0 < length d \<and> length d \<le> 4096)"
  using ClientSendPendingDtls_flush [OF assms] concat_pieces pieces_bound by meson

theorem pending_output_flushed_witness:
  "\<exists>w' ds. ClientSendPendingDtls demo 0 server0 = Some (server0\<lparr>world := w'\<rparr>)
    \<and> h_out w' = (h_out (world server0))(ssl client0 := [])
    \<and> h_net w' = h_net (world server0) @ map (\<lambda>d. (udpfd client0, client_sockaddr client0, d)) ds
    \<and> concat ds = h_out (world server0) (ssl client0) \<and> (\<forall>d\<in>set ds. 0 < length d \<and> length d \<le> 4096)"
  by (rule pending_output_flushed [OF demo_bio server0_client])

text \<open>
  C29: \<open>ClientSendHeartBeatData\<close> returns with an empty ring and has handed the deferred heart beats to
  \<open>SSL_write\<close> in the order they were deferred, each with its own length, or none of them when the
  handshake is not done.
\<close>
theorem heartbeats_in_order:
  assumes "bio_contract k outq net" "ssl_contract k plain"
    and "get_client i s = Some c" and "ring_wf (heartBeatRing c)"
  shows "\<exists>s' c'. ClientSendHeartBeatData k i s = Some s' \<and> get_client i s' = Some c'
    \<and> ring_items (heartBeatRing c') = [] \<and> core c' = core c
    \<and> plain (world s') = plain (world s)
        @ (if dtls_done c then map (\<lambda>b. (ssl c, beat_bytes b)) (ring_items (heartBeatRing c)) else [])"
  by (rule ClientSendHeartBeatData_order [OF assms])

lemma client0_ring: "ring_wf (heartBeatRing client0)"
  using RuruRingBuf_new [of 100 HeartBeatData_new] by (simp add: client0_def)

theorem heartbeats_in_order_witness:
  "\<exists>s' c'. ClientSendHeartBeatData demo 0 server0 = Some s' \<and> get_client 0 s' = Some c'
    \<and> ring_items (heartBeatRing c') = [] \<and> core c' = core client0
    \<and> h_plain (world s') = h_plain (world server0)
        @ (if dtls_done client0 then map (\<lambda>b. (ssl client0, beat_bytes b)) (ring_items (heartBeatRing client0)) else [])"
  by (rule heartbeats_in_order [OF demo_bio demo_ssl server0_client client0_ring])

text \<open>
  a heart-beat packet of more than 1024 bytes makes the callback write outside of the array
  \<open>beat.data\<close>: the length of the packet is not compared with the size of the array.
\<close>
theorem long_heartbeat_overflows:
  assumes "get_client t s = Some c" and "d ! 12 = 4 \<or> d ! 12 = 5" and "1024 < length d"
  shows "OnSctpOutboundPacket k t (Some d) s = None"
  by (rule Outbound_beat_overflow [OF assms])

theorem long_heartbeat_overflows_witness:
  "OnSctpOutboundPacket demo 0 (Some (replicate 1025 4)) server0 = None"
  by (rule long_heartbeat_overflows [OF server0_client]) (simp_all add: nth_replicate)

section \<open>Receiving\<close>

lemma PushClientRecvData_run:
  assumes ok: "server_ok s" and c: "get_client i s = Some c" "attached c" and d: "data \<noteq> []" "length data < 2 ^ 31"
  shows "PushClientRecvData i data rcv s =
    (if int (length data) \<le> capacity (arena s) - pos (arena s)
     then map_option (\<lambda>a. s\<lparr>arena := a, que := que s @ [\<lparr>ev_type = EVT_RecvClientData, ev_client = Some i,
              ev_data = Some (nat (pos (arena s))), ev_length = word_of_nat (length data),
              ev_param = \<lparr>par_sid = uint (rcv_sid rcv), par_ssn = uint (rcv_ssn rcv), par_tsn = sint (rcv_tsn rcv)\<rparr>\<rparr>]\<rparr>)
            (arena_fill (nat (pos (arena s))) data (arena s\<lparr>pos := pos (arena s) + int (length data)\<rparr>))
     else Some s)"
proof -
  have wf: "arena_wf (arena s)" using ok by (simp add: server_ok_def)
  have "int_cast (length data) = int (length data)" using d by (simp add: int_cast_small)
  then show ?thesis
    using ArenaAlloc_cases [OF wf, of "int (length data)"] c d
    by (cases "arena_fill (nat (pos (arena s))) data (arena s\<lparr>pos := pos (arena s) + int (length data)\<rparr>)")
      (simp_all add: PushClientRecvData_def)
qed

text \<open>
  C18: a message received from usrsctp is queued as one event for its client, with its stream
  number, and the event's payload in the arena is the data received modulo the 16 bits of the
  event's length; when the arena has no room for it, or the message is empty, nothing changes.
\<close>
theorem received_payload_queued:
  assumes "server_ok s" and "get_client i s = Some c" "attached c" and "data \<noteq> []" "length data < 2 ^ 31"
  shows "\<exists>s'. PushClientRecvData i data rcv s = Some s' \<and> server_ok s'
    \<and> (if int (length data) \<le> capacity (arena s) - pos (arena s)
       then \<exists>e off. que s' = que s @ [e] \<and> ev_type e = EVT_RecvClientData \<and> ev_client e = Some i
         \<and> par_sid (ev_param e) = uint (rcv_sid rcv) \<and> ev_data e = Some off
         \<and> chunk (arena.memory (arena s')) off (unat (ev_length e)) = take (length data mod 65536) data
       else s' = s)"
proof (cases "int (length data) \<le> capacity (arena s) - pos (arena s)")
  case True
  let ?off = "nat (pos (arena s))" and ?a = "arena s\<lparr>pos := pos (arena s) + int (length data)\<rparr>"
  have wf: "arena_wf (arena s)" using assms(1) by (simp add: server_ok_def)
  have "?off + length data \<le> nat (capacity (arena s))" using True wf by (simp add: arena_wf_def) linarith
  then obtain m where m: "memcpy_at ?off data (arena.memory (arena s)) = Some m"
    using wf by (auto simp: memcpy_at_def arena_wf_def)
  then have run: "PushClientRecvData i data rcv s = Some (s\<lparr>arena := ?a\<lparr>arena.memory := m\<rparr>,
      que := que s @ [\<lparr>ev_type = EVT_RecvClientData, ev_client = Some i, ev_data = Some ?off,
              ev_length = word_of_nat (length data),
              ev_param = \<lparr>par_sid = uint (rcv_sid rcv), par_ssn = uint (rcv_ssn rcv), par_tsn = sint (rcv_tsn rcv)\<rparr>\<rparr>]\<rparr>)"
    using True by (simp add: PushClientRecvData_run [OF assms] arena_fill_def)
  have "chunk m ?off (length data mod 65536) = take (length data mod 65536) (chunk m ?off (length data))"
    by (simp add: chunk_def min_def)
  then have "chunk m ?off (length data mod 65536) = take (length data mod 65536) data"
    using memcpy_at_chunk [OF m] by simp
  moreover have "server_ok (s\<lparr>arena := ?a\<lparr>arena.memory := m\<rparr>,
      que := que s @ [\<lparr>ev_type = EVT_RecvClientData, ev_client = Some i, ev_data = Some ?off,
              ev_length = word_of_nat (length data),
              ev_param = \<lparr>par_sid = uint (rcv_sid rcv), par_ssn = uint (rcv_ssn rcv), par_tsn = sint (rcv_tsn rcv)\<rparr>\<rparr>]\<rparr>)"
    using PushClientRecvData_step [OF run] assms(1) by (simp add: safe_step_def)
  ultimately show ?thesis using True run by (simp add: unat_of_nat)
next
  case False
  then show ?thesis using assms(1) PushClientRecvData_run [OF assms] by auto
qed

lemma server0_ok: "server_ok server0"
  using client0_ring RuruRingBuf_new [of 100 HeartBeatData_new]
  by (simp add: server_ok_def server0_def arena_wf_def events_ok_def client_ok_def client0_def RuruRingBuf_def)

theorem received_payload_queued_witness:
  "\<exists>s'. PushClientRecvData 0 [1, 2] \<lparr>rcv_sid = 1, rcv_ssn = 0, rcv_tsn = 0\<rparr> server0 = Some s' \<and> server_ok s'
    \<and> (if int (length [1 :: byte, 2]) \<le> capacity (arena server0) - pos (arena server0)
       then \<exists>e off. que s' = que server0 @ [e] \<and> ev_type e = EVT_RecvClientData \<and> ev_client e = Some 0
         \<and> par_sid (ev_param e) = uint (rcv_sid \<lparr>rcv_sid = 1, rcv_ssn = 0, rcv_tsn = 0\<rparr>) \<and> ev_data e = Some off
         \<and> chunk (arena.memory (arena s')) off (unat (ev_length e)) = take (length [1 :: byte, 2] mod 65536) [1, 2]
       else s' = server0)"
  by (rule received_payload_queued [OF server0_ok server0_client]) (simp_all add: client0_def)

section \<open>Memory pools\<close>

text \<open>
  C38: whatever sizes are requested from an arena, negative and too large ones included, every call
  returns, and the blocks granted lie inside of the arena and do not overlap.
\<close>
theorem arena_blocks_disjoint:
  assumes "RuruArena c = Some a"
  shows "\<exists>bs a'. alloc_run ArenaAlloc ns a = Some (bs, a') \<and> arena_wf a'
    \<and> (\<forall>b\<in>set bs. fst b + snd b \<le> nat (capacity a)) \<and> sorted_wrt disjoint_blocks bs"
  by (rule arena.run_safe [OF RuruArena_wf [OF assms]])

theorem arena_blocks_disjoint_witness:
  "\<exists>bs a'. alloc_run ArenaAlloc [3, -1, 4, 100] \<lparr>arena.memory = replicate 8 0, pos = 0, capacity = 8\<rparr> = Some (bs, a')
    \<and> arena_wf a' \<and> (\<forall>b\<in>set bs. fst b + snd b \<le> nat 8) \<and> sorted_wrt disjoint_blocks bs"
  using arena_blocks_disjoint [of 3 "\<lparr>arena.memory = replicate 8 0, pos = 0, capacity = 8\<rparr>" "[3, -1, 4, 100]"]
  by (simp add: RuruArena_def)

text \<open>
  C39: a ring of capacity \<open>c\<close> is a queue of at most \<open>c - 1\<close> elements: every sequence of writes, reads,
  questions for emptiness and resets on a new ring is defined and gives the answers of the list.
\<close>
theorem ring_is_fifo:
  assumes "0 < c"
  shows "\<exists>r. fifo_exec RingBufWrite RingBufRead RingBufEmpty RingBufReset os (RuruRingBuf x c)
      = Some (fst (queue_exec (unat c - 1) os []), r)
    \<and> ring_items r = snd (queue_exec (unat c - 1) os [])"
  using ring.exec_queue [of "RuruRingBuf x c" os] RuruRingBuf_new [OF assms, of x] by (auto simp: RuruRingBuf_def)

text \<open>A ring of three cells: both indices wrap, a write is refused, a read finds nothing.\<close>

theorem ring_is_fifo_witness:
  "\<exists>r. fifo_exec RingBufWrite RingBufRead RingBufEmpty RingBufReset
      [Write 1, Write 2, Write 3, Read, Write 4, Read, Read, Read, Ask_empty] (RuruRingBuf 0 3) =
    Some ([Written True, Written True, Written False, Got (Some 1), Written True, Got (Some (2::nat)), Got (Some 4), Got None, Is_empty True], r)
    \<and> ring_items r = []"
  using ring_is_fifo [of "3::u32" "[Write 1, Write 2, Write 3, Read, Write 4, Read, Read, Read, Ask_empty]" "0::nat"] by simp

section \<open>Sockets\<close>

text \<open>
  \<open>SocketWrite\<close> returns on every kernel that takes at most what it is offered; what the kernel has
  taken is a prefix of the buffer, and a result other than -1 is the length of that prefix.
\<close>
theorem socket_write_prefix:
  assumes "write_contract k sent"
  shows "\<exists>r w' n. SocketWrite k fd buf w = Some (r, w') \<and> n \<le> length buf
    \<and> sent w' = sent w @ take n buf \<and> (r = -1 \<or> r = int n)"
  by (rule SocketWrite_prefix [OF assms])

theorem socket_write_prefix_witness:
  "\<exists>r w' n. SocketWrite demo 6 (ascii ''hello'') host0 = Some (r, w') \<and> n \<le> length (ascii ''hello'')
    \<and> h_written w' = h_written host0 @ take n (ascii ''hello'') \<and> (r = -1 \<or> r = int n)"
  by (rule socket_write_prefix [OF demo_write])

text \<open>
  \<open>SetNonBlocking\<close> adds \<open>O_NONBLOCK\<close> to the flags of its descriptor and leaves all other flags, or
  returns -1 and changes nothing.
\<close>
theorem set_non_blocking_flags:
  assumes "fcntl_contract k flags" and "SetNonBlocking k fd w = (r, w')"
  shows "if r = 0 then flags w' = (flags w)(fd := flags w fd OR 2048) else r = -1 \<and> flags w' = flags w"
  using SetNonBlocking_flags [OF assms] by simp

theorem set_non_blocking_flags_witness:
  "if (0::int) = 0 then h_flags (host0\<lparr>h_flags := (h_flags host0)(4 := 2050)\<rparr>) = (h_flags host0)(4 := h_flags host0 4 OR 2048)
   else (0::int) = -1 \<and> h_flags (host0\<lparr>h_flags := (h_flags host0)(4 := 2050)\<rparr>) = h_flags host0"
  by (rule set_non_blocking_flags [OF demo_fcntl]) (simp add: SetNonBlocking_def demo_def host0_def)

text \<open>
  \<open>Ip2Host\<close> inverts \<open>Host2Ip\<close>, for every host and whatever the text format of the C library is,
  as long as \<open>inet_addr\<close> reads what \<open>inet_ntoa\<close> writes.
\<close>
theorem host_text_roundtrip:
  assumes "\<And>a. libc_inet_addr k (libc_inet_ntoa k a) = a"
  shows "Ip2Host k (Host2Ip k h) = h"
  by (rule Ip2Host_Host2Ip) (rule assms)

text \<open>The unsigned sum of the four octets of an address.\<close>

definition octets :: "u32 \<Rightarrow> bytes" where
  "octets a = [ucast a, ucast (drop_bit 8 a), ucast (drop_bit 16 a), ucast (drop_bit 24 a)]"

definition of_octets :: "bytes \<Rightarrow> u32" where
  "of_octets bs = word_of_nat (unat (bs ! 0) + 256 * (unat (bs ! 1) + 256 * (unat (bs ! 2) + 256 * unat (bs ! 3))))"

lemma of_octets_octets: "of_octets (octets a) = a"
proof -
  have "n mod 256 + 256 * (n div 256 mod 256 + 256 * (n div 65536 mod 256 + 256 * (n div 16777216 mod 256))) = n"
    if "n < 4294967296" for n :: nat
  proof -
    have "n div 65536 = n div 256 div 256" "n div 16777216 = n div 256 div 256 div 256"
      by (simp_all add: div_mult2_eq [symmetric])
    moreover have "n div 16777216 mod 256 = n div 16777216" using that by simp
    ultimately show ?thesis by (metis add.commute mult.commute mult_div_mod_eq)
  qed
  moreover have "unat a < 4294967296" using unsigned_less [of a, where ?'a = nat] by simp
  ultimately have "unat a mod 256 + 256 * (unat a div 256 mod 256 + 256 * (unat a div 65536 mod 256
      + 256 * (unat a div 16777216 mod 256))) = unat a" by blast
  moreover have "of_octets (octets a) = word_of_nat (unat a mod 256 + 256 * (unat a div 256 mod 256
      + 256 * (unat a div 65536 mod 256 + 256 * (unat a div 16777216 mod 256))))"
    unfolding of_octets_def octets_def
    by (rule arg_cong [where f = word_of_nat])
      (simp add: unsigned_ucast_eq take_bit_eq_mod drop_bit_eq_div unat_div_distrib)
  ultimately show ?thesis by (simp only: of_nat_unat ucast_id)
qed

theorem host_text_roundtrip_witness:
  "Ip2Host (demo\<lparr>libc_inet_addr := of_octets, libc_inet_ntoa := octets\<rparr>)
     (Host2Ip (demo\<lparr>libc_inet_addr := of_octets, libc_inet_ntoa := octets\<rparr>) 0x7F000001) = 0x7F000001"
  by (rule host_text_roundtrip) (simp add: of_octets_octets)

end
