(* ===== verification/Loop_Safety.thy ===== *)
theory Loop_Safety
  imports Loop_Body Transport_Safety
begin

text \<open>
  The invariant of the server over whole turns of the loop, for every behaviour of the kernel and
  of the libraries: events keep pointing at the payload they were queued with, and the arena is
  only reset when no event is left. Then the lookup of clients, the construction of the loop and
  what a split request does to a connection.
\<close>

section \<open>What a part of a turn may do\<close>

definition serves :: "'w server \<Rightarrow> 'w server \<Rightarrow> bool" where
  "serves s s' \<longleftrightarrow> (server_ok s \<longrightarrow> server_ok s'
     \<and> (\<exists>new. que s' = que s @ new) \<and> pos (arena s) \<le> pos (arena s')
     \<and> (\<forall>off n. off + n \<le> nat (pos (arena s)) \<longrightarrow>
          chunk (arena.memory (arena s')) off n = chunk (arena.memory (arena s)) off n)
     \<and> (\<exists>more. map address (clientMgr s') = map address (clientMgr s) @ more))"

lemma serves_refl [simp]: "serves s s"
  by (simp add: serves_def)

lemma serves_trans: "serves s s1 \<Longrightarrow> serves s1 s2 \<Longrightarrow> serves s s2"
  by (auto simp: serves_def)

lemma safe_serves: "safe_step s s' \<Longrightarrow> serves s s'"
  by (auto simp: safe_step_def serves_def grows_def)

text \<open>Changes outside of the queue, the arena and the clients.\<close>

lemma serves_same:
  "que s' = que s \<Longrightarrow> arena s' = arena s \<Longrightarrow> clientMgr s' = clientMgr s \<Longrightarrow> serves s s'"
  by (simp add: serves_def server_ok_def events_ok_def)

lemma serves_world: "serves (s\<lparr>world := w\<rparr>) t \<Longrightarrow> serves s t"
  by (rule serves_trans [OF serves_same]) simp_all

section \<open>The queue\<close>

lemma UpdateEvent_ok: "server_ok s \<Longrightarrow> UpdateEvent s = (r, s') \<Longrightarrow> server_ok s'"
proof (cases "que s")
  case Nil
  assume "server_ok s" "UpdateEvent s = (r, s')"
  then show ?thesis
    using Nil by (auto simp: UpdateEvent_def server_ok_def events_ok_def ArenaReset_wf)
next
  case (Cons e q)
  assume "server_ok s" "UpdateEvent s = (r, s')"
  then show ?thesis
    using Cons by (fastforce simp: UpdateEvent_def server_ok_def events_ok_def split: option.splits)
qed

lemma push_cached_step:
  "push_cached cs s = Some (b, s') \<Longrightarrow> (\<forall>(i, c)\<in>set cs. i < length (clientMgr s)) \<Longrightarrow>
     safe_step s s' \<and> length (clientMgr s') = length (clientMgr s)"
proof (induction cs s arbitrary: b s' rule: push_cached.induct)
  case (2 i c cs s)
  show ?case
  proof (cases "cache c = []")
    case True
    then show ?thesis using 2 by simp
  next
    case False
    let ?e = "RuruEvent_new\<lparr>ev_client := Some i, ev_type := EVT_SendCacheData\<rparr>"
    let ?s1 = "s\<lparr>que := que s @ [?e]\<rparr>"
    from "2.prems"(1) False have a: "attached c" by (simp split: if_splits)
    then obtain b' where r: "push_cached cs ?s1 = Some (b', s')"
      using "2.prems"(1) False by (auto simp: run_simps)
    have "safe_step s ?s1"
      by (rule safe_push_plain [where i = i]) (use "2.prems"(2) in \<open>auto simp: RuruEvent_new_def\<close>)
    then show ?thesis
      using "2.IH"(1) [OF _ a r] False "2.prems"(2) safe_trans by auto
  qed
qed simp

lemma ScanClientCacheData_step:
  assumes "ScanClientCacheData s = Some (b, s')"
  shows "serves s s'"
proof -
  obtain n where n: "(if scan_count s mod 100 \<noteq> 0 then Some (False, s\<lparr>scan_count := n\<rparr>)
      else push_cached (enumerate 0 (clientMgr s)) (s\<lparr>scan_count := n\<rparr>)) = Some (b, s')"
    using assms by (auto simp: ScanClientCacheData_def bind_eq_Some_conv Let_def cong: if_cong)
  have "serves s (s\<lparr>scan_count := n\<rparr>)" by (rule serves_same) simp_all
  moreover have "serves (s\<lparr>scan_count := n\<rparr>) s'"
  proof (cases "scan_count s mod 100 = 0")
    case True
    then have "push_cached (enumerate 0 (clientMgr s)) (s\<lparr>scan_count := n\<rparr>) = Some (b, s')" using n by simp
    moreover have "\<forall>(i, c)\<in>set (enumerate 0 (clientMgr s)). i < length (clientMgr (s\<lparr>scan_count := n\<rparr>))"
      by (auto simp: in_set_enumerate_eq)
    ultimately show ?thesis using push_cached_step safe_serves by blast
  next
    case False
    then show ?thesis using n by auto
  qed
  ultimately show ?thesis by (rule serves_trans)
qed

section \<open>Clients\<close>

lemma new_client_step:
  assumes c: "c = \<lparr>ssl = h, dtls_done = False, sock = None, sctp_done = None,
      heartBeatRing = RuruRingBuf HeartBeatData_new 100, address = a, cache = [], attached = False, udpfd = fd\<rparr>"
  shows "serves s (s\<lparr>clientMgr := clientMgr s @ [c], world := w\<rparr>)"
proof -
  have "client_ok c"
    using RuruRingBuf_new [of 100 HeartBeatData_new] by (simp add: c client_ok_def RuruRingBuf_def)
  then show ?thesis by (auto simp: serves_def server_ok_def events_ok_def less_SucI)
qed

lemma RuruClient_new_step:
  assumes "RuruClient_new k a fd s = Some (i, s')"
  shows "serves s s'"
proof -
  obtain h w where h: "SSL_new k (world s) = (h, w)" by fastforce
  let ?c = "\<lparr>ssl = h, dtls_done = False, sock = None, sctp_done = None,
      heartBeatRing = RuruRingBuf HeartBeatData_new 100, address = a, cache = [], attached = False, udpfd = fd\<rparr>"
  have "RuruSctp_new k (length (clientMgr s)) (s\<lparr>clientMgr := clientMgr s @ [?c], world := w\<rparr>) = Some s'"
    using assms h by (auto simp: RuruClient_new_def bind_eq_Some_conv Let_def)
  then have "serves (s\<lparr>clientMgr := clientMgr s @ [?c], world := w\<rparr>) s'"
    by (rule safe_serves [OF RuruSctp_new_step])
  with new_client_step [OF refl] show ?thesis by (rule serves_trans)
qed

lemma AttachClientInfo_step: "AttachClientInfo i s = Some s' \<Longrightarrow> serves s s'"
  by (auto simp: AttachClientInfo_def intro!: safe_serves elim: safe_upd)

lemma answer_step: "answer k c msg s = Some s' \<Longrightarrow> serves s s'"
  by (auto simp: answer_def bind_eq_Some_conv intro!: serves_same)

lemma close_connection_step: "serves s (close_connection k p c s)"
  by (rule serves_same) (simp_all add: close_connection_def)

lemma accept_client_step:
  assumes "accept_client k c status len (h, s) = Some (h', s')"
  shows "serves s s'"
proof -
  obtain a h1 where "BodyParse k (drop status (con_data c)) len h = Some (a, h1)"
      and r: "(case a of None \<Rightarrow> answer k c HTTP_BAD_REQUEST s
         | Some addr \<Rightarrow> do {
             fd \<leftarrow> udp_fd s;
             (i, s1) \<leftarrow> RuruClient_new k addr fd s;
             s2 \<leftarrow> AttachClientInfo i s1;
             answer k c HTTP_OK s2 }) = Some s'"
    using assms by (auto simp: accept_client_def bind_eq_Some_conv)
  show ?thesis
  proof (cases a)
    case None
    then show ?thesis using r answer_step by auto
  next
    case (Some addr)
    then obtain fd i s1 s2 where "RuruClient_new k addr fd s = Some (i, s1)" "AttachClientInfo i s1 = Some s2"
        "answer k c HTTP_OK s2 = Some s'"
      using r by (auto simp: bind_eq_Some_conv)
    then show ?thesis by (blast intro: serves_trans RuruClient_new_step AttachClientInfo_step answer_step)
  qed
qed

section \<open>The sockets\<close>

lemma http_dispatch_step:
  assumes "http_dispatch k p c lastLen (h, s) = Some (fin, h', s')"
  shows "serves s s'"
  using assms
  by (auto simp: http_dispatch_def bind_eq_Some_conv close_connection_step split: if_splits
      intro: serves_trans [OF accept_client_step close_connection_step]
        serves_trans [OF answer_step close_connection_step])

text \<open>A turn either closes the connection or stores what was read and looks at the request.\<close>

lemma http_turnE:
  assumes "http_turn k p (h, s) = Some (fin, h', s')"
  obtains c w where "conns s p = Some c" "fin" "h' = h" "s' = close_connection k p c (s\<lparr>world := w\<rparr>)"
  | c c1 w where "conns s p = Some c"
      "http_dispatch k p c1 (nat (con_length c)) (h, s\<lparr>world := w, conns := (conns s)(p \<mapsto> c1)\<rparr>)
         = Some (fin, h', s')"
  using assms by (auto simp: http_turn_def bind_eq_Some_conv Let_def split: if_splits prod.splits)

lemma http_turn_step:
  assumes "http_turn k p (h, s) = Some (fin, h', s')"
  shows "serves s s'"
  using assms
proof (cases rule: http_turnE)
  case (1 c w)
  then show ?thesis by (simp add: serves_trans [OF serves_same close_connection_step])
next
  case (2 c c1 w)
  show ?thesis by (rule serves_trans [OF serves_same http_dispatch_step [OF 2(2)]]) simp_all
qed

lemma HttpRequestHandle_step:
  fixes k :: "('w, 'z) usrsctp_scheme"
  assumes "HttpRequestHandle k p hs = Some hs'"
  shows "serves (snd hs) (snd hs')"
proof (rule HttpRequestHandle.raw_induct [where P = "\<lambda>k p hs hs'. serves (snd hs) (snd hs')", rotated, OF assms])
  fix f :: "('w, 'z) usrsctp_scheme \<Rightarrow> nat \<Rightarrow> 'w process \<Rightarrow> 'w process option"
  fix k p hs hs'
  assume IH: "\<And>k p hs hs'. f k p hs = Some hs' \<Longrightarrow> serves (snd hs) (snd hs')"
  assume "http_turn k p hs \<bind> (\<lambda>(fin, hs'). if fin then Some hs' else f k p hs') = Some hs'"
  then obtain fin h1 s1 where t: "http_turn k p (fst hs, snd hs) = Some (fin, h1, s1)"
      and r: "(if fin then Some (h1, s1) else f k p (h1, s1)) = Some hs'"
    by (auto simp: bind_eq_Some_conv)
  note s = http_turn_step [OF t]
  show "serves (snd hs) (snd hs')"
  proof (cases fin)
    case True
    then show ?thesis using r s by auto
  next
    case False
    then have "f k p (h1, s1) = Some hs'" using r by simp
    from IH [OF this] s show ?thesis using serves_trans by fastforce
  qed
qed

lemma udp_loop_step:
  fixes k :: "('w, 'z) usrsctp_scheme"
  assumes "udp_loop k fd b s = Some r"
  shows "serves s (snd r)"
proof (rule udp_loop.raw_induct [where P = "\<lambda>k fd b s r. serves s (snd r)", rotated, OF assms])
  fix f :: "('w, 'z) usrsctp_scheme \<Rightarrow> int \<Rightarrow> bool \<Rightarrow> 'w server \<Rightarrow> (bool \<times> 'w server) option"
  fix k fd b s r
  assume IH: "\<And>k fd b s r. f k fd b s = Some r \<Longrightarrow> serves s (snd r)"
  assume body: "(let (n, buffer, remote, w) = sys_recvfrom k fd 4096 (world s); s1 = s\<lparr>world := w\<rparr> in
      if n > 0
      then let a = \<lparr>host = ntohl (sin_addr remote), port = ntohs (sin_port remote)\<rparr> in
        (case FindClientByAddress a s1 of
           None \<Rightarrow> f k fd True s1
         | Some i \<Rightarrow> HandleDtlsPacket k i (take (nat n) buffer) s1 \<bind> f k fd True)
      else Some (b, s1)) = Some r"
  obtain n buffer remote w where rv: "sys_recvfrom k fd 4096 (world s) = (n, buffer, remote, w)"
    using prod_cases4 by blast
  have s1: "serves s (s\<lparr>world := w\<rparr>)" by (rule serves_same) simp_all
  have known: "serves s (snd r)" if "HandleDtlsPacket k i d (s\<lparr>world := w\<rparr>) = Some s2" "f k fd True s2 = Some r"
    for i d s2
    by (rule serves_trans [OF s1 serves_trans [OF safe_serves [OF HandleDtlsPacket_step [OF that(1)]] IH [OF that(2)]]])
  have unknown: "serves s (snd r)" if "f k fd True (s\<lparr>world := w\<rparr>) = Some r"
    by (rule serves_trans [OF s1 IH [OF that]])
  show "serves s (snd r)"
    using body rv s1
    by (auto simp: bind_eq_Some_conv Let_def split: if_splits option.splits intro: known unknown)
qed

lemma epoll_watch_step: "epoll_watch k ep fd s = (r, s') \<Longrightarrow> serves s s'"
  by (auto simp: epoll_watch_def new_connection_def split: prod.splits intro!: serves_same)

lemma accept_loop_step:
  fixes k :: "('w, 'z) usrsctp_scheme"
  assumes "accept_loop k fd ep s = Some s'"
  shows "serves s s'"
proof (rule accept_loop.raw_induct [where P = "\<lambda>k fd ep s s'. serves s s'", rotated, OF assms])
  fix f :: "('w, 'z) usrsctp_scheme \<Rightarrow> int \<Rightarrow> int \<Rightarrow> 'w server \<Rightarrow> 'w server option"
  fix k fd ep and s s' :: "'w server"
  assume IH: "\<And>k fd ep s s'. f k fd ep s = Some s' \<Longrightarrow> serves s s'"
  assume body: "(let (cfd, w) = sys_accept k fd (world s); s1 = s\<lparr>world := w\<rparr> in
      if cfd = -1 then Some s1
      else let (r, w2) = SetNonBlocking k cfd w; s2 = s1\<lparr>world := w2\<rparr> in
        if r = -1 then f k fd ep (s2\<lparr>world := sys_close k cfd w2\<rparr>)
        else let (r, s3) = epoll_watch k ep cfd s2 in
          if r = -1 then f k fd ep (s3\<lparr>world := sys_close k cfd (world s3)\<rparr>)
          else f k fd ep s3) = Some s'"
  obtain cfd w where a: "sys_accept k fd (world s) = (cfd, w)" by fastforce
  obtain r w2 where n: "SetNonBlocking k cfd w = (r, w2)" by fastforce
  obtain r2 s3 where e: "epoll_watch k ep cfd (s\<lparr>world := w2\<rparr>) = (r2, s3)" by fastforce
  have "serves s s3" using serves_world [OF epoll_watch_step [OF e]] .
  then have more: "serves s s'" if "f k fd ep t = Some s'" "serves s3 t" for t
    using serves_trans serves_trans [OF that(2) IH [OF that(1)]] by blast
  have closed: "serves s3 (s3\<lparr>world := v\<rparr>)" for v by (rule serves_same) simp_all
  have again: "serves s s'" if "f k fd ep (s\<lparr>world := v\<rparr>) = Some s'" for v
    using serves_world [OF IH [OF that]] .
  show "serves s s'"
    using body a n e
    by (auto simp: Let_def serves_same split: if_splits intro: more [OF _ closed] more [OF _ serves_refl] again)
qed

lemma epoll_event_step:
  assumes "epoll_event k p ev (h, s) = Some (b, h', s')"
  shows "serves s s'"
  using assms
  by (auto simp: epoll_event_def bind_eq_Some_conv close_connection_step split: if_splits
      dest: udp_loop_step accept_loop_step HttpRequestHandle_step)

lemma epoll_events_step: "epoll_events k es (h, s) = Some (b, h', s') \<Longrightarrow> serves s s'"
proof (induction es arbitrary: h s b)
  case (Cons e es)
  obtain p ev where e: "e = (p, ev)" by fastforce
  with Cons.prems obtain b1 h1 s1 b2 where "epoll_event k p ev (h, s) = Some (b1, h1, s1)"
      "epoll_events k es (h1, s1) = Some (b2, h', s')"
    by (auto simp: bind_eq_Some_conv)
  then show ?case using Cons.IH epoll_event_step serves_trans by blast
qed simp

lemma EpollWait_step:
  assumes "EpollWait k (h, s) = Some (b, h', s')"
  shows "serves s s'"
proof -
  obtain ep where ep: "ep_fd s = Some ep" using assms by (auto simp: EpollWait_def bind_eq_Some_conv)
  obtain es w where "sys_epoll_wait k ep MAX_EVENT (world s) = (es, w)" by fastforce
  with assms ep have "epoll_events k es (h, s\<lparr>world := w\<rparr>) = Some (b, h', s')" by (simp add: EpollWait_def)
  from serves_world [OF epoll_events_step [OF this]] show ?thesis .
qed

lemma Loop_ok:
  assumes "server_ok s" and "Loop k (h, s) = Some (ev, b, h', s')"
  shows "server_ok s' \<and> (case ev of
      Some e \<Rightarrow> que s = e # que s' \<and> arena s' = arena s \<and> clientMgr s' = clientMgr s
    | None \<Rightarrow> que s = [])"
proof -
  obtain r s1 where u: "UpdateEvent s = (r, s1)" by fastforce
  have ok: "server_ok s1" using UpdateEvent_ok [OF assms(1) u] .
  show ?thesis
  proof (cases r)
    case (Some e)
    then show ?thesis
      using assms(2) u ok by (auto simp: Loop_def UpdateEvent_def split: list.splits)
  next
    case None
    then obtain b1 s2 b2 where "ScanClientCacheData s1 = Some (b1, s2)" "EpollWait k (h, s2) = Some (b2, h', s')"
        "ev = None"
      using assms(2) u by (auto simp: Loop_def bind_eq_Some_conv)
    then have "serves s1 s'" "ev = None"
      using ScanClientCacheData_step EpollWait_step serves_trans by blast+
    moreover have "que s = []" using u None by (auto simp: UpdateEvent_def split: list.splits)
    ultimately show ?thesis using ok by (simp add: serves_def)
  qed
qed

end
