(* ===== verification/Echo.thy ===== *)
theory Echo
  imports Loop_Safety
begin

text \<open>
  \<^verbatim>\<open>examples/EchoServer.cpp\<close>: the application on top of the loop. One event variable lives over the
  calls of \<open>Loop\<close> until a call returns \<open>false\<close>; \<open>Loop\<close> writes to it only when it returns an event
  from the queue.
\<close>

section \<open>The handlers\<close>

text \<open>The message points at the payload in the arena; reading it is checked against the block.\<close>

definition event_message :: "RuruEvent \<Rightarrow> 'w server \<Rightarrow> RuruSctpMessage option" where
  "event_message e s =
     do {
       off \<leftarrow> ev_data e;
       if off + unat (ev_length e) \<le> length (arena.memory (arena s))
       then Some \<lparr>msg_data = chunk (arena.memory (arena s)) off (unat (ev_length e)),
                  msg_param = \<lparr>sid = word_of_int (par_sid (ev_param e)), ppid = 0\<rparr>\<rparr>
       else None
     }"

definition Echo2Client :: "('w, 'z) usrsctp_scheme \<Rightarrow> RuruEvent \<Rightarrow> 'w server \<Rightarrow> 'w server option" where
  "Echo2Client k e s =
     do {
       i \<leftarrow> ev_client e;
       m \<leftarrow> event_message e s;
       (b, s') \<leftarrow> SendUsrSctpData k i (Some m) s;
       Some s'
     }"

definition SendClientCacheData :: "('w, 'z) usrsctp_scheme \<Rightarrow> RuruEvent \<Rightarrow> 'w server \<Rightarrow> 'w server option" where
  "SendClientCacheData k e s =
     (case ev_client e of
        None \<Rightarrow> Some s
      | Some i \<Rightarrow> do { (b, s') \<leftarrow> SendSctpCacheData k i s; Some s' })"

definition SendHeartBeat :: "('w, 'z) usrsctp_scheme \<Rightarrow> RuruEvent \<Rightarrow> 'w server \<Rightarrow> 'w server option" where
  "SendHeartBeat k e s = (case ev_client e of None \<Rightarrow> Some s | Some i \<Rightarrow> ClientSendHeartBeatData k i s)"

definition dispatch :: "('w, 'z) usrsctp_scheme \<Rightarrow> RuruEvent \<Rightarrow> 'w server \<Rightarrow> 'w server option" where
  "dispatch k e s =
     (case ev_type e of
        EVT_HeartBeat \<Rightarrow> SendHeartBeat k e s
      | EVT_RecvClientData \<Rightarrow> Echo2Client k e s
      | EVT_SendCacheData \<Rightarrow> SendClientCacheData k e s
      | EVT_None \<Rightarrow> Some s)"

text \<open>
  One iteration: the state is the event variable and the process. When \<open>Loop\<close> returns \<open>false\<close> the
  outer \<open>for\<close> constructs the variable anew.
\<close>

definition main_turn ::
  "('w, 'z) usrsctp_scheme \<Rightarrow> RuruEvent \<times> 'w process \<Rightarrow> (RuruEvent \<times> 'w process) option"
where
  "main_turn k es =
     do {
       let (evt, hs) = es;
       (ev, b, h1, s1) \<leftarrow> Loop k hs;
       let evt1 = (case ev of None \<Rightarrow> evt | Some e \<Rightarrow> e);
       if b then do { s2 \<leftarrow> dispatch k evt1 s1; Some (evt1, h1, s2) }
       else Some (RuruEvent_new, h1, s1)
     }"

section \<open>The invariant of the server under the application\<close>

lemma dispatch_step:
  assumes "dispatch k e s = Some s'"
  shows "safe_step s s'"
  using assms
  by (auto simp: dispatch_def SendHeartBeat_def Echo2Client_def SendClientCacheData_def bind_eq_Some_conv
      split: RuruEventType.splits option.splits
      dest: ClientSendHeartBeatData_step SendUsrSctpData_step SendSctpCacheData_step)

text \<open>The states of the process between two iterations, from any state of the loop object.\<close>

inductive serving :: "('w, 'z) usrsctp_scheme \<Rightarrow> 'w process \<Rightarrow> RuruEvent \<times> 'w process \<Rightarrow> bool"
  for k hs
where
  start: "serving k hs (RuruEvent_new, hs)"
| turn: "serving k hs es \<Longrightarrow> main_turn k es = Some es' \<Longrightarrow> serving k hs es'"

inductive_cases main_turnE: "serving k hs es"

lemma main_turn_server_ok:
  assumes "main_turn k (evt, h, s) = Some (evt', h', s')" and "server_ok s"
  shows "server_ok s'"
proof -
  obtain ev b h1 s1 where l: "Loop k (h, s) = Some (ev, b, h1, s1)"
      and r: "(if b then do { s2 \<leftarrow> dispatch k (case ev of None \<Rightarrow> evt | Some e \<Rightarrow> e) s1;
                 Some (case ev of None \<Rightarrow> evt | Some e \<Rightarrow> e, h1, s2) }
               else Some (RuruEvent_new, h1, s1)) = Some (evt', h', s')"
    using assms(1) by (auto simp: main_turn_def bind_eq_Some_conv Let_def)
  have "server_ok s1" using Loop_ok [OF assms(2) l] by blast
  then show ?thesis
    using r dispatch_step unfolding safe_step_def
    by (auto simp: bind_eq_Some_conv split: if_splits dest!: dispatch_step [unfolded safe_step_def])
qed

lemma serving_server_ok:
  assumes "serving k (h0, s0) es" and "server_ok s0"
  shows "server_ok (snd (snd es))"
  using assms
proof (induction rule: serving.induct)
  case (turn es es')
  then show ?case by (cases es; cases es'; auto intro: main_turn_server_ok)
qed simp

text \<open>The payload of an event.\<close>

definition payload :: "'w server \<Rightarrow> RuruEvent \<Rightarrow> bytes" where
  "payload s e = (case ev_data e of None \<Rightarrow> [] | Some off \<Rightarrow> chunk (arena.memory (arena s)) off (unat (ev_length e)))"

lemma blocks_in: "e \<in> set q \<Longrightarrow> ev_data e = Some off \<Longrightarrow> (off, unat (ev_length e)) \<in> set (blocks q)"
  by (induction q) (auto simp: ev_block_def split: option.splits)

lemma serves_payload:
  assumes "serves s s'" and ok: "server_ok s" and e: "e \<in> set (que s)"
  shows "payload s' e = payload s e"
proof (cases "ev_data e")
  case (Some off)
  have "off + unat (ev_length e) \<le> nat (pos (arena s))"
    using ok blocks_in [OF e Some] unfolding server_ok_def events_ok_def by fastforce
  then show ?thesis using assms(1) ok Some by (simp add: payload_def serves_def)
qed (simp add: payload_def)

end
