(* ===== verification/Loop_Properties.thy ===== *)
theory Loop_Properties
  imports Echo Transport_Properties
begin

text \<open>
  The properties of the loop and of the application on top of it: \<^verbatim>\<open>RuruLoop.cpp\<close> and
  \<^verbatim>\<open>examples/EchoServer.cpp\<close>.
\<close>

section \<open>Turns of the loop\<close>

text \<open>
  C3: one call of \<open>Loop\<close>, whatever the kernel, OpenSSL and usrsctp do in it, keeps the invariant of
  the server: the payloads of queued events lie in the used part of the arena, in queue order and
  without overlap. It returns the oldest event with the arena and the clients untouched; only when
  no event is left does it reset the arena and serve the sockets.
\<close>
theorem loop_keeps_invariant:
  assumes "server_ok s" and "Loop k (h, s) = Some (ev, b, h', s')"
  shows "server_ok s' \<and> (case ev of
      Some e \<Rightarrow> que s = e # que s' \<and> arena s' = arena s \<and> clientMgr s' = clientMgr s
    | None \<Rightarrow> que s = [])"
  by (rule Loop_ok [OF assms])

definition heap_empty :: heap where
  "heap_empty = \<lparr>nodes = Map.empty, strs = Map.empty, brk = 0, avail = (\<lambda>_. True), global_error = None\<rparr>"

lemma server0_loop: "Loop demo (heap_empty, server0) = Some (None, False, heap_empty,
    server0\<lparr>arena := ArenaReset (arena server0), scan_count := 2\<rparr>)"
  by (simp add: Loop_def UpdateEvent_def ScanClientCacheData_def EpollWait_def server0_def demo_def i32_def)

theorem loop_keeps_invariant_witness:
  "server_ok (server0\<lparr>arena := ArenaReset (arena server0), scan_count := 2\<rparr>) \<and> (case (None :: RuruEvent option) of
      Some e \<Rightarrow> que server0 = e # que (server0\<lparr>arena := ArenaReset (arena server0), scan_count := 2\<rparr>)
        \<and> arena (server0\<lparr>arena := ArenaReset (arena server0), scan_count := 2\<rparr>) = arena server0
        \<and> clientMgr (server0\<lparr>arena := ArenaReset (arena server0), scan_count := 2\<rparr>) = clientMgr server0
    | None \<Rightarrow> que server0 = [])"
  by (rule loop_keeps_invariant [OF server0_ok server0_loop])

text \<open>
  C20: the same over any number of iterations of the echo server: from a state that meets the
  invariant, every state between two iterations meets it.
\<close>
theorem echo_server_invariant:
  assumes "serving k (h, s) es" and "server_ok s"
  shows "server_ok (snd (snd es))"
  by (rule serving_server_ok [OF assms])

theorem echo_server_invariant_witness:
  "server_ok (snd (snd (RuruEvent_new, heap_empty, server0)))"
  by (rule echo_server_invariant [OF serving.start server0_ok])

text \<open>
  C21: while events are queued, nothing that happens to a client between two calls of \<open>Loop\<close> changes
  the payload of a queued event: sending, heart beats and incoming packets only add events after it.
\<close>
theorem queued_payload_stable:
  assumes "server_ok s" and "e \<in> set (que s)"
    and "dispatch k d s = Some s' \<or> HandleDtlsPacket k i data s = Some s'"
  shows "e \<in> set (que s') \<and> payload s' e = payload s e"
proof -
  have "safe_step s s'" using assms(3) dispatch_step HandleDtlsPacket_step by blast
  then have sv: "serves s s'" by (rule safe_serves)
  then obtain new where "que s' = que s @ new" using assms(1) by (auto simp: serves_def)
  then show ?thesis using serves_payload [OF sv assms(1,2)] assms(2) by simp
qed

definition data_event :: RuruEvent where
  "data_event = \<lparr>ev_type = EVT_RecvClientData, ev_client = Some 0, ev_data = Some 0, ev_length = 2,
     ev_param = \<lparr>par_sid = 1, par_ssn = 0, par_tsn = 0\<rparr>\<rparr>"

definition server1 :: "host server" where
  "server1 = server0\<lparr>que := [data_event], arena := \<lparr>arena.memory = [104, 105, 0, 0, 0, 0, 0, 0], pos = 2, capacity = 8\<rparr>\<rparr>"

lemma server1_ok: "server_ok server1"
  using server0_ok
  by (simp add: server_ok_def server1_def server0_def arena_wf_def events_ok_def data_event_def ev_block_def)

theorem queued_payload_stable_witness:
  "data_event \<in> set (que server1) \<and> payload server1 data_event = payload server1 data_event"
  by (rule queued_payload_stable [where k = demo and d = RuruEvent_new, OF server1_ok])
    (simp_all add: server1_def dispatch_def RuruEvent_new_def)

text \<open>
  C27: once datagrams from an address belong to a client they belong to that client for ever: no turn
  of the loop, in which clients may be added for any addresses, changes the client an address is
  routed to.
\<close>
theorem routing_is_stable:
  assumes "server_ok s" and "Loop k (h, s) = Some (ev, b, h', s')" and "FindClientByAddress a s = Some i"
  shows "FindClientByAddress a s' = Some i"
proof -
  obtain r s1 where u: "UpdateEvent s = (r, s1)" by fastforce
  have ok: "server_ok s1" "clientMgr s1 = clientMgr s"
    using UpdateEvent_ok [OF assms(1) u] u by (auto simp: UpdateEvent_def split: list.splits)
  have "\<exists>more. map address (clientMgr s') = map address (clientMgr s) @ more"
  proof (cases r)
    case (Some e)
    then show ?thesis using assms(2) u ok by (auto simp: Loop_def)
  next
    case None
    then obtain b1 s2 b2 where "ScanClientCacheData s1 = Some (b1, s2)" "EpollWait k (h, s2) = Some (b2, h', s')"
      using assms(2) u by (auto simp: Loop_def bind_eq_Some_conv)
    then have "serves s1 s'" using ScanClientCacheData_step EpollWait_step serves_trans by blast
    then show ?thesis using ok by (simp add: serves_def)
  qed
  then obtain more where m: "map address (clientMgr s') = map address (clientMgr s) @ more" by blast
  have i: "i < length (clientMgr s)" "\<forall>j<i. \<not> (host (address (clientMgr s ! j)) = host a \<and> port (address (clientMgr s ! j)) = port a)"
      "host (address (clientMgr s ! i)) = host a \<and> port (address (clientMgr s ! i)) = port a"
    using assms(3) by (auto simp: FindClientByAddress_def find_Some_iff)
  have len: "length (clientMgr s) \<le> length (clientMgr s')"
    using arg_cong [OF m, of length] by simp
  have "address (clientMgr s' ! j) = address (clientMgr s ! j)" if "j < length (clientMgr s)" for j
    using that len arg_cong [OF m, of "\<lambda>l. l ! j"] by (simp add: nth_append)
  then show ?thesis
    using i len by (auto simp: FindClientByAddress_def find_Some_iff intro!: exI [of _ i])
qed

theorem routing_is_stable_witness:
  "FindClientByAddress \<lparr>host = 0x7F000001, port = 9000\<rparr>
     (server0\<lparr>arena := ArenaReset (arena server0), scan_count := 2\<rparr>) = Some 0"
  by (rule routing_is_stable [OF server0_ok server0_loop])
    (simp add: FindClientByAddress_def server0_def client0_def)

section \<open>Requests\<close>

text \<open>
  C7: \<open>BodyParse\<close> on a body \<open>m\<close>: a negative length is refused; without a terminator in the buffer \<open>strlen\<close>
  leaves it, which is undefined; with one the function returns and leaves no allocation behind.
  Then its result is the address that the reference parser's tree names with its members "ip" and "port",
  none when the text is not JSON or lacks them. When an allocation failed, and only then, it may also be
  none for a text with an address.
\<close>
theorem body_parse_address:
  assumes "heap_wf h"
  shows "if len < 0 then BodyParse k m len h = Some (None, h)
    else if 0 \<notin> set m then BodyParse k m len h = None
    else \<exists>r h'. BodyParse k m len h = Some (r, h') \<and> nodes h' = nodes h \<and> strs h' = strs h
      \<and> (let ref = ref_text m (Suc (length (takeWhile (\<lambda>c. c \<noteq> 0) m))) False \<bind> (\<lambda>(t, q). body_address k t)
         in if oom h h' then r = ref \<or> r = None else r = ref)"
proof -
  have "cJSON_Parse (Some m) h = None" if "0 \<notin> set m"
    using that by (simp add: cJSON_Parse_def cJSON_ParseWithOpts_def c_strlen_def)
  then have "BodyParse k m len h = None" if "0 \<notin> set m" "0 \<le> len" using that by (simp add: BodyParse_def)
  moreover have "BodyParse k m len h = Some (None, h)" if "len < 0" using that by (simp add: BodyParse_def)
  moreover have "\<exists>r h'. BodyParse k m len h = Some (r, h') \<and> nodes h' = nodes h \<and> strs h' = strs h
      \<and> (let ref = ref_text m (Suc (length (takeWhile (\<lambda>c. c \<noteq> 0) m))) False \<bind> (\<lambda>(t, q). body_address k t)
         in if oom h h' then r = ref \<or> r = None else r = ref)" if "0 \<in> set m" "0 \<le> len"
  proof -
    note in_text = that
    obtain r h' where "BodyParse k m len h = Some (r, h')" "nodes h' = nodes h" "strs h' = strs h"
        "let ref = ref_text m (Suc (length (takeWhile (\<lambda>c. c \<noteq> 0) m))) False \<bind> (\<lambda>(t, q). body_address k t)
         in r = ref \<or> r = None \<and> oom h h'"
      using BodyParse_result [OF assms in_text, of k] by blast
    then show ?thesis unfolding Let_def by (intro exI [of _ r] exI [of _ h'] conjI) (simp_all, blast)
  qed
  ultimately show ?thesis by simp
qed

lemma heap_empty_wf: "heap_wf heap_empty"
  by (simp add: heap_wf_def heap_empty_def)

theorem body_parse_address_witness:
  "(\<exists>r h'. BodyParse demo (ascii ''[1]'' @ [0]) 3 heap_empty = Some (r, h') \<and> nodes h' = nodes heap_empty
      \<and> strs h' = strs heap_empty
      \<and> (let ref = ref_text (ascii ''[1]'' @ [0]) (Suc (length (takeWhile (\<lambda>c. c \<noteq> 0) (ascii ''[1]'' @ [0])))) False
            \<bind> (\<lambda>(t, q). body_address demo t)
         in if oom heap_empty h' then r = ref \<or> r = None else r = ref))
    \<and> BodyParse demo (ascii ''[1]'') 3 heap_empty = None"
  using body_parse_address [OF heap_empty_wf, of 3 demo "ascii ''[1]'' @ [0]"]
    body_parse_address [OF heap_empty_wf, of 3 demo "ascii ''[1]''"] by (simp add: ascii_def)

text \<open>
  when a connection becomes readable but \<open>read\<close> reports \<open>EAGAIN\<close> before any byte arrived, the
  handler adds the -1 to the length and parses with it: the access is undefined.
\<close>
theorem spurious_wakeup_undefined:
  assumes "conns s p = Some c" and "con_length c = 0"
    and "sys_read k (con_fd c) 4096 (world s) = (-1, [], w)" and "sys_errno k w = 11"
  shows "HttpRequestHandle k p (h, s) = None"
  using assms
  by (subst HttpRequestHandle.simps) (simp add: http_turn_def memcpy_at_def)

theorem spurious_wakeup_undefined_witness:
  "HttpRequestHandle demo 1 (heap_empty, server0) = None"
  by (rule spurious_wakeup_undefined [where w = host0 and c = "conn_new\<lparr>con_fd := 6\<rparr>"])
    (simp_all add: server0_def conn_new_def demo_def host0_def)

text \<open>\<open>n\<close> turns of the loop of \<open>HttpRequestHandle\<close>, none of which returns.\<close>

fun http_turns :: "('w, 'z) usrsctp_scheme \<Rightarrow> nat \<Rightarrow> nat \<Rightarrow> 'w process \<Rightarrow> 'w process option" where
  "http_turns k p 0 hs = Some hs"
| "http_turns k p (Suc n) hs = do { (fin, hs') \<leftarrow> http_turn k p hs; if fin then None else http_turns k p n hs' }"

lemma http_turns_SucE:
  assumes "http_turns k p (Suc n) hs = Some hs'"
  obtains hs1 where "http_turn k p hs = Some (False, hs1)" "http_turns k p n hs1 = Some hs'"
  using assms by (cases "http_turn k p hs") (auto split: if_splits)

lemma http_turns_Suc:
  "http_turns k p n hs = Some hs' \<Longrightarrow> http_turn k p hs' = Some (False, hs'') \<Longrightarrow> http_turns k p (Suc n) hs = Some hs''"
proof (induction n arbitrary: hs)
  case (Suc n)
  from Suc.prems(1) obtain hs1 where "http_turn k p hs = Some (False, hs1)" "http_turns k p n hs1 = Some hs'"
    by (rule http_turns_SucE)
  then show ?case using Suc.IH [OF _ Suc.prems(2)] by (simp only: http_turns.simps) simp
qed simp

lemma http_turns_undefined:
  "http_turns k p n hs = Some hs' \<Longrightarrow> http_turn k p hs' = None \<Longrightarrow> HttpRequestHandle k p hs = None"
proof (induction n arbitrary: hs)
  case 0
  then show ?case by (subst HttpRequestHandle.simps) simp
next
  case (Suc n)
  from Suc.prems(1) obtain hs1 where "http_turn k p hs = Some (False, hs1)" "http_turns k p n hs1 = Some hs'"
    by (rule http_turns_SucE)
  then show ?case using Suc.IH [OF _ Suc.prems(2)] by (subst HttpRequestHandle.simps) simp
qed

definition at_length :: "nat \<Rightarrow> conn \<Rightarrow> nat \<Rightarrow> 'w server \<Rightarrow> 'w server" where
  "at_length p c l s = s\<lparr>conns := (conns s)(p \<mapsto> c\<lparr>con_length := int l\<rparr>)\<rparr>"

text \<open>
  C26: a request that arrives in two pieces is lost: when the first \<open>n\<close> bytes are incomplete, and so is
  every shorter text by the check for the end of the headers, and \<open>read\<close> reports \<open>EAGAIN\<close> because
  the second piece is not there yet, the handler does not wait for it. Every turn adds the result -1 to
  the length: after \<open>j\<close> turns \<open>n - j\<close> of the \<open>n\<close> bytes received are left and nothing else has changed; the
  turn after \<open>n\<close> of them, which makes the length -1, is undefined, and so is the call.
\<close>
theorem split_request_undefined:
  assumes "conns s p = Some c" and "con_length c = int n" "n \<le> 4096" "length (con_data c) = 4096"
    and "\<And>l. l < n \<Longrightarrow> phr_parse_request (con_data c) l 16 (Suc l) = Some (-2, None)"
    and "\<And>l. sys_read k (con_fd c) l (world s) = (-1, [], world s)" and "sys_errno k (world s) = 11"
  shows "(\<forall>j\<le>n. http_turns k p j (h, s) = Some (h, at_length p c (n - j) s))
    \<and> http_turn k p (h, at_length p c 0 s) = None \<and> HttpRequestHandle k p (h, s) = None"
proof -
  have step: "http_turn k p (h, at_length p c (Suc l) s) = Some (False, h, at_length p c l s)" if "l < n" for l
    using assms(3-7) that by (simp add: http_turn_def http_dispatch_def at_length_def memcpy_at_def nat_add_distrib)
  have turns: "http_turns k p j (h, s) = Some (h, at_length p c (n - j) s)" if "j \<le> n" for j
    using that
  proof (induction j)
    case 0
    have "c\<lparr>con_length := int n\<rparr> = c" using assms(2) by (cases c) simp
    then show ?case using assms(1) by (simp add: at_length_def fun_upd_idem)
  next
    case (Suc j)
    have "http_turn k p (h, at_length p c (n - j) s) = Some (False, h, at_length p c (n - Suc j) s)"
      using step [of "n - Suc j"] Suc.prems by (simp add: Suc_diff_Suc)
    then show ?case using Suc by (intro http_turns_Suc) auto
  qed
  have last: "http_turn k p (h, at_length p c 0 s) = None"
    using assms(4,6,7) by (simp add: http_turn_def at_length_def memcpy_at_def)
  show ?thesis using turns last http_turns_undefined [OF turns [OF order_refl]] by simp
qed

definition split_conn :: conn where
  "split_conn = \<lparr>con_fd = 6, con_data = [71, 69] @ replicate 4094 0, con_length = 2\<rparr>"

lemma split_conn_incomplete: "l < 2 \<Longrightarrow> phr_parse_request (con_data split_conn) l 16 (Suc l) = Some (-2, None)"
  using is_complete_loop.simps [of "con_data split_conn" 0 0 0] is_complete_loop.simps [of "con_data split_conn" 1 0 0]
    is_complete_loop.simps [of "con_data split_conn" 1 0 1]
  by (auto simp: less_2_cases_iff split_conn_def phr_parse_request_def is_complete_def check_eof_def deref_def)

theorem split_request_undefined_witness:
  "http_turns demo 1 2 (heap_empty, server0\<lparr>conns := [1 \<mapsto> split_conn]\<rparr>)
      = Some (heap_empty, at_length 1 split_conn 0 (server0\<lparr>conns := [1 \<mapsto> split_conn]\<rparr>))
    \<and> HttpRequestHandle demo 1 (heap_empty, server0\<lparr>conns := [1 \<mapsto> split_conn]\<rparr>) = None"
  using split_request_undefined [of "server0\<lparr>conns := [1 \<mapsto> split_conn]\<rparr>" 1 split_conn 2 demo heap_empty, OF _ _ _ _ split_conn_incomplete]
  by (simp add: split_conn_def demo_def host0_def)

section \<open>Construction\<close>

lemma epoll_watch_fields:
  "epoll_watch k ep fd s = (r, s') \<Longrightarrow> udp_fd s' = udp_fd s \<and> tcp_fd s' = tcp_fd s \<and> ep_fd s' = ep_fd s
    \<and> ev_array s' = ev_array s \<and> clientMgr s' = clientMgr s \<and> que s' = que s \<and> arena s' = arena s
    \<and> usrsctpInit s' = usrsctpInit s"
  by (auto simp: epoll_watch_def new_connection_def split: prod.splits)

text \<open>
  C40: the constructor of the loop, by the results of the calls it makes in turn, for a port that is a number.
  Without a UDP socket it gives up and leaves the other members uninitialised. When any later step
  fails it calls \<open>Destory\<close> on an object whose event array, and after a failure before the TCP socket whose
  TCP descriptor, was never initialised, which is undefined. Only when every step succeeds is there a new
  server with its sockets, its event array and usrsctp, and it meets the invariant.
\<close>
theorem constructor_all_or_undefined:
  assumes "loop_object init count w = Some s" and "CreateUdpSocket k hst prt w = Some (u, w1)"
    and "SetNonBlocking k u w1 = (r1, w2)" and "CreateTcpSocket k hst prt w2 = Some (t, w3)"
    and "SetNonBlocking k t w3 = (r2, w4)" and "sys_listen k t SOMAXCONN w4 = (r3, w5)"
    and "sys_epoll_create k w5 = (ep, w6)"
    and "epoll_watch k ep u (s\<lparr>udp_fd := Some u, tcp_fd := Some t, ep_fd := Some ep, world := w6\<rparr>) = (r4, s4)"
    and "epoll_watch k ep t s4 = (r5, s5)"
  shows "if u < 0 then RuruLoop_new k hst prt s = Some (s\<lparr>udp_fd := Some u, world := w1\<rparr>)
    else if r1 < 0 \<or> t < 0 \<or> r2 < 0 \<or> r3 < 0 \<or> ep < 0 \<or> r4 = -1 \<or> r5 = -1
    then \<exists>st. RuruLoop_new k hst prt s = Destory k st \<and> Destory k st = None \<and> udp_fd st = Some u
      \<and> tcp_fd st = (if r1 < 0 then None else Some t) \<and> ev_array st = None
    else \<exists>s'. RuruLoop_new k hst prt s = Some s' \<and> s' = UsrsctpStartInit k (s5\<lparr>ev_array := Some True\<rparr>) \<and> server_ok s'
      \<and> udp_fd s' = Some u \<and> tcp_fd s' = Some t \<and> ep_fd s' = Some ep \<and> ev_array s' = Some True \<and> usrsctpInit s'"
proof -
  obtain a where a: "RuruArena 20 = Some a" and s: "s = \<lparr>udp_fd = None, tcp_fd = None, ep_fd = None, ev_array = None,
      clientMgr = [], que = [], arena = a, conns = Map.empty, next_conn = 1, usrsctpInit = init, scan_count = count,
      world = w\<rparr>"
    using assms(1) by (auto simp: loop_object_def bind_eq_Some_conv)
  note wf = RuruArena_wf [OF a]
  have D: "Destory k st = None" if "ev_array st = None" for st
    using that by (auto simp: Destory_def Let_def bind_eq_None_conv split: option.splits)
  note f = epoll_watch_fields [OF assms(8)] epoll_watch_fields [OF assms(9)]
  have w: "world s = w" by (simp add: s)
  have fails: ?thesis if "RuruLoop_new k hst prt s = Destory k st" "ev_array st = None" "udp_fd st = Some u"
      "tcp_fd st = (if r1 < 0 then None else Some t)" "\<not> u < 0" "r1 < 0 \<or> t < 0 \<or> r2 < 0 \<or> r3 < 0 \<or> ep < 0 \<or> r4 = -1 \<or> r5 = -1" for st
  proof -
    have "\<exists>st. RuruLoop_new k hst prt s = Destory k st \<and> Destory k st = None \<and> udp_fd st = Some u
        \<and> tcp_fd st = (if r1 < 0 then None else Some t) \<and> ev_array st = None"
      by (intro exI [of _ st] conjI that(1-4) D)
    with that(5,6) show ?thesis by (simp only: if_False if_True)
  qed
  consider "u < 0" | "\<not> u < 0" "r1 < 0" | "\<not> u < 0" "\<not> r1 < 0" "t < 0" | "\<not> u < 0" "\<not> r1 < 0" "\<not> t < 0" "r2 < 0"
    | "\<not> u < 0" "\<not> r1 < 0" "\<not> t < 0" "\<not> r2 < 0" "r3 < 0" | "\<not> u < 0" "\<not> r1 < 0" "\<not> t < 0" "\<not> r2 < 0" "\<not> r3 < 0" "ep < 0"
    | "\<not> u < 0" "\<not> r1 < 0" "\<not> t < 0" "\<not> r2 < 0" "\<not> r3 < 0" "\<not> ep < 0" "r4 = -1"
    | "\<not> u < 0" "\<not> r1 < 0" "\<not> t < 0" "\<not> r2 < 0" "\<not> r3 < 0" "\<not> ep < 0" "r4 \<noteq> -1" "r5 = -1"
    | "\<not> u < 0" "\<not> r1 < 0" "\<not> t < 0" "\<not> r2 < 0" "\<not> r3 < 0" "\<not> ep < 0" "r4 \<noteq> -1" "r5 \<noteq> -1"
    by blast
  then show ?thesis
  proof cases
    case 1
    then show ?thesis using assms(2) by (simp add: RuruLoop_new_def w)
  next
    case 2
    then show ?thesis using assms(2,3) by (intro fails [of "s\<lparr>udp_fd := Some u, world := w2\<rparr>"]) (simp_all add: RuruLoop_new_def w, simp_all add: s)
  next
    case 3
    then show ?thesis using assms(2-4)
      by (intro fails [of "s\<lparr>udp_fd := Some u, tcp_fd := Some t, world := w3\<rparr>"]) (simp_all add: RuruLoop_new_def w, simp_all add: s)
  next
    case 4
    then show ?thesis using assms(2-5)
      by (intro fails [of "s\<lparr>udp_fd := Some u, tcp_fd := Some t, world := w4\<rparr>"]) (simp_all add: RuruLoop_new_def w, simp_all add: s)
  next
    case 5
    then show ?thesis using assms(2-6)
      by (intro fails [of "s\<lparr>udp_fd := Some u, tcp_fd := Some t, world := w5\<rparr>"]) (simp_all add: RuruLoop_new_def w, simp_all add: s)
  next
    case 6
    then show ?thesis using assms(2-7)
      by (intro fails [of "s\<lparr>udp_fd := Some u, tcp_fd := Some t, ep_fd := Some ep, world := w6\<rparr>"])
        (simp_all add: RuruLoop_new_def w, simp_all add: s)
  next
    case 7
    then show ?thesis using assms(2-8) f by (intro fails [of s4]) (simp_all add: RuruLoop_new_def w, simp_all add: s)
  next
    case 8
    then show ?thesis using assms(2-9) f by (intro fails [of s5]) (simp_all add: RuruLoop_new_def w, simp_all add: s)
  next
    case 9
    let ?s = "UsrsctpStartInit k (s5\<lparr>ev_array := Some True\<rparr>)"
    have "RuruLoop_new k hst prt s = Some ?s" using 9 assms(2-9) by (simp add: RuruLoop_new_def w)
    moreover have "server_ok ?s" "udp_fd ?s = Some u" "tcp_fd ?s = Some t" "ep_fd ?s = Some ep" "ev_array ?s = Some True" "usrsctpInit ?s"
      using f wf by (auto simp: s UsrsctpStartInit_def server_ok_def events_ok_def)
    ultimately show ?thesis using 9 by auto
  qed
qed

definition object0 :: "host \<Rightarrow> host server" where
  "object0 w = \<lparr>udp_fd = None, tcp_fd = None, ep_fd = None, ev_array = None, clientMgr = [], que = [],
     arena = \<lparr>arena.memory = replicate 1048576 0, pos = 0, capacity = 1048576\<rparr>, conns = Map.empty, next_conn = 1,
     usrsctpInit = False, scan_count = 0, world = w\<rparr>"

lemma object0_new: "loop_object False 0 w = Some (object0 w)"
  by (simp add: loop_object_def RuruArena_def object0_def)

text \<open>A kernel that refuses to listen.\<close>

theorem constructor_all_or_undefined_witness:
  "\<exists>st. RuruLoop_new demo [48, 0] [57, 0] (object0 (host0\<lparr>h_fail := -4\<rparr>)) = Destory demo st \<and> Destory demo st = None
    \<and> udp_fd st = Some 3 \<and> tcp_fd st = Some 4 \<and> ev_array st = None"
proof -
  let ?w = "host0\<lparr>h_fail := -4\<rparr>"
  let ?w1 = "?w\<lparr>h_flags := (h_flags ?w)(3 := 2050)\<rparr>"
  let ?w2 = "?w1\<lparr>h_flags := (h_flags ?w1)(4 := 2050)\<rparr>"
  have p: "CreateUdpSocket demo [48, 0] [57, 0] ?w = Some (3, ?w)" "SetNonBlocking demo 3 ?w = (0, ?w1)"
      "CreateTcpSocket demo [48, 0] [57, 0] ?w1 = Some (4, ?w1)" "SetNonBlocking demo 4 ?w1 = (0, ?w2)"
      "sys_listen demo 4 SOMAXCONN ?w2 = (-1, ?w2)" "sys_epoll_create demo ?w2 = (5, ?w2)"
    by (simp_all add: CreateUdpSocket_def CreateTcpSocket_def SetNonBlocking_def atoi_def is_space_def is_digit_def digits_val_def
        i32_def demo_def host0_def)
  obtain r4 s4 r5 s5 where e: "epoll_watch demo 5 3 ((object0 ?w)\<lparr>udp_fd := Some 3, tcp_fd := Some 4, ep_fd := Some 5, world := ?w2\<rparr>) = (r4, s4)"
      "epoll_watch demo 5 4 s4 = (r5, s5)"
    by fastforce
  from constructor_all_or_undefined [OF object0_new p e] show ?thesis by simp
qed

section \<open>The echo server\<close>

text \<open>
  C28: an iteration that finds a received message in the queue submits exactly its payload, on the
  stream it came from, to the client it came from.
\<close>
theorem echo_replies_with_payload:
  assumes "server_ok s" and "que s = e # q" and "ev_type e = EVT_RecvClientData" "ev_data e \<noteq> None"
    and "ev_client e = Some i"
  shows "main_turn k (evt, h, s) =
    (case SendUsrSctpData k i (Some \<lparr>msg_data = payload s e,
         msg_param = \<lparr>sid = word_of_int (par_sid (ev_param e)), ppid = 0\<rparr>\<rparr>) (s\<lparr>que := q\<rparr>) of
       None \<Rightarrow> None
     | Some (b, s') \<Rightarrow> Some (e, h, s'))"
proof -
  obtain off where off: "ev_data e = Some off" using assms(4) by auto
  have "off + unat (ev_length e) \<le> nat (pos (arena s))"
    using assms(1,2) blocks_in [of e "que s" off] off unfolding server_ok_def events_ok_def by fastforce
  then have "off + unat (ev_length e) \<le> length (arena.memory (arena s))"
    using assms(1) by (auto simp: server_ok_def arena_wf_def)
  then show ?thesis
    using assms off
    by (auto simp: main_turn_def Loop_def UpdateEvent_def dispatch_def Echo2Client_def event_message_def payload_def
        split: option.split)
qed

theorem echo_replies_with_payload_witness:
  "main_turn demo (RuruEvent_new, heap_empty, server1) =
    (case SendUsrSctpData demo 0 (Some \<lparr>msg_data = payload server1 data_event,
         msg_param = \<lparr>sid = word_of_int (par_sid (ev_param data_event)), ppid = 0\<rparr>\<rparr>) (server1\<lparr>que := []\<rparr>) of
       None \<Rightarrow> None
     | Some (b, s') \<Rightarrow> Some (data_event, heap_empty, s'))"
  by (rule echo_replies_with_payload [OF server1_ok]) (simp_all add: server1_def data_event_def)

text \<open>A kernel on which the listening socket is always reported readable, without a connection.\<close>

definition busy :: "host usrsctp" where
  "busy = demo\<lparr>sys_epoll_wait := \<lambda>ep n w. ([(1, 1)], w)\<rparr>"

definition server2 :: "host server" where
  "server2 = server1\<lparr>conns := [1 \<mapsto> conn_new\<lparr>con_fd := 4\<rparr>]\<rparr>"

lemma busy_echo:
  "main_turn busy (evt, heap_empty, server2) = Some (data_event, heap_empty, server2\<lparr>que := [],
     world := host0\<lparr>h_log := [(Some 7, [104, 105], sndinfo_of \<lparr>sid = 1, ppid = 0\<rparr>)]\<rparr>\<rparr>)"
  by (simp add: main_turn_def Loop_def UpdateEvent_def server2_def server1_def server0_def dispatch_def Echo2Client_def
      event_message_def data_event_def chunk_def SendUsrSctpData_def SendSctpCacheData_def SendCache_loop.simps
      get_client_def client0_def busy_def demo_def host0_def)

lemma busy_loop:
  "que s = [] \<Longrightarrow> udp_fd s = Some 3 \<Longrightarrow> tcp_fd s = Some 4 \<Longrightarrow> ep_fd s = Some 5 \<Longrightarrow> scan_count s = 1 \<Longrightarrow>
   conns s 1 = Some (conn_new\<lparr>con_fd := 4\<rparr>) \<Longrightarrow>
   Loop busy (h, s) = Some (None, True, h, s\<lparr>arena := ArenaReset (arena s), scan_count := 2\<rparr>)"
  by (simp add: Loop_def UpdateEvent_def ScanClientCacheData_def i32_def EpollWait_def epoll_event_def
      accept_loop.simps busy_def demo_def)

text \<open>
  the application sends a message twice: after the iteration that echoed the only queued event,
  a call of \<open>Loop\<close> that returns \<open>true\<close> because a socket was readable leaves the event variable as it
  was, and the same message is submitted again, read from the arena that was already reset.
\<close>
theorem stale_event_sent_twice:
  "\<exists>es1 es2. main_turn busy (RuruEvent_new, heap_empty, server2) = Some es1 \<and> main_turn busy es1 = Some es2
    \<and> h_log (world (snd (snd es1))) = [(Some 7, [104, 105], sndinfo_of \<lparr>sid = 1, ppid = 0\<rparr>)]
    \<and> h_log (world (snd (snd es2))) =
        [(Some 7, [104, 105], sndinfo_of \<lparr>sid = 1, ppid = 0\<rparr>), (Some 7, [104, 105], sndinfo_of \<lparr>sid = 1, ppid = 0\<rparr>)]"
proof -
  let ?s = "server2\<lparr>que := [], world := host0\<lparr>h_log := [(Some 7, [104, 105], sndinfo_of \<lparr>sid = 1, ppid = 0\<rparr>)]\<rparr>\<rparr>"
  have "Loop busy (heap_empty, ?s) = Some (None, True, heap_empty, ?s\<lparr>arena := ArenaReset (arena ?s), scan_count := 2\<rparr>)"
    by (rule busy_loop) (simp_all add: server2_def server1_def server0_def)
  then have "\<exists>es2. main_turn busy (data_event, heap_empty, ?s) = Some es2 \<and> h_log (world (snd (snd es2))) =
        [(Some 7, [104, 105], sndinfo_of \<lparr>sid = 1, ppid = 0\<rparr>), (Some 7, [104, 105], sndinfo_of \<lparr>sid = 1, ppid = 0\<rparr>)]"
    by (simp add: main_turn_def dispatch_def Echo2Client_def event_message_def data_event_def chunk_def
        SendUsrSctpData_def SendSctpCacheData_def SendCache_loop.simps get_client_def server2_def server1_def
        server0_def client0_def ArenaReset_def busy_def demo_def host0_def)
  then show ?thesis using busy_echo [of RuruEvent_new] by auto
qed

end
