(* ===== verification/Dtls.thy ===== *)
theory Dtls
  imports Prelude "HOL-Library.State_Monad"
begin

text \<open>
  \<^verbatim>\<open>RuruCert.cpp\<close>, \<^verbatim>\<open>RuruDtls.cpp\<close>: the certificate, the DTLS context and the handle of a client. They
  are sequences of calls of OpenSSL with tests of the results between them; a call is a value of
  \<open>ssl_call\<close> or \<open>cert_call\<close>, the library a function from calls to results on a world \<open>'w\<close>. Pointers are integers,
  0 is the null pointer. The definitions are in the state monad of that world; a result \<open>None\<close> is
  undefined behaviour.
\<close>

section \<open>The calls\<close>

datatype cert_call =
    EVP_PKEY_new
  | EVP_PKEY_assign_RSA int int
  | EVP_PKEY_free int
  | X509_new
  | X509_set_pubkey int int
  | X509_get_serialNumber int
  | X509_set_version int int
  | X509_set_subject_name int int
  | X509_set_issuer_name int int
  | X509_get_notBefore int
  | X509_get_notAfter int
  | X509_gmtime_adj int int
  | X509_sign_sha1 int int
  | X509_free int
  | X509_NAME_new
  | X509_NAME_add_commonName int bytes
  | X509_NAME_free int
  | BN_new
  | BN_set_word int int
  | BN_pseudo_rand int int int int
  | BN_to_ASN1_INTEGER int int
  | BN_free int
  | RSA_new
  | RSA_generate_key_ex int int int

datatype ssl_call =
    SSL_library_init
  | SSL_load_error_strings
  | ERR_load_BIO_strings
  | ERR_load_crypto_strings
  | OpenSSL_add_all_algorithms
  | ERR_print_errors
  | SSL_CTX_new_DTLS
  | SSL_CTX_set_cipher_list int bytes
  | SSL_CTX_set_verify_NONE int
  | SSL_CTX_set_read_ahead int int
  | SSL_CTX_set_ecdh_auto int int
  | SSL_CTX_use_PrivateKey int int
  | SSL_CTX_use_certificate int int
  | SSL_CTX_check_private_key int
  | SSL_CTX_free int
  | SSL_new_from int
  | BIO_new_mem
  | BIO_set_mem_eof_return int int
  | SSL_set_bio int int int
  | SSL_set_options_SINGLE_ECDH_USE int
  | SSL_set_options_NO_RESUMPTION int
  | EC_KEY_new_prime256v1
  | SSL_set_tmp_ecdh int int
  | SSL_set_accept_state int
  | SSL_set_connect_state int
  | SSL_set_mtu int int
  | SSL_free int

text \<open>
  \<open>X509_digest\<close> fills a buffer of the caller and sets the length; a failing call does neither.
\<close>

record 'w crypto =
  lib_ssl :: "ssl_call \<Rightarrow> 'w \<Rightarrow> int \<times> 'w"
  lib_cert :: "cert_call \<Rightarrow> 'w \<Rightarrow> int \<times> 'w"
  X509_digest_sha256 :: "int \<Rightarrow> 'w \<Rightarrow> bytes option \<times> 'w"

definition call :: "('w, 'z) crypto_scheme \<Rightarrow> ssl_call \<Rightarrow> ('w, int) state" where
  "call lib c = State (lib_ssl lib c)"

definition cert_lib :: "('w, 'z) crypto_scheme \<Rightarrow> cert_call \<Rightarrow> ('w, int) state" where
  "cert_lib lib c = State (lib_cert lib c)"

section \<open>The fingerprint\<close>

definition upper_hex :: "nat \<Rightarrow> byte" where
  "upper_hex n = (if n < 10 then 48 + of_nat n else 55 + of_nat n)"

definition sprintf_02X :: "byte \<Rightarrow> bytes" where
  "sprintf_02X b = [upper_hex (unat b div 16), upper_hex (unat b mod 16)]"

text \<open>\<open>snprintf\<close> of \<open>s\<close> with the size \<open>n\<close> at the index \<open>p\<close> of an array.\<close>

definition snprintf_at :: "nat \<Rightarrow> nat \<Rightarrow> bytes \<Rightarrow> byte option list \<Rightarrow> byte option list option" where
  "snprintf_at p n s arr =
     (let t = take (n - 1) s @ [0] in
      if p + length t \<le> length arr then Some (take p arr @ map Some t @ drop (p + length t) arr) else None)"

function fingerprint_loop :: "bytes \<Rightarrow> nat \<Rightarrow> nat \<Rightarrow> byte option list \<Rightarrow> byte option list option" where
  "fingerprint_loop buffer len i fp =
     (if i < len
      then do {
        b \<leftarrow> (if i < length buffer then Some (buffer ! i) else None);
        fp1 \<leftarrow> (if i < 31 then snprintf_at (i * 3) 4 (sprintf_02X b @ [58]) fp
                else snprintf_at (i * 3) 3 (sprintf_02X b) fp);
        fingerprint_loop buffer len (i + 1) fp1
      }
      else Some fp)"
  by pat_completeness auto
termination by (relation "measure (\<lambda>(buffer, len, i, fp). len - i)") auto

declare fingerprint_loop.simps [simp del]

definition fingerprint :: "bytes option \<Rightarrow> byte option list option" where
  "fingerprint digest =
     do {
       (buffer, len) \<leftarrow> (case digest of
           None \<Rightarrow> Some (replicate 32 0, 32)
         | Some d \<Rightarrow> if length d \<le> 32 then Some (d @ replicate (32 - length d) 0, length d) else None);
       fp \<leftarrow> fingerprint_loop buffer len 0 (replicate 96 None);
       Some (fp[95 := Some 0])
     }"

section \<open>\<^verbatim>\<open>RuruCert.cpp\<close>\<close>

record cert =
  key :: int
  x509 :: int
  fingerPrint :: "byte option list"

definition RuruCert_new :: "('w, 'z) crypto_scheme \<Rightarrow> ('w, cert option) state" where
  "RuruCert_new lib =
     do {
       k \<leftarrow> cert_lib lib EVP_PKEY_new;
       x \<leftarrow> cert_lib lib X509_new;
       exponent \<leftarrow> cert_lib lib BN_new;
       rsa \<leftarrow> cert_lib lib RSA_new;
       cert_lib lib (BN_set_word exponent 65537);
       cert_lib lib (RSA_generate_key_ex rsa 1024 exponent);
       cert_lib lib (EVP_PKEY_assign_RSA k rsa);
       cert_lib lib (X509_set_pubkey x k);
       serial_number \<leftarrow> cert_lib lib BN_new;
       cert_lib lib (BN_pseudo_rand serial_number 64 0 0);
       asn1_serial_number \<leftarrow> cert_lib lib (X509_get_serialNumber x);
       cert_lib lib (BN_to_ASN1_INTEGER serial_number asn1_serial_number);
       cert_lib lib (X509_set_version x 0);
       nm \<leftarrow> cert_lib lib X509_NAME_new;
       cert_lib lib (X509_NAME_add_commonName nm (ascii ''rurusocket''));
       cert_lib lib (X509_set_subject_name x nm);
       cert_lib lib (X509_set_issuer_name x nm);
       before \<leftarrow> cert_lib lib (X509_get_notBefore x);
       cert_lib lib (X509_gmtime_adj before 0);
       after \<leftarrow> cert_lib lib (X509_get_notAfter x);
       cert_lib lib (X509_gmtime_adj after (365 * 24 * 3600));
       cert_lib lib (X509_sign_sha1 x k);
       digest \<leftarrow> State (X509_digest_sha256 lib x);
       cert_lib lib (BN_free exponent);
       cert_lib lib (BN_free serial_number);
       cert_lib lib (X509_NAME_free nm);
       State_Monad.return (map_option (\<lambda>fp. \<lparr>key = k, x509 = x, fingerPrint = fp\<rparr>) (fingerprint digest))
     }"

definition RuruCert_delete :: "('w, 'z) crypto_scheme \<Rightarrow> cert \<Rightarrow> ('w, int) state" where
  "RuruCert_delete lib c = do { cert_lib lib (EVP_PKEY_free (key c)); cert_lib lib (X509_free (x509 c)) }"

section \<open>\<^verbatim>\<open>RuruDtls.cpp\<close>\<close>

text \<open>The constructor of the context leaves its fingerprint uninitialised on its early returns.\<close>

record dtls_ctx =
  ctx :: int
  certFingerPrint :: "byte option list"

definition cipher_list :: bytes where
  "cipher_list = ascii ''ALL:!ADH:!LOW:!EXP:!MD5:@STRENGTH''"

definition report :: "('w, 'z) crypto_scheme \<Rightarrow> dtls_ctx \<Rightarrow> ('w, dtls_ctx option) state" where
  "report lib obj = do { call lib ERR_print_errors; State_Monad.return (Some obj) }"

text \<open>The part with the local object \<open>cert\<close>, which is destroyed on every way out.\<close>

definition use_cert :: "('w, 'z) crypto_scheme \<Rightarrow> cert \<Rightarrow> dtls_ctx \<Rightarrow> ('w, dtls_ctx option) state" where
  "use_cert lib c obj =
     do {
       r1 \<leftarrow> call lib (SSL_CTX_use_PrivateKey (ctx obj) (key c));
       if r1 \<noteq> 1 then report lib obj
       else do {
         r2 \<leftarrow> call lib (SSL_CTX_use_certificate (ctx obj) (x509 c));
         if r2 \<noteq> 1 then report lib obj
         else do {
           r3 \<leftarrow> call lib (SSL_CTX_check_private_key (ctx obj));
           if r3 \<noteq> 1 then report lib obj
           else State_Monad.return (Some (obj\<lparr>certFingerPrint := fingerPrint c\<rparr>))
         }
       }
     }"

definition RuruDtlsCtx_new :: "('w, 'z) crypto_scheme \<Rightarrow> ('w, dtls_ctx option) state" where
  "RuruDtlsCtx_new lib =
     do {
       call lib SSL_library_init;
       call lib SSL_load_error_strings;
       call lib ERR_load_BIO_strings;
       call lib ERR_load_crypto_strings;
       call lib OpenSSL_add_all_algorithms;
       c \<leftarrow> call lib SSL_CTX_new_DTLS;
       let obj = \<lparr>ctx = c, certFingerPrint = replicate 96 None\<rparr>;
       if c = 0 then report lib obj
       else do {
         r \<leftarrow> call lib (SSL_CTX_set_cipher_list c cipher_list);
         if r \<noteq> 1 then report lib obj
         else do {
           call lib (SSL_CTX_set_verify_NONE c);
           crt \<leftarrow> RuruCert_new lib;
           case crt of
             None \<Rightarrow> State_Monad.return None
           | Some crt \<Rightarrow> do { res \<leftarrow> use_cert lib crt obj; RuruCert_delete lib crt; State_Monad.return res }
         }
       }
     }"

definition RuruDtlsCtx_delete :: "('w, 'z) crypto_scheme \<Rightarrow> dtls_ctx \<Rightarrow> ('w, dtls_ctx) state" where
  "RuruDtlsCtx_delete lib obj =
     (if ctx obj \<noteq> 0 then do { call lib (SSL_CTX_free (ctx obj)); State_Monad.return (obj\<lparr>ctx := 0\<rparr>) }
      else State_Monad.return obj)"

record dtls =
  d_ssl :: int
  inBio :: int
  outBio :: int
  bHandShakeDone :: bool

definition RuruDtls_new :: "('w, 'z) crypto_scheme \<Rightarrow> dtls_ctx \<Rightarrow> ('w, dtls) state" where
  "RuruDtls_new lib c =
     do {
       s \<leftarrow> call lib (SSL_new_from (ctx c));
       i \<leftarrow> call lib BIO_new_mem;
       call lib (BIO_set_mem_eof_return i (- 1));
       out \<leftarrow> call lib BIO_new_mem;
       call lib (BIO_set_mem_eof_return out (- 1));
       call lib (SSL_set_bio s i out);
       call lib (SSL_set_options_SINGLE_ECDH_USE s);
       call lib (SSL_set_options_NO_RESUMPTION s);
       ec \<leftarrow> call lib EC_KEY_new_prime256v1;
       call lib (SSL_set_tmp_ecdh s ec);
       call lib (SSL_set_accept_state s);
       call lib (SSL_set_mtu s 1400);
       call lib (SSL_set_accept_state s);
       State_Monad.return \<lparr>d_ssl = s, inBio = i, outBio = out, bHandShakeDone = False\<rparr>
     }"

definition RuruDtls_delete :: "('w, 'z) crypto_scheme \<Rightarrow> dtls \<Rightarrow> ('w, dtls) state" where
  "RuruDtls_delete lib d =
     do {
       d1 \<leftarrow> (if d_ssl d \<noteq> 0 then do { call lib (SSL_free (d_ssl d)); State_Monad.return (d\<lparr>d_ssl := 0\<rparr>) }
              else State_Monad.return d);
       State_Monad.return (d1\<lparr>inBio := 0, outBio := 0\<rparr>)
     }"

section \<open>The fingerprint is the digest\<close>

definition hex_value :: "byte \<Rightarrow> nat" where
  "hex_value c = (if c \<le> 57 then unat c - 48 else unat c - 55)"

text \<open>What the text says: pairs of digits, a colon between them.\<close>

fun read_fingerprint :: "bytes \<Rightarrow> bytes" where
  "read_fingerprint (a # b # s) = of_nat (16 * hex_value a + hex_value b) # read_fingerprint (tl s)"
| "read_fingerprint _ = []"

fun fingerprint_text :: "bytes \<Rightarrow> bytes" where
  "fingerprint_text [] = []"
| "fingerprint_text [b] = sprintf_02X b"
| "fingerprint_text (b # bs) = sprintf_02X b @ 58 # fingerprint_text bs"

lemma hex_value_upper: "n < 16 \<Longrightarrow> hex_value (upper_hex n) = n"
  by (simp add: hex_value_def upper_hex_def word_le_nat_alt unat_word_ariths unat_of_nat)

lemma read_byte: "of_nat (16 * hex_value (upper_hex (unat (b::byte) div 16)) + hex_value (upper_hex (unat b mod 16))) = b"
proof -
  have "unat b < 256" using unsigned_less [of b, where 'a = nat] by simp
  then have "unat b div 16 < 16" by (simp add: less_mult_imp_div_less)
  then show ?thesis by (simp add: hex_value_upper)
qed

lemma read_fingerprint_text: "read_fingerprint (fingerprint_text bs) = bs"
  by (induction bs rule: fingerprint_text.induct) (simp_all add: sprintf_02X_def read_byte del: of_nat_add of_nat_mult)

lemma fingerprint_text_length: "length (fingerprint_text bs) = 3 * length bs - 1"
  by (induction bs rule: fingerprint_text.induct) (simp_all add: sprintf_02X_def)

lemma fingerprint_loop_run:
  assumes d: "length d = 32"
  shows "i < 32 \<Longrightarrow> length fp = 96 \<Longrightarrow>
    fingerprint_loop d 32 i fp = Some (take (i * 3) fp @ map Some (fingerprint_text (drop i d) @ [0]))"
proof (induction "32 - i" arbitrary: i fp)
  case (Suc n)
  have i: "i < length d" "drop i d = d ! i # drop (Suc i) d" using Suc.prems(1) d by (simp_all add: Cons_nth_drop_Suc)
  show ?case
  proof (cases "i < 31")
    case True
    let ?t = "sprintf_02X (d ! i) @ [58, 0]"
    let ?fp = "take (i * 3) fp @ map Some ?t @ drop (Suc (Suc (Suc (Suc (i * 3))))) fp"
    have "snprintf_at (i * 3) 4 (sprintf_02X (d ! i) @ [58]) fp = Some ?fp"
      using True Suc.prems(2) by (simp add: snprintf_at_def sprintf_02X_def)
    then have "fingerprint_loop d 32 i fp = fingerprint_loop d 32 (Suc i) ?fp"
      using True i(1) by (subst fingerprint_loop.simps) simp
    also have "\<dots> = Some (take (Suc i * 3) ?fp @ map Some (fingerprint_text (drop (Suc i) d) @ [0]))"
    proof (rule Suc.hyps(1))
      show "n = 32 - Suc i" using Suc.hyps(2) by simp
      show "Suc i < 32" using True by simp
      show "length ?fp = 96" using True Suc.prems(2) by (simp add: sprintf_02X_def)
    qed
    also have "take (Suc i * 3) ?fp = take (i * 3) fp @ map Some (sprintf_02X (d ! i) @ [58])"
      using True Suc.prems(2) by (simp add: sprintf_02X_def min_def)
    also have "fingerprint_text (drop i d) = sprintf_02X (d ! i) @ 58 # fingerprint_text (drop (Suc i) d)"
    proof -
      have "drop (Suc i) d \<noteq> []" using True d by simp
      then obtain b bs where "drop (Suc i) d = b # bs" by (cases "drop (Suc i) d") auto
      then show ?thesis unfolding i(2) by simp
    qed
    ultimately show ?thesis by simp
  next
    case False
    then have e: "i = 31" using Suc.prems(1) by simp
    have "drop (Suc 31) d = []" using d by simp
    then have "fingerprint_text (drop 31 d) = sprintf_02X (d ! 31)" using i(2) e by simp
    moreover have "snprintf_at 93 3 (sprintf_02X (d ! 31)) fp = Some (take 93 fp @ map Some (sprintf_02X (d ! 31) @ [0]))"
      using Suc.prems(2) by (simp add: snprintf_at_def sprintf_02X_def)
    ultimately show ?thesis using d e by (subst fingerprint_loop.simps) (simp add: fingerprint_loop.simps [of _ _ 32])
  qed
qed simp

lemma fingerprint_run:
  assumes "length d = 32"
  shows "fingerprint (Some d) = Some (map Some (fingerprint_text d @ [0]))"
proof -
  have "fingerprint_loop d 32 0 (replicate 96 None) = Some (map Some (fingerprint_text d @ [0]))"
    using fingerprint_loop_run [OF assms, of 0 "replicate 96 None"] by simp
  moreover have "(map Some (fingerprint_text d @ [0]))[95 := Some 0] = map Some (fingerprint_text d @ [0])"
    using assms fingerprint_text_length [of d] by (simp add: list_update_append)
  ultimately show ?thesis using assms by (simp add: fingerprint_def)
qed

lemma fingerprint_any: "\<exists>fp. fingerprint None = Some (map Some fp)"
proof -
  have l: "length (replicate 32 (0::byte)) = 32" by simp
  have "fingerprint None = fingerprint (Some (replicate 32 0))" by (simp add: fingerprint_def)
  then show ?thesis using fingerprint_run [OF l] by metis
qed

end
