(* ===== verification/Dtls_Properties.thy ===== *)
theory Dtls_Properties
  imports Dtls "HOL-Library.Multiset"
begin

text \<open>
  The properties of the certificate and the DTLS context: what the fingerprint says, and what every way
  through the constructors calls and leaves behind.
\<close>

section \<open>Traces of library calls\<close>

text \<open>
  An event is a call with its result. What a theorem asks of OpenSSL: \<open>log\<close> observes the calls with their
  results in the order they are made; a digest of SHA-256 has 32 bytes.
\<close>

datatype lib_event =
    Ssl ssl_call int
  | Cert cert_call int
  | Digest int "bytes option"

definition log_contract :: "('w, 'z) crypto_scheme \<Rightarrow> ('w \<Rightarrow> lib_event list) \<Rightarrow> bool" where
  "log_contract lib log \<longleftrightarrow>
     (\<forall>c w. case lib_ssl lib c w of (r, w') \<Rightarrow> log w' = log w @ [Ssl c r])
     \<and> (\<forall>c w. case lib_cert lib c w of (r, w') \<Rightarrow> log w' = log w @ [Cert c r])
     \<and> (\<forall>x w. case X509_digest_sha256 lib x w of (d, w') \<Rightarrow> log w' = log w @ [Digest x d])"

definition digest_contract :: "('w, 'z) crypto_scheme \<Rightarrow> bool" where
  "digest_contract lib \<longleftrightarrow>
     (\<forall>x w. case fst (X509_digest_sha256 lib x w) of None \<Rightarrow> True | Some d \<Rightarrow> length d = 32)"

text \<open>\<open>yields log m Q\<close>: from every world \<open>m\<close> makes some calls \<open>L\<close> and returns some \<open>r\<close> with \<open>Q r L\<close>.\<close>

definition yields :: "('w \<Rightarrow> lib_event list) \<Rightarrow> ('w, 'a) state \<Rightarrow> ('a \<Rightarrow> lib_event list \<Rightarrow> bool) \<Rightarrow> bool" where
  "yields log m Q \<longleftrightarrow> (\<forall>w. \<exists>r w' L. run_state m w = (r, w') \<and> log w' = log w @ L \<and> Q r L)"

lemma yields_return: "Q r [] \<Longrightarrow> yields log (State_Monad.return r) Q"
  by (simp add: yields_def)

lemma yields_weaken: "yields log m P \<Longrightarrow> (\<And>r L. P r L \<Longrightarrow> Q r L) \<Longrightarrow> yields log m Q"
  unfolding yields_def by meson

lemma yields_bind:
  assumes "yields log m P" and "\<And>r L. P r L \<Longrightarrow> yields log (f r) (\<lambda>r' L'. Q r' (L @ L'))"
  shows "yields log (do { x \<leftarrow> m; f x }) Q"
  unfolding yields_def
proof
  fix w
  obtain r w1 L where r: "run_state m w = (r, w1)" "log w1 = log w @ L" "P r L" using assms(1) unfolding yields_def by meson
  obtain r' w2 L' where "run_state (f r) w1 = (r', w2)" "log w2 = log w1 @ L'" "Q r' (L @ L')"
    using assms(2) [OF r(3)] unfolding yields_def by meson
  then show "\<exists>r w' L. run_state (do { x \<leftarrow> m; f x }) w = (r, w') \<and> log w' = log w @ L \<and> Q r L"
    using r by (intro exI [of _ r'] exI [of _ w2] exI [of _ "L @ L'"]) simp
qed

lemma yields_step:
  assumes "\<And>w. case m w of (r, w') \<Rightarrow> log w' = log w @ [e r]"
  shows "(\<And>r. yields log (f r) (\<lambda>r' L. Q r' (e r # L))) \<Longrightarrow> yields log (do { x \<leftarrow> State m; f x }) Q"
    and "(\<And>r. R r [e r]) \<Longrightarrow> yields log (State m) R"
proof -
  have one: "yields log (State m) (\<lambda>r L. L = [e r])"
    using assms unfolding yields_def by (simp add: split_beta) (metis prod.collapse)
  show "(\<And>r. yields log (f r) (\<lambda>r' L. Q r' (e r # L))) \<Longrightarrow> yields log (do { x \<leftarrow> State m; f x }) Q"
    by (rule yields_bind [OF one]) simp
  show "(\<And>r. R r [e r]) \<Longrightarrow> yields log (State m) R" by (rule yields_weaken [OF one]) simp
qed

lemma yields_call:
  assumes "log_contract lib log"
  shows "(\<And>r. yields log (f r) (\<lambda>r' L. Q r' (Ssl c r # L))) \<Longrightarrow> yields log (do { x \<leftarrow> call lib c; f x }) Q"
    and "(\<And>r. yields log (f r) (\<lambda>r' L. Q r' (Cert d r # L))) \<Longrightarrow> yields log (do { x \<leftarrow> cert_lib lib d; f x }) Q"
    and "(\<And>r. R r [Ssl c r]) \<Longrightarrow> yields log (call lib c) R"
    and "(\<And>r. R r [Cert d r]) \<Longrightarrow> yields log (cert_lib lib d) R"
proof -
  have c: "\<And>w. case lib_ssl lib c w of (r, w') \<Rightarrow> log w' = log w @ [Ssl c r]"
      "\<And>w. case lib_cert lib d w of (r, w') \<Rightarrow> log w' = log w @ [Cert d r]"
    using assms unfolding log_contract_def by simp_all
  show "(\<And>r. yields log (f r) (\<lambda>r' L. Q r' (Ssl c r # L))) \<Longrightarrow> yields log (do { x \<leftarrow> call lib c; f x }) Q"
    unfolding call_def by (rule yields_step(1) [OF c(1)])
  show "(\<And>r. yields log (f r) (\<lambda>r' L. Q r' (Cert d r # L))) \<Longrightarrow> yields log (do { x \<leftarrow> cert_lib lib d; f x }) Q"
    unfolding cert_lib_def by (rule yields_step(1) [OF c(2)])
  show "(\<And>r. R r [Ssl c r]) \<Longrightarrow> yields log (call lib c) R" unfolding call_def by (rule yields_step(2) [OF c(1)])
  show "(\<And>r. R r [Cert d r]) \<Longrightarrow> yields log (cert_lib lib d) R" unfolding cert_lib_def by (rule yields_step(2) [OF c(2)])
qed

lemma yields_digest:
  assumes "log_contract lib log" and "digest_contract lib"
    and "\<And>d. case d of None \<Rightarrow> True | Some d \<Rightarrow> length d = 32 \<Longrightarrow> yields log (f d) (\<lambda>r L. Q r (Digest y d # L))"
  shows "yields log (do { x \<leftarrow> State (X509_digest_sha256 lib y); f x }) Q"
proof (rule yields_bind [where P = "\<lambda>d L. L = [Digest y d] \<and> (case d of None \<Rightarrow> True | Some d \<Rightarrow> length d = 32)"])
  show "yields log (State (X509_digest_sha256 lib y)) (\<lambda>d L. L = [Digest y d] \<and> (case d of None \<Rightarrow> True | Some d \<Rightarrow> length d = 32))"
    using assms(1,2) unfolding yields_def log_contract_def digest_contract_def split_beta by (metis prod.collapse state.sel)
qed (use assms(3) in auto)

section \<open>Objects of the library\<close>

text \<open>
  The ledger of a trace: what the calls made and the caller still has to release. A call that releases an
  object the ledger does not hold, one released before or never made, makes it \<open>None\<close>. The null
  pointer is no object. A successful \<open>EVP_PKEY_assign_RSA\<close> gives the numbers to the key; after
  a failing one they are still the caller's.
\<close>

datatype object_kind = A_context | A_key | A_certificate | A_number | A_name | An_rsa

definition object_at :: "object_kind \<Rightarrow> int \<Rightarrow> (object_kind \<times> int) multiset" where
  "object_at K q = (if q = 0 then {#} else {#(K, q)#})"

fun made :: "lib_event \<Rightarrow> (object_kind \<times> int) multiset" where
  "made (Ssl SSL_CTX_new_DTLS q) = object_at A_context q"
| "made (Cert EVP_PKEY_new q) = object_at A_key q"
| "made (Cert X509_new q) = object_at A_certificate q"
| "made (Cert BN_new q) = object_at A_number q"
| "made (Cert X509_NAME_new q) = object_at A_name q"
| "made (Cert RSA_new q) = object_at An_rsa q"
| "made _ = {#}"

fun released :: "lib_event \<Rightarrow> (object_kind \<times> int) multiset" where
  "released (Ssl (SSL_CTX_free q) _) = object_at A_context q"
| "released (Cert (EVP_PKEY_free q) _) = object_at A_key q"
| "released (Cert (X509_free q) _) = object_at A_certificate q"
| "released (Cert (BN_free q) _) = object_at A_number q"
| "released (Cert (X509_NAME_free q) _) = object_at A_name q"
| "released (Cert (EVP_PKEY_assign_RSA k q) r) = (if r = 1 then object_at An_rsa q else {#})"
| "released _ = {#}"

fun ledger :: "(object_kind \<times> int) multiset \<Rightarrow> lib_event list \<Rightarrow> (object_kind \<times> int) multiset option" where
  "ledger A [] = Some A"
| "ledger A (e # L) = (if released e \<subseteq># A then ledger (A - released e + made e) L else None)"

fun unassigned_by :: "lib_event \<Rightarrow> (object_kind \<times> int) multiset" where
  "unassigned_by (Cert (EVP_PKEY_assign_RSA k q) r) = (if r = 1 then {#} else object_at An_rsa q)"
| "unassigned_by _ = {#}"

definition unassigned :: "lib_event list \<Rightarrow> (object_kind \<times> int) multiset" where
  "unassigned L = sum_list (map unassigned_by L)"

lemma ledger_append: "ledger A (L @ M) = Option.bind (ledger A L) (\<lambda>B. ledger B M)"
  by (induction L arbitrary: A) auto

lemma ledger_frame: "ledger A L = Some B \<Longrightarrow> ledger (A + C) L = Some (B + C)"
proof (induction L arbitrary: A)
  case (Cons e L)
  then have l: "released e \<subseteq># A" "ledger (A - released e + made e) L = Some B" by (auto split: if_splits)
  have "A + C - released e + made e = A - released e + made e + C" using l(1)
    by (metis add.assoc add.commute subset_mset.add_diff_assoc2)
  then show ?case using Cons.IH [OF l(2)] l(1) by (simp add: subset_mset.add_increasing2)
qed simp

lemma unassigned_append [simp]: "unassigned (L @ M) = unassigned L + unassigned M"
  by (simp add: unassigned_def)

lemma object_at_count: "count (object_at K q) y = (if q \<noteq> 0 \<and> y = (K, q) then 1 else 0)"
  by (simp add: object_at_def)

section \<open>The certificate\<close>

definition fingerprint_of :: "bytes \<Rightarrow> byte option list" where
  "fingerprint_of d = map Some (fingerprint_text d @ [0])"

text \<open>The bytes in the buffer of the caller: 32 zeros when the call fails.\<close>

definition digest_bytes :: "bytes option \<Rightarrow> bytes" where
  "digest_bytes d = (case d of None \<Rightarrow> replicate 32 0 | Some b \<Rightarrow> b)"

lemma fingerprint_total:
  assumes "case d of None \<Rightarrow> True | Some d \<Rightarrow> length d = 32"
  shows "fingerprint d = Some (fingerprint_of (digest_bytes d))"
proof (cases d)
  case None
  have "fingerprint None = fingerprint (Some (replicate 32 0))" by (simp add: fingerprint_def)
  then show ?thesis using None fingerprint_run [of "replicate 32 0"] by (simp add: fingerprint_of_def digest_bytes_def)
next
  case (Some b)
  then show ?thesis using assms fingerprint_run [of b] by (simp add: fingerprint_of_def digest_bytes_def)
qed

text \<open>
  The certificate \<open>x\<close> was signed with the key \<open>k\<close> and then digested to \<open>d\<close>; both are still to be
  released, and so are the numbers of a key that could not be given to it.
\<close>

definition signed :: "int \<Rightarrow> int \<Rightarrow> bytes option \<Rightarrow> lib_event list \<Rightarrow> bool" where
  "signed k x d L \<longleftrightarrow> (\<exists>A B r. L = A @ Cert (X509_sign_sha1 x k) r # Digest x d # B \<and> Cert EVP_PKEY_new k \<in> set A
     \<and> Cert X509_new x \<in> set A \<and> (\<exists>r. Cert (X509_set_pubkey x k) r \<in> set A))"

definition cert_made :: "cert option \<Rightarrow> lib_event list \<Rightarrow> bool" where
  "cert_made c L \<longleftrightarrow> (\<exists>k x d. c = Some \<lparr>key = k, x509 = x, fingerPrint = fingerprint_of (digest_bytes d)\<rparr>
     \<and> signed k x d L \<and> ledger {#} L = Some (object_at A_key k + object_at A_certificate x + unassigned L)
     \<and> (\<forall>c r. Ssl c r \<notin> set L))"

lemma cert_madeI:
  assumes "case d of None \<Rightarrow> True | Some d \<Rightarrow> length d = 32"
    and "signed k x d L" and "ledger {#} L = Some (object_at A_key k + object_at A_certificate x + unassigned L)"
    and "\<forall>c r. Ssl c r \<notin> set L"
  shows "cert_made (map_option (\<lambda>fp. \<lparr>key = k, x509 = x, fingerPrint = fp\<rparr>) (fingerprint d)) L"
  using fingerprint_total [OF assms(1)] assms(2-4) unfolding cert_made_def by auto

lemma signedI:
  "Cert EVP_PKEY_new k \<in> set A \<Longrightarrow> Cert X509_new x \<in> set A \<Longrightarrow> Cert (X509_set_pubkey x k) q \<in> set A \<Longrightarrow>
   L = A @ Cert (X509_sign_sha1 x k) r # Digest x d # B \<Longrightarrow> signed k x d L"
  unfolding signed_def by blast

lemma signed_trace:
  "signed k x d [Cert EVP_PKEY_new k, Cert X509_new x, e3, e4, e5, e6, e7, Cert (X509_set_pubkey x k) r8, e9, e10, e11, e12,
     e13, e14, e15, e16, e17, e18, e19, e20, e21, Cert (X509_sign_sha1 x k) r, Digest x d, e22, e23, e24]"
  by (rule signedI [where A = "[Cert EVP_PKEY_new k, Cert X509_new x, e3, e4, e5, e6, e7, Cert (X509_set_pubkey x k) r8,
     e9, e10, e11, e12, e13, e14, e15, e16, e17, e18, e19, e20, e21]" and q = r8]) simp_all

lemma RuruCert_yields:
  assumes l: "log_contract lib log" and d: "digest_contract lib"
  shows "yields log (RuruCert_new lib) cert_made"
  unfolding RuruCert_new_def
proof (intro yields_call(2) [OF l] yields_digest [OF l d] yields_return cert_madeI signed_trace)
qed (auto simp: unassigned_def subseteq_mset_def multiset_eq_iff object_at_count)

section \<open>The context\<close>

text \<open>The calls the constructor tests, and the results it takes as failures.\<close>

fun failed :: "lib_event \<Rightarrow> bool" where
  "failed (Ssl SSL_CTX_new_DTLS q) = (q = 0)"
| "failed (Ssl (SSL_CTX_set_cipher_list c s) r) = (r \<noteq> 1)"
| "failed (Ssl (SSL_CTX_use_PrivateKey c k) r) = (r \<noteq> 1)"
| "failed (Ssl (SSL_CTX_use_certificate c x) r) = (r \<noteq> 1)"
| "failed (Ssl (SSL_CTX_check_private_key c) r) = (r \<noteq> 1)"
| "failed _ = False"

text \<open>The context \<open>q\<close> got the key and the certificate that were made for it, and they fit.\<close>

definition installed :: "int \<Rightarrow> bytes option \<Rightarrow> lib_event list \<Rightarrow> bool" where
  "installed q d L \<longleftrightarrow> (\<exists>k x A B C. L = A @ B @ Ssl (SSL_CTX_use_PrivateKey q k) 1 # Ssl (SSL_CTX_use_certificate q x) 1
     # Ssl (SSL_CTX_check_private_key q) 1 # C \<and> Ssl SSL_CTX_new_DTLS q \<in> set A
     \<and> Ssl (SSL_CTX_set_cipher_list q cipher_list) 1 \<in> set A \<and> signed k x d B)"

text \<open>
  What the constructor leaves: it printed an error if and only if a call failed, and then the fingerprint is
  uninitialised; otherwise it is the one of the certificate in the context. The context is all that is
  left to be released, beside the numbers of a key that could not be given to it.
\<close>

definition ctx_made :: "dtls_ctx option \<Rightarrow> lib_event list \<Rightarrow> bool" where
  "ctx_made r L \<longleftrightarrow>
     (case r of
        None \<Rightarrow> False
      | Some obj \<Rightarrow> ledger {#} L = Some (object_at A_context (ctx obj) + unassigned L)
          \<and> ((\<exists>e. Ssl ERR_print_errors e \<in> set L) \<longleftrightarrow> (\<exists>e\<in>set L. failed e))
          \<and> (if \<exists>e\<in>set L. failed e then certFingerPrint obj = replicate 96 None
             else \<exists>d. installed (ctx obj) d L \<and> certFingerPrint obj = fingerprint_of (digest_bytes d)))"

lemma yields_if: "(b \<Longrightarrow> yields log m Q) \<Longrightarrow> (\<not> b \<Longrightarrow> yields log n Q) \<Longrightarrow> yields log (if b then m else n) Q"
  by simp

lemma report_yields: "log_contract lib log \<Longrightarrow> (\<And>r. Q (Some obj) [Ssl ERR_print_errors r]) \<Longrightarrow> yields log (report lib obj) Q"
  unfolding report_def by (intro yields_call(1) yields_return)

text \<open>The calls with the certificate \<open>c\<close>: all three succeed, or the last one failed and the error is printed.\<close>

definition cert_used :: "cert \<Rightarrow> dtls_ctx \<Rightarrow> dtls_ctx option \<Rightarrow> lib_event list \<Rightarrow> bool" where
  "cert_used c obj r M \<longleftrightarrow>
     r = Some (obj\<lparr>certFingerPrint := fingerPrint c\<rparr>)
       \<and> M = [Ssl (SSL_CTX_use_PrivateKey (ctx obj) (key c)) 1, Ssl (SSL_CTX_use_certificate (ctx obj) (x509 c)) 1,
              Ssl (SSL_CTX_check_private_key (ctx obj)) 1]
     \<or> r = Some obj \<and> (\<exists>e\<in>set M. failed e) \<and> (\<exists>e. Ssl ERR_print_errors e \<in> set M) \<and> unassigned M = {#}
       \<and> (\<forall>A. ledger A M = Some A)"

lemma use_cert_yields:
  assumes l: "log_contract lib log"
  shows "yields log (use_cert lib c obj) (cert_used c obj)"
  unfolding use_cert_def
  by (intro yields_call(1) [OF l] yields_if report_yields [OF l] yields_return) (simp_all add: cert_used_def unassigned_def)

lemma ledger_released:
  "ledger (object_at A_key k + object_at A_certificate x + B) [Cert (EVP_PKEY_free k) r1, Cert (X509_free x) r2] = Some B"
  by (auto simp: subseteq_mset_def multiset_eq_iff object_at_count)

lemma unfailed:
  assumes "\<forall>c r. Ssl c r \<notin> set L"
  shows "\<not> (\<exists>e\<in>set L. failed e)" and "Ssl ERR_print_errors e \<notin> set L"
proof -
  have "\<not> failed e" if "e \<in> set L" for e using assms that by (cases e) auto
  then show "\<not> (\<exists>e\<in>set L. failed e)" by blast
qed (use assms in blast)

text \<open>
  A certificate is made, used and destroyed: \<open>P\<close> are the calls before, \<open>L\<close> make it, \<open>M\<close> use it
  and the last two destroy it.
\<close>

lemma ctx_madeI:
  assumes P: "ledger {#} P = Some (object_at A_context q)" "unassigned P = {#}" "\<forall>e\<in>set P. \<not> failed e"
      "\<forall>e. Ssl ERR_print_errors e \<notin> set P" "Ssl SSL_CTX_new_DTLS q \<in> set P"
      "Ssl (SSL_CTX_set_cipher_list q cipher_list) 1 \<in> set P"
    and L: "signed k x d L" "ledger {#} L = Some (object_at A_key k + object_at A_certificate x + unassigned L)"
      "\<forall>c r. Ssl c r \<notin> set L"
    and M: "cert_used \<lparr>key = k, x509 = x, fingerPrint = fingerprint_of (digest_bytes d)\<rparr>
      \<lparr>ctx = q, certFingerPrint = replicate 96 None\<rparr> r M"
  shows "ctx_made r (P @ L @ M @ [Cert (EVP_PKEY_free k) r1, Cert (X509_free x) r2])"
proof -
  let ?D = "[Cert (EVP_PKEY_free k) r1, Cert (X509_free x) r2]" and ?U = "object_at A_context q + unassigned L"
  let ?H = "object_at A_key k + object_at A_certificate x + ?U"
  have m: "ledger A M = Some A" for A using M by (auto simp: cert_used_def)
  have "ledger (object_at A_context q) L = Some ?H"
    using ledger_frame [OF L(2), of "object_at A_context q"] by (simp add: ac_simps)
  then have "ledger {#} (P @ L @ M @ ?D) = Some ?U"
    using P(1) m ledger_released [of k x ?U r1 r2] by (simp add: ledger_append del: ledger.simps)
  moreover have "unassigned (P @ L @ M @ ?D) = unassigned L"
    using P(2) M by (auto simp: cert_used_def unassigned_def)
  moreover note unfailed [OF L(3)]
  ultimately show ?thesis using M unfolding cert_used_def
  proof (elim disjE conjE)
    assume r: "r = Some (\<lparr>ctx = q, certFingerPrint = replicate 96 None\<rparr>
        \<lparr>certFingerPrint := fingerPrint \<lparr>key = k, x509 = x, fingerPrint = fingerprint_of (digest_bytes d)\<rparr>\<rparr>)"
      and M: "M = [Ssl (SSL_CTX_use_PrivateKey (ctx \<lparr>ctx = q, certFingerPrint = replicate 96 None\<rparr>)
          (key \<lparr>key = k, x509 = x, fingerPrint = fingerprint_of (digest_bytes d)\<rparr>)) 1,
        Ssl (SSL_CTX_use_certificate (ctx \<lparr>ctx = q, certFingerPrint = replicate 96 None\<rparr>)
          (x509 \<lparr>key = k, x509 = x, fingerPrint = fingerprint_of (digest_bytes d)\<rparr>)) 1,
        Ssl (SSL_CTX_check_private_key (ctx \<lparr>ctx = q, certFingerPrint = replicate 96 None\<rparr>)) 1]"
    have "installed q d (P @ L @ M @ ?D)"
      unfolding installed_def M using P(5,6) L(1) by (intro exI [of _ k] exI [of _ x] exI [of _ P] exI [of _ L] exI [of _ ?D]) simp
    then show ?thesis using \<open>ledger {#} (P @ L @ M @ ?D) = Some ?U\<close> \<open>unassigned (P @ L @ M @ ?D) = unassigned L\<close>
        unfailed [OF L(3)] P(3,4) r M by (auto simp: ctx_made_def)
  next
    assume "r = Some \<lparr>ctx = q, certFingerPrint = replicate 96 None\<rparr>" "\<exists>e\<in>set M. failed e" "\<exists>e. Ssl ERR_print_errors e \<in> set M"
    then show ?thesis using \<open>ledger {#} (P @ L @ M @ ?D) = Some ?U\<close> \<open>unassigned (P @ L @ M @ ?D) = unassigned L\<close>
      by (auto simp: ctx_made_def)
  qed
qed

lemma RuruDtlsCtx_yields:
  assumes l: "log_contract lib log" and d: "digest_contract lib"
  shows "yields log (RuruDtlsCtx_new lib) ctx_made"
  unfolding RuruDtlsCtx_new_def Let_def
proof (intro yields_call(1) [OF l] yields_if report_yields [OF l] yields_bind [OF RuruCert_yields [OF l d]], goal_cases)
  case (3 r1 r2 r3 r4 r5 c r6 r7 crt L)
  let ?P = "[Ssl SSL_library_init r1, Ssl SSL_load_error_strings r2, Ssl ERR_load_BIO_strings r3,
      Ssl ERR_load_crypto_strings r4, Ssl OpenSSL_add_all_algorithms r5, Ssl SSL_CTX_new_DTLS c,
      Ssl (SSL_CTX_set_cipher_list c cipher_list) r6, Ssl (SSL_CTX_set_verify_NONE c) r7]"
  obtain k x dg where k: "crt = Some \<lparr>key = k, x509 = x, fingerPrint = fingerprint_of (digest_bytes dg)\<rparr>" "signed k x dg L"
      "ledger {#} L = Some (object_at A_key k + object_at A_certificate x + unassigned L)" "\<forall>c r. Ssl c r \<notin> set L"
    using 3(3) unfolding cert_made_def by blast
  show ?case unfolding k(1) option.case RuruCert_delete_def State_Monad.bind_assoc
  proof (rule yields_bind [OF use_cert_yields [OF l]], intro yields_call(2) [OF l] yields_return)
    fix r M q1 q2
    assume m: "cert_used \<lparr>key = k, x509 = x, fingerPrint = fingerprint_of (digest_bytes dg)\<rparr>
      \<lparr>ctx = c, certFingerPrint = replicate 96 None\<rparr> r M"
    have "ctx_made r (?P @ L @ M @ [Cert (EVP_PKEY_free k) q1, Cert (X509_free x) q2])"
      by (rule ctx_madeI [OF _ _ _ _ _ _ k(2-4) m]) (use 3(1,2) in \<open>simp_all add: unassigned_def\<close>)
    then show "ctx_made r (Ssl SSL_library_init r1 # Ssl SSL_load_error_strings r2 # Ssl ERR_load_BIO_strings r3 #
        Ssl ERR_load_crypto_strings r4 # Ssl OpenSSL_add_all_algorithms r5 # Ssl SSL_CTX_new_DTLS c #
        Ssl (SSL_CTX_set_cipher_list c cipher_list) r6 # Ssl (SSL_CTX_set_verify_NONE c) r7 # L @ M @
        [Cert (EVP_PKEY_free (key \<lparr>key = k, x509 = x, fingerPrint = fingerprint_of (digest_bytes dg)\<rparr>)) q1,
         Cert (X509_free (x509 \<lparr>key = k, x509 = x, fingerPrint = fingerprint_of (digest_bytes dg)\<rparr>)) q2])"
      by simp
  qed
qed (simp_all add: ctx_made_def unassigned_def object_at_def)

section \<open>The handle of a client\<close>

text \<open>The handle gets the two buffers that were made for it and is put into the accepting state.\<close>

lemma RuruDtls_yields:
  assumes l: "log_contract lib log"
  shows "yields log (RuruDtls_new lib c) (\<lambda>d L. \<not> bHandShakeDone d
    \<and> (\<exists>r1 r2 r3 M. L = Ssl (SSL_new_from (ctx c)) (d_ssl d) # Ssl BIO_new_mem (inBio d)
        # Ssl (BIO_set_mem_eof_return (inBio d) (- 1)) r1 # Ssl BIO_new_mem (outBio d)
        # Ssl (BIO_set_mem_eof_return (outBio d) (- 1)) r2 # Ssl (SSL_set_bio (d_ssl d) (inBio d) (outBio d)) r3 # M
      \<and> (\<exists>r. last M = Ssl (SSL_set_accept_state (d_ssl d)) r)))"
  unfolding RuruDtls_new_def by (intro yields_call(1) [OF l] yields_return) simp

section \<open>The properties\<close>

lemma sprintf_02X_nonzero: "0 \<notin> set (sprintf_02X b)"
proof -
  have "unat b < 256" using unsigned_less [of b, where 'a = nat] by simp
  then have "unat b div 16 < 16" by (simp add: less_mult_imp_div_less)
  moreover have "upper_hex n \<noteq> 0" if "n < 16" for n
    using that by (auto simp: upper_hex_def word_unat_eq_iff unat_word_ariths unat_of_nat)
  ultimately show ?thesis by (auto simp: sprintf_02X_def)
qed

text \<open>
  C37: the fingerprint of \<open>RuruCert\<close> is the digest: its 96 bytes are all written, with a terminator at the end
  and nothing outside of the array, and reading its hexadecimal pairs gives the 32 bytes back.
\<close>

theorem certificate_fingerprint:
  assumes "length d = 32"
  shows "\<exists>s. fingerprint (Some d) = Some (map Some (s @ [0])) \<and> length s = 95 \<and> 0 \<notin> set s \<and> read_fingerprint s = d"
proof -
  have "0 \<notin> set (fingerprint_text d)" using sprintf_02X_nonzero by (induction d rule: fingerprint_text.induct) auto
  then show ?thesis using assms fingerprint_run [OF assms] read_fingerprint_text [of d] fingerprint_text_length [of d]
    by (intro exI [of _ "fingerprint_text d"]) simp
qed

theorem certificate_fingerprint_witness:
  "\<exists>s. fingerprint (Some (replicate 31 7 @ [0xAB])) = Some (map Some (s @ [0])) \<and> length s = 95 \<and> 0 \<notin> set s
    \<and> read_fingerprint s = replicate 31 7 @ [0xAB]"
  by (rule certificate_fingerprint) simp

text \<open>
  C36: the constructor of \<open>RuruDtlsCtx\<close> prints an error exactly when one of the five calls it tests fails, and
  then leaves the fingerprint uninitialised; otherwise the context has the key and the signed certificate that were
  made for it, and the fingerprint is that of the digest of this certificate, of 32 zeros when the digest
  failed. On every way it releases what it made for the certificate, each object once; left are the context and the
  numbers of a key that \<open>EVP_PKEY_assign_RSA\<close> did not take.
\<close>

theorem context_all_paths:
  assumes "log_contract lib log" and "digest_contract lib"
  shows "\<exists>obj w' L. run_state (RuruDtlsCtx_new lib) w = (Some obj, w') \<and> log w' = log w @ L
    \<and> ledger {#} L = Some (object_at A_context (ctx obj) + unassigned L)
    \<and> ((\<exists>e. Ssl ERR_print_errors e \<in> set L) \<longleftrightarrow> (\<exists>e\<in>set L. failed e))
    \<and> (if \<exists>e\<in>set L. failed e then certFingerPrint obj = replicate 96 None
       else \<exists>d. installed (ctx obj) d L \<and> certFingerPrint obj = fingerprint_of (digest_bytes d))"
proof -
  obtain r w' L where r: "run_state (RuruDtlsCtx_new lib) w = (r, w')" "log w' = log w @ L" "ctx_made r L"
    using RuruDtlsCtx_yields [OF assms] unfolding yields_def by meson
  then obtain obj where "r = Some obj" by (cases r) (simp_all add: ctx_made_def)
  then show ?thesis using r by (simp add: ctx_made_def)
qed

text \<open>A library in which the numbers cannot be given to the key and the private key does not fit.\<close>

definition bad_key :: "lib_event list crypto" where
  "bad_key = \<lparr>lib_ssl = \<lambda>c w. let r = (if c = SSL_CTX_check_private_key 1 then 0 else 1) in (r, w @ [Ssl c r]),
     lib_cert = \<lambda>c w. let r = int (length w) + 1 in (r, w @ [Cert c r]),
     X509_digest_sha256 = \<lambda>x w. (Some (replicate 32 7), w @ [Digest x (Some (replicate 32 7))])\<rparr>"

theorem context_all_paths_witness:
  "\<exists>obj w' L. run_state (RuruDtlsCtx_new bad_key) [] = (Some obj, w') \<and> w' = L
    \<and> ledger {#} L = Some (object_at A_context (ctx obj) + unassigned L)
    \<and> ((\<exists>e. Ssl ERR_print_errors e \<in> set L) \<longleftrightarrow> (\<exists>e\<in>set L. failed e))
    \<and> (if \<exists>e\<in>set L. failed e then certFingerPrint obj = replicate 96 None
       else \<exists>d. installed (ctx obj) d L \<and> certFingerPrint obj = fingerprint_of (digest_bytes d))"
proof -
  have "log_contract bad_key (\<lambda>w. w)" "digest_contract bad_key"
    by (simp_all add: log_contract_def digest_contract_def bad_key_def Let_def)
  from context_all_paths [OF this, of "[]"] show ?thesis by simp
qed

end
