(* ===== verification/Echo_Client.thy ===== *)
theory Echo_Client
  imports Transport_Order Dtls
begin

text \<open>
  \<^verbatim>\<open>examples/EchoClient.cpp\<close>: the client of the example. It makes a DTLS connection over a UDP socket, opens
  an SCTP association inside of it and sends a message every second, while a second thread feeds
  what arrives to OpenSSL and usrsctp. The global variables are the state; the library calls that
  the server does not make extend \<open>usrsctp\<close>. \<open>perror\<close> only prints and is left out.
\<close>

section \<open>State and library\<close>

record 'w client_lib = "'w usrsctp" +
  client_ssl :: "ssl_call \<Rightarrow> 'w \<Rightarrow> int \<times> 'w"
  recvfrom_peer :: "int \<Rightarrow> nat \<Rightarrow> sockaddr_in \<Rightarrow> 'w \<Rightarrow> int \<times> bytes \<times> sockaddr_in \<times> 'w"
  us_bind_any :: "nat option \<Rightarrow> u16 \<Rightarrow> 'w \<Rightarrow> int \<times> 'w"
  us_connect :: "nat option \<Rightarrow> u16 \<Rightarrow> 'w \<Rightarrow> int \<times> upcall list \<times> 'w"
  sys_sleep :: "nat \<Rightarrow> 'w \<Rightarrow> 'w"

text \<open>
  \<open>recvfrom_peer\<close> is \<open>recvfrom\<close> with an address length the caller did not initialise: what it stores as
  the address depends on the old one. \<open>cl_sock\<close> is the local variable \<open>s\<close> of \<open>main\<close>, \<open>cl_printed\<close> what
  \<open>receive_cb\<close> printed. The address that is registered with usrsctp, that of \<open>fd\<close>, is 0.
\<close>

record 'w echo_client =
  cl_ctx :: int
  cl_ssl :: int
  cl_inBio :: int
  cl_outBio :: int
  cl_fd :: int
  ser_addr :: sockaddr_in
  cl_sock :: "nat option"
  cl_printed :: "bytes list"
  cl_world :: 'w

definition client_call :: "('w, 'z) client_lib_scheme \<Rightarrow> ssl_call \<Rightarrow> 'w echo_client \<Rightarrow> int \<times> 'w echo_client" where
  "client_call k c e = (let (r, w) = client_ssl k c (cl_world e) in (r, e\<lparr>cl_world := w\<rparr>))"

abbreviation (input) cl_handle :: "'w echo_client \<Rightarrow> nat" where "cl_handle e \<equiv> nat (cl_ssl e)"
abbreviation (input) BUFF_LEN :: nat where "BUFF_LEN \<equiv> 2048"
abbreviation (input) SSL_ERROR_WANT_READ :: int where "SSL_ERROR_WANT_READ \<equiv> 2"
abbreviation (input) SSL_ERROR_NONE :: int where "SSL_ERROR_NONE \<equiv> 0"

section \<open>Setting up\<close>

definition opensslLabInit :: "('w, 'z) client_lib_scheme \<Rightarrow> 'w echo_client \<Rightarrow> bool \<times> 'w echo_client" where
  "opensslLabInit k e =
     (let (_, e1) = client_call k SSL_library_init e;
          (_, e2) = client_call k SSL_load_error_strings e1;
          (_, e3) = client_call k ERR_load_BIO_strings e2;
          (_, e4) = client_call k ERR_load_crypto_strings e3;
          (_, e5) = client_call k OpenSSL_add_all_algorithms e4
      in (True, e5))"

definition dtlsTransInit :: "('w, 'z) client_lib_scheme \<Rightarrow> 'w echo_client \<Rightarrow> bool \<times> 'w echo_client" where
  "dtlsTransInit k e =
     (let (c, e1) = client_call k SSL_CTX_new_DTLS e;
          (_, e2) = client_call k (SSL_CTX_set_read_ahead c 1) (e1\<lparr>cl_ctx := c\<rparr>);
          (_, e3) = client_call k (SSL_CTX_set_ecdh_auto c 1) e2;
          (_, e4) = client_call k (SSL_CTX_set_cipher_list c cipher_list) e3;
          (s, e5) = client_call k (SSL_new_from c) e4;
          (i, e6) = client_call k BIO_new_mem (e5\<lparr>cl_ssl := s\<rparr>);
          (_, e7) = client_call k (BIO_set_mem_eof_return i (- 1)) (e6\<lparr>cl_inBio := i\<rparr>);
          (out, e8) = client_call k BIO_new_mem e7;
          (_, e9) = client_call k (BIO_set_mem_eof_return out (- 1)) (e8\<lparr>cl_outBio := out\<rparr>);
          (_, e10) = client_call k (SSL_set_bio s i out) e9;
          (_, e11) = client_call k (SSL_set_connect_state s) e10;
          (ec, e12) = client_call k EC_KEY_new_prime256v1 e11;
          (_, e13) = client_call k (SSL_set_tmp_ecdh s ec) e12;
          (_, e14) = client_call k (SSL_set_options_SINGLE_ECDH_USE s) e13
      in (True, e14))"

text \<open>The descriptor is stored before it is tested; without a socket it stays negative.\<close>

definition socketCreateSet ::
  "('w, 'z) client_lib_scheme \<Rightarrow> bytes \<Rightarrow> bytes \<Rightarrow> bytes \<Rightarrow> bytes \<Rightarrow> 'w echo_client \<Rightarrow> (bool \<times> 'w echo_client) option"
where
  "socketCreateSet k lip lport rip rport e =
     do {
       rp \<leftarrow> atoi rport 0;
       let e1 = e\<lparr>ser_addr := \<lparr>sin_family = AF_INET, sin_port = htons (word_of_int rp), sin_addr = libc_inet_addr k rip\<rparr>\<rparr>;
       let (s, w1) = sys_socket k AF_INET SOCK_DGRAM 17 (cl_world e1);
       let e2 = e1\<lparr>cl_fd := s, cl_world := w1\<rparr>;
       if s = -1 then Some (False, e2)
       else do {
         lp \<leftarrow> atoi lport 0;
         let cli_addr = \<lparr>sin_family = AF_INET, sin_port = htons (word_of_int lp), sin_addr = libc_inet_addr k lip\<rparr>;
         let (ret, w2) = sys_bind k s cli_addr w1;
         if ret < 0 then Some (False, e2\<lparr>cl_world := w2\<rparr>)
         else Some (True, e2\<lparr>cl_world := snd (SetNonBlocking k s w2)\<rparr>)
       }
     }"

section \<open>Sending and receiving\<close>

definition SendPendingDtls :: "('w, 'z) client_lib_scheme \<Rightarrow> 'w echo_client \<Rightarrow> 'w echo_client option" where
  "SendPendingDtls k e =
     do {
       w \<leftarrow> pending_loop k (cl_handle e) (cl_fd e) (ser_addr e) (cl_world e);
       Some (e\<lparr>cl_world := w\<rparr>)
     }"

partial_function (option) doHandShake ::
  "('w, 'z) client_lib_scheme \<Rightarrow> 'w echo_client \<Rightarrow> (bool \<times> 'w echo_client) option"
where
  "doHandShake k e =
     (let (len, buf, peer, w1) = recvfrom_peer k (cl_fd e) BUFF_LEN (ser_addr e) (cl_world e);
          w2 = (if len > 0 then BIO_write k (cl_handle e) (take (nat len) buf) w1 else w1);
          e1 = e\<lparr>ser_addr := peer, cl_world := w2\<rparr>
      in if \<not> SSL_is_init_finished k (cl_handle e) w2
         then let (r, w3) = SSL_do_handshake k (cl_handle e) w2;
                  e2 = e1\<lparr>cl_world := w3\<rparr>
              in if r \<le> 0
                 then let r' = SSL_get_error k (cl_handle e) r w3
                      in if r' = SSL_ERROR_WANT_READ
                         then do { e3 \<leftarrow> SendPendingDtls k e2; doHandShake k e3 }
                         else if r' \<noteq> SSL_ERROR_NONE then Some (False, e2)
                         else doHandShake k e2
                 else doHandShake k e2
         else Some (True, e1))"

text \<open>
  The callbacks. Both are declared to return an \<open>int\<close> and have no return statement; what they do before
  their closing brace is modelled. A null \<open>data\<close> of \<open>receive_cb\<close> says that the association has ended;
  what closing the socket makes usrsctp call is run before anything else.
\<close>

definition conn_output :: "('w, 'z) client_lib_scheme \<Rightarrow> bytes option \<Rightarrow> 'w echo_client \<Rightarrow> 'w echo_client option" where
  "conn_output k buf e =
     (case buf of
        None \<Rightarrow> Some e
      | Some d \<Rightarrow> SendPendingDtls k (e\<lparr>cl_world := SSL_write k (cl_handle e) d (cl_world e)\<rparr>))"

definition receive_cb ::
  "('w, 'z) client_lib_scheme \<Rightarrow> bytes option \<Rightarrow> 'w echo_client \<Rightarrow> upcall list \<times> 'w echo_client"
where
  "receive_cb k data e =
     (case data of
        Some d \<Rightarrow> ([], e\<lparr>cl_printed := cl_printed e @ [d]\<rparr>)
      | None \<Rightarrow>
          let (ups, w) = us_close k (cl_sock e) (us_deregister_client k 0 (cl_world e))
          in (ups, e\<lparr>cl_world := w\<rparr>))"

definition client_upcall ::
  "('w, 'z) client_lib_scheme \<Rightarrow> upcall \<Rightarrow> 'w echo_client \<Rightarrow> (upcall list \<times> 'w echo_client) option"
where
  "client_upcall k u e =
     (case u of
        Outbound t d \<Rightarrow> do { e1 \<leftarrow> conn_output k d e; Some ([], e1) }
      | Inbound t d r \<Rightarrow> Some (receive_cb k d e))"

partial_function (option) client_upcalls ::
  "('w, 'z) client_lib_scheme \<Rightarrow> upcall list \<Rightarrow> 'w echo_client \<Rightarrow> 'w echo_client option"
where
  "client_upcalls k us e =
     (if us = [] then Some e
      else do { (ups, e1) \<leftarrow> client_upcall k (hd us) e; client_upcalls k (ups @ tl us) e1 })"

partial_function (option) client_read_loop ::
  "('w, 'z) client_lib_scheme \<Rightarrow> 'w echo_client \<Rightarrow> 'w echo_client option"
where
  "client_read_loop k e =
     (if BIO_pending_in k (cl_handle e) (cl_world e) > 0
      then let (bytes, receiveBuffer, w1) = SSL_read k (cl_handle e) 8092 (cl_world e);
               (ups, w2) = (if bytes > 0 then us_conninput k 0 (take (nat bytes) receiveBuffer) w1 else ([], w1))
           in do { e1 \<leftarrow> client_upcalls k ups (e\<lparr>cl_world := w2\<rparr>); client_read_loop k e1 }
      else Some e)"

text \<open>One turn of the loop of the thread \<open>handle_packets\<close>.\<close>

definition handle_packets :: "('w, 'z) client_lib_scheme \<Rightarrow> 'w echo_client \<Rightarrow> 'w echo_client option" where
  "handle_packets k e =
     (let (len, buf, remote, w1) = sys_recvfrom k (cl_fd e) BUFF_LEN (cl_world e);
          e1 = e\<lparr>cl_world := w1\<rparr>
      in if len > 0
         then client_read_loop k (e1\<lparr>cl_world := BIO_write k (cl_handle e) (take (nat len) buf) w1\<rparr>)
         else Some e1)"

section \<open>\<open>main\<close>\<close>

text \<open>Up to the second thread; \<open>Inl\<close> is the exit code of an early return.\<close>

definition main_open ::
  "('w, 'z) client_lib_scheme \<Rightarrow> bytes list \<Rightarrow> 'w echo_client \<Rightarrow> (int + 'w echo_client) option"
where
  "main_open k argv e =
     (if length argv \<le> 4 then Some (Inl 0)
      else do {
        let (_, e1) = opensslLabInit k e;
        let (_, e2) = dtlsTransInit k e1;
        (_, e3) \<leftarrow> socketCreateSet k (argv ! 1) (argv ! 2) (argv ! 3) (argv ! 4) e2;
        (handshake, e4) \<leftarrow> doHandShake k e3;
        if \<not> handshake then Some (Inl (- 1))
        else Some (Inr (e4\<lparr>cl_world := us_register k 0 (us_ecn_disable k (us_init k (cl_world e4)))\<rparr>))
      })"

text \<open>
  From here on the thread \<open>handle_packets\<close> and the threads of usrsctp run beside \<open>main\<close>. A failing call of the
  set-up is only reported.
\<close>

definition main_socket :: "('w, 'z) client_lib_scheme \<Rightarrow> 'w echo_client \<Rightarrow> 'w echo_client" where
  "main_socket k e = (let (s, w) = us_socket k 0 (cl_world e) in e\<lparr>cl_sock := s, cl_world := w\<rparr>)"

definition main_bind :: "('w, 'z) client_lib_scheme \<Rightarrow> 'w echo_client \<Rightarrow> 'w echo_client" where
  "main_bind k e = (let (_, w) = us_bind_any k (cl_sock e) (htons 0) (cl_world e) in e\<lparr>cl_world := w\<rparr>)"

definition main_connect :: "('w, 'z) client_lib_scheme \<Rightarrow> 'w echo_client \<Rightarrow> 'w echo_client option" where
  "main_connect k e =
     (let (_, ups, w) = us_connect k (cl_sock e) (htons 5001) (cl_world e)
      in client_upcalls k ups (e\<lparr>cl_world := w\<rparr>))"

text \<open>One turn of the loop.\<close>

definition main_sndinfo :: sctp_sndinfo where
  "main_sndinfo = \<lparr>snd_sid = 1, snd_flags = 0, snd_ppid = htonl 0\<rparr>"

definition send_turn :: "('w, 'z) client_lib_scheme \<Rightarrow> 'w echo_client \<Rightarrow> 'w echo_client option" where
  "send_turn k e =
     (let (r, ups, w1) = us_sendv k (cl_sock e) (ascii ''hello world'') main_sndinfo (cl_world e)
      in do {
        e1 \<leftarrow> client_upcalls k ups (e\<lparr>cl_world := w1\<rparr>);
        Some (e1\<lparr>cl_world := sys_sleep k 1 (cl_world e1)\<rparr>)
      })"

datatype main_pc = At_socket | At_bind | At_connect | At_loop

fun main_step :: "('w, 'z) client_lib_scheme \<Rightarrow> main_pc \<Rightarrow> 'w echo_client \<Rightarrow> (main_pc \<times> 'w echo_client) option" where
  "main_step k At_socket e = Some (At_bind, main_socket k e)"
| "main_step k At_bind e = Some (At_connect, main_bind k e)"
| "main_step k At_connect e = do { e1 \<leftarrow> main_connect k e; Some (At_loop, e1) }"
| "main_step k At_loop e = do { e1 \<leftarrow> send_turn k e; Some (At_loop, e1) }"

text \<open>
  The threads, one turn at a time: \<open>main\<close> where it stands, the thread that receives, and usrsctp's own threads
  (its timer), which call back whenever they want, with whatever they want. That OpenSSL is not locked between them is
  below this level.
\<close>

inductive client_step ::
  "('w, 'z) client_lib_scheme \<Rightarrow> main_pc \<times> 'w echo_client \<Rightarrow> main_pc \<times> 'w echo_client \<Rightarrow> bool"
  for k :: "('w, 'z) client_lib_scheme"
where
  main: "main_step k pc e = Some (pc', e') \<Longrightarrow> client_step k (pc, e) (pc', e')"
| receiver: "handle_packets k e = Some e' \<Longrightarrow> client_step k (pc, e) (pc, e')"
| timer: "client_upcalls k us e = Some e' \<Longrightarrow> client_step k (pc, e) (pc, e')"

text \<open>The states after the second thread was started in the state \<open>e0\<close>.\<close>

inductive client_runs ::
  "('w, 'z) client_lib_scheme \<Rightarrow> 'w echo_client \<Rightarrow> main_pc \<times> 'w echo_client \<Rightarrow> bool"
  for k :: "('w, 'z) client_lib_scheme" and e0 :: "'w echo_client"
where
  here: "client_runs k e0 (At_socket, e0)"
| turn: "client_runs k e0 c \<Longrightarrow> client_step k c c' \<Longrightarrow> client_runs k e0 c'"

inductive_cases client_stepE: "client_step k c c'"

end
