(* ===== verification/Echo_Client_Properties.thy ===== *)
theory Echo_Client_Properties
  imports Echo_Client Example_Host
begin

text \<open>
  What the echo client does to the network once its handshake is over, and what it submits.
\<close>

section \<open>Where datagrams go\<close>

text \<open>
  \<open>net w\<close> is the list of datagrams handed to the kernel: \<open>sendto\<close> appends one, no other call the client makes
  changes it.
\<close>

definition client_net_contract :: "('w, 'z) client_lib_scheme \<Rightarrow> ('w \<Rightarrow> datagram list) \<Rightarrow> bool" where
  "client_net_contract k net \<longleftrightarrow>
     (\<forall>fd d a w. net (sys_sendto k fd d a w) = net w @ [(fd, a, d)])
     \<and> (\<forall>h n w. net (snd (snd (BIO_read_out k h n w))) = net w)
     \<and> (\<forall>h d w. net (BIO_write k h d w) = net w)
     \<and> (\<forall>h d w. net (SSL_write k h d w) = net w)
     \<and> (\<forall>h n w. net (snd (snd (SSL_read k h n w))) = net w)
     \<and> (\<forall>fd n w. net (snd (snd (snd (sys_recvfrom k fd n w)))) = net w)
     \<and> (\<forall>i d w. net (snd (us_conninput k i d w)) = net w)
     \<and> (\<forall>s d i w. net (snd (snd (us_sendv k s d i w))) = net w)
     \<and> (\<forall>s w. net (snd (us_close k s w)) = net w)
     \<and> (\<forall>i w. net (us_deregister_client k i w) = net w)
     \<and> (\<forall>n w. net (sys_sleep k n w) = net w)
     \<and> (\<forall>w. net (us_init k w) = net w) \<and> (\<forall>w. net (us_ecn_disable k w) = net w)
     \<and> (\<forall>i w. net (us_register k i w) = net w)
     \<and> (\<forall>i w. net (snd (us_socket k i w)) = net w)
     \<and> (\<forall>s p w. net (snd (us_bind_any k s p w)) = net w)
     \<and> (\<forall>s p w. net (snd (snd (us_connect k s p w))) = net w)
     \<and> (\<forall>fd n a w. net (snd (snd (snd (recvfrom_peer k fd n a w)))) = net w)
     \<and> (\<forall>h w. net (snd (SSL_do_handshake k h w)) = net w)"

lemma client_net:
  assumes "client_net_contract k net"
  shows "net (sys_sendto k fd d a w) = net w @ [(fd, a, d)]"
    and "BIO_read_out k h n w = (r, b, w1) \<Longrightarrow> net w1 = net w"
    and "net (BIO_write k h d w) = net w" and "net (SSL_write k h d w) = net w"
    and "SSL_read k h n w = (r, b, w1) \<Longrightarrow> net w1 = net w"
    and "sys_recvfrom k fd n w = (r, b, a, w1) \<Longrightarrow> net w1 = net w"
    and "us_conninput k i d w = (ups, w1) \<Longrightarrow> net w1 = net w"
    and "us_sendv k s d info w = (r, ups, w1) \<Longrightarrow> net w1 = net w"
    and "us_close k s w = (ups, w1) \<Longrightarrow> net w1 = net w"
    and "net (us_deregister_client k i w) = net w" and "net (sys_sleep k n w) = net w"
    and "net (us_register k i (us_ecn_disable k (us_init k w))) = net w"
    and "us_socket k i w = (sk, w1) \<Longrightarrow> net w1 = net w"
    and "us_bind_any k sk p w = (r, w1) \<Longrightarrow> net w1 = net w"
    and "us_connect k sk p w = (r, ups, w1) \<Longrightarrow> net w1 = net w"
    and "recvfrom_peer k fd n a w = (r, b, a', w1) \<Longrightarrow> net w1 = net w"
    and "SSL_do_handshake k h w = (r, w1) \<Longrightarrow> net w1 = net w"
  using assms unfolding client_net_contract_def by (metis snd_conv)+

text \<open>The client keeps its socket, its handle and its peer, and all it sends goes to that peer.\<close>

definition steady :: "('w \<Rightarrow> datagram list) \<Rightarrow> 'w echo_client \<Rightarrow> 'w echo_client \<Rightarrow> bool" where
  "steady net e e' \<longleftrightarrow>
     cl_fd e' = cl_fd e \<and> cl_ssl e' = cl_ssl e \<and> ser_addr e' = ser_addr e
     \<and> (\<exists>M. cl_printed e' = cl_printed e @ M)
     \<and> (\<exists>ds. net (cl_world e') = net (cl_world e) @ map (\<lambda>d. (cl_fd e, ser_addr e, d)) ds)"

lemma steady_refl [simp]: "steady net e e"
  by (simp add: steady_def exI [of _ "[]"])

lemma steady_trans:
  assumes "steady net e e1" and "steady net e1 e2"
  shows "steady net e e2"
proof -
  obtain M ds where 1: "cl_printed e1 = cl_printed e @ M" "net (cl_world e1) = net (cl_world e) @ map (\<lambda>d. (cl_fd e, ser_addr e, d)) ds"
    using assms(1) unfolding steady_def by blast
  obtain N es where 2: "cl_printed e2 = cl_printed e1 @ N" "net (cl_world e2) = net (cl_world e1) @ map (\<lambda>d. (cl_fd e1, ser_addr e1, d)) es"
    using assms(2) unfolding steady_def by blast
  have "cl_printed e2 = cl_printed e @ M @ N" "net (cl_world e2) = net (cl_world e) @ map (\<lambda>d. (cl_fd e, ser_addr e, d)) (ds @ es)"
    using 1 2 assms(1) by (simp_all add: steady_def)
  then show ?thesis using assms unfolding steady_def by metis
qed

lemma steady_world: "net w = net (cl_world e) \<Longrightarrow> steady net e (e\<lparr>cl_world := w\<rparr>)"
  by (simp add: steady_def exI [of _ "[]"])

lemma steady_printed: "steady net e (e\<lparr>cl_printed := cl_printed e @ [b]\<rparr>)"
  by (simp add: steady_def exI [of _ "[]"])

lemma pending_loop_net:
  fixes k :: "('w, 'z) usrsctp_scheme" and net :: "'w \<Rightarrow> datagram list"
  assumes s: "\<And>fd d a w. net (sys_sendto k fd d a w) = net w @ [(fd, a, d)]"
    and b: "\<And>h n w r b w1. BIO_read_out k h n w = (r, b, w1) \<Longrightarrow> net w1 = net w"
    and run: "pending_loop k h fd a w = Some w'"
  shows "\<exists>ds. net w' = net w @ map (\<lambda>d. (fd, a, d)) ds"
proof -
  let ?P = "\<lambda>k' h fd a w w'. k' = k \<longrightarrow> (\<exists>ds. net w' = net w @ map (\<lambda>d. (fd, a, d)) ds)"
  have "?P k h fd a w w'"
  proof (rule pending_loop.raw_induct [where P = ?P, rotated, OF run])
    fix f :: "('w, 'z) usrsctp_scheme \<Rightarrow> nat \<Rightarrow> int \<Rightarrow> sockaddr_in \<Rightarrow> 'w \<Rightarrow> 'w option"
    fix k' h fd a w w'
    assume IH: "\<And>k h fd a w w'. f k h fd a w = Some w' \<Longrightarrow> ?P k h fd a w w'"
    assume body: "(if BIO_pending_out k' h w > 0
      then let (bytes, buffer, w1) = BIO_read_out k' h 4096 w in
        f k' h fd a (if bytes > 0 then sys_sendto k' fd (take (nat bytes) buffer) a w1 else w1)
      else Some w) = Some w'"
    show "?P k' h fd a w w'"
    proof
      assume k': "k' = k"
      obtain n buf w1 where r: "BIO_read_out k h 4096 w = (n, buf, w1)" using prod_cases3 by blast
      note net1 = b [OF r]
      show "\<exists>ds. net w' = net w @ map (\<lambda>d. (fd, a, d)) ds"
      proof (cases "BIO_pending_out k h w > 0")
        case True
        let ?w2 = "if n > 0 then sys_sendto k fd (take (nat n) buf) a w1 else w1"
        have "f k h fd a ?w2 = Some w'" using body r True unfolding k' by (simp cong: if_cong)
        then obtain ds where ds: "net w' = net ?w2 @ map (\<lambda>d. (fd, a, d)) ds" using IH by blast
        show ?thesis
        proof (cases "n > 0")
          case True
          then show ?thesis using ds net1 s by (intro exI [of _ "take (nat n) buf # ds"]) simp
        next
          case False
          then show ?thesis using ds net1 by auto
        qed
      next
        case False
        then show ?thesis using body k' by (intro exI [of _ "[]"]) simp
      qed
    qed
  qed
  then show ?thesis by simp
qed

lemma SendPendingDtls_steady:
  assumes k: "client_net_contract k net" and r: "SendPendingDtls k e = Some e'"
  shows "steady net e e'"
proof -
  obtain w where w: "pending_loop k (cl_handle e) (cl_fd e) (ser_addr e) (cl_world e) = Some w" "e' = e\<lparr>cl_world := w\<rparr>"
    using r by (auto simp: SendPendingDtls_def run_simps)
  from pending_loop_net [OF client_net(1,2) [OF k] w(1)]
  show ?thesis unfolding w(2) steady_def by auto
qed

lemma client_upcall_steady:
  assumes k: "client_net_contract k net" and r: "client_upcall k u e = Some (ups, e')"
  shows "steady net e e'"
proof (cases u)
  case (Outbound t d)
  show ?thesis
  proof (cases d)
    case None
    then show ?thesis using r Outbound by (auto simp: client_upcall_def conn_output_def run_simps)
  next
    case (Some b)
    then have "SendPendingDtls k (e\<lparr>cl_world := SSL_write k (cl_handle e) b (cl_world e)\<rparr>) = Some e'"
      using r Outbound by (auto simp: client_upcall_def conn_output_def run_simps)
    from steady_trans [OF steady_world SendPendingDtls_steady [OF k this]] show ?thesis
      using client_net(4) [OF k] by blast
  qed
next
  case (Inbound t d rcv)
  then have c: "receive_cb k d e = (ups, e')" using r by (simp add: client_upcall_def)
  show ?thesis
  proof (cases d)
    case None
    then show ?thesis using c client_net(9,10) [OF k] by (auto simp: receive_cb_def split: prod.splits intro!: steady_world)
  next
    case (Some b)
    then show ?thesis using c by (auto simp: receive_cb_def steady_printed)
  qed
qed

text \<open>What every upcall does in one step, and composes, the list of upcalls does.\<close>

lemma client_upcalls_rel:
  fixes k :: "('w, 'z) client_lib_scheme"
  assumes refl: "\<And>e. R e e" and trans: "\<And>e1 e2 e3. R e1 e2 \<Longrightarrow> R e2 e3 \<Longrightarrow> R e1 e3"
    and one: "\<And>u e ups e'. client_upcall k u e = Some (ups, e') \<Longrightarrow> R e e'"
    and r: "client_upcalls k us e = Some e'"
  shows "R e e'"
proof -
  let ?P = "\<lambda>k' us e e'. k' = k \<longrightarrow> R e e'"
  have "?P k us e e'"
  proof (rule client_upcalls.raw_induct [where P = ?P, rotated, OF r])
    fix f :: "('w, 'z) client_lib_scheme \<Rightarrow> upcall list \<Rightarrow> 'w echo_client \<Rightarrow> 'w echo_client option"
    fix k' us e e'
    assume IH: "\<And>k us e e'. f k us e = Some e' \<Longrightarrow> ?P k us e e'"
    assume body: "(if us = [] then Some e
      else do { (ups, e1) \<leftarrow> client_upcall k' (hd us) e; f k' (ups @ tl us) e1 }) = Some e'"
    show "?P k' us e e'"
    proof
      assume k': "k' = k"
      show "R e e'"
      proof (cases "us = []")
        case True
        then show ?thesis using body refl by simp
      next
        case False
        then obtain ups e1 where "client_upcall k (hd us) e = Some (ups, e1)" "f k (ups @ tl us) e1 = Some e'"
          using body k' by (auto simp: run_simps)
        then show ?thesis using one IH trans by blast
      qed
    qed
  qed
  then show ?thesis by simp
qed

lemma client_upcalls_steady:
  "client_net_contract k net \<Longrightarrow> client_upcalls k us e = Some e' \<Longrightarrow> steady net e e'"
  by (rule client_upcalls_rel [where R = "steady net"]) (auto intro: client_upcall_steady steady_trans)

lemma client_read_loop_steady:
  fixes k :: "('w, 'z) client_lib_scheme"
  assumes k: "client_net_contract k net" and r: "client_read_loop k e = Some e'"
  shows "steady net e e'"
proof -
  let ?P = "\<lambda>k' e e'. k' = k \<longrightarrow> steady net e e'"
  have "?P k e e'"
  proof (rule client_read_loop.raw_induct [where P = ?P, rotated, OF r])
    fix f :: "('w, 'z) client_lib_scheme \<Rightarrow> 'w echo_client \<Rightarrow> 'w echo_client option"
    fix k' e e'
    assume IH: "\<And>k e e'. f k e = Some e' \<Longrightarrow> ?P k e e'"
    assume body: "(if BIO_pending_in k' (cl_handle e) (cl_world e) > 0
      then let (bytes, receiveBuffer, w1) = SSL_read k' (cl_handle e) 8092 (cl_world e);
               (ups, w2) = (if bytes > 0 then us_conninput k' 0 (take (nat bytes) receiveBuffer) w1 else ([], w1))
           in do { e1 \<leftarrow> client_upcalls k' ups (e\<lparr>cl_world := w2\<rparr>); f k' e1 }
      else Some e) = Some e'"
    show "?P k' e e'"
    proof
      assume k': "k' = k"
      obtain n buf w1 where rd: "SSL_read k (cl_handle e) 8092 (cl_world e) = (n, buf, w1)" using prod_cases3 by blast
      obtain ups w2 where ci: "(if n > 0 then us_conninput k 0 (take (nat n) buf) w1 else ([], w1)) = (ups, w2)" by fastforce
      have w2: "net w2 = net (cl_world e)"
        using ci client_net(5) [OF k rd] client_net(7) [OF k] by (auto split: if_splits)
      show "steady net e e'"
      proof (cases "BIO_pending_in k (cl_handle e) (cl_world e) > 0")
        case True
        then obtain e1 where "client_upcalls k ups (e\<lparr>cl_world := w2\<rparr>) = Some e1" "f k e1 = Some e'"
          using body k' rd ci by (auto simp: run_simps)
        then show ?thesis
          using steady_world [OF w2] client_upcalls_steady [OF k] IH steady_trans by blast
      qed (use body k' in simp)
    qed
  qed
  then show ?thesis by simp
qed

lemma main_step_steady:
  assumes k: "client_net_contract k net" and s: "main_step k pc e = Some (pc', e')"
  shows "steady net e e'"
proof (cases pc)
  case At_socket
  obtain sk w1 where v: "us_socket k 0 (cl_world e) = (sk, w1)" by fastforce
  have "e' = e\<lparr>cl_sock := sk, cl_world := w1\<rparr>" using s At_socket v by (simp add: main_socket_def)
  then show ?thesis using client_net(13) [OF k v] by (simp add: steady_def exI [of _ "[]"])
next
  case At_bind
  then show ?thesis using s client_net(14) [OF k] by (auto simp: main_bind_def split: prod.splits intro!: steady_world)
next
  case At_connect
  obtain r ups w1 where v: "us_connect k (cl_sock e) (htons 5001) (cl_world e) = (r, ups, w1)" using prod_cases3 by blast
  have "client_upcalls k ups (e\<lparr>cl_world := w1\<rparr>) = Some e'"
    using s At_connect v by (auto simp: main_connect_def run_simps)
  from client_upcalls_steady [OF k this] show ?thesis by (rule steady_trans [OF steady_world [OF client_net(15) [OF k v]]])
next
  case At_loop
  obtain r ups w1 where v: "us_sendv k (cl_sock e) (ascii ''hello world'') main_sndinfo (cl_world e) = (r, ups, w1)"
    using prod_cases3 by blast
  obtain e1 where e1: "client_upcalls k ups (e\<lparr>cl_world := w1\<rparr>) = Some e1" "e' = e1\<lparr>cl_world := sys_sleep k 1 (cl_world e1)\<rparr>"
    using s At_loop v by (auto simp: send_turn_def run_simps)
  note steady_world [OF client_net(8) [OF k v]]
  also note client_upcalls_steady [OF k e1(1)]
  finally (steady_trans) have "steady net e e1" .
  moreover have "steady net e1 e'" unfolding e1(2) by (rule steady_world) (rule client_net(11) [OF k])
  ultimately show ?thesis by (rule steady_trans)
qed

lemma handle_packets_steady:
  assumes k: "client_net_contract k net" and s: "handle_packets k e = Some e'"
  shows "steady net e e'"
proof -
  obtain n buf a w1 where rf: "sys_recvfrom k (cl_fd e) BUFF_LEN (cl_world e) = (n, buf, a, w1)" using prod_cases4 by blast
  have w: "net w1 = net (cl_world e)" "net (BIO_write k h d w1) = net (cl_world e)" for h d
    using client_net(6) [OF k rf] client_net(3) [OF k] by auto
  show ?thesis
  proof (cases "n > 0")
    case True
    then have "client_read_loop k (e\<lparr>cl_world := BIO_write k (cl_handle e) (take (nat n) buf) w1\<rparr>) = Some e'"
      using s rf by (simp add: handle_packets_def)
    from client_read_loop_steady [OF k this] show ?thesis by (rule steady_trans [OF steady_world [OF w(2)]])
  next
    case False
    then show ?thesis using s rf steady_world [OF w(1)] by (auto simp: handle_packets_def)
  qed
qed

lemma client_step_steady:
  assumes "client_net_contract k net" and "client_step k c c'"
  shows "steady net (snd c) (snd c')"
  using assms(2)
  by (cases rule: client_step.cases)
    (simp_all add: main_step_steady [OF assms(1)] handle_packets_steady [OF assms(1)] client_upcalls_steady [OF assms(1)])

lemma client_runs_steady:
  assumes "client_net_contract k net" and "client_runs k e c"
  shows "steady net e (snd c)"
  using assms(2)
proof (induction rule: client_runs.induct)
  case (turn c1 c2)
  then show ?case using client_step_steady [OF assms(1)] steady_trans by blast
qed simp

section \<open>The handshake\<close>

text \<open>While it lasts the peer may change; what is sent goes out of the same socket.\<close>

definition own_socket :: "('w \<Rightarrow> datagram list) \<Rightarrow> 'w echo_client \<Rightarrow> 'w echo_client \<Rightarrow> bool" where
  "own_socket net e e' \<longleftrightarrow> cl_fd e' = cl_fd e \<and> cl_ssl e' = cl_ssl e \<and> cl_printed e' = cl_printed e
     \<and> (\<exists>ds. net (cl_world e') = net (cl_world e) @ map (\<lambda>(a, d). (cl_fd e, a, d)) ds)"

lemma own_socket_trans:
  assumes "own_socket net e e1" and "own_socket net e1 e2"
  shows "own_socket net e e2"
proof -
  obtain ds es where "net (cl_world e1) = net (cl_world e) @ map (\<lambda>(a, d). (cl_fd e, a, d)) ds"
      "net (cl_world e2) = net (cl_world e1) @ map (\<lambda>(a, d). (cl_fd e1, a, d)) es"
    using assms unfolding own_socket_def by blast
  then have "net (cl_world e2) = net (cl_world e) @ map (\<lambda>(a, d). (cl_fd e, a, d)) (ds @ es)"
    using assms by (simp add: own_socket_def)
  then show ?thesis using assms unfolding own_socket_def by metis
qed

lemma own_socket_quiet: "net w = net (cl_world e) \<Longrightarrow> own_socket net e (e\<lparr>ser_addr := p, cl_world := w\<rparr>)"
  by (simp add: own_socket_def exI [of _ "[]"])

lemma own_socket_flush:
  assumes "client_net_contract k net" and "SendPendingDtls k e = Some e'"
  shows "own_socket net e e'"
proof -
  obtain w where w: "e' = e\<lparr>cl_world := w\<rparr>" using assms(2) by (auto simp: SendPendingDtls_def run_simps)
  obtain ds where ds: "net (cl_world e') = net (cl_world e) @ map (\<lambda>d. (cl_fd e, ser_addr e, d)) ds"
    using SendPendingDtls_steady [OF assms] unfolding steady_def by blast
  have "net (cl_world e') = net (cl_world e) @ map (\<lambda>(a, d). (cl_fd e, a, d)) (map (Pair (ser_addr e)) ds)"
    unfolding ds by simp
  moreover have "cl_fd e' = cl_fd e" "cl_ssl e' = cl_ssl e" "cl_printed e' = cl_printed e" unfolding w by simp_all
  ultimately show ?thesis unfolding own_socket_def by blast
qed

lemma doHandShake_finished:
  fixes k :: "('w, 'z) client_lib_scheme"
  assumes n: "client_net_contract k net" and r: "doHandShake k e = Some (ok, e')"
  shows "own_socket net e e' \<and> (ok \<longrightarrow> SSL_is_init_finished k (cl_handle e') (cl_world e'))"
proof -
  let ?P = "\<lambda>k' e r. k' = k \<longrightarrow> own_socket net e (snd r)
    \<and> (fst r \<longrightarrow> SSL_is_init_finished k (cl_handle (snd r)) (cl_world (snd r)))"
  have "?P k e (ok, e')"
  proof (rule doHandShake.raw_induct [where P = ?P, rotated, OF r])
    fix f :: "('w, 'z) client_lib_scheme \<Rightarrow> 'w echo_client \<Rightarrow> (bool \<times> 'w echo_client) option"
    fix k' :: "('w, 'z) client_lib_scheme" and e r
    assume IH: "\<And>k e r. f k e = Some r \<Longrightarrow> ?P k e r"
    assume body: "(let (len, buf, peer, w1) = recvfrom_peer k' (cl_fd e) BUFF_LEN (ser_addr e) (cl_world e);
          w2 = (if len > 0 then BIO_write k' (cl_handle e) (take (nat len) buf) w1 else w1);
          e1 = e\<lparr>ser_addr := peer, cl_world := w2\<rparr>
      in if \<not> SSL_is_init_finished k' (cl_handle e) w2
         then let (r, w3) = SSL_do_handshake k' (cl_handle e) w2;
                  e2 = e1\<lparr>cl_world := w3\<rparr>
              in if r \<le> 0
                 then let r' = SSL_get_error k' (cl_handle e) r w3
                      in if r' = SSL_ERROR_WANT_READ
                         then do { e3 \<leftarrow> SendPendingDtls k' e2; f k' e3 }
                         else if r' \<noteq> SSL_ERROR_NONE then Some (False, e2)
                         else f k' e2
                 else f k' e2
         else Some (True, e1)) = Some r"
    show "?P k' e r"
    proof
      assume k': "k' = k"
      note body = body [unfolded k']
      obtain len buf peer w1 where p: "recvfrom_peer k (cl_fd e) BUFF_LEN (ser_addr e) (cl_world e) = (len, buf, peer, w1)"
        using prod_cases4 by blast
      define w2 where "w2 = (if len > 0 then BIO_write k (cl_handle e) (take (nat len) buf) w1 else w1)"
      obtain q w3 where h: "SSL_do_handshake k (cl_handle e) w2 = (q, w3)" by fastforce
      let ?e1 = "e\<lparr>ser_addr := peer, cl_world := w2\<rparr>" and ?e2 = "e\<lparr>ser_addr := peer, cl_world := w3\<rparr>"
      have "net w2 = net (cl_world e)" using client_net(16) [OF n p] client_net(3) [OF n] by (simp add: w2_def)
      then have own: "own_socket net e ?e1" "own_socket net e ?e2"
        using client_net(17) [OF n h] by (simp_all add: own_socket_quiet)
      have e2: "?e1\<lparr>cl_world := w3\<rparr> = ?e2" by simp
      have b: "(if \<not> SSL_is_init_finished k (cl_handle e) w2
           then if q \<le> 0
                then if SSL_get_error k (cl_handle e) q w3 = SSL_ERROR_WANT_READ then do { e3 \<leftarrow> SendPendingDtls k ?e2; f k e3 }
                     else if SSL_get_error k (cl_handle e) q w3 \<noteq> SSL_ERROR_NONE then Some (False, ?e2) else f k ?e2
                else f k ?e2
           else Some (True, ?e1)) = Some r"
        using body unfolding p prod.case Let_def w2_def [symmetric] h e2 .
      consider "SSL_is_init_finished k (cl_handle e) w2" "r = (True, ?e1)" | "r = (False, ?e2)" | "f k ?e2 = Some r"
        | e3 where "SendPendingDtls k ?e2 = Some e3" "f k e3 = Some r"
      proof (cases "SSL_is_init_finished k (cl_handle e) w2 \<or> q > 0")
        case True
        then show thesis using b that(1,3) by (cases "SSL_is_init_finished k (cl_handle e) w2") simp_all
      next
        case False
        then have "(if SSL_get_error k (cl_handle e) q w3 = SSL_ERROR_WANT_READ then do { e3 \<leftarrow> SendPendingDtls k ?e2; f k e3 }
            else if SSL_get_error k (cl_handle e) q w3 \<noteq> SSL_ERROR_NONE then Some (False, ?e2) else f k ?e2) = Some r"
          using b by simp
        then show thesis using that(2-4) unfolding bind_eq_Some_conv by (cases "SSL_get_error k (cl_handle e) q w3 = 2"; cases "SSL_get_error k (cl_handle e) q w3 = 0") (auto simp: bind_eq_Some_conv)
      qed
      then show "own_socket net e (snd r) \<and> (fst r \<longrightarrow> SSL_is_init_finished k (cl_handle (snd r)) (cl_world (snd r)))"
      proof cases
        case 3
        then show ?thesis using IH [OF 3] own_socket_trans [OF own(2)] by auto
      next
        case 4
        then show ?thesis using IH [OF 4(2)] own_socket_trans [OF own(2)] own_socket_trans [OF own_socket_flush [OF n 4(1)]] by auto
      qed (use own in simp_all)
    qed
  qed
  then show ?thesis by simp
qed

section \<open>What is submitted\<close>

lemma client_upcall_log:
  assumes k: "sendv_contract k log" and d: "\<And>i w. log (us_deregister_client k i w) = log w"
    and r: "client_upcall k u e = Some (ups, e')"
  shows "cl_sock e' = cl_sock e \<and> log (cl_world e') = log (cl_world e)"
proof (cases u)
  case (Outbound t b)
  then show ?thesis using r pending_loop_log [OF k] sendv_contract_SSL_write [OF k]
    by (auto simp: client_upcall_def conn_output_def SendPendingDtls_def run_simps split: option.splits)
next
  case (Inbound t b rcv)
  then show ?thesis using r d sendv_contract_close [OF k]
    by (auto simp: client_upcall_def receive_cb_def split: option.splits prod.splits)
qed

text \<open>Each turn of \<open>main\<close> submits as much of its message as usrsctp accepts, once.\<close>

lemma send_turn_submits:
  assumes k: "sendv_contract k log" and d: "\<And>i w. log (us_deregister_client k i w) = log w" and sl: "\<And>n w. log (sys_sleep k n w) = log w"
    and r: "send_turn k e = Some e'"
  shows "cl_sock e' = cl_sock e \<and> log (cl_world e') = log (cl_world e) @
    (if fst (us_sendv k (cl_sock e) (ascii ''hello world'') main_sndinfo (cl_world e)) < 0 then []
     else [(cl_sock e, take (nat (fst (us_sendv k (cl_sock e) (ascii ''hello world'') main_sndinfo (cl_world e))))
       (ascii ''hello world''), main_sndinfo)])"
proof -
  obtain q ups w1 where v: "us_sendv k (cl_sock e) (ascii ''hello world'') main_sndinfo (cl_world e) = (q, ups, w1)"
    using prod_cases3 by blast
  obtain e1 where e1: "client_upcalls k ups (e\<lparr>cl_world := w1\<rparr>) = Some e1" "e' = e1\<lparr>cl_world := sys_sleep k 1 (cl_world e1)\<rparr>"
    using r v by (auto simp: send_turn_def run_simps)
  have "cl_sock e1 = cl_sock (e\<lparr>cl_world := w1\<rparr>) \<and> log (cl_world e1) = log (cl_world (e\<lparr>cl_world := w1\<rparr>))"
    by (rule client_upcalls_rel [where R = "\<lambda>e e'. cl_sock e' = cl_sock e \<and> log (cl_world e') = log (cl_world e)", OF _ _ _ e1(1)])
      (auto dest: client_upcall_log [OF k d])
  then show ?thesis using e1(2) sl sendv_contract_sendv [OF k v] v by simp
qed

section \<open>The property\<close>

lemma main_open_handshake:
  assumes "main_open k argv e0 = Some (Inr e1)"
  shows "\<exists>ok e3 eh. socketCreateSet k (argv ! 1) (argv ! 2) (argv ! 3) (argv ! 4) (snd (dtlsTransInit k (snd (opensslLabInit k e0))))
      = Some (ok, e3) \<and> doHandShake k e3 = Some (True, eh)
    \<and> e1 = eh\<lparr>cl_world := us_register k 0 (us_ecn_disable k (us_init k (cl_world eh)))\<rparr>"
  using assms by (auto simp: main_open_def run_simps split: if_splits prod.splits)

text \<open>
  C35: when the handshake of the echo client has ended in the state \<open>eh\<close>, its DTLS session is set up, and from then on
  every datagram it sends goes from its own socket to the one peer the handshake left: while \<open>main\<close> opens, binds
  and connects its SCTP socket and sends its messages, however the turns of the receiving thread and the calls of
  usrsctp's own threads come between, and whatever usrsctp calls back. Socket, handle and peer do not change any more,
  and what was printed is kept. During the handshake it already sends from this socket only.
\<close>

theorem client_talks_to_its_peer:
  assumes "client_net_contract k net" and "main_open k argv e0 = Some (Inr e1)" and "client_runs k e1 (pc, e)"
  shows "\<exists>ok e3 eh. socketCreateSet k (argv ! 1) (argv ! 2) (argv ! 3) (argv ! 4) (snd (dtlsTransInit k (snd (opensslLabInit k e0))))
      = Some (ok, e3) \<and> doHandShake k e3 = Some (True, eh) \<and> SSL_is_init_finished k (cl_handle eh) (cl_world eh)
    \<and> cl_fd eh = cl_fd e3 \<and> (\<exists>ds. net (cl_world eh) = net (cl_world e3) @ map (\<lambda>(a, d). (cl_fd e3, a, d)) ds)
    \<and> cl_fd e = cl_fd eh \<and> cl_ssl e = cl_ssl eh \<and> ser_addr e = ser_addr eh \<and> (\<exists>M. cl_printed e = cl_printed eh @ M)
    \<and> (\<exists>ds. net (cl_world e) = net (cl_world eh) @ map (\<lambda>d. (cl_fd eh, ser_addr eh, d)) ds)"
proof -
  obtain ok e3 eh where o: "socketCreateSet k (argv ! 1) (argv ! 2) (argv ! 3) (argv ! 4)
        (snd (dtlsTransInit k (snd (opensslLabInit k e0)))) = Some (ok, e3)" "doHandShake k e3 = Some (True, eh)"
      "e1 = eh\<lparr>cl_world := us_register k 0 (us_ecn_disable k (us_init k (cl_world eh)))\<rparr>"
    using main_open_handshake [OF assms(2)] by blast
  have "steady net eh e1" unfolding o(3) by (rule steady_world) (rule client_net(12) [OF assms(1)])
  also have "steady net e1 e" using client_runs_steady [OF assms(1,3)] by simp
  finally (steady_trans) have "steady net eh e" .
  then show ?thesis using o(1,2) doHandShake_finished [OF assms(1) o(2)] unfolding steady_def own_socket_def by auto
qed

text \<open>
  The host of \<^verbatim>\<open>Example_Host\<close> with a usrsctp that asks to send one packet when it connects, and each message
  as one packet.
\<close>

definition client_demo :: "host client_lib" where
  "client_demo = usrsctp.extend
     (demo\<lparr>us_sendv := \<lambda>s d i w. (int (length d), [Outbound 0 (Some d)], w\<lparr>h_log := h_log w @ [(s, d, i)]\<rparr>)\<rparr>)
     \<lparr>client_ssl = \<lambda>c w. (1, w), recvfrom_peer = \<lambda>fd n a w. (-1, [], a, w),
      us_bind_any = \<lambda>s p w. (0, w), us_connect = \<lambda>s p w. (0, [Outbound 0 (Some (ascii ''INIT''))], w), sys_sleep = \<lambda>n w. w\<rparr>"

definition client_peer :: sockaddr_in where
  "client_peer = \<lparr>sin_family = AF_INET, sin_port = htons 9, sin_addr = 0x0100007F\<rparr>"

text \<open>Before \<open>main\<close>, and when its second thread starts.\<close>

definition client_statics :: "host echo_client" where
  "client_statics = \<lparr>cl_ctx = 0, cl_ssl = 0, cl_inBio = 0, cl_outBio = 0, cl_fd = -1,
     ser_addr = \<lparr>sin_family = 0, sin_port = 0, sin_addr = 0\<rparr>, cl_sock = None, cl_printed = [], cl_world = host0\<rparr>"

definition echo_client0 :: "host echo_client" where
  "echo_client0 = \<lparr>cl_ctx = 1, cl_ssl = 1, cl_inBio = 1, cl_outBio = 1, cl_fd = 3, ser_addr = client_peer,
     cl_sock = None, cl_printed = [], cl_world = host0\<lparr>h_flags := (h_flags host0)(3 := h_flags host0 3 OR O_NONBLOCK)\<rparr>\<rparr>"

definition client_argv :: "bytes list" where
  "client_argv = [ascii ''EchoClient'' @ [0], ascii ''127.0.0.1'' @ [0], ascii ''8'' @ [0], ascii ''127.0.0.1'' @ [0],
     ascii ''9'' @ [0]]"

lemma client_demo_net: "client_net_contract client_demo h_net"
  by (simp add: client_net_contract_def client_demo_def usrsctp.defs demo_def)

lemma client_demo_bio: "bio_contract client_demo h_out h_net"
  by (simp add: bio_contract_def client_demo_def usrsctp.defs demo_def)

lemma client_demo_socket:
  "socketCreateSet client_demo (client_argv ! 1) (client_argv ! 2) (client_argv ! 3) (client_argv ! 4)
     (snd (dtlsTransInit client_demo (snd (opensslLabInit client_demo client_statics)))) = Some (True, echo_client0)"
proof -
  have "atoi (client_argv ! 2) 0 = Some 8" "atoi (client_argv ! 4) 0 = Some 9" by code_simp+
  then show ?thesis
    by (simp add: socketCreateSet_def dtlsTransInit_def opensslLabInit_def client_call_def client_demo_def usrsctp.defs demo_def
        client_statics_def echo_client0_def client_peer_def SetNonBlocking_def host0_def)
qed

lemma client_demo_handshake: "doHandShake client_demo echo_client0 = Some (True, echo_client0)"
  by (subst doHandShake.simps) (simp add: client_demo_def usrsctp.defs demo_def echo_client0_def)

lemma client_demo_open: "main_open client_demo client_argv client_statics = Some (Inr echo_client0)"
proof -
  have "length client_argv = 5" by (simp add: client_argv_def)
  then show ?thesis using client_demo_socket client_demo_handshake
    by (simp add: main_open_def split_beta client_demo_def usrsctp.defs demo_def echo_client0_def)
qed

text \<open>\<open>main\<close> comes to its loop.\<close>

lemma client_demo_runs: "\<exists>e. client_runs client_demo echo_client0 (At_loop, e)"
proof -
  let ?d = "ascii ''INIT''" and ?e = "echo_client0\<lparr>cl_sock := Some 7\<rparr>"
  obtain w where w: "pending_loop client_demo 1 3 client_peer (SSL_write client_demo 1 ?d (cl_world ?e)) = Some w"
    using pending_loop_flush [OF client_demo_bio] by blast
  have "client_upcall client_demo (Outbound 0 (Some ?d)) ?e = Some ([], ?e\<lparr>cl_world := w\<rparr>)"
    using w by (simp add: client_upcall_def conn_output_def SendPendingDtls_def echo_client0_def)
  then have "client_upcalls client_demo [Outbound 0 (Some ?d)] ?e = Some (?e\<lparr>cl_world := w\<rparr>)"
    by (simp add: client_upcalls.simps [of _ "[Outbound 0 (Some ?d)]"] client_upcalls.simps [of _ "[]"])
  then have "main_step client_demo At_connect ?e = Some (At_loop, ?e\<lparr>cl_world := w\<rparr>)"
    by (simp add: main_connect_def client_demo_def usrsctp.defs demo_def)
  moreover have "main_step client_demo At_socket echo_client0 = Some (At_bind, ?e)" "main_step client_demo At_bind ?e = Some (At_connect, ?e)"
    by (simp_all add: main_socket_def main_bind_def client_demo_def usrsctp.defs demo_def)
  ultimately show ?thesis by (meson client_runs.intros client_step.main)
qed

theorem client_talks_to_its_peer_witness:
  "\<exists>e. client_runs client_demo echo_client0 (At_loop, e) \<and> cl_fd e = 3 \<and> ser_addr e = client_peer
    \<and> (\<exists>ds. h_net (cl_world e) = map (\<lambda>d. (3, client_peer, d)) ds)"
proof -
  obtain e where e: "client_runs client_demo echo_client0 (At_loop, e)" using client_demo_runs by blast
  from client_talks_to_its_peer [OF client_demo_net client_demo_open e] show ?thesis
    using e unfolding client_demo_socket by (auto simp: client_demo_handshake) (auto simp: echo_client0_def host0_def)
qed

end
